(* ===== verification/GoBase.thy ===== *)
theory GoBase
  imports Main "HOL-Library.Word" "HOL-Library.Char_ord" "HOL-Library.List_Lexorder" "HOL-Library.Multiset"
begin

section \<open>Prelude: Go values and the generic lemmas the components share\<close>

text \<open>
  Names for the Go types the components use, the collections their proofs draw on, and lemmas on
  lists, maps and fixed-width integers that belong to no component.
  \<^item> \<open>uint64\<close> is \<open>64 word\<close> (addition wraps as in Go); \<open>int64\<close> and \<open>int\<close> are \<open>int\<close> values kept in
    range by \<open>wrap64\<close> wherever the code adds or subtracts.
  \<^item> a Go \<open>string\<close> is its byte sequence, so \<open>string\<close>; Go compares strings bytewise, which is the
    lexicographic order of \<open>List_Lexorder\<close> over \<open>Char_ord\<close>.
  \<^item> a Go map is a partial function; wherever the code ranges over a map, the (unspecified) iteration
    order is an explicit list argument.
  \<^item> \<open>time.Time\<close> is a natural number whose \<open>0\<close> is the zero time, so \<open>t.After(u)\<close> is \<open>u < t\<close>.
\<close>

type_synonym uint64 = "64 word"
type_synonym gotime = nat
type_synonym json = string

named_theorems step_simps \<open>unfolding rules of a component's operations\<close>
named_theorems inv_intros \<open>preservation of a component's invariant by its operations\<close>

definition wrap64 :: "int \<Rightarrow> int" where
  "wrap64 x = (x + 2 ^ 63) mod 2 ^ 64 - 2 ^ 63"

definition max_int64 :: int where
  "max_int64 = 2 ^ 63 - 1"

lemma wrap64_id: "- (2 ^ 63) \<le> x \<Longrightarrow> x \<le> max_int64 \<Longrightarrow> wrap64 x = x"
  by (simp add: wrap64_def max_int64_def)

lemma wrap64_range: "- (2 ^ 63) \<le> wrap64 x \<and> wrap64 x \<le> max_int64"
  by (simp add: wrap64_def max_int64_def)

subsection \<open>Slices used as sets\<close>

text \<open>\<open>append_unique\<close>: the helper \<open>appendUnique\<close> shape, append unless already present.\<close>

definition append_unique :: "'a list \<Rightarrow> 'a \<Rightarrow> 'a list" where
  "append_unique xs x = (if x \<in> set xs then xs else xs @ [x])"

lemma set_append_unique [simp]: "set (append_unique xs x) = insert x (set xs)"
  by (auto simp: append_unique_def)

lemma distinct_append_unique [simp]: "distinct (append_unique xs x) = distinct xs"
  by (auto simp: append_unique_def)

lemma set_fold_append_unique [simp]:
  "set (fold (\<lambda>x acc. append_unique acc x) ys xs) = set xs \<union> set ys"
  by (induction ys arbitrary: xs) auto

lemma distinct_fold_append_unique [simp]:
  "distinct (fold (\<lambda>x acc. append_unique acc x) ys xs) = distinct xs"
  by (induction ys arbitrary: xs) auto

subsection \<open>Sequencing of fallible steps\<close>

text \<open>
  A Go function that returns \<open>(T, error)\<close> is a sum with the error on the left; \<open>bind_res\<close> is the
  \<open>if err != nil { return err }\<close> between two steps, and \<open>fold_res\<close> a loop whose body may return.
\<close>

definition bind_res :: "'e + 'a \<Rightarrow> ('a \<Rightarrow> 'e + 'b) \<Rightarrow> 'e + 'b" where
  "bind_res r f = (case r of Inl e \<Rightarrow> Inl e | Inr a \<Rightarrow> f a)"

lemma bind_res_simps [simp]: "bind_res (Inl e) f = Inl e" "bind_res (Inr a) f = f a"
  by (simp_all add: bind_res_def)

lemma bind_res_Inr: "bind_res r f = Inr b \<longleftrightarrow> (\<exists>a. r = Inr a \<and> f a = Inr b)"
  by (cases r) auto

lemma bind_res_Inl: "bind_res r f = Inl e \<longleftrightarrow> r = Inl e \<or> (\<exists>a. r = Inr a \<and> f a = Inl e)"
  by (cases r) auto

fun fold_res :: "('x \<Rightarrow> 'a \<Rightarrow> 'e + 'a) \<Rightarrow> 'x list \<Rightarrow> 'a \<Rightarrow> 'e + 'a" where
  "fold_res f [] a = Inr a"
| "fold_res f (x # xs) a = bind_res (f x a) (fold_res f xs)"

lemma fold_res_append: "fold_res f (xs @ ys) a = bind_res (fold_res f xs a) (fold_res f ys)"
  by (induction xs arbitrary: a) (auto simp: bind_res_def split: sum.splits)

text \<open>An invariant of the body is an invariant of the loop.\<close>

lemma fold_res_invariant:
  assumes "fold_res f xs a = Inr b" and "P a"
    and "\<And>x c d. x \<in> set xs \<Longrightarrow> P c \<Longrightarrow> f x c = Inr d \<Longrightarrow> P d"
  shows "P b"
  using assms
proof (induction xs arbitrary: a)
  case Nil
  then show ?case by simp
next
  case (Cons x xs)
  from Cons.prems(1) obtain c where c: "f x a = Inr c" "fold_res f xs c = Inr b"
    by (auto simp: bind_res_Inr)
  have "P c" using Cons.prems(2,3) c(1) by auto
  show ?case
  proof (rule Cons.IH[OF c(2) \<open>P c\<close>])
    fix y u v
    assume "y \<in> set xs" "P u" "f y u = Inr v"
    then show "P v" using Cons.prems(3) by auto
  qed
qed

text \<open>A reflexive and transitive relation between states that the body keeps, the loop keeps.\<close>

lemma fold_res_rel:
  assumes "fold_res f xs a = Inr b"
    and refl: "\<And>c. R c c" and trans: "\<And>c d e. R c d \<Longrightarrow> R d e \<Longrightarrow> R c e"
    and step: "\<And>x c d. f x c = Inr d \<Longrightarrow> R c d"
  shows "R a b"
  using assms(1)
proof (induction xs arbitrary: a)
  case Nil
  then show ?case by (simp add: refl)
next
  case (Cons x xs)
  then obtain c where "f x a = Inr c" "fold_res f xs c = Inr b"
    by (auto simp: bind_res_Inr)
  then show ?case using Cons.IH step trans by blast
qed

text \<open>What the body establishes for its element and later steps keep holds for every element.\<close>

lemma fold_res_each:
  assumes "fold_res f xs a = Inr b" and "x \<in> set xs"
    and est: "\<And>x c d. f x c = Inr d \<Longrightarrow> Q x d"
    and keep: "\<And>x y c d. Q x c \<Longrightarrow> f y c = Inr d \<Longrightarrow> Q x d"
  shows "Q x b"
  using assms(1,2)
proof (induction xs arbitrary: a)
  case Nil
  then show ?case by simp
next
  case (Cons y ys)
  then obtain c where c: "f y a = Inr c" "fold_res f ys c = Inr b"
    by (auto simp: bind_res_Inr)
  show ?case
  proof (cases "x \<in> set ys")
    case True
    then show ?thesis using Cons.IH c(2) by blast
  next
    case False
    then have "Q x c" using Cons.prems(2) est c(1) by auto
    then show ?thesis by (rule fold_res_invariant[OF c(2), where P = "Q x"]) (rule keep)
  qed
qed

subsection \<open>Maps that only grow\<close>

text \<open>
  \<open>map_grows P m m'\<close>: every entry of \<open>m\<close> is still in \<open>m'\<close>, with a value related to the old one by
  \<open>P\<close>. It is a preorder when \<open>P\<close> is, and an update that respects \<open>P\<close> is a step of it.
\<close>

definition map_grows :: "('b \<Rightarrow> 'b \<Rightarrow> bool) \<Rightarrow> ('a \<rightharpoonup> 'b) \<Rightarrow> ('a \<rightharpoonup> 'b) \<Rightarrow> bool" where
  "map_grows P m m' \<longleftrightarrow> (\<forall>k x. m k = Some x \<longrightarrow> (\<exists>x'. m' k = Some x' \<and> P x x'))"

lemma map_growsD: "map_grows P m m' \<Longrightarrow> m k = Some x \<Longrightarrow> \<exists>x'. m' k = Some x' \<and> P x x'"
  unfolding map_grows_def by blast

lemma map_grows_refl: "(\<And>x. P x x) \<Longrightarrow> map_grows P m m"
  by (simp add: map_grows_def)

lemma map_grows_trans:
  assumes "map_grows P l m" "map_grows P m n" "\<And>x y z. P x y \<Longrightarrow> P y z \<Longrightarrow> P x z"
  shows "map_grows P l n"
  unfolding map_grows_def
proof (intro allI impI)
  fix k x
  assume "l k = Some x"
  then obtain y where y: "m k = Some y" "P x y" using map_growsD[OF assms(1)] by blast
  then obtain z where "n k = Some z" "P y z" using map_growsD[OF assms(2)] by blast
  then show "\<exists>z. n k = Some z \<and> P x z" using assms(3) y(2) by blast
qed

lemma map_grows_upd:
  "(\<And>x. P x x) \<Longrightarrow> (\<And>old. m k = Some old \<Longrightarrow> P old x) \<Longrightarrow> map_grows P m (m(k \<mapsto> x))"
  by (simp add: map_grows_def)

subsection \<open>Decimal printing\<close>

text \<open>\<open>strconv.Itoa\<close> (the \<open>%d\<close> of \<open>fmt.Sprintf\<close>).\<close>

fun show_nat :: "nat \<Rightarrow> string" where
  "show_nat n = (if n < 10 then [char_of (48 + n)] else show_nat (n div 10) @ [char_of (48 + n mod 10)])"

definition itoa :: "int \<Rightarrow> string" where
  "itoa i = (if i < 0 then CHR ''-'' # show_nat (nat (- i)) else show_nat (nat i))"

definition read_nat :: "string \<Rightarrow> nat" where
  "read_nat = foldl (\<lambda>a c. 10 * a + (of_char c - 48)) 0"

declare show_nat.simps [simp del]

lemma read_show_nat: "read_nat (show_nat n) = n"
proof (induction n rule: show_nat.induct)
  case (1 n)
  have small: "of_char (char_of (48 + m) :: char) = 48 + m" if "m < 10" for m :: nat
    using that by simp
  show ?case
  proof (cases "n < 10")
    case True
    then show ?thesis by (simp add: show_nat.simps[of n] read_nat_def)
  next
    case False
    then have "read_nat (show_nat n) = 10 * read_nat (show_nat (n div 10)) + n mod 10"
      by (simp add: show_nat.simps[of n] read_nat_def)
    then show ?thesis using 1 False by simp
  qed
qed

lemma show_nat_inj: "show_nat m = show_nat n \<longleftrightarrow> m = n"
  using read_show_nat by metis

subsection \<open>Prefixes, suffixes and substrings\<close>

definition has_prefix :: "string \<Rightarrow> string \<Rightarrow> bool" where
  "has_prefix value prefix \<longleftrightarrow> length prefix \<le> length value \<and> take (length prefix) value = prefix"

lemma has_prefix_append [simp]: "has_prefix (p @ s) p"
  by (simp add: has_prefix_def)

lemma has_prefix_iff: "has_prefix v p \<longleftrightarrow> (\<exists>s. v = p @ s)"
  by (metis append_take_drop_id has_prefix_append has_prefix_def)

fun str_contains :: "string \<Rightarrow> string \<Rightarrow> bool" where
  "str_contains [] sub \<longleftrightarrow> sub = []"
| "str_contains (c # cs) sub \<longleftrightarrow> has_prefix (c # cs) sub \<or> str_contains cs sub"

definition has_suffix :: "string \<Rightarrow> string \<Rightarrow> bool" where
  "has_suffix value suffix \<longleftrightarrow>
     length suffix \<le> length value \<and> drop (length value - length suffix) value = suffix"

lemma str_contains_iff: "str_contains s sub \<longleftrightarrow> (\<exists>a b. s = a @ sub @ b)"
proof (induction s)
  case Nil
  then show ?case by auto
next
  case (Cons c cs)
  have "(\<exists>a b. c # cs = a @ sub @ b) \<longleftrightarrow> (\<exists>b. c # cs = sub @ b) \<or> (\<exists>a b. cs = a @ sub @ b)"
    by (metis append_Cons append_Nil list.sel(3) neq_Nil_conv)
  then show ?case using Cons by (simp add: has_prefix_iff)
qed

lemma has_suffix_iff: "has_suffix v s \<longleftrightarrow> (\<exists>p. v = p @ s)"
  unfolding has_suffix_def
proof
  assume "length s \<le> length v \<and> drop (length v - length s) v = s"
  then have "v = take (length v - length s) v @ s" by (metis append_take_drop_id)
  then show "\<exists>p. v = p @ s" by blast
qed auto

text \<open>\<open>strings.TrimSpace\<close>, on ASCII.\<close>

definition is_space :: "char \<Rightarrow> bool" where
  "is_space c \<longleftrightarrow> c \<in> {CHR 0x09, CHR 0x0A, CHR 0x0B, CHR 0x0C, CHR 0x0D, CHR '' ''}"

definition trim_space :: "string \<Rightarrow> string" where
  "trim_space s = rev (dropWhile is_space (rev (dropWhile is_space s)))"

text \<open>\<open>strings.ToLower\<close> on ASCII, where it works byte by byte.\<close>

definition lower_char :: "char \<Rightarrow> char" where
  "lower_char c = (if 65 \<le> (of_char c :: nat) \<and> (of_char c :: nat) \<le> 90 then char_of ((of_char c :: nat) + 32) else c)"

definition to_lower :: "string \<Rightarrow> string" where
  "to_lower = List.map lower_char"

end
