(* ===== verification/PluginVersion.thy ===== *)
theory PluginVersion
  imports GoBase "HOL-Library.Sublist"
begin

section \<open>Plugin version constraints (plugin/dependency.go)\<close>

text \<open>
  The string side of the dependency resolver: \<open>parseDependencySpec\<close>, \<open>ParseVersionConstraint\<close>,
  \<open>CheckVersion\<close> and the three comparison routines. The standard-library functions the file uses
  are written out: \<open>strings.Split\<close>, \<open>strings.Cut\<close>, \<open>strings.TrimSpace\<close> (its ASCII white space) and
  \<open>fmt.Sscanf(s, "%d", &p)\<close>, which skips blanks, reads an optional sign and decimal digits, and
  leaves \<open>p\<close> at 0 when there is no digit, a newline intervenes or the number is out of range.
  The lemmas show that comparison is the order of the zero-padded number sequences, a total
  preorder, what each operator accepts, and that printing and parsing a constraint round-trip.
\<close>

subsection \<open>Standard-library string functions\<close>

fun split_on :: "char \<Rightarrow> string \<Rightarrow> string list" where
  "split_on c [] = [[]]"
| "split_on c (x # xs) =
     (if x = c then [] # split_on c xs
      else case split_on c xs of [] \<Rightarrow> [[x]] | w # ws \<Rightarrow> (x # w) # ws)"

lemma split_on_ne [simp]: "split_on c s \<noteq> []"
  by (cases s) (auto split: list.splits)

fun cut_at :: "char \<Rightarrow> string \<Rightarrow> (string \<times> string) option" where
  "cut_at c [] = None"
| "cut_at c (x # xs) =
     (if x = c then Some ([], xs) else map_option (\<lambda>(a, b). (x # a, b)) (cut_at c xs))"

definition trimmed :: "string \<Rightarrow> bool" where
  "trimmed s \<longleftrightarrow> s = [] \<or> \<not> is_space (hd s) \<and> \<not> is_space (last s)"

lemma trim_space_trimmed: "trimmed s \<Longrightarrow> trim_space s = s"
proof (cases s)
  case (Cons x xs)
  assume "trimmed s"
  then have "dropWhile is_space s = s" "dropWhile is_space (rev s) = rev s"
    using Cons by (simp_all add: trimmed_def dropWhile_eq_self_iff hd_rev del: rev.simps)
  then show ?thesis by (simp add: trim_space_def)
qed (simp add: trim_space_def)

definition digit :: "char \<Rightarrow> bool" where
  "digit c \<longleftrightarrow> CHR ''0'' \<le> c \<and> c \<le> CHR ''9''"

definition digit_val :: "char \<Rightarrow> int" where
  "digit_val c = int (of_char c) - 48"

fun skip_blanks :: "string \<Rightarrow> string option" where
  "skip_blanks [] = Some []"
| "skip_blanks (c # cs) =
     (if c = CHR 0x0A then None
      else if is_space c then skip_blanks cs else Some (c # cs))"

definition sscanf_d :: "string \<Rightarrow> int" where
  "sscanf_d s =
     (case skip_blanks s of None \<Rightarrow> 0 | Some t \<Rightarrow>
       (let neg = (t \<noteq> [] \<and> hd t = CHR ''-'');
            u = (if t \<noteq> [] \<and> (hd t = CHR ''-'' \<or> hd t = CHR ''+'') then tl t else t);
            v = foldl (\<lambda>a c. 10 * a + digit_val c) 0 (takeWhile digit u);
            n = (if neg then - v else v)
        in if takeWhile digit u \<noteq> [] \<and> - (2 ^ 63) \<le> n \<and> n \<le> max_int64 then n else 0))"

subsection \<open>Parsing\<close>

record version_constraint =
  vc_operator :: string
  vc_version :: string

datatype constraint_error = EmptyConstraint

definition operators :: "string list" where
  "operators = [''>='', ''<='', ''~>'', ''^'', ''>'', ''<'', ''='']"

definition parse_version_constraint :: "string \<Rightarrow> constraint_error + version_constraint" where
  "parse_version_constraint constraint =
     (let c = trim_space constraint in
      if c = [] then Inl EmptyConstraint
      else case find (\<lambda>op. prefix op c) operators of
        Some op \<Rightarrow> Inr \<lparr>vc_operator = op, vc_version = trim_space (drop (length op) c)\<rparr>
      | None \<Rightarrow> Inr \<lparr>vc_operator = ''='', vc_version = c\<rparr>)"

definition parse_dependency_spec :: "string \<Rightarrow> string \<times> string" where
  "parse_dependency_spec spec =
     (let s = trim_space spec in
      case cut_at CHR ''@'' s of
        Some (n, c) \<Rightarrow> (trim_space n, trim_space c)
      | None \<Rightarrow> (s, []))"

subsection \<open>Comparison\<close>

definition part_at :: "string list \<Rightarrow> nat \<Rightarrow> int" where
  "part_at parts i = (if i < length parts then sscanf_d (parts ! i) else 0)"

fun compare_parts :: "string list \<Rightarrow> string list \<Rightarrow> nat list \<Rightarrow> int" where
  "compare_parts parts1 parts2 [] = 0"
| "compare_parts parts1 parts2 (i # is) =
     (let p1 = part_at parts1 i; p2 = part_at parts2 i in
      if p2 < p1 then 1 else if p1 < p2 then - 1 else compare_parts parts1 parts2 is)"

definition compare_versions :: "string \<Rightarrow> string \<Rightarrow> int" where
  "compare_versions v1 v2 =
     (let parts1 = split_on CHR ''.'' v1; parts2 = split_on CHR ''.'' v2
      in compare_parts parts1 parts2 [0..<max (length parts1) (length parts2)])"

fun same_prefix_parts :: "string list \<Rightarrow> string list \<Rightarrow> bool" where
  "same_prefix_parts vs [] = True"
| "same_prefix_parts [] (c # cs) = False"
| "same_prefix_parts (v # vs) (c # cs) = (v = c \<and> same_prefix_parts vs cs)"

definition is_compatible_version :: "string \<Rightarrow> string \<Rightarrow> bool" where
  "is_compatible_version version constraint =
     same_prefix_parts (split_on CHR ''.'' version) (split_on CHR ''.'' constraint)"

definition is_semver_compatible :: "string \<Rightarrow> string \<Rightarrow> bool" where
  "is_semver_compatible version constraint =
     (if compare_versions version constraint < 0 then False
      else hd (split_on CHR ''.'' version) = hd (split_on CHR ''.'' constraint))"

definition check_version :: "version_constraint \<Rightarrow> string \<Rightarrow> bool" where
  "check_version c version =
     (if vc_operator c = ''='' then version = vc_version c
      else if vc_operator c = ''>'' then 0 < compare_versions version (vc_version c)
      else if vc_operator c = ''>='' then 0 \<le> compare_versions version (vc_version c)
      else if vc_operator c = ''<'' then compare_versions version (vc_version c) < 0
      else if vc_operator c = ''<='' then compare_versions version (vc_version c) \<le> 0
      else if vc_operator c = ''~>'' then is_compatible_version version (vc_version c)
      else if vc_operator c = ''^'' then is_semver_compatible version (vc_version c)
      else False)"

subsection \<open>The order behind the comparison\<close>

text \<open>A version denotes the sequence of its part numbers, padded with zeros.\<close>

definition version_seq :: "string \<Rightarrow> nat \<Rightarrow> int" where
  "version_seq v = part_at (split_on CHR ''.'' v)"

lemma compare_parts_range:
  "compare_parts ps qs is = 0 \<or> compare_parts ps qs is = 1 \<or> compare_parts ps qs is = - 1"
  by (induction "is") (auto simp: Let_def)

lemma compare_parts_upt_cases:
  "(compare_parts ps qs [k..<n] = 0 \<and> (\<forall>i \<in> {k..<n}. part_at ps i = part_at qs i)) \<or>
   (\<exists>m \<in> {k..<n}. (\<forall>i \<in> {k..<m}. part_at ps i = part_at qs i) \<and>
      (compare_parts ps qs [k..<n] = 1 \<and> part_at qs m < part_at ps m \<or>
       compare_parts ps qs [k..<n] = - 1 \<and> part_at ps m < part_at qs m))"
proof (induction "n - k" arbitrary: k)
  case 0
  then show ?case by simp
next
  case (Suc d)
  then have kn: "k < n" "d = n - Suc k" by auto
  show ?case
  proof (cases "part_at ps k = part_at qs k")
    case False
    then have "k \<in> {k..<n}" "\<forall>i \<in> {k..<k}. part_at ps i = part_at qs i" using kn by auto
    then show ?thesis using False kn
      by (intro disjI2 bexI[of _ k]) (auto simp: upt_conv_Cons Let_def)
  next
    case True
    have rec: "compare_parts ps qs [k..<n] = compare_parts ps qs [Suc k..<n]"
      using True kn by (simp add: upt_conv_Cons)
    have ext: "\<forall>i \<in> {k..<m}. part_at ps i = part_at qs i"
      if "\<forall>i \<in> {Suc k..<m}. part_at ps i = part_at qs i" for m
      using that True by (metis atLeastLessThan_iff le_antisym not_less_eq_eq)
    have sub: "m \<in> {Suc k..<n} \<Longrightarrow> m \<in> {k..<n}" for m by simp
    from Suc.hyps(1)[OF kn(2)] show ?thesis
    proof (elim disjE)
      assume "compare_parts ps qs [Suc k..<n] = 0 \<and> (\<forall>i \<in> {Suc k..<n}. part_at ps i = part_at qs i)"
      then show ?thesis unfolding rec using ext by blast
    next
      assume "\<exists>m \<in> {Suc k..<n}. (\<forall>i \<in> {Suc k..<m}. part_at ps i = part_at qs i) \<and>
        (compare_parts ps qs [Suc k..<n] = 1 \<and> part_at qs m < part_at ps m \<or>
         compare_parts ps qs [Suc k..<n] = - 1 \<and> part_at ps m < part_at qs m)"
      then obtain m where "m \<in> {Suc k..<n}" "\<forall>i \<in> {Suc k..<m}. part_at ps i = part_at qs i"
        "compare_parts ps qs [Suc k..<n] = 1 \<and> part_at qs m < part_at ps m \<or>
         compare_parts ps qs [Suc k..<n] = - 1 \<and> part_at ps m < part_at qs m" by (elim bexE conjE)
      then show ?thesis unfolding rec using ext sub by blast
    qed
  qed
qed

lemma part_at_beyond: "length ps \<le> i \<Longrightarrow> part_at ps i = 0"
  by (simp add: part_at_def)

lemma compare_versions_cases:
  "(compare_versions v w = 0 \<and> version_seq v = version_seq w) \<or>
   (\<exists>m. (\<forall>i < m. version_seq v i = version_seq w i) \<and>
      (compare_versions v w = 1 \<and> version_seq w m < version_seq v m \<or>
       compare_versions v w = - 1 \<and> version_seq v m < version_seq w m))"
proof -
  let ?ps = "split_on CHR ''.'' v" and ?qs = "split_on CHR ''.'' w"
  have beyond: "part_at ?ps i = part_at ?qs i" if "max (length ?ps) (length ?qs) \<le> i" for i
    using that by (simp add: part_at_beyond)
  have eq: "part_at ?ps = part_at ?qs"
    if "\<forall>i \<in> {0..<max (length ?ps) (length ?qs)}. part_at ?ps i = part_at ?qs i"
    using that beyond by (intro ext) (metis atLeastLessThan_iff le0 not_less)
  from compare_parts_upt_cases[of ?ps ?qs 0 "max (length ?ps) (length ?qs)"] show ?thesis
    unfolding version_seq_def compare_versions_def Let_def using eq by (meson atLeastLessThan_iff le0)
qed

definition seq_less :: "(nat \<Rightarrow> int) \<Rightarrow> (nat \<Rightarrow> int) \<Rightarrow> bool" where
  "seq_less f g \<longleftrightarrow> (\<exists>m. (\<forall>i < m. f i = g i) \<and> f m < g m)"

lemma seq_less_irrefl: "\<not> seq_less f f"
  by (auto simp: seq_less_def)

lemma seq_less_trans:
  assumes "seq_less f g" "seq_less g h"
  shows "seq_less f h"
proof -
  obtain m n where "\<forall>i < m. f i = g i" "f m < g m" "\<forall>i < n. g i = h i" "g n < h n"
    using assms by (auto simp: seq_less_def)
  then have "(\<forall>i < min m n. f i = h i) \<and> f (min m n) < h (min m n)"
    by (cases m n rule: linorder_cases) (auto simp: min_def)
  then show ?thesis unfolding seq_less_def by blast
qed

lemma seq_less_asym: "seq_less f g \<Longrightarrow> \<not> seq_less g f"
  using seq_less_irrefl seq_less_trans by blast

lemma compare_versions_eq:
  "compare_versions v w = (if version_seq v = version_seq w then 0
     else if seq_less (version_seq v) (version_seq w) then - 1 else 1)"
proof -
  consider "compare_versions v w = 0" "version_seq v = version_seq w"
    | "compare_versions v w = 1" "seq_less (version_seq w) (version_seq v)"
    | "compare_versions v w = - 1" "seq_less (version_seq v) (version_seq w)"
    using compare_versions_cases[of v w] unfolding seq_less_def by metis
  then show ?thesis
    by cases (use seq_less_asym seq_less_irrefl in auto)
qed

lemma seq_less_linear: "f = g \<or> seq_less f g \<or> seq_less g f"
proof (cases "f = g")
  case False
  then have ex: "\<exists>i. f i \<noteq> g i" by auto
  define m where "m = (LEAST i. f i \<noteq> g i)"
  have "f m \<noteq> g m" "\<forall>i < m. f i = g i"
    unfolding m_def using LeastI_ex[OF ex] by (auto dest: not_less_Least)
  then show ?thesis unfolding seq_less_def by (metis linorder_neqE)
qed simp

lemma compare_versions_less_iff:
  "compare_versions v w < 0 \<longleftrightarrow> seq_less (version_seq v) (version_seq w)"
  using seq_less_irrefl by (simp add: compare_versions_eq)

lemma compare_versions_eq_iff: "compare_versions v w = 0 \<longleftrightarrow> version_seq v = version_seq w"
  by (simp add: compare_versions_eq)

lemma compare_versions_swap: "compare_versions w v = - compare_versions v w"
  using seq_less_linear[of "version_seq v" "version_seq w"] seq_less_asym
  by (auto simp: compare_versions_eq)

lemma same_prefix_parts_iff: "same_prefix_parts vs cs \<longleftrightarrow> prefix cs vs"
  by (induction vs cs rule: same_prefix_parts.induct) auto

subsection \<open>Properties\<close>

text \<open>
  \<open>compareVersions\<close> computes the lexicographic order of the version number sequences, missing
  parts counting as zero, and comparing in the other direction negates the result; so it is a total
  preorder in which \<open>1.0\<close> and \<open>1.0.0\<close> are equal.
\<close>

lemma compare_versions_is_order:
  "compare_versions v w = (if version_seq v = version_seq w then 0
     else if seq_less (version_seq v) (version_seq w) then - 1 else 1) \<and>
   compare_versions w v = - compare_versions v w \<and>
   compare_versions ''1.0'' ''1.0.0'' = 0"
  by (simp only: compare_versions_eq[symmetric] compare_versions_swap[of w v] simp_thms) code_simp

text \<open>
  A caret constraint accepts a version exactly when it is not below the constraint's version
  and has the same first part; an accepted version therefore lies in the half-open range from the
  constraint up to the next major number.
\<close>

lemma caret_range:
  assumes "check_version \<lparr>vc_operator = ''^'', vc_version = c\<rparr> v"
  shows "\<not> seq_less (version_seq v) (version_seq c) \<and>
    seq_less (version_seq v) (\<lambda>i. if i = 0 then version_seq c 0 + 1 else 0)"
proof -
  have a: "is_semver_compatible v c" using assms by (simp add: check_version_def)
  have "version_seq v 0 = version_seq c 0"
    using a by (simp add: is_semver_compatible_def version_seq_def part_at_def hd_conv_nth split: if_splits)
  then have "seq_less (version_seq v) (\<lambda>i. if i = 0 then version_seq c 0 + 1 else 0)"
    by (auto simp: seq_less_def intro: exI[of _ 0])
  moreover have "\<not> seq_less (version_seq v) (version_seq c)"
    using a by (simp add: is_semver_compatible_def compare_versions_less_iff split: if_splits)
  ultimately show ?thesis by blast
qed

lemma caret_range_example:
  "check_version \<lparr>vc_operator = ''^'', vc_version = ''1.2.3''\<rparr> ''1.10.0'' \<and>
   \<not> seq_less (version_seq ''1.10.0'') (version_seq ''1.2.3'')"
proof -
  have h: "check_version \<lparr>vc_operator = ''^'', vc_version = ''1.2.3''\<rparr> ''1.10.0''" by code_simp
  then show ?thesis using caret_range[OF h] by blast
qed

text \<open>
  \<open>~>\<close> compares the dotted parts textually: it accepts exactly the versions of which the
  constraint's parts are a prefix. So \<open>~>1.0\<close> accepts \<open>1.0.7\<close> but rejects \<open>1.5.0\<close>, although the
  comments in the source describe \<open>~>1.0\<close> as matching every \<open>1.x\<close>.
\<close>

lemma tilde_is_part_prefix:
  "(check_version \<lparr>vc_operator = ''~>'', vc_version = c\<rparr> v \<longleftrightarrow>
      prefix (split_on CHR ''.'' c) (split_on CHR ''.'' v)) \<and>
   check_version \<lparr>vc_operator = ''~>'', vc_version = ''1.0''\<rparr> ''1.0.7'' \<and>
   \<not> check_version \<lparr>vc_operator = ''~>'', vc_version = ''1.0''\<rparr> ''1.5.0''"
  by (simp add: check_version_def is_compatible_version_def same_prefix_parts_iff)

text \<open>
  C31: Printing a constraint as operator followed by version and parsing it again gives the
  constraint back, for every operator of the table, provided the version is free of surrounding
  white space and does not itself start with \<open>=\<close> (after \<open>>\<close> or \<open><\<close> that would read as another
  operator).
\<close>

theorem parse_constraint_roundtrip:
  assumes "op \<in> set operators" and "v \<noteq> []" and "trimmed v" and "hd v \<noteq> CHR ''=''"
  shows "parse_version_constraint (op @ v) = Inr \<lparr>vc_operator = op, vc_version = v\<rparr>"
proof -
  obtain x xs where v: "v = x # xs" "x \<noteq> CHR ''=''" "\<not> is_space x" "\<not> is_space (last v)"
    using assms(2-4) by (cases v) (auto simp: trimmed_def)
  have "op \<noteq> [] \<and> \<not> is_space (hd op)"
    using assms(1) by (auto simp: operators_def is_space_def)
  then have "trimmed (op @ v)"
    using v(1,4) by (simp add: trimmed_def)
  then have t: "trim_space (op @ v) = op @ v" by (rule trim_space_trimmed)
  have "find (\<lambda>p. prefix p (op @ v)) operators = Some op"
  proof -
    consider "op = ''>=''" | "op = ''<=''" | "op = ''~>''" | "op = ''^''" | "op = ''>''"
      | "op = ''<''" | "op = ''=''"
      using assms(1) unfolding operators_def set_simps insert_iff empty_iff by blast
    then show ?thesis by cases (simp_all add: operators_def v(1) v(2)[symmetric])
  qed
  then show ?thesis
    using assms(2) by (simp add: parse_version_constraint_def t trim_space_trimmed[OF assms(3)])
qed

theorem parse_constraint_roundtrip_witness:
  "parse_version_constraint (''>='' @ ''1.2.0'') = Inr \<lparr>vc_operator = ''>='', vc_version = ''1.2.0''\<rparr>"
  by (rule parse_constraint_roundtrip) (simp_all add: operators_def trimmed_def is_space_def)

end
