(* ===== verification/Kahn.thy ===== *)
theory Kahn
  imports GoBase
begin

section \<open>Kahn's algorithm, as the plugin and the graph packages write it\<close>

text \<open>
  \<open>plugin.DependencyGraph.TopologicalSort\<close> and \<open>graph.topologicalSort\<close> contain the same work-list
  loop: pop the head of the queue, append it to the result, decrement the in-degree of its
  successors, and enqueue a successor whose in-degree reaches zero. They differ in the direction of
  the edges and in the queue discipline (the plugin package appends, the graph package appends and
  sorts). The loop is defined once over both parameters; the locale \<open>work_queue\<close> states what the
  proofs need of a discipline, and both are interpretations of it. The loop runs on fuel: each pass
  emits a node, and \<open>kahn_loop_correct\<close> shows that as much fuel as there are nodes is enough.
\<close>

type_synonym degrees = "string \<Rightarrow> int"

fun relax :: "(string list \<Rightarrow> string \<Rightarrow> string list) \<Rightarrow> string list \<Rightarrow> degrees \<Rightarrow> string list
    \<Rightarrow> degrees \<times> string list" where
  "relax enq [] d q = (d, q)"
| "relax enq (t # ts) d q =
     (let d' = d(t := d t - 1) in relax enq ts d' (if d' t = 0 then enq q t else q))"

fun kahn_loop :: "(string list \<Rightarrow> string \<Rightarrow> string list) \<Rightarrow> (string \<Rightarrow> string list) \<Rightarrow> nat \<Rightarrow> degrees
    \<Rightarrow> string list \<Rightarrow> string list \<Rightarrow> string list option" where
  "kahn_loop enq succs fuel d [] out = Some out"
| "kahn_loop enq succs 0 d (n # q) out = None"
| "kahn_loop enq succs (Suc fuel) d (n # q) out =
     (case relax enq (succs n) d q of (d', q') \<Rightarrow> kahn_loop enq succs fuel d' q' (out @ [n]))"

text \<open>The two queue disciplines.\<close>

definition enq_fifo :: "string list \<Rightarrow> string \<Rightarrow> string list" where
  "enq_fifo q t = q @ [t]"

definition enq_sorted :: "string list \<Rightarrow> string \<Rightarrow> string list" where
  "enq_sorted q t = sort (q @ [t])"

subsection \<open>What a topological order is\<close>

definition edge_rel :: "string set \<Rightarrow> (string \<Rightarrow> string list) \<Rightarrow> (string \<times> string) set" where
  "edge_rel V succs = {(n, t). n \<in> V \<and> t \<in> set (succs n)}"

definition topo :: "string set \<Rightarrow> (string \<Rightarrow> string list) \<Rightarrow> string list \<Rightarrow> bool" where
  "topo V succs out \<longleftrightarrow>
     (\<forall>xs t ys. out = xs @ t # ys \<longrightarrow> (\<forall>n. (n, t) \<in> edge_rel V succs \<longrightarrow> n \<in> set xs))"

lemma topo_Nil [simp]: "topo V succs []"
  by (simp add: topo_def)

lemma topo_snoc:
  assumes "topo V succs out" and "\<And>n. (n, t) \<in> edge_rel V succs \<Longrightarrow> n \<in> set out"
  shows "topo V succs (out @ [t])"
  unfolding topo_def
proof (intro allI impI)
  fix xs u ys n
  assume eq: "out @ [t] = xs @ u # ys" and e: "(n, u) \<in> edge_rel V succs"
  show "n \<in> set xs"
  proof (cases ys rule: rev_cases)
    case Nil
    then show ?thesis using eq e assms(2) by simp
  next
    case (snoc zs z)
    then have "out = xs @ u # zs" using eq by simp
    then show ?thesis using assms(1) e by (auto simp: topo_def)
  qed
qed

definition index_in :: "string list \<Rightarrow> string \<Rightarrow> nat" where
  "index_in out t = length (takeWhile (\<lambda>y. y \<noteq> t) out)"

lemma index_in_less: "t \<in> set xs \<Longrightarrow> index_in (xs @ ys) t < length xs"
  by (induction xs) (auto simp: index_in_def)

lemma index_in_mid: "t \<notin> set xs \<Longrightarrow> index_in (xs @ t # ys) t = length xs"
  by (induction xs) (auto simp: index_in_def)

text \<open>An edge goes forward in a topological order, so the edges among the listed nodes form no cycle.\<close>

lemma topo_index_less:
  assumes "topo V succs out" "distinct out" "t \<in> set out" "(n, t) \<in> edge_rel V succs"
  shows "index_in out n < index_in out t"
proof -
  obtain xs ys where out: "out = xs @ t # ys" "t \<notin> set xs"
    using assms(3) by (meson split_list_first)
  then have "n \<in> set xs" using assms(1,4) by (auto simp: topo_def)
  then show ?thesis using out index_in_less[of n xs "t # ys"] index_in_mid[of t xs ys] by simp
qed

lemma topo_acyclic:
  assumes "topo V succs out" "distinct out" "\<And>n. n \<in> V \<Longrightarrow> set (succs n) \<subseteq> set out"
  shows "acyclic (edge_rel V succs)"
proof -
  have "edge_rel V succs \<subseteq> measure (index_in out)"
    using topo_index_less[OF assms(1,2)] assms(3) by (fastforce simp: edge_rel_def)
  then show ?thesis by (meson wf_acyclic wf_measure wf_subset)
qed

text \<open>
  A node is released when no cycle leads to it. On a finite graph every other node has a predecessor
  that is not released either.
\<close>

lemma release_induct:
  assumes fin: "finite S" and pred: "\<And>t. t \<in> S \<Longrightarrow> \<exists>m \<in> S. (m, t) \<in> R" and t: "t \<in> S"
  shows "\<exists>n. (n, n) \<in> R\<^sup>+ \<and> (n, t) \<in> R\<^sup>*"
proof (rule ccontr)
  assume none: "\<not> ?thesis"
  define P where "P = {m \<in> S. (m, t) \<in> R\<^sup>*}"
  let ?Q = "R \<inter> P \<times> P"
  have sub: "?Q\<^sup>+ \<subseteq> R\<^sup>+" by (rule trancl_mono_subset) blast
  have "n \<in> P" if "(n, n) \<in> ?Q\<^sup>+" for n using that by (cases rule: tranclE) auto
  then have ac: "acyclic ?Q" using none sub unfolding acyclic_def P_def by blast
  have "finite ?Q" using fin by (auto simp: P_def)
  then have "wf ?Q" using ac by (rule finite_acyclic_wf)
  moreover have "t \<in> P" using t by (simp add: P_def)
  ultimately obtain z where z: "z \<in> P" "\<And>y. (y, z) \<in> ?Q \<Longrightarrow> y \<notin> P"
    by (metis wfE_min)
  then obtain m where m: "m \<in> S" "(m, z) \<in> R" using pred[of z] by (auto simp: P_def)
  then have "m \<in> P" using z(1) by (auto simp: P_def intro: converse_rtrancl_into_rtrancl)
  then show False using z m(2) by blast
qed

definition released :: "string set \<Rightarrow> (string \<Rightarrow> string list) \<Rightarrow> string set" where
  "released V succs = {t \<in> V. \<forall>n. (n, n) \<in> (edge_rel V succs)\<^sup>+ \<longrightarrow> (n, t) \<notin> (edge_rel V succs)\<^sup>*}"

lemma released_acyclic: "acyclic (edge_rel V succs) \<Longrightarrow> released V succs = V"
  by (auto simp: released_def acyclic_def)

lemma released_all:
  assumes "released V succs = V"
  shows "acyclic (edge_rel V succs)"
proof (rule acyclicI, rule allI, rule notI)
  fix n
  assume c: "(n, n) \<in> (edge_rel V succs)\<^sup>+"
  then have "n \<in> V" by (auto simp: edge_rel_def dest: tranclD)
  then show False using assms c by (auto simp: released_def)
qed

lemma topo_backwards:
  assumes "topo V succs out" "(n, t) \<in> (edge_rel V succs)\<^sup>*" "t \<in> set out"
  shows "n \<in> set out"
  using assms(2,3)
proof (induction rule: converse_rtrancl_induct)
  case (step y z)
  then obtain xs ys where "out = xs @ z # ys" by (meson split_list)
  then show ?case using assms(1) step(1) by (auto simp: topo_def)
qed simp

lemma topo_released:
  assumes "topo V succs out" "distinct out" "set out \<subseteq> V"
  shows "set out \<subseteq> released V succs"
proof
  fix t
  assume t: "t \<in> set out"
  have less: "index_in out n < index_in out u"
    if "(n, u) \<in> (edge_rel V succs)\<^sup>+" "u \<in> set out" for n u
    using that
  proof (induction rule: converse_trancl_induct)
    case (base y)
    then show ?case using topo_index_less[OF assms(1,2)] by blast
  next
    case (step y z)
    have "z \<in> set out" using topo_backwards[OF assms(1)] step(2,4) by (blast intro: trancl_into_rtrancl)
    then show ?case using topo_index_less[OF assms(1,2)] step by fastforce
  qed
  show "t \<in> released V succs"
    unfolding released_def using t assms(3) topo_backwards[OF assms(1)] less by fastforce
qed

subsection \<open>The queue interface and the correctness of the loop\<close>

locale work_queue =
  fixes enq :: "string list \<Rightarrow> string \<Rightarrow> string list"
  assumes mset_enq: "mset (enq q t) = add_mset t (mset q)"
begin

lemma set_enq [simp]: "set (enq q t) = insert t (set q)"
  by (metis mset_enq set_mset_add_mset_insert set_mset_mset)

lemma distinct_enq [simp]: "distinct (enq q t) \<longleftrightarrow> t \<notin> set q \<and> distinct q"
  by (metis distinct.simps(2) mset.simps(2) mset_enq mset_eq_imp_distinct_iff)

lemma relax_spec:
  assumes "\<And>t. t \<in> set ts \<Longrightarrow> int (count_list ts t) \<le> d t"
    and "distinct q" and "set q \<inter> set ts = {}" and "relax enq ts d q = (d', q')"
  shows "(\<forall>t. d' t = d t - int (count_list ts t)) \<and> distinct q' \<and>
         set q' = set q \<union> {t \<in> set ts. d t = int (count_list ts t)}"
  using assms
proof (induction ts arbitrary: d q)
  case Nil
  then show ?case by auto
next
  case (Cons u ts)
  define d1 where "d1 = d(u := d u - 1)"
  define q1 where "q1 = (if d1 u = 0 then enq q u else q)"
  have run: "relax enq ts d1 q1 = (d', q')"
    using Cons.prems(4) by (simp add: d1_def q1_def Let_def)
  have du: "int (count_list ts u) + 1 \<le> d u" using Cons.prems(1)[of u] by simp
  have pre: "int (count_list ts t) \<le> d1 t" if "t \<in> set ts" for t
    using that Cons.prems(1)[of t] du by (auto simp: d1_def split: if_splits)
  have zero: "u \<notin> set ts" if "d1 u = 0"
    using that du by (auto simp: d1_def count_list_0_iff)
  have "distinct q1" "set q1 \<inter> set ts = {}"
    using Cons.prems(2,3) zero by (auto simp: q1_def)
  from Cons.IH[OF pre this run]
  have ih: "\<forall>t. d' t = d1 t - int (count_list ts t)" "distinct q'"
    "set q' = set q1 \<union> {t \<in> set ts. d1 t = int (count_list ts t)}" by auto
  have "set q' = set q \<union> {t \<in> set (u # ts). d t = int (count_list (u # ts) t)}"
    unfolding ih(3) using zero du
    by (auto simp: q1_def d1_def count_list_0_iff split: if_splits)
  then show ?case using ih(1,2) by (auto simp: d1_def)
qed

definition loop_inv :: "string set \<Rightarrow> (string \<Rightarrow> string list) \<Rightarrow> degrees \<Rightarrow> string list \<Rightarrow> string list \<Rightarrow> bool" where
  "loop_inv V succs d q out \<longleftrightarrow> distinct (out @ q) \<and> set (out @ q) \<subseteq> V \<and>
     (\<forall>t. d t = (\<Sum>m \<in> V - set out. int (count_list (succs m) t))) \<and>
     (\<forall>t \<in> V. t \<in> set (out @ q) \<longleftrightarrow> d t = 0) \<and> topo V succs out"

text \<open>A node is on the queue only when every predecessor has been emitted.\<close>

lemma queued_preds_out:
  assumes "finite V" "loop_inv V succs d q out" "t \<in> set q" "(n, t) \<in> edge_rel V succs"
  shows "n \<in> set out"
proof (rule ccontr)
  assume "n \<notin> set out"
  with assms(4) have n: "n \<in> V - set out" "t \<in> set (succs n)" by (auto simp: edge_rel_def)
  have "d t = 0" using assms(2,3) by (auto simp: loop_inv_def)
  moreover have "d t = (\<Sum>m \<in> V - set out. int (count_list (succs m) t))"
    using assms(2) by (simp add: loop_inv_def)
  ultimately have "int (count_list (succs n) t) = 0"
    using n(1) assms(1) by (simp add: sum_nonneg_eq_0_iff)
  then show False using n(2) by (simp add: count_list_0_iff)
qed

lemma loop_inv_step:
  assumes fin: "finite V" and cl: "\<And>n. n \<in> V \<Longrightarrow> set (succs n) \<subseteq> V"
    and inv: "loop_inv V succs d (n # q) out" and rx: "relax enq (succs n) d q = (d', q')"
  shows "loop_inv V succs d' q' (out @ [n])"
proof -
  have deg: "d t = (\<Sum>m \<in> V - set out. int (count_list (succs m) t))" for t
    using inv by (simp add: loop_inv_def)
  have nV: "n \<in> V" "n \<notin> set out" "n \<notin> set q" using inv by (auto simp: loop_inv_def)
  have split: "d t = int (count_list (succs n) t) + (\<Sum>m \<in> V - set (out @ [n]). int (count_list (succs m) t))" for t
  proof -
    have "V - set out = insert n (V - set (out @ [n]))" using nV by auto
    moreover have "finite (V - set (out @ [n]))" "n \<notin> V - set (out @ [n])" using fin by auto
    ultimately show ?thesis unfolding deg by (metis (no_types, lifting) sum.insert)
  qed
  have le: "int (count_list (succs n) t) \<le> d t" for t
    unfolding split by (simp add: sum_nonneg)
  have zero: "t \<in> V \<Longrightarrow> t \<in> set (out @ n # q) \<longleftrightarrow> d t = 0" for t
    using inv by (simp add: loop_inv_def)
  have pos: "d t \<noteq> 0" if "t \<in> set (succs n)" for t
    using le[of t] that by (auto simp: count_list_0_iff)
  have disj: "set (out @ n # q) \<inter> set (succs n) = {}"
    using pos zero cl[OF nV(1)] by blast
  have "distinct q" "set q \<inter> set (succs n) = {}"
    using inv disj by (auto simp: loop_inv_def)
  from relax_spec[OF le this rx]
  have r: "\<And>t. d' t = d t - int (count_list (succs n) t)" "distinct q'"
    "set q' = set q \<union> {t \<in> set (succs n). d t = int (count_list (succs n) t)}" by auto
  have d': "d' t = (\<Sum>m \<in> V - set (out @ [n]). int (count_list (succs m) t))" for t
    using split[of t] by (simp add: r(1))
  have mem: "t \<in> set ((out @ [n]) @ q') \<longleftrightarrow> d' t = 0" if "t \<in> V" for t
  proof (cases "t \<in> set (succs n)")
    case True
    then show ?thesis using disj by (auto simp: r)
  next
    case False
    then have "d' t = d t" by (simp add: r(1) count_list_0_iff)
    then show ?thesis using zero[OF that] False by (auto simp: r(3))
  qed
  have "topo V succs (out @ [n])"
    using inv queued_preds_out[OF fin inv, of n] by (intro topo_snoc) (auto simp: loop_inv_def)
  moreover have "distinct ((out @ [n]) @ q')"
    using inv r(2,3) disj by (auto simp: loop_inv_def)
  moreover have "set ((out @ [n]) @ q') \<subseteq> V"
    using inv r(3) cl[OF nV(1)] by (auto simp: loop_inv_def)
  ultimately show ?thesis using d' mem by (auto simp: loop_inv_def)
qed

lemma loop_inv_length:
  assumes "finite V" "loop_inv V succs d q out"
  shows "length (out @ q) \<le> card V"
proof -
  have "card (set (out @ q)) \<le> card V"
    using assms by (intro card_mono) (auto simp: loop_inv_def)
  moreover have "card (set (out @ q)) = length (out @ q)"
    using assms(2) by (intro distinct_card) (simp add: loop_inv_def)
  ultimately show ?thesis by simp
qed

lemma kahn_loop_inv:
  assumes fin: "finite V" and cl: "\<And>n. n \<in> V \<Longrightarrow> set (succs n) \<subseteq> V"
    and "loop_inv V succs d q out" "card V \<le> fuel + length out"
  shows "\<exists>d' out'. kahn_loop enq succs fuel d q out = Some out' \<and> loop_inv V succs d' [] out'"
  using assms(3,4)
proof (induction fuel arbitrary: d q out)
  case 0
  have "length out + length q \<le> card V" using loop_inv_length[OF fin 0(1)] by simp
  then have "length q = 0" using 0(2) by linarith
  then have "q = []" by simp
  then show ?case using 0 by auto
next
  case (Suc fuel)
  show ?case
  proof (cases q)
    case Nil
    then show ?thesis using Suc.prems by auto
  next
    case (Cons n qs)
    obtain d' q' where rx: "relax enq (succs n) d qs = (d', q')" by fastforce
    have "loop_inv V succs d' q' (out @ [n])"
      using loop_inv_step[of V succs, OF fin cl] rx Suc.prems(1) Cons by blast
    then show ?thesis using Suc.IH[of d' q' "out @ [n]"] Suc.prems(2) Cons rx by simp
  qed
qed

text \<open>
  Started from the in-degrees and the nodes of in-degree zero, the loop ends and emits exactly the
  nodes no cycle leads to, once each, in a topological order. So it emits all of them exactly when
  the edges form no cycle.
\<close>

theorem kahn_loop_exact:
  assumes fin: "finite V" and cl: "\<And>n. n \<in> V \<Longrightarrow> set (succs n) \<subseteq> V"
    and deg: "\<And>t. d t = (\<Sum>m \<in> V. int (count_list (succs m) t))"
    and q: "distinct q" "set q = {t \<in> V. d t = 0}"
    and fuel: "card V \<le> fuel"
  obtains out where "kahn_loop enq succs fuel d q [] = Some out"
    and "distinct out" "topo V succs out" "set out = released V succs"
proof -
  have "loop_inv V succs d q []"
    using q deg by (auto simp: loop_inv_def)
  moreover have "card V \<le> fuel + length ([] :: string list)" using fuel by simp
  ultimately obtain d' out where out: "kahn_loop enq succs fuel d q [] = Some out"
    and inv: "loop_inv V succs d' [] out"
    using kahn_loop_inv[of V succs, OF fin cl] by blast
  have res: "distinct out" "set out \<subseteq> V" "topo V succs out"
    using inv by (simp_all add: loop_inv_def)
  have rest: "\<exists>m \<in> V - set out. (m, t) \<in> edge_rel V succs" if t: "t \<in> V - set out" for t
  proof (rule ccontr)
    assume "\<not> ?thesis"
    then have "(\<Sum>m \<in> V - set out. int (count_list (succs m) t)) = 0"
      by (intro sum.neutral) (auto simp: count_list_0_iff edge_rel_def)
    then show False using inv t by (auto simp: loop_inv_def)
  qed
  have "released V succs \<subseteq> set out"
    using release_induct[of "V - set out" "edge_rel V succs", OF _ rest] fin
    unfolding released_def by fastforce
  then show thesis using that[OF out res(1,3)] topo_released[OF res(3,1,2)] by blast
qed

theorem kahn_loop_correct:
  assumes "finite V" and "\<And>n. n \<in> V \<Longrightarrow> set (succs n) \<subseteq> V"
    and "\<And>t. d t = (\<Sum>m \<in> V. int (count_list (succs m) t))"
    and "distinct q" "set q = {t \<in> V. d t = 0}"
    and "card V \<le> fuel"
  obtains out where "kahn_loop enq succs fuel d q [] = Some out"
    and "distinct out" "set out \<subseteq> V" "topo V succs out"
    and "set out = V \<longleftrightarrow> acyclic (edge_rel V succs)"
proof -
  obtain out where out: "kahn_loop enq succs fuel d q [] = Some out"
    "distinct out" "topo V succs out" "set out = released V succs"
    by (rule kahn_loop_exact[OF assms])
  moreover have "released V succs \<subseteq> V" by (auto simp: released_def)
  moreover have "released V succs = V \<longleftrightarrow> acyclic (edge_rel V succs)"
    using released_acyclic released_all by blast
  ultimately show thesis using that by metis
qed

end

interpretation fifo: work_queue enq_fifo
  by unfold_locales (simp add: enq_fifo_def)

interpretation prio: work_queue enq_sorted
  by unfold_locales (simp add: enq_sorted_def)

end
