(* ===== verification/PluginDeps.thy ===== *)
theory PluginDeps
  imports PluginVersion Kahn
begin

section \<open>Plugin dependency graph and resolver (plugin/dependency.go)\<close>

text \<open>
  \<open>DependencyGraph\<close>, its cycle detection and topological sort, and the resolver built on them. A
  plugin registry is a partial function from names to \<open>PluginInfo\<close> (what \<open>Registry.Get(n).Info()\<close>
  gives). \<open>DetectCycle\<close> and \<open>TopologicalSort\<close> range over Go maps; the iteration orders are the
  arguments \<open>ns\<close> (the node map) and \<open>ks\<close> (the in-degree map). The recursive closure of
  \<open>DetectCycle\<close> and the tree builder run on fuel: \<open>dfs_enough\<close> shows the fuel chosen always suffices
  for the former, and for the latter the theorems say when any amount does.
\<close>

record plugin_info =
  pi_name :: string
  pi_version :: string
  pi_dependencies :: "string list"

record dependency =
  dep_name :: string
  dep_version :: string
  dep_optional :: bool

record dependency_node =
  dn_name :: string
  dn_version :: string
  dn_dependencies :: "dependency list"

record dependency_graph =
  nodes :: "string \<rightharpoonup> dependency_node"
  edges :: "string \<rightharpoonup> string list"

definition new_dependency_graph :: dependency_graph where
  "new_dependency_graph = \<lparr>nodes = Map.empty, edges = Map.empty\<rparr>"

definition add_node :: "dependency_graph \<Rightarrow> string \<Rightarrow> string \<Rightarrow> dependency list \<Rightarrow> dependency_graph" where
  "add_node g name version deps =
     g\<lparr>nodes := (nodes g)(name \<mapsto> \<lparr>dn_name = name, dn_version = version, dn_dependencies = deps\<rparr>),
       edges := (edges g)(name \<mapsto> map dep_name deps)\<rparr>"

text \<open>Indexing a Go map by an absent key gives the nil slice.\<close>

definition edges_of :: "dependency_graph \<Rightarrow> string \<Rightarrow> string list" where
  "edges_of g n = (case edges g n of None \<Rightarrow> [] | Some es \<Rightarrow> es)"

subsection \<open>Cycle detection\<close>

record dfs_state =
  visited :: "string \<Rightarrow> bool"
  rec_stack :: "string \<Rightarrow> bool"
  dfs_path :: "string list"

definition enter_node :: "string \<Rightarrow> dfs_state \<Rightarrow> dfs_state" where
  "enter_node n s = s\<lparr>visited := (visited s)(n := True), rec_stack := (rec_stack s)(n := True),
     dfs_path := dfs_path s @ [n]\<rparr>"

definition leave_node :: "string \<Rightarrow> dfs_state \<Rightarrow> dfs_state" where
  "leave_node n s = s\<lparr>rec_stack := (rec_stack s)(n := False), dfs_path := butlast (dfs_path s)\<rparr>"

fun dfs :: "nat \<Rightarrow> (string \<Rightarrow> string list) \<Rightarrow> string \<Rightarrow> dfs_state \<Rightarrow> (bool \<times> dfs_state) option"
and dfs_neighbors :: "nat \<Rightarrow> (string \<Rightarrow> string list) \<Rightarrow> string list \<Rightarrow> dfs_state
      \<Rightarrow> (bool \<times> dfs_state) option" where
  "dfs 0 E n s = None"
| "dfs (Suc fuel) E n s =
     (case dfs_neighbors fuel E (E n) (enter_node n s) of
        None \<Rightarrow> None
      | Some (True, s') \<Rightarrow> Some (True, s')
      | Some (False, s') \<Rightarrow> Some (False, leave_node n s'))"
| "dfs_neighbors fuel E [] s = Some (False, s)"
| "dfs_neighbors fuel E (m # ms) s =
     (if \<not> visited s m then
        (case dfs fuel E m s of
           None \<Rightarrow> None
         | Some (True, s') \<Rightarrow> Some (True, s')
         | Some (False, s') \<Rightarrow> dfs_neighbors fuel E ms s')
      else if rec_stack s m then Some (True, s)
      else dfs_neighbors fuel E ms s)"

fun detect_roots :: "nat \<Rightarrow> (string \<Rightarrow> string list) \<Rightarrow> string list \<Rightarrow> dfs_state \<Rightarrow> string list option option" where
  "detect_roots fuel E [] s = Some None"
| "detect_roots fuel E (n # ns) s =
     (if \<not> visited s n then
        (case dfs fuel E n s of
           None \<Rightarrow> None
         | Some (True, s') \<Rightarrow> Some (Some (dfs_path s'))
         | Some (False, s') \<Rightarrow> detect_roots fuel E ns s')
      else detect_roots fuel E ns s)"

definition dfs_init :: dfs_state where
  "dfs_init = \<lparr>visited = (\<lambda>_. False), rec_stack = (\<lambda>_. False), dfs_path = []\<rparr>"

text \<open>Outer \<open>None\<close>: out of fuel; inner \<open>None\<close>: the nil slice, no cycle.\<close>

definition detect_cycle :: "dependency_graph \<Rightarrow> string list \<Rightarrow> string list option option" where
  "detect_cycle g ns =
     detect_roots (Suc (length ns + length (concat (map (edges_of g) ns)))) (edges_of g) ns dfs_init"

subsection \<open>Topological sort\<close>

datatype resolve_error = CircularDependency "string list" | IncompleteSort
  | MissingDependency string string

definition in_degree :: "dependency_graph \<Rightarrow> string list \<Rightarrow> degrees" where
  "in_degree g ns = fold (\<lambda>n d. fold (\<lambda>t d. d(t := d t + 1)) (edges_of g n) d) ns (\<lambda>_. 0)"

text \<open>
  \<open>ks\<close> enumerates the keys of the in-degree map (the nodes and the targets of edges). The number of
  keys bounds the number of passes of the loop.
\<close>

definition topological_sort :: "dependency_graph \<Rightarrow> string list \<Rightarrow> string list
    \<Rightarrow> resolve_error + string list" where
  "topological_sort g ns ks =
     (let d = in_degree g ns;
          q = filter (\<lambda>n. d n = 0) ks
      in case kahn_loop enq_fifo (edges_of g) (length ks) d q [] of
           None \<Rightarrow> Inl IncompleteSort
         | Some ord \<Rightarrow> if length ord \<noteq> length ns then Inl (CircularDependency []) else Inr ord)"

subsection \<open>The resolver\<close>

definition plugin_deps :: "plugin_info \<Rightarrow> dependency list" where
  "plugin_deps p = map (\<lambda>d. \<lparr>dep_name = fst (parse_dependency_spec d), dep_version = [], dep_optional = False\<rparr>)
     (pi_dependencies p)"

definition build_graph :: "plugin_info list \<Rightarrow> dependency_graph" where
  "build_graph plugins = fold (\<lambda>p g. add_node g (pi_name p) (pi_version p) (plugin_deps p)) plugins
     new_dependency_graph"

definition resolve :: "string list \<Rightarrow> string list \<Rightarrow> plugin_info list \<Rightarrow> resolve_error + string list" where
  "resolve ns ks plugins =
     (let g = build_graph plugins in
      case detect_cycle g ns of
        None \<Rightarrow> Inl IncompleteSort
      | Some (Some cycle) \<Rightarrow> Inl (CircularDependency cycle)
      | Some None \<Rightarrow> topological_sort g ns ks)"

definition plugin_map :: "plugin_info list \<Rightarrow> (string \<rightharpoonup> plugin_info)" where
  "plugin_map plugins = fold (\<lambda>p m. m(pi_name p \<mapsto> p)) plugins Map.empty"

fun validate_specs :: "(string \<rightharpoonup> plugin_info) \<Rightarrow> string \<Rightarrow> string list \<Rightarrow> resolve_error option" where
  "validate_specs m name [] = None"
| "validate_specs m name (spec # specs) =
     (let d = fst (parse_dependency_spec spec) in
      if m d = None then Some (MissingDependency name d) else validate_specs m name specs)"

fun validate_plugins :: "(string \<rightharpoonup> plugin_info) \<Rightarrow> plugin_info list \<Rightarrow> resolve_error option" where
  "validate_plugins m [] = None"
| "validate_plugins m (p # ps) =
     (case validate_specs m (pi_name p) (pi_dependencies p) of
        Some e \<Rightarrow> Some e
      | None \<Rightarrow> validate_plugins m ps)"

definition validate_dependencies :: "plugin_info list \<Rightarrow> resolve_error option" where
  "validate_dependencies plugins = validate_plugins (plugin_map plugins) plugins"

definition get_load_order :: "string list \<Rightarrow> string list \<Rightarrow> plugin_info list
    \<Rightarrow> resolve_error + plugin_info list" where
  "get_load_order ns ks plugins =
     (case validate_dependencies plugins of
        Some e \<Rightarrow> Inl e
      | None \<Rightarrow>
          (case resolve ns ks plugins of
             Inl e \<Rightarrow> Inl e
           | Inr order \<Rightarrow> Inr (List.map_filter (plugin_map plugins) order)))"

subsection \<open>Version checks against the registry, and the dependency tree\<close>

datatype check_error = DependencyNotFound string | NoVersionDeclared string
  | InvalidConstraint constraint_error | VersionMismatch string string

fun check_specs :: "(string \<rightharpoonup> plugin_info) \<Rightarrow> string list \<Rightarrow> check_error option" where
  "check_specs reg [] = None"
| "check_specs reg (spec # specs) =
     (case parse_dependency_spec spec of (name, constraint) \<Rightarrow>
        case reg name of
          None \<Rightarrow> Some (DependencyNotFound name)
        | Some info \<Rightarrow>
            if constraint = [] then check_specs reg specs
            else if pi_version info = [] then Some (NoVersionDeclared name)
            else case parse_version_constraint constraint of
                   Inl e \<Rightarrow> Some (InvalidConstraint e)
                 | Inr vc \<Rightarrow>
                     if \<not> check_version vc (pi_version info) then Some (VersionMismatch name (pi_version info))
                     else check_specs reg specs)"

definition check_dependencies :: "(string \<rightharpoonup> plugin_info) \<Rightarrow> plugin_info \<Rightarrow> check_error option" where
  "check_dependencies reg p = check_specs reg (pi_dependencies p)"

datatype dependency_tree = DependencyTree plugin_info "dependency_tree list"

fun build_tree :: "nat \<Rightarrow> (string \<rightharpoonup> plugin_info) \<Rightarrow> string \<Rightarrow> (check_error + dependency_tree) option"
and build_children :: "nat \<Rightarrow> (string \<rightharpoonup> plugin_info) \<Rightarrow> string list \<Rightarrow> dependency_tree list option" where
  "build_tree 0 reg name = None"
| "build_tree (Suc fuel) reg name =
     (case reg name of
        None \<Rightarrow> Some (Inl (DependencyNotFound name))
      | Some info \<Rightarrow>
          (case build_children fuel reg (pi_dependencies info) of
             None \<Rightarrow> None
           | Some ts \<Rightarrow> Some (Inr (DependencyTree info ts))))"
| "build_children fuel reg [] = Some []"
| "build_children fuel reg (spec # specs) =
     (case build_tree fuel reg (fst (parse_dependency_spec spec)) of
        None \<Rightarrow> None
      | Some (Inl e) \<Rightarrow> build_children fuel reg specs
      | Some (Inr t) \<Rightarrow> map_option (\<lambda>ts. t # ts) (build_children fuel reg specs))"

fun format_tree :: "nat \<Rightarrow> dependency_tree \<Rightarrow> string" where
  "format_tree level (DependencyTree p ts) =
     concat (replicate level ''  '') @ ''- '' @ pi_name p @ '' (v'' @ pi_version p @ '')'' @ [CHR 0x0A] @
     concat (map (format_tree (Suc level)) ts)"


subsection \<open>Depth-first search\<close>

text \<open>
  The invariant between calls: the recursion stack is the path, a walk of visited nodes, and the
  visited nodes off the path are closed under edges and span no cycle.
\<close>

definition finished :: "dfs_state \<Rightarrow> string set" where
  "finished s = {n. visited s n \<and> \<not> rec_stack s n}"

definition walk :: "(string \<Rightarrow> string list) \<Rightarrow> string list \<Rightarrow> bool" where
  "walk E p \<longleftrightarrow> successively (\<lambda>a b. b \<in> set (E a)) p"

definition dfs_ok :: "(string \<Rightarrow> string list) \<Rightarrow> dfs_state \<Rightarrow> bool" where
  "dfs_ok E s \<longleftrightarrow> rec_stack s = (\<lambda>n. n \<in> set (dfs_path s)) \<and> distinct (dfs_path s) \<and>
     (\<forall>n \<in> set (dfs_path s). visited s n) \<and> walk E (dfs_path s) \<and>
     (\<forall>n \<in> finished s. set (E n) \<subseteq> finished s) \<and> acyclic (edge_rel (finished s) E)"

definition closing :: "(string \<Rightarrow> string list) \<Rightarrow> string list \<Rightarrow> bool" where
  "closing E p \<longleftrightarrow> p \<noteq> [] \<and> walk E p \<and> (\<exists>q \<in> set p. q \<in> set (E (last p)))"

definition extends :: "dfs_state \<Rightarrow> dfs_state \<Rightarrow> bool" where
  "extends s s' \<longleftrightarrow> rec_stack s' = rec_stack s \<and> dfs_path s' = dfs_path s \<and>
     (\<forall>n. visited s n \<longrightarrow> visited s' n)"

lemma extends_refl [simp]: "extends s s"
  by (simp add: extends_def)

lemma extends_trans: "extends s t \<Longrightarrow> extends t u \<Longrightarrow> extends s u"
  by (simp add: extends_def)

lemma extends_finished: "extends s s' \<Longrightarrow> finished s \<subseteq> finished s'"
  by (auto simp: extends_def finished_def)

lemma dfs_ok_enter:
  assumes "dfs_ok E s" "\<not> visited s n" "dfs_path s = [] \<or> n \<in> set (E (last (dfs_path s)))"
  shows "dfs_ok E (enter_node n s)"
proof -
  have "finished (enter_node n s) = finished s"
    using assms(1,2) by (auto simp: finished_def enter_node_def dfs_ok_def)
  then show ?thesis
    using assms by (auto simp: dfs_ok_def enter_node_def walk_def successively_append_iff fun_eq_iff)
qed

lemma acyclic_add_source:
  assumes "acyclic (edge_rel F E)" "\<forall>m \<in> F. set (E m) \<subseteq> F" "n \<notin> F" "set (E n) \<subseteq> F"
  shows "acyclic (edge_rel (insert n F) E)"
proof (rule acyclic_subset)
  have noin: "(m, n) \<notin> (edge_rel F E)\<^sup>*" if "m \<in> F" for m
  proof
    assume "(m, n) \<in> (edge_rel F E)\<^sup>*"
    then have "n \<in> F" using that
      by (induction rule: rtrancl_induct) (use assms(2) in \<open>auto simp: edge_rel_def\<close>)
    then show False using assms(3) by simp
  qed
  have ins: "acyclic (edge_rel F E \<union> {n} \<times> set (xs))" if "set xs \<subseteq> F" for xs
    using that
  proof (induction xs)
    case Nil
    then show ?case using assms(1) by simp
  next
    case (Cons x xs)
    have noin': "(x, n) \<notin> (edge_rel F E \<union> {n} \<times> set xs)\<^sup>*"
    proof
      assume "(x, n) \<in> (edge_rel F E \<union> {n} \<times> set xs)\<^sup>*"
      then have "n \<in> F" using Cons.prems assms(2,3)
        by (induction rule: rtrancl_induct) (auto simp: edge_rel_def)
      then show False using assms(3) by simp
    qed
    have "edge_rel F E \<union> {n} \<times> set (x # xs) = insert (n, x) (edge_rel F E \<union> {n} \<times> set xs)" by auto
    then show ?case using Cons noin' by (simp add: acyclic_insert)
  qed
  show "acyclic (edge_rel F E \<union> {n} \<times> set (E n))" using ins assms(4) by blast
  show "edge_rel (insert n F) E \<subseteq> edge_rel F E \<union> {n} \<times> set (E n)" by (auto simp: edge_rel_def)
qed

lemma dfs_ok_leave:
  assumes "dfs_ok E s" "dfs_path s = p @ [n]" "\<forall>m \<in> set (E n). visited s m \<and> \<not> rec_stack s m"
  shows "dfs_ok E (leave_node n s)"
proof -
  have r: "rec_stack s = (\<lambda>m. m \<in> set (p @ [n]))" "n \<notin> set p" "visited s n"
    using assms(1,2) by (auto simp: dfs_ok_def)
  have fin: "finished (leave_node n s) = insert n (finished s)" "n \<notin> finished s"
    using r by (auto simp: finished_def leave_node_def)
  have sub: "set (E n) \<subseteq> finished s" using assms(3) by (auto simp: finished_def)
  have "acyclic (edge_rel (insert n (finished s)) E)"
    using assms(1) fin(2) sub by (intro acyclic_add_source) (auto simp: dfs_ok_def)
  then show ?thesis
    using assms(1,2) r fin(1) sub
    by (auto simp: dfs_ok_def leave_node_def walk_def successively_append_iff fun_eq_iff)
qed

lemma dfs_spec:
  "\<lbrakk>dfs fuel E n s = Some (b, s'); dfs_ok E s; \<not> visited s n;
     dfs_path s = [] \<or> n \<in> set (E (last (dfs_path s)))\<rbrakk> \<Longrightarrow>
   (if b then closing E (dfs_path s') else dfs_ok E s' \<and> extends s s' \<and> n \<in> finished s')"
  "\<lbrakk>dfs_neighbors fuel E ms s = Some (b, s'); dfs_ok E s; dfs_path s \<noteq> [];
     set ms \<subseteq> set (E (last (dfs_path s)))\<rbrakk> \<Longrightarrow>
   (if b then closing E (dfs_path s') else dfs_ok E s' \<and> extends s s' \<and> set ms \<subseteq> finished s')"
proof (induction fuel E n s and fuel E ms s arbitrary: b s' and b s' rule: dfs_dfs_neighbors.induct)
  case (1 E n s)
  then show ?case by simp
next
  case (2 fuel E n s)
  obtain c t where t: "dfs_neighbors fuel E (E n) (enter_node n s) = Some (c, t)"
    using "2.prems"(1) by (auto split: option.splits)
  have en: "dfs_path (enter_node n s) = dfs_path s @ [n]" by (simp add: enter_node_def)
  have ih: "if c then closing E (dfs_path t)
     else dfs_ok E t \<and> extends (enter_node n s) t \<and> set (E n) \<subseteq> finished t"
    using "2.IH"[OF t dfs_ok_enter[OF "2.prems"(2-4)]] en by simp
  show ?case
  proof (cases c)
    case True
    then show ?thesis using "2.prems"(1) t ih by auto
  next
    case False
    then have res: "b = False" "s' = leave_node n t" using "2.prems"(1) t by auto
    have ih': "dfs_ok E t" "extends (enter_node n s) t" "set (E n) \<subseteq> finished t"
      using ih False by auto
    have p: "dfs_path t = dfs_path s @ [n]" using ih'(2) en by (simp add: extends_def)
    have ok: "dfs_ok E s'"
      unfolding res(2) using ih'(1,3) p by (intro dfs_ok_leave) (auto simp: finished_def)
    have "\<not> rec_stack s n" using "2.prems"(2,3) by (auto simp: dfs_ok_def)
    then have "extends s s'"
      using ih'(2) p unfolding res(2) extends_def enter_node_def leave_node_def by (auto simp: fun_eq_iff)
    moreover have "n \<in> finished s'"
      using ih'(2) unfolding res(2) extends_def enter_node_def leave_node_def finished_def by auto
    ultimately show ?thesis using ok res(1) by simp
  qed
next
  case (3 fuel E s)
  then show ?case by auto
next
  case (4 fuel E m ms s)
  have mE: "m \<in> set (E (last (dfs_path s)))" using "4.prems"(4) by simp
  show ?case
  proof (cases "visited s m")
    case False
    obtain c t where t: "dfs fuel E m s = Some (c, t)"
      using "4.prems"(1) False by (auto split: option.splits)
    have ih: "if c then closing E (dfs_path t) else dfs_ok E t \<and> extends s t \<and> m \<in> finished t"
      using "4.IH"(1)[OF False t "4.prems"(2) False] mE by blast
    show ?thesis
    proof (cases c)
      case True
      then show ?thesis using "4.prems"(1) False t ih by auto
    next
      case c: False
      then have ih1: "dfs_ok E t" "extends s t" "m \<in> finished t" using ih by auto
      have run: "dfs_neighbors fuel E ms t = Some (b, s')" using "4.prems"(1) False t c by simp
      have "dfs_path t = dfs_path s" using ih1(2) by (simp add: extends_def)
      then have ih2: "if b then closing E (dfs_path s')
          else dfs_ok E s' \<and> extends t s' \<and> set ms \<subseteq> finished s'"
        using "4.IH"(2)[OF False t _ _ run ih1(1)] c "4.prems"(3,4) by auto
      then show ?thesis
        using ih1 extends_trans extends_finished by (cases b) (simp, fastforce)
    qed
  next
    case vis: True
    show ?thesis
    proof (cases "rec_stack s m")
      case True
      then show ?thesis
        using "4.prems" vis by (auto simp: closing_def dfs_ok_def)
    next
      case False
      then have "m \<in> finished s" using vis by (simp add: finished_def)
      moreover have "if b then closing E (dfs_path s')
          else dfs_ok E s' \<and> extends s s' \<and> set ms \<subseteq> finished s'"
        using "4.IH"(3)[of b s'] "4.prems" vis False by simp
      ultimately show ?thesis using extends_finished[of s s'] by (cases b) auto
    qed
  qed
qed



lemma dfs_visited_mono:
  "dfs fuel E n s = Some (b, s') \<Longrightarrow> visited s m \<Longrightarrow> visited s' m"
  "dfs_neighbors fuel E ms s = Some (b, s') \<Longrightarrow> visited s m \<Longrightarrow> visited s' m"
proof (induction fuel E n s and fuel E ms s arbitrary: b s' and b s' rule: dfs_dfs_neighbors.induct)
  case (2 fuel E n s)
  obtain c t where t: "dfs_neighbors fuel E (E n) (enter_node n s) = Some (c, t)"
    using "2.prems"(1) by (auto split: option.splits)
  have "visited t m" using "2.IH"[OF t] "2.prems"(2) by (simp add: enter_node_def)
  then show ?case using "2.prems"(1) t by (cases c) (auto simp: leave_node_def)
next
  case (4 fuel E n ms s)
  show ?case
  proof (cases "visited s n")
    case True
    then show ?thesis using "4.prems" "4.IH"(3) by (cases "rec_stack s n") auto
  next
    case False
    obtain c t where t: "dfs fuel E n s = Some (c, t)"
      using "4.prems"(1) False by (auto split: option.splits)
    have "visited t m" using "4.IH"(1)[OF False t "4.prems"(2)] .
    then show ?thesis
      using "4.prems"(1) False t "4.IH"(2)[OF False t] by (cases c) auto
  qed
qed simp_all

text \<open>Fuel: every level of recursion marks another node of the finite graph.\<close>

lemma dfs_enough:
  "\<lbrakk>finite U; \<And>n. n \<in> U \<Longrightarrow> set (E n) \<subseteq> U; n \<in> U; \<not> visited s n;
     card {m \<in> U. \<not> visited s m} \<le> fuel\<rbrakk> \<Longrightarrow> dfs fuel E n s \<noteq> None"
  "\<lbrakk>finite U; \<And>n. n \<in> U \<Longrightarrow> set (E n) \<subseteq> U; set ms \<subseteq> U;
     card {m \<in> U. \<not> visited s m} \<le> fuel\<rbrakk> \<Longrightarrow> dfs_neighbors fuel E ms s \<noteq> None"
proof (induction fuel E n s and fuel E ms s rule: dfs_dfs_neighbors.induct)
  case (1 E n s)
  then show ?case by auto
next
  case (2 fuel E n s)
  have "{m \<in> U. \<not> visited s m} = insert n {m \<in> U. \<not> visited (enter_node n s) m}"
    using 2 by (auto simp: enter_node_def)
  moreover have "n \<notin> {m \<in> U. \<not> visited (enter_node n s) m}" by (simp add: enter_node_def)
  ultimately have "card {m \<in> U. \<not> visited (enter_node n s) m} \<le> fuel"
    using 2 by simp
  then have "dfs_neighbors fuel E (E n) (enter_node n s) \<noteq> None"
    using 2 by simp
  then show ?case by (auto split: bool.splits)
next
  case (3 fuel E s)
  then show ?case by simp
next
  case (4 fuel E m ms s)
  show ?case
  proof (cases "visited s m")
    case True
    then show ?thesis using 4 by auto
  next
    case False
    then have "dfs fuel E m s \<noteq> None" using 4 by simp
    then obtain c t where t: "dfs fuel E m s = Some (c, t)" by auto
    have "card {m \<in> U. \<not> visited t m} \<le> card {m \<in> U. \<not> visited s m}"
      using dfs_visited_mono(1)[OF t] 4(4) by (intro card_mono) auto
    then show ?thesis using 4 False t by (cases c) auto
  qed
qed

lemma detect_roots_spec:
  assumes "finite U" "\<And>n. n \<in> U \<Longrightarrow> set (E n) \<subseteq> U" "set ns \<subseteq> U" "card U \<le> fuel"
    and "dfs_ok E s" "dfs_path s = []"
  shows "\<exists>r. detect_roots fuel E ns s = Some r \<and>
    (case r of None \<Rightarrow> \<exists>s'. dfs_ok E s' \<and> finished s \<subseteq> finished s' \<and> set ns \<subseteq> finished s'
     | Some p \<Rightarrow> closing E p)"
  using assms(3,5,6)
proof (induction ns arbitrary: s)
  case Nil
  then show ?case by auto
next
  case (Cons n ns)
  have none: "visited s n \<Longrightarrow> n \<in> finished s"
    using Cons.prems(2,3) by (simp add: dfs_ok_def finished_def)
  show ?case
  proof (cases "visited s n")
    case True
    from Cons.IH[OF _ Cons.prems(2,3)] Cons.prems(1) obtain r where
      r: "detect_roots fuel E ns s = Some r" and
      c: "case r of None \<Rightarrow> \<exists>s'. dfs_ok E s' \<and> finished s \<subseteq> finished s' \<and> set ns \<subseteq> finished s'
         | Some p \<Rightarrow> closing E p" by auto
    have "case r of None \<Rightarrow> \<exists>s'. dfs_ok E s' \<and> finished s \<subseteq> finished s' \<and> set (n # ns) \<subseteq> finished s'
         | Some p \<Rightarrow> closing E p"
      using c none[OF True] by (cases r) auto
    then show ?thesis using r True by auto
  next
    case False
    have "card {m \<in> U. \<not> visited s m} \<le> fuel"
      using assms(1,4) card_mono[of U "{m \<in> U. \<not> visited s m}"] by auto
    then have "dfs fuel E n s \<noteq> None"
      using dfs_enough(1)[OF assms(1,2)] Cons.prems(1) False by auto
    then obtain b t where t: "dfs fuel E n s = Some (b, t)" by auto
    note sp = dfs_spec(1)[OF t Cons.prems(2) False] Cons.prems(3)
    show ?thesis
    proof (cases b)
      case True
      then show ?thesis using t False sp by auto
    next
      case b: False
      then have tt: "dfs_ok E t" "extends s t" "n \<in> finished t" using sp by auto
      then have "dfs_path t = []" using Cons.prems(3) by (simp add: extends_def)
      with Cons.IH[OF _ tt(1)] Cons.prems(1) obtain r where
        r: "detect_roots fuel E ns t = Some r" and
        "case r of None \<Rightarrow> \<exists>s'. dfs_ok E s' \<and> finished t \<subseteq> finished s' \<and> set ns \<subseteq> finished s'
         | Some p \<Rightarrow> closing E p" by auto
      then have "case r of None \<Rightarrow> \<exists>s'. dfs_ok E s' \<and> finished s \<subseteq> finished s' \<and> set (n # ns) \<subseteq> finished s'
         | Some p \<Rightarrow> closing E p"
        using tt(3) extends_finished[OF tt(2)] by (cases r) auto
      then show ?thesis using r t False b by auto
    qed
  qed
qed

lemma successively_rtrancl:
  "successively P (x # xs) \<Longrightarrow> (x, last (x # xs)) \<in> {(a, b). P a b}\<^sup>*"
  by (induction xs arbitrary: x) (auto intro: converse_rtrancl_into_rtrancl)

lemma closing_not_acyclic:
  assumes "closing E p"
  shows "\<not> acyclic (edge_rel UNIV E)"
proof -
  obtain q xs ys where p: "p = xs @ q # ys" "q \<in> set (E (last p))" "walk E p"
    using assms unfolding closing_def by (metis split_list)
  have "successively (\<lambda>a b. b \<in> set (E a)) (q # ys)"
    using p(1,3) by (simp add: walk_def successively_append_iff)
  then have "(q, last (q # ys)) \<in> (edge_rel UNIV E)\<^sup>*"
    using successively_rtrancl by (fastforce simp: edge_rel_def)
  moreover have "(last (q # ys), q) \<in> edge_rel UNIV E"
    using p(1,2) by (simp add: edge_rel_def)
  ultimately show ?thesis by (meson acyclic_def rtrancl_into_trancl1)
qed

text \<open>A well-formed graph has edges of nodes only; \<open>AddNode\<close> keeps it so.\<close>

definition graph_wf :: "dependency_graph \<Rightarrow> bool" where
  "graph_wf g \<longleftrightarrow> dom (edges g) = dom (nodes g)"

lemma graph_wf_new [simp]: "graph_wf new_dependency_graph"
  by (simp add: graph_wf_def new_dependency_graph_def)

lemma graph_wf_add_node [simp]: "graph_wf g \<Longrightarrow> graph_wf (add_node g n v ds)"
  by (simp add: graph_wf_def add_node_def)

lemma edges_of_outside: "graph_wf g \<Longrightarrow> n \<notin> dom (nodes g) \<Longrightarrow> edges_of g n = []"
  by (auto simp: graph_wf_def edges_of_def split: option.splits)

lemma edge_rel_UNIV:
  "graph_wf g \<Longrightarrow> edge_rel UNIV (edges_of g) = edge_rel (dom (nodes g)) (edges_of g)"
  using edges_of_outside by (fastforce simp: edge_rel_def)

lemma acyclic_edge_subset: "acyclic (edge_rel F E) \<Longrightarrow> V \<subseteq> F \<Longrightarrow> acyclic (edge_rel V E)"
  by (erule acyclic_subset) (auto simp: edge_rel_def)

lemma detect_cycle_cases:
  assumes wf: "graph_wf g" and ns: "set ns = dom (nodes g)"
  obtains "detect_cycle g ns = Some None" "acyclic (edge_rel (dom (nodes g)) (edges_of g))"
    | p where "detect_cycle g ns = Some (Some p)" "closing (edges_of g) p"
      "\<not> acyclic (edge_rel (dom (nodes g)) (edges_of g))"
proof -
  let ?E = "edges_of g"
  define U where "U = set ns \<union> set (concat (map ?E ns))"
  have U: "finite U" "\<And>n. n \<in> U \<Longrightarrow> set (?E n) \<subseteq> U" "set ns \<subseteq> U"
    using edges_of_outside[OF wf] ns unfolding U_def by fastforce+
  have "card U \<le> length ns + length (concat (map ?E ns))"
    unfolding U_def by (metis card_length length_append set_append)
  then have fuel: "card U \<le> Suc (length ns + length (concat (map ?E ns)))" by simp
  have ok: "dfs_ok ?E dfs_init"
    by (simp add: dfs_ok_def dfs_init_def finished_def walk_def edge_rel_def acyclic_def)
  from detect_roots_spec[OF U fuel ok] obtain r where
    r: "detect_cycle g ns = Some r" and
    c: "case r of None \<Rightarrow> \<exists>s'. dfs_ok ?E s' \<and> finished dfs_init \<subseteq> finished s' \<and> set ns \<subseteq> finished s'
        | Some p \<Rightarrow> closing ?E p"
    by (auto simp: detect_cycle_def dfs_init_def)
  show thesis
  proof (cases r)
    case None
    then obtain s' where "dfs_ok ?E s'" "set ns \<subseteq> finished s'" using c by auto
    then have "acyclic (edge_rel (dom (nodes g)) ?E)"
      unfolding ns[symmetric] dfs_ok_def by (blast intro: acyclic_edge_subset)
    then show thesis using that(1) r None by simp
  next
    case (Some p)
    then show thesis using that(2) r c closing_not_acyclic[of ?E p] edge_rel_UNIV[OF wf] by simp
  qed
qed


subsection \<open>Topological sort\<close>

lemma bump_fold: "fold (\<lambda>t d. d(t := d t + 1)) ts d u = (d u + int (count_list ts u) :: int)"
  by (induction ts arbitrary: d) auto

lemma in_degree_sum: "in_degree g ns t = (\<Sum>n \<leftarrow> ns. int (count_list (edges_of g n) t))"
proof -
  have "fold (\<lambda>n d. fold (\<lambda>t d. d(t := d t + 1)) (edges_of g n) d) ns d t =
      d t + (\<Sum>n \<leftarrow> ns. int (count_list (edges_of g n) t))" for d :: degrees
    by (induction ns arbitrary: d) (auto simp: bump_fold)
  then show ?thesis by (simp add: in_degree_def)
qed

text \<open>The keys of the in-degree map: the nodes and the targets of the edges.\<close>

definition degree_keys :: "dependency_graph \<Rightarrow> string set" where
  "degree_keys g = dom (nodes g) \<union> (\<Union>n. set (edges_of g n))"

definition all_targets_present :: "dependency_graph \<Rightarrow> bool" where
  "all_targets_present g \<longleftrightarrow> (\<forall>n. set (edges_of g n) \<subseteq> dom (nodes g))"

lemma degree_keys_closed: "degree_keys g = dom (nodes g) \<longleftrightarrow> all_targets_present g"
  by (auto simp: degree_keys_def all_targets_present_def)

text \<open>The keys no cycle leads to: what the loop can emit.\<close>

definition sortable :: "dependency_graph \<Rightarrow> string set" where
  "sortable g = {t \<in> degree_keys g. \<forall>n. (n, n) \<in> (edge_rel (dom (nodes g)) (edges_of g))\<^sup>+ \<longrightarrow>
     (n, t) \<notin> (edge_rel (dom (nodes g)) (edges_of g))\<^sup>*}"

lemma sortable_sub: "sortable g \<subseteq> degree_keys g"
  by (auto simp: sortable_def)

lemma sortable_all:
  "sortable g = degree_keys g \<longleftrightarrow> acyclic (edge_rel (dom (nodes g)) (edges_of g))"
proof
  assume all: "sortable g = degree_keys g"
  show "acyclic (edge_rel (dom (nodes g)) (edges_of g))"
  proof (rule acyclicI, rule allI, rule notI)
    fix n
    assume c: "(n, n) \<in> (edge_rel (dom (nodes g)) (edges_of g))\<^sup>+"
    then have "n \<in> degree_keys g" by (auto simp: edge_rel_def degree_keys_def dest: tranclD)
    then show False using all c by (auto simp: sortable_def)
  qed
qed (auto simp: sortable_def acyclic_def)

lemma topological_sort_cases:
  assumes wf: "graph_wf g" and ns: "distinct ns" "set ns = dom (nodes g)"
    and ks: "distinct ks" "set ks = degree_keys g"
  obtains out where
    "topological_sort g ns ks = (if length out \<noteq> length ns then Inl (CircularDependency []) else Inr out)"
    "distinct out" "topo (dom (nodes g)) (edges_of g) out" "set out = sortable g"
proof -
  let ?V = "set ks" and ?d = "in_degree g ns" and ?q = "filter (\<lambda>n. in_degree g ns n = 0) ks"
  have sub: "dom (nodes g) \<subseteq> ?V" and cl: "set (edges_of g n) \<subseteq> ?V" for n
    by (auto simp: ks(2) degree_keys_def)
  have rel: "edge_rel ?V (edges_of g) = edge_rel (dom (nodes g)) (edges_of g)"
    using sub edges_of_outside[OF wf] by (fastforce simp: edge_rel_def)
  have deg: "?d t = (\<Sum>m \<in> ?V. int (count_list (edges_of g m) t))" for t
  proof -
    have "?d t = (\<Sum>m \<in> dom (nodes g). int (count_list (edges_of g m) t))"
      using ns by (simp add: in_degree_sum sum_list_distinct_conv_sum_set)
    also have "\<dots> = (\<Sum>m \<in> ?V. int (count_list (edges_of g m) t))"
      using sub by (intro sum.mono_neutral_left) (simp_all add: edges_of_outside[OF wf])
    finally show ?thesis .
  qed
  have q: "distinct ?q" "set ?q = {t \<in> ?V. ?d t = 0}" using ks(1) by auto
  obtain out where out: "kahn_loop enq_fifo (edges_of g) (length ks) ?d ?q [] = Some out"
    "distinct out" "topo ?V (edges_of g) out" "set out = released ?V (edges_of g)"
    by (rule fifo.kahn_loop_exact[OF finite_set cl deg q card_length])
  have "topo (dom (nodes g)) (edges_of g) out"
    using out(3) by (simp only: topo_def rel)
  moreover have "set out = sortable g"
    using out(4) rel unfolding released_def sortable_def ks(2) by simp
  ultimately show thesis
    using that[of out] out(1,2) by (simp add: topological_sort_def)
qed

lemma topological_sort_complete:
  assumes wf: "graph_wf g" and ns: "distinct ns" "set ns = dom (nodes g)"
    and ks: "distinct ks" "set ks = degree_keys g" and cl: "all_targets_present g"
  shows "(\<exists>out. topological_sort g ns ks = Inr out) \<longleftrightarrow>
      acyclic (edge_rel (dom (nodes g)) (edges_of g))"
    and "topological_sort g ns ks = Inr out \<Longrightarrow>
      distinct out \<and> set out = dom (nodes g) \<and> topo (dom (nodes g)) (edges_of g) out"
proof -
  obtain o1 where o1:
    "topological_sort g ns ks = (if length o1 \<noteq> length ns then Inl (CircularDependency []) else Inr o1)"
    "distinct o1" "topo (dom (nodes g)) (edges_of g) o1" "set o1 = sortable g"
    by (rule topological_sort_cases[OF wf ns ks])
  have keys: "degree_keys g = dom (nodes g)" using cl by (simp add: degree_keys_closed)
  have sub: "set o1 \<subseteq> dom (nodes g)" and all: "set o1 = dom (nodes g) \<longleftrightarrow>
      acyclic (edge_rel (dom (nodes g)) (edges_of g))"
    using o1(4) sortable_sub[of g] sortable_all[of g] keys by simp_all
  have len: "length o1 = length ns \<longleftrightarrow> set o1 = dom (nodes g)"
    using o1(2) sub ns by (metis card_subset_eq distinct_card finite_set)
  show "(\<exists>out. topological_sort g ns ks = Inr out) \<longleftrightarrow>
      acyclic (edge_rel (dom (nodes g)) (edges_of g))"
    using o1(1) all len by simp
  show "topological_sort g ns ks = Inr out \<Longrightarrow>
      distinct out \<and> set out = dom (nodes g) \<and> topo (dom (nodes g)) (edges_of g) out"
    using o1(1,2,3) len by (simp split: if_splits)
qed

subsection \<open>The graph the resolver builds\<close>

definition dep_names :: "plugin_info \<Rightarrow> string list" where
  "dep_names p = map (fst \<circ> parse_dependency_spec) (pi_dependencies p)"

text \<open>The specification: who depends on whom, by name.\<close>

definition depends_rel :: "plugin_info list \<Rightarrow> (string \<times> string) set" where
  "depends_rel ps = {(pi_name p, d) |p d. p \<in> set ps \<and> d \<in> set (dep_names p)}"

lemma build_graph_snoc:
  "build_graph (ps @ [p]) = add_node (build_graph ps) (pi_name p) (pi_version p) (plugin_deps p)"
  by (simp add: build_graph_def)

lemma graph_wf_build [simp]: "graph_wf (build_graph ps)"
  by (induction ps rule: rev_induct) (simp_all add: build_graph_snoc, simp add: build_graph_def)

lemma dom_upd_if: "dom (\<lambda>a. if a = n then Some x else m a) = insert n (dom m)"
  by (auto simp: dom_def)

lemma build_graph_nodes: "dom (nodes (build_graph ps)) = pi_name ` set ps"
proof (induction ps rule: rev_induct)
  case Nil
  then show ?case by (simp add: build_graph_def new_dependency_graph_def)
next
  case (snoc p ps)
  then show ?case by (simp add: build_graph_snoc add_node_def dom_upd_if)
qed

lemma map_dep_name: "map dep_name (plugin_deps p) = dep_names p"
  by (simp add: plugin_deps_def dep_names_def)

lemma build_graph_edges:
  "distinct (map pi_name ps) \<Longrightarrow> p \<in> set ps \<Longrightarrow> edges_of (build_graph ps) (pi_name p) = dep_names p"
proof (induction ps rule: rev_induct)
  case (snoc q ps)
  show ?case
  proof (cases "p = q")
    case True
    then show ?thesis by (simp add: build_graph_snoc add_node_def edges_of_def map_dep_name)
  next
    case False
    then have "p \<in> set ps" using snoc.prems by simp
    moreover from this have "pi_name p \<in> pi_name ` set ps" by (rule imageI)
    moreover from this have "pi_name p \<noteq> pi_name q" using snoc.prems(1) by auto
    ultimately show ?thesis using snoc by (simp add: build_graph_snoc add_node_def edges_of_def)
  qed
qed simp

lemma build_graph_edge_rel:
  "distinct (map pi_name ps) \<Longrightarrow>
     edge_rel (dom (nodes (build_graph ps))) (edges_of (build_graph ps)) = depends_rel ps"
  unfolding build_graph_nodes edge_rel_def depends_rel_def using build_graph_edges by fastforce

lemma plugin_map_snoc: "plugin_map (ps @ [p]) = (plugin_map ps)(pi_name p \<mapsto> p)"
  by (simp add: plugin_map_def)

lemma plugin_map_dom: "dom (plugin_map ps) = pi_name ` set ps"
  by (induction ps rule: rev_induct) (simp_all add: plugin_map_snoc dom_upd_if, simp add: plugin_map_def)

lemma plugin_map_name: "plugin_map ps n = Some p \<Longrightarrow> pi_name p = n \<and> p \<in> set ps"
  by (induction ps rule: rev_induct) (auto simp: plugin_map_snoc plugin_map_def split: if_splits)

lemma validate_specs_None:
  "validate_specs m n specs = None \<longleftrightarrow>
     (fst \<circ> parse_dependency_spec) ` set specs \<subseteq> dom m"
  by (induction specs) (auto simp: Let_def)

lemma validate_plugins_None:
  "validate_plugins m ps = None \<longleftrightarrow> (\<forall>p \<in> set ps. set (dep_names p) \<subseteq> dom m)"
proof (induction ps)
  case (Cons p ps)
  have "validate_specs m (pi_name p) (pi_dependencies p) = None \<longleftrightarrow> set (dep_names p) \<subseteq> dom m"
    by (simp add: validate_specs_None dep_names_def)
  then show ?case using Cons.IH by (cases "validate_specs m (pi_name p) (pi_dependencies p)") simp_all
qed simp

lemma validate_dependencies_None:
  "validate_dependencies ps = None \<longleftrightarrow> (\<forall>p \<in> set ps. set (dep_names p) \<subseteq> pi_name ` set ps)"
  by (simp add: validate_dependencies_def validate_plugins_None plugin_map_dom)



lemma set_map_filter_names:
  "distinct (map pi_name ps) \<Longrightarrow> set order = pi_name ` set ps \<Longrightarrow>
     set (List.map_filter (plugin_map ps) order) = set ps"
  "set order \<subseteq> pi_name ` set ps \<Longrightarrow> map pi_name (List.map_filter (plugin_map ps) order) = order"
proof -
  have get: "plugin_map ps (pi_name p) = Some p" if "distinct (map pi_name ps)" "p \<in> set ps" for p
  proof -
    have "pi_name p \<in> dom (plugin_map ps)" using that(2) by (simp add: plugin_map_dom)
    then obtain q where q: "plugin_map ps (pi_name p) = Some q" by auto
    then have "pi_name q = pi_name p" "q \<in> set ps" using plugin_map_name by blast+
    then show ?thesis using q that by (simp add: distinct_map inj_on_def)
  qed
  show "set (List.map_filter (plugin_map ps) order) = set ps"
    if d: "distinct (map pi_name ps)" and s: "set order = pi_name ` set ps"
  proof -
    have "map (plugin_map ps) order = map (Some \<circ> inv_into (set ps) pi_name) order"
      using s get[OF d] by (auto simp: inv_into_f_f d[unfolded distinct_map])
    then have "List.map_filter (plugin_map ps) order = map (inv_into (set ps) pi_name) order"
      by (induction order) (simp_all add: map_filter_simps)
    then show ?thesis using s d by (simp add: distinct_map image_image inv_into_f_f)
  qed
  show "set order \<subseteq> pi_name ` set ps \<Longrightarrow> map pi_name (List.map_filter (plugin_map ps) order) = order"
  proof (induction order)
    case (Cons n order)
    then have "n \<in> dom (plugin_map ps)" by (simp add: plugin_map_dom)
    then obtain p where "plugin_map ps n = Some p" by auto
    then show ?case using Cons plugin_map_name by (auto simp: map_filter_simps)
  qed (simp add: map_filter_simps)
qed

lemma available_targets:
  assumes "distinct (map pi_name ps)" "validate_dependencies ps = None"
  shows "all_targets_present (build_graph ps)"
proof -
  have "set (edges_of (build_graph ps) n) \<subseteq> pi_name ` set ps" for n
  proof (cases "n \<in> pi_name ` set ps")
    case True
    then obtain p where p: "p \<in> set ps" "n = pi_name p" by auto
    have "set (dep_names p) \<subseteq> pi_name ` set ps"
      using assms(2) p(1) by (simp add: validate_dependencies_None)
    then show ?thesis using build_graph_edges[OF assms(1) p(1)] p(2) by simp
  next
    case False
    then show ?thesis using edges_of_outside[of "build_graph ps" n] by (simp add: build_graph_nodes)
  qed
  then show ?thesis by (simp add: all_targets_present_def build_graph_nodes)
qed

text \<open>The resolver on available plugins with distinct names; \<open>ns\<close> enumerates the names.\<close>

lemma resolve_available:
  assumes d: "distinct (map pi_name ps)" and ns: "distinct ns" "set ns = pi_name ` set ps"
    and ks: "distinct ks" "set ks = pi_name ` set ps" and av: "validate_dependencies ps = None"
  shows "(\<exists>r. resolve ns ks ps = Inr r) \<longleftrightarrow> acyclic (depends_rel ps)"
    and "resolve ns ks ps = Inr r \<Longrightarrow>
      distinct r \<and> set r = pi_name ` set ps \<and> topo (pi_name ` set ps) (edges_of (build_graph ps)) r"
proof -
  let ?g = "build_graph ps"
  have wf: "graph_wf ?g" and nsd: "set ns = dom (nodes ?g)" by (simp_all add: ns build_graph_nodes)
  have cl: "all_targets_present ?g" by (rule available_targets[OF d av])
  have ksd: "set ks = degree_keys ?g" using ks cl by (simp add: degree_keys_closed[THEN iffD2] build_graph_nodes)
  note ts = topological_sort_complete[OF wf ns(1) nsd ks(1) ksd cl]
  show "(\<exists>r. resolve ns ks ps = Inr r) \<longleftrightarrow> acyclic (depends_rel ps)"
    unfolding build_graph_edge_rel[OF d, symmetric]
    by (rule detect_cycle_cases[OF wf nsd]) (use ts(1) in \<open>auto simp: resolve_def Let_def\<close>)
  show "resolve ns ks ps = Inr r \<Longrightarrow>
      distinct r \<and> set r = pi_name ` set ps \<and> topo (pi_name ` set ps) (edges_of ?g) r"
    using ts(2)[of r] by (auto simp: resolve_def Let_def build_graph_nodes split: option.splits)
qed

subsection \<open>Properties\<close>

text \<open>
  On every graph, whatever the iteration order of the node map, \<open>DetectCycle\<close> returns, and it
  returns nil exactly when the edges form no cycle; a list it returns is a walk along edges whose
  last node has an edge back to a node of the walk (the walk from the root of the search, not the
  cycle alone).
\<close>

lemma detect_cycle_correct:
  assumes "graph_wf g" and "set ns = dom (nodes g)"
  shows "\<exists>r. detect_cycle g ns = Some r \<and>
    (r = None \<longleftrightarrow> acyclic (edge_rel (dom (nodes g)) (edges_of g))) \<and>
    (\<forall>p. r = Some p \<longrightarrow> closing (edges_of g) p)"
  by (rule detect_cycle_cases[OF assms]) auto

definition sample_plugin :: "string \<Rightarrow> string list \<Rightarrow> plugin_info" where
  "sample_plugin n deps = \<lparr>pi_name = n, pi_version = ''1.0.0'', pi_dependencies = deps\<rparr>"

lemma detect_cycle_correct_example:
  "detect_cycle (build_graph [sample_plugin ''a'' [''b''], sample_plugin ''b'' [''b'']]) [''a'', ''b''] =
     Some (Some [''a'', ''b'']) \<and>
   \<not> acyclic (edge_rel (dom (nodes (build_graph [sample_plugin ''a'' [''b''], sample_plugin ''b'' [''b'']])))
     (edges_of (build_graph [sample_plugin ''a'' [''b''], sample_plugin ''b'' [''b'']])))"
proof -
  let ?g = "build_graph [sample_plugin ''a'' [''b''], sample_plugin ''b'' [''b'']]"
  have r: "detect_cycle ?g [''a'', ''b''] = Some (Some [''a'', ''b''])" by code_simp
  have "set [''a'', ''b''] = dom (nodes ?g)"
    unfolding build_graph_nodes by (simp add: sample_plugin_def)
  from detect_cycle_correct[OF _ this] r show ?thesis by simp
qed

text \<open>
  C28: For every iteration order of the maps, \<open>TopologicalSort\<close> emits exactly the nodes and dependency
  names that no cycle leads to, once each, and a name comes after all the nodes that depend on it; it
  succeeds exactly when these are as many as the nodes, and otherwise answers the circular-dependency
  error. So when every dependency is a node it succeeds exactly on the acyclic graphs, with every
  node listed; when some dependency is not a node, it fails on every acyclic graph, and may succeed
  on a cyclic one (\<open>cyclic_graph_sorted\<close>). Dependents come before their dependencies, where the
  comment of \<open>Resolve\<close> promises the opposite.
\<close>

theorem topological_sort_correct:
  assumes "graph_wf g" and "distinct ns" and "set ns = dom (nodes g)"
    and "distinct ks" and "set ks = degree_keys g"
  shows "(if card (sortable g) = card (dom (nodes g))
     then \<exists>out. topological_sort g ns ks = Inr out \<and> distinct out \<and> set out = sortable g \<and>
       topo (dom (nodes g)) (edges_of g) out
     else topological_sort g ns ks = Inl (CircularDependency [])) \<and>
    (all_targets_present g \<longrightarrow>
      ((\<exists>out. topological_sort g ns ks = Inr out) \<longleftrightarrow> acyclic (edge_rel (dom (nodes g)) (edges_of g))) \<and>
      (\<forall>out. topological_sort g ns ks = Inr out \<longrightarrow>
        distinct out \<and> set out = dom (nodes g) \<and> topo (dom (nodes g)) (edges_of g) out)) \<and>
    (\<not> all_targets_present g \<and> acyclic (edge_rel (dom (nodes g)) (edges_of g)) \<longrightarrow>
      topological_sort g ns ks = Inl (CircularDependency []))"
proof -
  obtain out where ts: "topological_sort g ns ks =
      (if length out \<noteq> length ns then Inl (CircularDependency []) else Inr out)"
    and out: "distinct out" "topo (dom (nodes g)) (edges_of g) out" "set out = sortable g"
    by (rule topological_sort_cases[OF assms])
  have len: "length out = card (sortable g)" "length ns = card (dom (nodes g))"
    using out(1,3) assms(2,3) by (metis distinct_card)+
  have "card (dom (nodes g)) < card (sortable g)"
    if "\<not> all_targets_present g" "acyclic (edge_rel (dom (nodes g)) (edges_of g))"
  proof (rule psubset_card_mono)
    show "finite (sortable g)" by (metis finite_set out(3))
    show "dom (nodes g) \<subset> sortable g"
      using that unfolding sortable_all[symmetric] degree_keys_closed[symmetric]
      by (auto simp: degree_keys_def)
  qed
  then have "topological_sort g ns ks = Inl (CircularDependency [])"
    if "\<not> all_targets_present g" "acyclic (edge_rel (dom (nodes g)) (edges_of g))"
    using that ts len by fastforce
  moreover have "if card (sortable g) = card (dom (nodes g))
     then \<exists>out. topological_sort g ns ks = Inr out \<and> distinct out \<and> set out = sortable g \<and>
       topo (dom (nodes g)) (edges_of g) out
     else topological_sort g ns ks = Inl (CircularDependency [])"
    using ts out len by simp
  ultimately show ?thesis using topological_sort_complete[OF assms] by blast
qed

theorem topological_sort_correct_witness:
  "topological_sort (build_graph [sample_plugin ''app'' [''lib''], sample_plugin ''lib'' []])
     [''app'', ''lib''] [''lib'', ''app''] = Inr [''app'', ''lib''] \<and>
   topo {''app'', ''lib''} (edges_of (build_graph [sample_plugin ''app'' [''lib''], sample_plugin ''lib'' []]))
     [''app'', ''lib'']"
proof -
  let ?ps = "[sample_plugin ''app'' [''lib''], sample_plugin ''lib'' []]"
  let ?g = "build_graph ?ps"
  have v: "validate_dependencies ?ps = None" by code_simp
  have cl: "all_targets_present ?g" by (rule available_targets[OF _ v]) (simp add: sample_plugin_def)
  have n: "dom (nodes ?g) = {''app'', ''lib''}" by (simp add: build_graph_nodes sample_plugin_def)
  have k: "degree_keys ?g = {''app'', ''lib''}" using cl n by (simp add: degree_keys_closed[THEN iffD2])
  have r: "topological_sort ?g [''app'', ''lib''] [''lib'', ''app''] = Inr [''app'', ''lib'']" by code_simp
  have "graph_wf ?g" "distinct [''app'', ''lib'']" "set [''app'', ''lib''] = dom (nodes ?g)"
    "distinct [''lib'', ''app'']" "set [''lib'', ''app''] = degree_keys ?g"
    by (simp_all add: n k insert_commute del: build_graph_nodes)
  from topological_sort_correct[OF this] cl r n show ?thesis by simp
qed


text \<open>
  With an absent dependency the number of emitted names can make up for the nodes held back by a
  cycle: two nodes, one depending on itself and one on a name that is not a node, sort without an
  error, to a list that lacks the first node and holds the absent name. \<open>Resolve\<close> is protected by
  \<open>DetectCycle\<close>; a caller of \<open>TopologicalSort\<close> is not.
\<close>

lemma cyclic_graph_sorted:
  "let g = build_graph [sample_plugin ''a'' [''a''], sample_plugin ''b'' [''x'']] in
   topological_sort g [''a'', ''b''] [''a'', ''b'', ''x''] = Inr [''b'', ''x''] \<and>
   \<not> acyclic (edge_rel (dom (nodes g)) (edges_of g))"
proof -
  let ?ps = "[sample_plugin ''a'' [''a''], sample_plugin ''b'' [''x'']]"
  have t: "topological_sort (build_graph ?ps) [''a'', ''b''] [''a'', ''b'', ''x''] = Inr [''b'', ''x'']"
    by code_simp
  have "dep_names (sample_plugin ''a'' [''a'']) = [''a'']" by code_simp
  then have "(pi_name (sample_plugin ''a'' [''a'']), ''a'') \<in> depends_rel ?ps"
    unfolding depends_rel_def by fastforce
  then have "(''a'', ''a'') \<in> depends_rel ?ps" by (simp add: sample_plugin_def)
  moreover have "distinct (map pi_name ?ps)" by (simp add: sample_plugin_def)
  ultimately have "(''a'', ''a'') \<in> edge_rel (dom (nodes (build_graph ?ps))) (edges_of (build_graph ?ps))"
    using build_graph_edge_rel by blast
  then have "\<not> acyclic (edge_rel (dom (nodes (build_graph ?ps))) (edges_of (build_graph ?ps)))"
    by (auto simp: acyclic_def)
  then show ?thesis using t by (simp add: Let_def)
qed

lemma get_load_order_listed:
  assumes d: "distinct (map pi_name ps)" and ns: "distinct ns" "set ns = pi_name ` set ps"
    and ks: "distinct ks" "set ks = pi_name ` set ps" and g: "get_load_order ns ks ps = Inr r"
  shows "distinct r \<and> set r = set ps \<and>
      (\<forall>xs q ys p. r = xs @ q # ys \<and> p \<in> set ps \<and> pi_name q \<in> set (dep_names p) \<longrightarrow> p \<in> set xs)"
proof -
  have None: "validate_dependencies ps = None"
    using g by (simp add: get_load_order_def split: option.splits)
  note rs = resolve_available[OF d ns ks None]
  obtain ord where ord: "resolve ns ks ps = Inr ord" "r = List.map_filter (plugin_map ps) ord"
    using g None by (auto simp: get_load_order_def split: sum.splits)
  have o: "distinct ord" "set ord = pi_name ` set ps"
    "topo (pi_name ` set ps) (edges_of (build_graph ps)) ord" using rs(2)[OF ord(1)] by auto
  have r: "map pi_name r = ord" "set r = set ps"
    using set_map_filter_names(1)[of ps ord] set_map_filter_names(2)[of ord ps] d o(2) ord(2)
    by simp_all
  have "p \<in> set xs" if "r = xs @ q # ys" "p \<in> set ps" "pi_name q \<in> set (dep_names p)" for xs q ys p
  proof -
    have "(pi_name p, pi_name q) \<in> edge_rel (pi_name ` set ps) (edges_of (build_graph ps))"
      using that(2,3) build_graph_edges[OF d that(2)] by (simp add: edge_rel_def)
    moreover have "ord = map pi_name xs @ pi_name q # map pi_name ys" using that(1) r(1) by auto
    ultimately have "pi_name p \<in> pi_name ` set xs" using o(3) unfolding topo_def set_map[symmetric] by blast
    then obtain x where x: "x \<in> set xs" "pi_name x = pi_name p" by auto
    have "x \<in> set ps" using x(1) that(1) r(2) by auto
    then have "x = p" using x(2) that(2) d by (simp add: distinct_map inj_on_def)
    then show ?thesis using x(1) by simp
  qed
  moreover have "distinct r" using r(1) o(1) by (metis distinct_map)
  ultimately show ?thesis using r(2) by blast
qed

lemma load_order_backwards:
  assumes "distinct (map pi_name ps)" and "distinct ns" "set ns = pi_name ` set ps"
    and "distinct ks" "set ks = pi_name ` set ps" and "get_load_order ns ks ps = Inr r"
    and "p \<in> set ps" "q \<in> set ps" "pi_name q \<in> set (dep_names p)"
  shows "\<exists>xs ys zs. r = xs @ p # ys @ q # zs"
proof -
  note l = get_load_order_listed[OF assms(1-6)]
  then have "q \<in> set r" using assms(8) by simp
  then obtain xs zs where r: "r = xs @ q # zs" by (meson split_list)
  then have "p \<in> set xs" using l assms(7,9) by blast
  then show ?thesis using r by (metis append.assoc append_Cons split_list)
qed

text \<open>
  C29: For plugins with distinct names, \<open>GetLoadOrder\<close> succeeds exactly when every dependency is
  among the plugins and the dependency relation has no cycle; a result holds every plugin exactly
  once, each one after all the plugins that depend on it. The comment of \<open>Resolve\<close>, on
  which it is built, promises the reverse, dependencies first, so loading the plugins in the order returned starts a
  dependent before what it needs; \<open>load_order_backwards\<close> shows that whenever one plugin depends on
  another no result keeps the promise.
\<close>

theorem get_load_order_correct:
  assumes "distinct (map pi_name ps)" and "distinct ns" and "set ns = pi_name ` set ps"
    and "distinct ks" and "set ks = pi_name ` set ps"
  shows "((\<exists>r. get_load_order ns ks ps = Inr r) \<longleftrightarrow>
      (\<forall>p \<in> set ps. set (dep_names p) \<subseteq> pi_name ` set ps) \<and> acyclic (depends_rel ps)) \<and>
    (\<forall>r. get_load_order ns ks ps = Inr r \<longrightarrow> distinct r \<and> set r = set ps \<and>
      (\<forall>xs q ys p. r = xs @ q # ys \<and> p \<in> set ps \<and> pi_name q \<in> set (dep_names p) \<longrightarrow> p \<in> set xs))"
proof (cases "validate_dependencies ps")
  case (Some e)
  then show ?thesis using validate_dependencies_None[of ps] by (auto simp: get_load_order_def)
next
  case None
  note rs = resolve_available[OF assms None]
  have av: "\<forall>p \<in> set ps. set (dep_names p) \<subseteq> pi_name ` set ps"
    using None by (simp add: validate_dependencies_None)
  have "(\<exists>r. get_load_order ns ks ps = Inr r) \<longleftrightarrow> (\<exists>r. resolve ns ks ps = Inr r)"
    using None by (auto simp: get_load_order_def split: sum.splits)
  then show ?thesis using rs(1) av get_load_order_listed[OF assms] by blast
qed

theorem get_load_order_correct_witness:
  "get_load_order [''app'', ''lib''] [''lib'', ''app'']
     [sample_plugin ''lib'' [], sample_plugin ''app'' [''lib@>=1.0'']] =
   Inr [sample_plugin ''app'' [''lib@>=1.0''], sample_plugin ''lib'' []] \<and>
   acyclic (depends_rel [sample_plugin ''lib'' [], sample_plugin ''app'' [''lib@>=1.0'']])"
proof -
  let ?ps = "[sample_plugin ''lib'' [], sample_plugin ''app'' [''lib@>=1.0'']]"
  have r: "get_load_order [''app'', ''lib''] [''lib'', ''app''] ?ps =
     Inr [sample_plugin ''app'' [''lib@>=1.0''], sample_plugin ''lib'' []]" by code_simp
  have "distinct (map pi_name ?ps)" "distinct [''app'', ''lib'']" "set [''app'', ''lib''] = pi_name ` set ?ps"
    "distinct [''lib'', ''app'']" "set [''lib'', ''app''] = pi_name ` set ?ps"
    by (auto simp: sample_plugin_def)
  from get_load_order_correct[OF this] r show ?thesis by blast
qed


definition spec_satisfied :: "(string \<rightharpoonup> plugin_info) \<Rightarrow> string \<Rightarrow> bool" where
  "spec_satisfied reg spec = (case parse_dependency_spec spec of (name, constraint) \<Rightarrow>
     case reg name of None \<Rightarrow> False
     | Some info \<Rightarrow> constraint = [] \<or> pi_version info \<noteq> [] \<and>
         (case parse_version_constraint constraint of Inl _ \<Rightarrow> False
          | Inr vc \<Rightarrow> check_version vc (pi_version info)))"

lemma check_specs_one_cons:
  "(check_specs reg [s] = None \<longleftrightarrow> spec_satisfied reg s) \<and>
   check_specs reg (s # ss) = (if spec_satisfied reg s then check_specs reg ss else check_specs reg [s])"
proof -
  obtain n c where nc: "parse_dependency_spec s = (n, c)" by fastforce
  show ?thesis
  proof (cases "reg n")
    case (Some info)
    show ?thesis
    proof (cases "c = [] \<or> pi_version info = []")
      case True
      then show ?thesis using nc Some by (auto simp: spec_satisfied_def)
    next
      case False
      then show ?thesis using nc Some
        by (cases "parse_version_constraint c") (simp_all add: spec_satisfied_def)
    qed
  qed (simp add: nc spec_satisfied_def)
qed

text \<open>
  \<open>CheckDependencies\<close> accepts a plugin exactly when each of its specifications names a
  registered plugin whose version, where a constraint is given, is declared and satisfies the parsed
  constraint; when it rejects, the error is the error of the first specification that fails.
\<close>

lemma check_dependencies_correct:
  "(check_dependencies reg p = None \<longleftrightarrow> filter (\<lambda>s. \<not> spec_satisfied reg s) (pi_dependencies p) = []) \<and>
   check_dependencies reg p =
     (case filter (\<lambda>s. \<not> spec_satisfied reg s) (pi_dependencies p) of
        [] \<Rightarrow> None | s # _ \<Rightarrow> check_specs reg [s])"
proof -
  have main: "check_specs reg ss =
      (case filter (\<lambda>s. \<not> spec_satisfied reg s) ss of [] \<Rightarrow> None | s # _ \<Rightarrow> check_specs reg [s])" for ss
  proof (induction ss)
    case (Cons s ss)
    then show ?case
      using check_specs_one_cons[of reg s ss] by (cases "spec_satisfied reg s") (simp_all del: check_specs.simps(2))
  qed simp
  have "check_specs reg ss = None \<longleftrightarrow> filter (\<lambda>s. \<not> spec_satisfied reg s) ss = []" for ss
  proof (induction ss)
    case (Cons s ss)
    then show ?case
      using check_specs_one_cons[of reg s ss] by (cases "spec_satisfied reg s") (simp_all del: check_specs.simps(2))
  qed simp
  then show ?thesis using main unfolding check_dependencies_def by blast
qed


subsection \<open>The dependency tree\<close>

text \<open>What a registered plugin's tree needs: the trees of the names its specifications give.\<close>

definition reg_rel :: "(string \<rightharpoonup> plugin_info) \<Rightarrow> (string \<times> string) set" where
  "reg_rel reg = {(n, d). \<exists>info. reg n = Some info \<and> d \<in> set (dep_names info)}"

lemma build_children_None:
  "build_children fuel reg specs = None \<longleftrightarrow>
     (\<exists>s \<in> set specs. build_tree fuel reg (fst (parse_dependency_spec s)) = None)"
  by (induction specs) (auto split: option.splits sum.splits)

lemma build_tree_None:
  "build_tree fuel reg n = None \<longleftrightarrow>
     fuel = 0 \<or> (\<exists>d. (n, d) \<in> reg_rel reg \<and> build_tree (fuel - 1) reg d = None)"
proof (cases fuel)
  case (Suc f)
  show ?thesis
  proof (cases "reg n")
    case None
    then show ?thesis using Suc by (simp add: reg_rel_def)
  next
    case (Some info)
    have "build_tree fuel reg n = None \<longleftrightarrow> build_children f reg (pi_dependencies info) = None"
      using Suc Some by (auto split: option.splits)
    then show ?thesis using Suc Some by (auto simp: build_children_None reg_rel_def dep_names_def)
  qed
qed simp

lemma build_tree_mono: "build_tree fuel reg n \<noteq> None \<Longrightarrow> fuel \<le> fuel' \<Longrightarrow> build_tree fuel' reg n \<noteq> None"
proof (induction fuel arbitrary: n fuel')
  case (Suc f)
  then obtain f' where f': "fuel' = Suc f'" "f \<le> f'" by (cases fuel') auto
  show ?case
  proof
    assume "build_tree fuel' reg n = None"
    then obtain d where d: "(n, d) \<in> reg_rel reg" "build_tree f' reg d = None"
      using build_tree_None[of fuel'] f'(1) by auto
    have "build_tree f reg d \<noteq> None" using Suc.prems(1) d(1) build_tree_None[of "Suc f" reg n] by auto
    then show False using Suc.IH f'(2) d(2) by blast
  qed
qed simp

lemma build_tree_descends:
  assumes "(n, d) \<in> (reg_rel reg)\<^sup>+" "build_tree fuel reg n \<noteq> None"
  shows "\<exists>f < fuel. build_tree f reg d \<noteq> None"
  using assms
proof (induction rule: trancl_induct)
  case (base d)
  have "fuel \<noteq> 0" "build_tree (fuel - 1) reg d \<noteq> None"
    using base build_tree_None[of fuel reg n] by auto
  then show ?case by (intro exI[of _ "fuel - 1"]) simp
next
  case (step d e)
  then obtain f where f: "f < fuel" "build_tree f reg d \<noteq> None" by blast
  have "f \<noteq> 0" "build_tree (f - 1) reg e \<noteq> None"
    using step(2) f(2) build_tree_None[of f reg d] by auto
  then show ?case using f(1) by (intro exI[of _ "f - 1"]) simp
qed

lemma build_tree_cycle: "(n, n) \<in> (reg_rel reg)\<^sup>+ \<Longrightarrow> build_tree fuel reg n = None"
proof (induction fuel rule: less_induct)
  case (less fuel)
  show ?case
  proof (rule ccontr)
    assume "build_tree fuel reg n \<noteq> None"
    then obtain f where "f < fuel" "build_tree f reg n \<noteq> None"
      using build_tree_descends[OF less.prems] by blast
    then show False using less.IH[OF _ less.prems] by simp
  qed
qed

lemma build_tree_returns:
  assumes "finite (dom reg)" and ac: "\<And>m. (n, m) \<in> (reg_rel reg)\<^sup>* \<Longrightarrow> (m, m) \<notin> (reg_rel reg)\<^sup>+"
  shows "\<exists>fuel. build_tree fuel reg n \<noteq> None"
proof -
  define Q where "Q = {(d, m). (m, d) \<in> reg_rel reg \<and> (n, m) \<in> (reg_rel reg)\<^sup>*}"
  have sub: "reg_rel reg \<subseteq> dom reg \<times> (\<Union>m \<in> dom reg. set (dep_names (the (reg m))))"
    by (force simp: reg_rel_def)
  have "finite (dom reg \<times> (\<Union>m \<in> dom reg. set (dep_names (the (reg m)))))"
    using assms(1) by (intro finite_cartesian_product finite_UN_I) simp_all
  then have finR: "finite (reg_rel reg)" using sub by (rule finite_subset[rotated])
  have "Q \<subseteq> (reg_rel reg)\<inverse>" by (auto simp: Q_def)
  then have fin: "finite Q" by (rule finite_subset) (simp add: finR)
  have succs: "finite (reg_rel reg `` {m})" for m using finR by (rule finite_Image)
  have Qt: "(d, m) \<in> Q\<^sup>+ \<Longrightarrow> (m, d) \<in> (reg_rel reg)\<^sup>+ \<and> (n, m) \<in> (reg_rel reg)\<^sup>*" for d m
  proof (induction rule: trancl_induct)
    case (base m)
    then show ?case unfolding Q_def by blast
  next
    case (step m k)
    then have "(k, m) \<in> reg_rel reg" "(n, k) \<in> (reg_rel reg)\<^sup>*" by (simp_all add: Q_def)
    then show ?case using step.IH by (blast intro: trancl_into_trancl2)
  qed
  have "acyclic Q"
    unfolding acyclic_def
  proof (intro allI notI)
    fix m
    assume "(m, m) \<in> Q\<^sup>+"
    then show False using Qt ac by blast
  qed
  with fin have "wf Q" by (rule finite_acyclic_wf)
  then have "(n, m) \<in> (reg_rel reg)\<^sup>* \<Longrightarrow> \<exists>fuel. build_tree fuel reg m \<noteq> None" for m
  proof (induction m rule: wf_induct_rule)
    case (less m)
    have "\<exists>f. build_tree f reg d \<noteq> None" if "(m, d) \<in> reg_rel reg" for d
    proof (rule less.IH)
      show "(d, m) \<in> Q" using that less.prems by (simp add: Q_def)
      show "(n, d) \<in> (reg_rel reg)\<^sup>*" using that less.prems by (rule rtrancl_into_rtrancl[rotated])
    qed
    then obtain f where f: "\<And>d. (m, d) \<in> reg_rel reg \<Longrightarrow> build_tree (f d) reg d \<noteq> None"
      by metis
    define k where "k = Max (insert 0 (f ` (reg_rel reg `` {m})))"
    have "f d \<le> k" if "(m, d) \<in> reg_rel reg" for d
      unfolding k_def using that succs[of m] by (intro Max_ge finite.insertI finite_imageI insertI2 imageI) simp_all
    then have "\<forall>d. (m, d) \<in> reg_rel reg \<longrightarrow> build_tree k reg d \<noteq> None"
      using build_tree_mono[OF f] by blast
    then have "build_tree (Suc k) reg m \<noteq> None"
      by (simp add: build_tree_None[of "Suc k" reg m] del: build_tree.simps)
    then show ?case by blast
  qed
  then show ?thesis by blast
qed

text \<open>
  \<open>BuildDependencyTree\<close> over a finite registry returns (a tree, or the not-found error) exactly
  when no plugin reachable from the name is on a dependency cycle; when one is, the recursion never
  ends, whatever the bound, because the builder does not look for cycles. A plugin whose tree ends is
  the root of its tree.
\<close>

lemma build_tree_ends_iff:
  assumes "finite (dom reg)"
  shows "((\<exists>fuel. build_tree fuel reg n \<noteq> None) \<longleftrightarrow>
      (\<forall>m. (n, m) \<in> (reg_rel reg)\<^sup>* \<longrightarrow> (m, m) \<notin> (reg_rel reg)\<^sup>+)) \<and>
    (\<forall>fuel r. build_tree fuel reg n = Some r \<longrightarrow>
      (case reg n of None \<Rightarrow> r = Inl (DependencyNotFound n) | Some p \<Rightarrow> \<exists>ts. r = Inr (DependencyTree p ts)))"
proof -
  have "(m, m) \<notin> (reg_rel reg)\<^sup>+"
    if "build_tree fuel reg n \<noteq> None" "(n, m) \<in> (reg_rel reg)\<^sup>*" for fuel m
    using that build_tree_descends build_tree_cycle by (metis rtranclD)
  moreover have "case reg n of None \<Rightarrow> r = Inl (DependencyNotFound n) | Some p \<Rightarrow> \<exists>ts. r = Inr (DependencyTree p ts)"
    if "build_tree fuel reg n = Some r" for fuel r
    using that by (cases fuel) (auto split: option.splits)
  ultimately show ?thesis using build_tree_returns[OF assms] by blast
qed

lemma build_tree_ends_iff_example:
  "\<forall>fuel. build_tree fuel [''a'' \<mapsto> sample_plugin ''a'' [''a'']] ''a'' = None"
proof -
  let ?reg = "[''a'' \<mapsto> sample_plugin ''a'' [''a'']]"
  have "dep_names (sample_plugin ''a'' [''a'']) = [''a'']" by code_simp
  then have "(''a'', ''a'') \<in> reg_rel ?reg" by (simp add: reg_rel_def)
  moreover have "finite (dom ?reg)" by simp
  ultimately show ?thesis using build_tree_ends_iff[of ?reg "''a''"] by blast
qed

end
