(* ===== verification/Calls.thy ===== *)
theory Calls
  imports GoBase
begin

section \<open>Calls that interleave at their locks\<close>

text \<open>
  A call of a component whose state is behind a mutex, cut where it takes the lock: a \<open>proc\<close> is a value
  returned, or a critical section with the call that continues after it. Between two sections other calls
  run; a callback of the user's runs there too. A section has a guard (the call waits until it holds) and
  may panic, which is \<open>None\<close>. The theory holds the interleavings of any number of calls (\<open>reachable\<close>)
  and the method by which the invariant of the shared state is proved for all of them: each call is
  \<open>safe\<close> by itself, relying on what the others keep of the resources it holds.
\<close>

datatype ('s, 'a) proc = Return 'a | Section "'s \<Rightarrow> bool" "'s \<Rightarrow> ('s \<times> ('s, 'a) proc) option"

primrec bind_proc :: "('s, 'a) proc \<Rightarrow> ('a \<Rightarrow> ('s, 'b) proc) \<Rightarrow> ('s, 'b) proc" where
  "bind_proc (Return a) k = k a"
| "bind_proc (Section g f) k = Section g (\<lambda>s. map_option (map_prod id (\<lambda>p. bind_proc p k)) (f s))"

definition read :: "('s \<Rightarrow> 'r) \<Rightarrow> ('r \<Rightarrow> ('s, 'a) proc) \<Rightarrow> ('s, 'a) proc" where
  "read h k = Section (\<lambda>_. True) (\<lambda>s. Some (s, k (h s)))"

definition modify :: "('s \<Rightarrow> 's) \<Rightarrow> ('s, 'a) proc \<Rightarrow> ('s, 'a) proc" where
  "modify h p = Section (\<lambda>_. True) (\<lambda>s. Some (h s, p))"

definition attempt :: "('s \<Rightarrow> ('r \<times> 's) option) \<Rightarrow> ('r \<Rightarrow> ('s, 'a) proc) \<Rightarrow> ('s, 'a) proc" where
  "attempt h k = Section (\<lambda>_. True) (\<lambda>s. map_option (\<lambda>(r, s'). (s', k r)) (h s))"

definition try_modify :: "('s \<Rightarrow> 's option) \<Rightarrow> ('s, 'a) proc \<Rightarrow> ('s, 'a) proc" where
  "try_modify h p = Section (\<lambda>_. True) (\<lambda>s. map_option (\<lambda>s'. (s', p)) (h s))"

definition wait_until :: "('s \<Rightarrow> bool) \<Rightarrow> ('s \<Rightarrow> 's) \<Rightarrow> ('s, 'a) proc \<Rightarrow> ('s, 'a) proc" where
  "wait_until g h p = Section g (\<lambda>s. Some (h s, p))"

text \<open>A call that runs alone: it returns, panics, or waits for ever in some state.\<close>

datatype ('s, 'a) run_end = Returned 'a 's | Panicked | Waits 's

primrec run_alone :: "('s, 'a) proc \<Rightarrow> 's \<Rightarrow> ('s, 'a) run_end" where
  "run_alone (Return a) s = Returned a s"
| "run_alone (Section g f) s =
     (if g s
      then (case map_option (map_prod id (\<lambda>p. run_alone p)) (f s) of None \<Rightarrow> Panicked | Some (s', r) \<Rightarrow> r s')
      else Waits s)"

lemma run_alone_sections [simp]:
  "run_alone (read h k) s = run_alone (k (h s)) s"
  "run_alone (modify h' p) s = run_alone p (h' s)"
  "run_alone (attempt h'' k'') s = (case h'' s of None \<Rightarrow> Panicked | Some (r, s') \<Rightarrow> run_alone (k'' r) s')"
  "run_alone (try_modify h3 p) s = (case h3 s of None \<Rightarrow> Panicked | Some s' \<Rightarrow> run_alone p s')"
  "run_alone (wait_until g h' p) s = (if g s then run_alone p (h' s) else Waits s)"
  by (simp_all add: read_def modify_def attempt_def try_modify_def wait_until_def split: option.splits prod.splits)

lemma run_alone_bind:
  "run_alone (bind_proc p k) s = (case run_alone p s of Returned a s' \<Rightarrow> run_alone (k a) s' | Panicked \<Rightarrow> Panicked | Waits s' \<Rightarrow> Waits s')"
proof (induction p arbitrary: s)
  case (Section g f)
  show ?case
  proof (cases "f s")
    case (Some x)
    obtain s' p where x: "x = (s', p)" by (cases x)
    have "p \<in> Basic_BNFs.snds x" "x \<in> set_option (f s)"
      using Some x by simp_all
    moreover have "f s \<in> range f" by (rule rangeI)
    ultimately show ?thesis using Section.IH[of "f s" x p s'] Some x by simp
  qed simp
qed simp

subsection \<open>All interleavings\<close>

text \<open>\<open>C\<close>: the calls that may be made; \<open>B\<close>: what goroutines of the component do by themselves.\<close>

inductive reachable :: "('s, 'a) proc set \<Rightarrow> ('s \<Rightarrow> 's \<Rightarrow> bool) \<Rightarrow> 's \<Rightarrow> 's \<Rightarrow> ('s, 'a) proc list \<Rightarrow> bool"
  for C B s0 where
  reachable_start: "reachable C B s0 s0 []"
| reachable_call: "reachable C B s0 s ps \<Longrightarrow> p \<in> C \<Longrightarrow> reachable C B s0 s (p # ps)"
| reachable_section: "reachable C B s0 s (ps @ Section g f # qs) \<Longrightarrow> g s \<Longrightarrow> f s = Some (s', p) \<Longrightarrow> reachable C B s0 s' (ps @ p # qs)"
| reachable_background: "reachable C B s0 s ps \<Longrightarrow> B s s' \<Longrightarrow> reachable C B s0 s' ps"

text \<open>A call that runs alone to its end is one of the interleavings.\<close>

lemma run_alone_reachable:
  assumes "reachable C B s0 s (p # ps)" "run_alone p s = Returned a s'"
  shows "reachable C B s0 s' (Return a # ps)"
  using assms
proof (induction p arbitrary: s)
  case (Section g f)
  obtain t q where fs: "g s" "f s = Some (t, q)" "run_alone q t = Returned a s'"
    using Section.prems(2) by (auto split: if_splits option.splits)
  have "reachable C B s0 t (q # ps)" using reachable_section[of C B s0 s "[]" g f ps t q] Section.prems(1) fs(1,2) by simp
  moreover have "(t, q) \<in> set_option (f s)" "q \<in> Basic_BNFs.snds (t, q)" using fs(2) by simp_all
  moreover have "f s \<in> range f" by (rule rangeI)
  ultimately show ?case using Section.IH[of "f s" "(t, q)" q t] fs(3) by simp
qed simp

text \<open>
  \<open>good r s\<close>: the invariant, when the calls in flight hold the resources \<open>r\<close>; \<open>rely r\<close>: what a call that
  holds \<open>r\<close> may count on, from its own last section (\<open>s0\<close>) to its next. \<open>Q\<close> holds where the call returns.
\<close>

inductive safe :: "('r::comm_monoid_add \<Rightarrow> 's \<Rightarrow> bool) \<Rightarrow> ('r \<Rightarrow> 's \<Rightarrow> 's \<Rightarrow> bool) \<Rightarrow> ('a \<Rightarrow> 'r \<Rightarrow> 's \<Rightarrow> bool)
    \<Rightarrow> 'r \<Rightarrow> 's \<Rightarrow> ('s, 'a) proc \<Rightarrow> bool"
  for good rely Q where
  safe_Return: "Q a r s0 \<Longrightarrow> safe good rely Q r s0 (Return a)"
| safe_Section:
    "(\<And>others s. good (r + others) s \<Longrightarrow> rely r s0 s \<Longrightarrow> g s \<Longrightarrow>
       \<exists>s' p r'. f s = Some (s', p) \<and> rely others s s' \<and> good (r' + others) s' \<and> safe good rely Q r' s' p) \<Longrightarrow>
     safe good rely Q r s0 (Section g f)"

inductive_cases safe_ReturnE: "safe good rely Q r s0 (Return a)"
inductive_cases safe_SectionE: "safe good rely Q r s0 (Section g f)"

lemma safe_bind:
  assumes "safe good rely Q r s0 p" "\<And>a r s. Q a r s \<Longrightarrow> safe good rely Q' r s (k a)"
  shows "safe good rely Q' r s0 (bind_proc p k)"
  using assms(1)
proof (induction rule: safe.induct)
  case (safe_Return a r s0)
  then show ?case using assms(2) by simp
next
  case (safe_Section r s0 g f)
  show ?case unfolding bind_proc.simps
  proof (rule safe.safe_Section)
    fix others s
    assume "good (r + others) s" "rely r s0 s" "g s"
    from safe_Section[OF this] obtain s' p r' where "f s = Some (s', p)" "rely others s s'" "good (r' + others) s'"
      "safe good rely Q' r' s' (bind_proc p k)" by blast
    then show "\<exists>s' q r'. map_option (map_prod id (\<lambda>p. bind_proc p k)) (f s) = Some (s', q) \<and> rely others s s' \<and>
        good (r' + others) s' \<and> safe good rely Q' r' s' q" by auto
  qed
qed

lemma safe_sections:
  "(\<And>others s. good (r + others) s \<Longrightarrow> rely r s0 s \<Longrightarrow> \<exists>r'. rely others s s \<and> good (r' + others) s \<and> safe good rely Q r' s (k (h s))) \<Longrightarrow>
    safe good rely Q r s0 (read h k)"
  "(\<And>others s. good (r + others) s \<Longrightarrow> rely r s0 s \<Longrightarrow>
      \<exists>r'. rely others s (h' s) \<and> good (r' + others) (h' s) \<and> safe good rely Q r' (h' s) p) \<Longrightarrow>
    safe good rely Q r s0 (modify h' p)"
  "(\<And>others s. good (r + others) s \<Longrightarrow> rely r s0 s \<Longrightarrow>
      \<exists>x s' r'. h2 s = Some (x, s') \<and> rely others s s' \<and> good (r' + others) s' \<and> safe good rely Q r' s' (k2 x)) \<Longrightarrow>
    safe good rely Q r s0 (attempt h2 k2)"
  "(\<And>others s. good (r + others) s \<Longrightarrow> rely r s0 s \<Longrightarrow>
      \<exists>s' r'. h3 s = Some s' \<and> rely others s s' \<and> good (r' + others) s' \<and> safe good rely Q r' s' p) \<Longrightarrow>
    safe good rely Q r s0 (try_modify h3 p)"
  "(\<And>others s. good (r + others) s \<Longrightarrow> rely r s0 s \<Longrightarrow> g s \<Longrightarrow>
      \<exists>r'. rely others s (h' s) \<and> good (r' + others) (h' s) \<and> safe good rely Q r' (h' s) p) \<Longrightarrow>
    safe good rely Q r s0 (wait_until g h' p)"
  unfolding read_def modify_def attempt_def try_modify_def wait_until_def
  by (rule safe_Section, fastforce)+

lemmas safe_read = safe_sections(1)
lemmas safe_modify = safe_sections(2)
lemmas safe_attempt = safe_sections(3)
lemmas safe_try_modify = safe_sections(4)
lemmas safe_wait_until = safe_sections(5)

subsection \<open>Safe calls are safe together\<close>

locale shared_state =
  fixes good :: "'r::comm_monoid_add \<Rightarrow> 's \<Rightarrow> bool" and rely :: "'r \<Rightarrow> 's \<Rightarrow> 's \<Rightarrow> bool"
  assumes rely_refl: "rely r s s"
    and rely_trans: "rely r s s' \<Longrightarrow> rely r s' s'' \<Longrightarrow> rely r s s''"
    and rely_part: "rely (r + q) s s' \<Longrightarrow> rely r s s'"
begin

lemma rely_each:
  "rely (sum_list rs) s s' \<Longrightarrow> list_all2 (\<lambda>r p. \<exists>s0. rely r s0 s \<and> safe good rely Q r s0 p) rs ps \<Longrightarrow>
    list_all2 (\<lambda>r p. \<exists>s0. rely r s0 s' \<and> safe good rely Q r s0 p) rs ps"
proof (induction rs arbitrary: ps)
  case (Cons r rs)
  have head: "rely r s s'" by (rule rely_part[of r "sum_list rs"]) (use Cons.prems(1) in simp)
  have "rely (sum_list rs) s s'" by (rule rely_part[of "sum_list rs" r]) (use Cons.prems(1) in \<open>simp add: add.commute\<close>)
  then show ?case using Cons.IH Cons.prems(2) rely_trans[OF _ head] unfolding list_all2_Cons1 by blast
qed simp

lemma reachable_good:
  assumes "reachable C B s0 s ps" "good 0 s0" "\<And>p s. p \<in> C \<Longrightarrow> safe good rely Q 0 s p"
    "\<And>r s s'. good r s \<Longrightarrow> B s s' \<Longrightarrow> good r s' \<and> rely r s s'"
  shows "\<exists>rs. good (sum_list rs) s \<and> list_all2 (\<lambda>r p. \<exists>s0. rely r s0 s \<and> safe good rely Q r s0 p) rs ps"
  using assms(1)
proof (induction rule: reachable.induct)
  case reachable_start
  show ?case by (rule exI[of _ "[]"]) (simp add: assms(2))
next
  case (reachable_call s ps p)
  then obtain rs where "good (sum_list rs) s" "list_all2 (\<lambda>r p. \<exists>s0. rely r s0 s \<and> safe good rely Q r s0 p) rs ps" by blast
  then show ?case using assms(3)[OF reachable_call(2)] rely_refl by (intro exI[of _ "0 # rs"]) auto
next
  case (reachable_section s ps g f qs s' p)
  let ?ok = "\<lambda>s r p. \<exists>s0. rely r s0 s \<and> safe good rely Q r s0 p"
  obtain rs where rs: "good (sum_list rs) s" "list_all2 (?ok s) rs (ps @ Section g f # qs)" using reachable_section.IH by blast
  obtain as r bs where split: "rs = as @ r # bs" "list_all2 (?ok s) as ps" "?ok s r (Section g f)" "list_all2 (?ok s) bs qs"
    using rs(2) unfolding list_all2_append2 list_all2_Cons2 by blast
  obtain s1 where s1: "rely r s1 s" "safe good rely Q r s1 (Section g f)" using split(3) by blast
  have "good (r + sum_list (as @ bs)) s" using rs(1) split(1) by (simp add: ac_simps)
  then obtain r' where r': "rely (sum_list (as @ bs)) s s'" "good (r' + sum_list (as @ bs)) s'" "safe good rely Q r' s' p"
    using safe_SectionE[OF s1(2)] s1(1) reachable_section(2,3) by (metis option.inject prod.inject)
  have "list_all2 (?ok s') (as @ bs) (ps @ qs)" by (rule rely_each[OF r'(1) list_all2_appendI[OF split(2,4)]])
  then have "list_all2 (?ok s') as ps \<and> list_all2 (?ok s') bs qs"
    by (simp only: list_all2_append[OF list_all2_lengthD[OF split(2)]])
  moreover have "?ok s' r' p" using r'(3) rely_refl by blast
  ultimately have "list_all2 (?ok s') (as @ r' # bs) (ps @ p # qs)" by (simp add: list_all2_appendI)
  moreover have "sum_list (as @ r' # bs) = r' + sum_list (as @ bs)" by (simp add: ac_simps)
  then have "good (sum_list (as @ r' # bs)) s'" using r'(2) by (simp only:)
  ultimately show ?case by blast
next
  case (reachable_background s ps s')
  then obtain rs where rs: "good (sum_list rs) s" "list_all2 (\<lambda>r p. \<exists>s0. rely r s0 s \<and> safe good rely Q r s0 p) rs ps" by blast
  have "good (sum_list rs) s'" "rely (sum_list rs) s s'" using assms(4)[OF rs(1) reachable_background(2)] by simp_all
  then show ?case using rely_each[OF _ rs(2)] by blast
qed

text \<open>In particular no section of a call panics.\<close>

lemma reachable_no_panic:
  assumes "reachable C B s0 s ps" "good 0 s0" "\<And>p s. p \<in> C \<Longrightarrow> safe good rely Q 0 s p"
    "\<And>r s s'. good r s \<Longrightarrow> B s s' \<Longrightarrow> good r s' \<and> rely r s s'" "Section g f \<in> set ps" "g s"
  shows "f s \<noteq> None"
proof -
  obtain rs where rs: "good (sum_list rs) s" "list_all2 (\<lambda>r p. \<exists>s0. rely r s0 s \<and> safe good rely Q r s0 p) rs ps"
    using reachable_good[OF assms(1-4)] by blast
  obtain ps1 ps2 where ps: "ps = ps1 @ Section g f # ps2" using assms(5) by (auto simp: in_set_conv_decomp)
  let ?ok = "\<lambda>r p. \<exists>s0. rely r s0 s \<and> safe good rely Q r s0 p"
  have "list_all2 ?ok rs (ps1 @ Section g f # ps2)" using rs(2) ps by simp
  then obtain as r bs where split: "rs = as @ r # bs" "?ok r (Section g f)"
    unfolding list_all2_append2 list_all2_Cons2 by blast
  then obtain s1 where r: "rs = as @ r # bs" "rely r s1 s" "safe good rely Q r s1 (Section g f)" by blast
  have "good (r + sum_list (as @ bs)) s" using rs(1) r(1) by (simp add: ac_simps)
  then show ?thesis using safe_SectionE[OF r(3)] r(2) assms(6) by (metis option.distinct(1))
qed

end

end
