(* ===== verification/PluginGenerations.thy ===== *)
theory PluginGenerations
  imports PluginDeps "HOL-Library.AList"
begin

section \<open>Plugin generations and the references to them\<close>

text \<open>
  \<open>plugin/generation.go\<close> and \<open>plugin/dependencies.go\<close>: every started plugin is a generation, counted
  by the leases of runs and by the generations bound to it; a generation that is replaced or stopped is
  retired, and its \<open>Stop\<close> callback runs when its last reference is released, or when it is forced.
  \<^item> generations and instances are pointers, so heaps of numbered records; the maps that the code
    ranges over are association lists;
  \<^item> a channel that is only ever closed (\<open>drained\<close>, \<open>done\<close>) is a flag; closing it twice panics, which is
    the result \<open>None\<close>;
  \<^item> the references in local variables of calls in flight are an argument of the invariant (\<open>refs_ok\<close>);
  \<^item> a retirement is a list of generations whose goroutine has yet to stop them.
  Recoverable references (JSON) and their restoration are not modelled.
\<close>

subsection \<open>The state\<close>

type_synonym gid = nat

datatype plugin_state = PluginStateUnloaded | PluginStateLoaded | PluginStateInitialized | PluginStateRunning
  | PluginStateStopped | PluginStateError

datatype plugin_event = PluginEventLoaded | PluginEventUnloaded | PluginEventInitialized | PluginEventStarted
  | PluginEventStopped | PluginEventError | PluginEventHealthCheck

datatype plugin_error = PluginNotFound string | AlreadyRegistered string | RunningPlugin string
  | NotLoadedState string plugin_state | NotReadyState string plugin_state | NotRunningState string plugin_state
  | ConfigNotCopied | SelfDependency string | DependencyUnavailable string | DependencyRetired string
  | DependencyNotRunning string string | DependentRunning string string
  | CallbackFailed nat | CallbackPanicked string string | ForcedStop | ContextDone
  | GenerationUnavailable string | GenerationStopped string | DependenciesChanged string | RouteChanged string
  | FailedTo string string plugin_error | Joined "plugin_error list"

record plugin =
  pl_id :: nat
  pl_info :: plugin_info

record generation =
  gen_plugin :: plugin
  gen_name :: string
  gen_version :: string
  gen_config_hash :: string
  gen_dependencies :: "string list"
  gen_bindings :: "gid list"
  gen_stopped_bindings :: "gid list"
  gen_legacy :: "(string \<times> bool) list"
  gen_started :: bool
  gen_refs :: int
  gen_retired :: bool
  gen_forced :: bool
  gen_drained :: bool
  gen_stopping :: bool
  gen_done :: bool
  gen_err :: "plugin_error option"

record instance_ =
  in_plugin :: plugin
  in_state :: plugin_state
  in_config :: "string option"
  in_started_at :: "gotime option"
  in_error :: "plugin_error option"
  in_gen :: gid

record lease =
  le_plugins :: "string \<rightharpoonup> plugin"
  le_generations :: "gid list"
  le_roots :: "gid list"

record psys =
  ps_plugins :: "(string \<times> nat) list"
  ps_insts :: "nat \<Rightarrow> instance_"
  ps_next_inst :: nat
  ps_gens :: "gid \<Rightarrow> generation"
  ps_next_gen :: gid
  ps_leases :: "(nat \<times> lease) list"
  ps_next_lease :: nat
  ps_retiring :: "gid list list"
  ps_order :: "string list"
  ps_events :: "(plugin_event \<times> string) list"
  ps_busy :: "string list"

definition upd_gen :: "gid \<Rightarrow> (generation \<Rightarrow> generation) \<Rightarrow> psys \<Rightarrow> psys" where
  "upd_gen i f s = s\<lparr>ps_gens := (ps_gens s)(i := f (ps_gens s i))\<rparr>"

definition upd_inst :: "nat \<Rightarrow> (instance_ \<Rightarrow> instance_) \<Rightarrow> psys \<Rightarrow> psys" where
  "upd_inst k f s = s\<lparr>ps_insts := (ps_insts s)(k := f (ps_insts s k))\<rparr>"

definition new_generation :: "plugin \<Rightarrow> string \<Rightarrow> string \<Rightarrow> string \<Rightarrow> generation" where
  "new_generation p name version hash =
     \<lparr>gen_plugin = p, gen_name = name, gen_version = version, gen_config_hash = hash, gen_dependencies = [],
      gen_bindings = [], gen_stopped_bindings = [], gen_legacy = [], gen_started = False, gen_refs = 0,
      gen_retired = False, gen_forced = False, gen_drained = False, gen_stopping = False, gen_done = False, gen_err = None\<rparr>"

definition add_generation :: "generation \<Rightarrow> psys \<Rightarrow> gid \<times> psys" where
  "add_generation g s =
     (ps_next_gen s, s\<lparr>ps_gens := (ps_gens s)(ps_next_gen s := g), ps_next_gen := Suc (ps_next_gen s)\<rparr>)"

subsection \<open>References\<close>

definition pin :: "gid \<Rightarrow> psys \<Rightarrow> psys" where
  "pin i s = upd_gen i (\<lambda>g. g\<lparr>gen_refs := gen_refs g + 1\<rparr>) s"

definition release_generation :: "gid \<Rightarrow> psys \<Rightarrow> psys option" where
  "release_generation i s =
     (let g = ps_gens s i; n = gen_refs g - 1 in
      if gen_retired g \<and> n = 0
      then if gen_drained g then None else Some (upd_gen i (\<lambda>g. g\<lparr>gen_refs := n, gen_drained := True\<rparr>) s)
      else Some (upd_gen i (\<lambda>g. g\<lparr>gen_refs := n\<rparr>) s))"

fun release_all :: "gid list \<Rightarrow> psys \<Rightarrow> psys option" where
  "release_all [] s = Some s"
| "release_all (i # is) s = (case release_generation i s of None \<Rightarrow> None | Some s' \<Rightarrow> release_all is s')"

definition release_dependency_bindings :: "gid \<Rightarrow> psys \<Rightarrow> psys option" where
  "release_dependency_bindings i s =
     (let bs = gen_bindings (ps_gens s i) in
      release_all bs (upd_gen i (\<lambda>g. g\<lparr>gen_stopped_bindings := bs, gen_bindings := [], gen_legacy := []\<rparr>) s))"

text \<open>\<open>captureDependencies\<close>: one reference for each distinct name, or none and an error.\<close>

fun capture :: "string list \<Rightarrow> string list \<Rightarrow> gid list \<Rightarrow> psys \<Rightarrow> ((plugin_error + gid list) \<times> psys) option" where
  "capture [] seen bs s = Some (Inr bs, s)"
| "capture (n # ns) seen bs s =
     (if n \<in> set seen then capture ns seen bs s
      else
        (case map_of (ps_plugins s) n of
           None \<Rightarrow> map_option (\<lambda>s'. (Inl (DependencyUnavailable n), s')) (release_all bs s)
         | Some k \<Rightarrow>
             (let i = in_gen (ps_insts s k) in
              if gen_retired (ps_gens s i) \<or> gen_forced (ps_gens s i)
              then map_option (\<lambda>s'. (Inl (DependencyRetired n), s')) (release_all bs s)
              else capture ns (n # seen) (bs @ [i]) (pin i s))))"

definition capture_dependencies :: "string list \<Rightarrow> psys \<Rightarrow> ((plugin_error + gid list) \<times> psys) option" where
  "capture_dependencies names s = capture names [] [] s"

definition legacy_bindings_current :: "gid list \<Rightarrow> string list \<Rightarrow> psys \<Rightarrow> bool" where
  "legacy_bindings_current bs used s =
     list_all (\<lambda>i. gen_name (ps_gens s i) \<in> set used \<or>
       (case map_of (ps_plugins s) (gen_name (ps_gens s i)) of None \<Rightarrow> False | Some k \<Rightarrow> in_gen (ps_insts s k) = i)) bs"

subsection \<open>Leases\<close>

text \<open>
  The recursive \<open>include_gen\<close> of \<open>Acquire\<close>, with its depth as fuel: a nested call comes from a generation
  not included before (\<open>include_gen_returns\<close>). The generations of the lease so far are also the ones seen.
\<close>

fun include_gen :: "nat \<Rightarrow> gid \<Rightarrow> bool \<Rightarrow> gid list \<Rightarrow> psys \<Rightarrow> (plugin_error option \<times> gid list \<times> psys) option"
  and include_bindings :: "nat \<Rightarrow> gid list \<Rightarrow> bool \<Rightarrow> gid list \<Rightarrow> psys \<Rightarrow> (plugin_error option \<times> gid list \<times> psys) option" where
  "include_gen 0 i root pins s = None"
| "include_gen (Suc k) i root pins s =
     (if i \<in> set pins then Some (None, pins, s)
      else
        (let g = ps_gens s i in
         if gen_forced g \<or> root \<and> gen_retired g \<or> \<not> root \<and> \<not> gen_started g
         then Some (Some (GenerationUnavailable (gen_name g)), pins, s)
         else if gen_done g then Some (Some (GenerationStopped (gen_name g)), pins, s)
         else include_bindings k (gen_bindings g) False (pins @ [i]) (pin i s)))"
| "include_bindings k [] root pins s = Some (None, pins, s)"
| "include_bindings k (i # is) root pins s =
     (case include_gen k i root pins s of
        None \<Rightarrow> None
      | Some (Some e, pins', s') \<Rightarrow> Some (Some e, pins', s')
      | Some (None, pins', s') \<Rightarrow> include_bindings k is root pins' s')"

text \<open>Which plugin a name means in a lease: the root, else the only generation of that name.\<close>

definition route_name :: "psys \<Rightarrow> (string \<times> gid) list \<Rightarrow> gid \<Rightarrow> (string \<rightharpoonup> plugin) \<times> (string \<rightharpoonup> gid) \<times> string list
    \<Rightarrow> (string \<rightharpoonup> plugin) \<times> (string \<rightharpoonup> gid) \<times> string list" where
  "route_name s roots i acc =
     (case acc of (plugins, by_name, ambiguous) \<Rightarrow>
        (let n = gen_name (ps_gens s i) in
         case map_of roots n of
           Some r \<Rightarrow> (plugins(n \<mapsto> gen_plugin (ps_gens s r)), by_name, ambiguous)
         | None \<Rightarrow>
             if by_name n = None \<and> n \<notin> set ambiguous
             then (plugins(n \<mapsto> gen_plugin (ps_gens s i)), by_name(n \<mapsto> i), ambiguous)
             else if by_name n \<noteq> Some i then (plugins(n := None), by_name, n # ambiguous)
             else acc))"

definition lease_routes :: "psys \<Rightarrow> (string \<times> gid) list \<Rightarrow> gid list \<Rightarrow> (string \<rightharpoonup> plugin)" where
  "lease_routes s roots pins = fst (fold (route_name s roots) pins (Map.empty, Map.empty, []))"

definition running :: "psys \<Rightarrow> string \<Rightarrow> bool" where
  "running s n = (case map_of (ps_plugins s) n of None \<Rightarrow> False | Some k \<Rightarrow> in_state (ps_insts s k) = PluginStateRunning)"

text \<open>The roots of a lease: the current generations of the names, which must all run.\<close>

fun lease_roots :: "psys \<Rightarrow> string list \<Rightarrow> (string \<times> gid) list \<Rightarrow> plugin_error + (string \<times> gid) list" where
  "lease_roots s [] roots = Inr roots"
| "lease_roots s (n # ns) roots =
     (case map_of (ps_plugins s) n of
        None \<Rightarrow> Inl (NotRunningState n PluginStateUnloaded)
      | Some k \<Rightarrow>
          if in_state (ps_insts s k) \<noteq> PluginStateRunning then Inl (NotRunningState n (in_state (ps_insts s k)))
          else lease_roots s ns (if map_of roots n = None then roots @ [(n, in_gen (ps_insts s k))] else roots))"

definition lease_names :: "psys \<Rightarrow> string list \<Rightarrow> string list" where
  "lease_names s names = (if names = [] then sort (filter (running s) (map fst (ps_plugins s))) else names)"

definition acquire :: "string list \<Rightarrow> psys \<Rightarrow> ((plugin_error + nat) \<times> psys) option" where
  "acquire names s =
     (case lease_roots s (lease_names s names) [] of
        Inl e \<Rightarrow> Some (Inl e, s)
      | Inr roots \<Rightarrow>
          (case include_bindings (Suc (ps_next_gen s)) (map snd roots) True [] s of
             None \<Rightarrow> None
           | Some (Some e, pins, s') \<Rightarrow> map_option (\<lambda>s''. (Inl e, s'')) (release_all pins s')
           | Some (None, pins, s') \<Rightarrow>
               Some (Inr (ps_next_lease s'),
                 s'\<lparr>ps_leases := (ps_next_lease s', \<lparr>le_plugins = lease_routes s' roots pins, le_generations = pins,
                      le_roots = map snd roots\<rparr>) # ps_leases s',
                    ps_next_lease := Suc (ps_next_lease s')\<rparr>)))"

text \<open>\<open>Release\<close>, which does nothing the second time, and \<open>Err\<close>.\<close>

definition release_lease :: "nat \<Rightarrow> psys \<Rightarrow> psys option" where
  "release_lease l s =
     (case map_of (ps_leases s) l of
        None \<Rightarrow> Some s
      | Some le \<Rightarrow> release_all (le_generations le) (s\<lparr>ps_leases := AList.delete l (ps_leases s)\<rparr>))"

definition lease_err :: "psys \<Rightarrow> lease \<Rightarrow> plugin_error option" where
  "lease_err s le = (if list_ex (\<lambda>i. gen_forced (ps_gens s i)) (le_generations le) then Some ForcedStop else None)"

subsection \<open>Retirement\<close>

definition retire_generation :: "gid \<Rightarrow> psys \<Rightarrow> psys option" where
  "retire_generation i s =
     (let g = ps_gens s i in
      if gen_retired g then Some s
      else if gen_refs g = 0
      then if gen_drained g then None else Some (upd_gen i (\<lambda>g. g\<lparr>gen_retired := True, gen_drained := True\<rparr>) s)
      else Some (upd_gen i (\<lambda>g. g\<lparr>gen_retired := True\<rparr>) s))"

text \<open>\<open>stop\<close> runs the callback once, on a goroutine of its own; \<open>e\<close> is what the callback answers.\<close>

definition begin_stop :: "gid \<Rightarrow> psys \<Rightarrow> psys" where
  "begin_stop i s = upd_gen i (\<lambda>g. g\<lparr>gen_stopping := True\<rparr>) s"

definition force_stop :: "gid \<Rightarrow> psys \<Rightarrow> psys" where
  "force_stop i s = begin_stop i (upd_gen i (\<lambda>g. g\<lparr>gen_forced := True\<rparr>) s)"

definition finish_stop :: "gid \<Rightarrow> plugin_error option \<Rightarrow> psys \<Rightarrow> psys option" where
  "finish_stop i e s =
     map_option (upd_gen i (\<lambda>g. g\<lparr>gen_done := True\<rparr>))
       (release_dependency_bindings i
         (upd_gen i (\<lambda>g. g\<lparr>gen_err := (if gen_forced g then Some (Joined (ForcedStop # (case e of None \<Rightarrow> [] | Some e \<Rightarrow> [e]))) else e)\<rparr>) s))"

definition start_retirement :: "gid list \<Rightarrow> psys \<Rightarrow> psys" where
  "start_retirement gs s = (if gs = [] then s else s\<lparr>ps_retiring := gs # ps_retiring s\<rparr>)"

text \<open>A turn of a retirement's goroutine: it begins to stop the first generation, or goes on to the next.\<close>

definition retirement_turn :: "nat \<Rightarrow> psys \<Rightarrow> psys" where
  "retirement_turn r s =
     (case ps_retiring s ! r of
        [] \<Rightarrow> s
      | i # is \<Rightarrow>
          (if gen_done (ps_gens s i) then s\<lparr>ps_retiring := (ps_retiring s)[r := is]\<rparr>
           else if gen_drained (ps_gens s i) then begin_stop i s
           else s))"


subsection \<open>The references are counted\<close>

text \<open>The references to generations that the state records: in live leases and in bindings.\<close>

definition lease_uses :: "psys \<Rightarrow> gid multiset" where
  "lease_uses s = mset (concat (map (\<lambda>x. le_generations (snd x)) (ps_leases s)))"

definition binding_uses :: "psys \<Rightarrow> gid multiset" where
  "binding_uses s = (\<Sum>i<ps_next_gen s. mset (gen_bindings (ps_gens s i)))"

definition users :: "psys \<Rightarrow> gid multiset" where
  "users s = lease_uses s + binding_uses s"

text \<open>\<open>extra\<close>: the references in local variables of the calls in flight.\<close>

definition gen_ok :: "generation \<Rightarrow> bool" where
  "gen_ok g \<longleftrightarrow> (gen_drained g \<longleftrightarrow> gen_retired g \<and> gen_refs g = 0) \<and> (gen_stopping g \<longrightarrow> gen_drained g \<or> gen_forced g) \<and>
     (gen_done g \<longrightarrow> gen_stopping g)"

definition refs_ok :: "gid multiset \<Rightarrow> psys \<Rightarrow> bool" where
  "refs_ok extra s \<longleftrightarrow>
     (\<forall>i. gen_refs (ps_gens s i) = int (count (users s + extra) i)) \<and>
     (\<forall>i. gen_ok (ps_gens s i)) \<and>
     (\<forall>i \<in># users s + extra. i < ps_next_gen s) \<and>
     (\<forall>n k. map_of (ps_plugins s) n = Some k \<longrightarrow> k < ps_next_inst s) \<and>
     (\<forall>k < ps_next_inst s. in_gen (ps_insts s k) < ps_next_gen s) \<and>
     distinct (map fst (ps_leases s)) \<and> (\<forall>l le. (l, le) \<in> set (ps_leases s) \<longrightarrow> l < ps_next_lease s)"

lemma refs_okD:
  assumes "refs_ok extra s"
  shows "gen_refs (ps_gens s i) = int (count (users s + extra) i)" "gen_ok (ps_gens s i)"
    "i \<in># users s + extra \<Longrightarrow> i < ps_next_gen s"
    "map_of (ps_plugins s) n = Some k \<Longrightarrow> in_gen (ps_insts s k) < ps_next_gen s"
    "map_of (ps_plugins s) n = Some k \<Longrightarrow> k < ps_next_inst s"
    "k < ps_next_inst s \<Longrightarrow> in_gen (ps_insts s k) < ps_next_gen s"
    "distinct (map fst (ps_leases s))" "(l, le) \<in> set (ps_leases s) \<Longrightarrow> l < ps_next_lease s"
  using assms unfolding refs_ok_def by blast+

lemma upd_gen_fields [simp]:
  "ps_plugins (upd_gen i f s) = ps_plugins s" "ps_insts (upd_gen i f s) = ps_insts s"
  "ps_next_inst (upd_gen i f s) = ps_next_inst s" "ps_next_gen (upd_gen i f s) = ps_next_gen s"
  "ps_leases (upd_gen i f s) = ps_leases s" "ps_next_lease (upd_gen i f s) = ps_next_lease s"
  "ps_retiring (upd_gen i f s) = ps_retiring s"
  "ps_order (upd_gen i f s) = ps_order s" "ps_events (upd_gen i f s) = ps_events s" "ps_busy (upd_gen i f s) = ps_busy s"
  "ps_gens (upd_gen i f s) = (ps_gens s)(i := f (ps_gens s i))" "lease_uses (upd_gen i f s) = lease_uses s"
  by (simp_all add: upd_gen_def lease_uses_def)

lemma binding_uses_upd:
  assumes "\<And>g. gen_bindings (f g) = gen_bindings g"
  shows "binding_uses (upd_gen i f s) = binding_uses s"
  unfolding binding_uses_def by (rule sum.cong) (simp_all add: assms)

lemma users_upd:
  assumes "\<And>g. gen_bindings (f g) = gen_bindings g"
  shows "users (upd_gen i f s) = users s"
  by (simp add: users_def binding_uses_upd[OF assms])

lemma refs_ok_upd:
  assumes "refs_ok extra s" "\<And>g. gen_bindings (f g) = gen_bindings g"
    and "gen_refs (f (ps_gens s i)) = int (count (users s + extra') i)" "gen_ok (f (ps_gens s i))"
    and "\<And>j. j \<noteq> i \<Longrightarrow> count extra' j = count extra j" "i \<in># extra' \<Longrightarrow> i < ps_next_gen s"
  shows "refs_ok extra' (upd_gen i f s)"
proof -
  note D = refs_okD[OF assms(1)]
  have "gen_refs (ps_gens s j) = int (count (users s + extra') j)" if "j \<noteq> i" for j
    using D(1)[of j] assms(5)[OF that] by simp
  moreover have "j < ps_next_gen s" if "j \<in># users s + extra'" for j
  proof (cases "j = i")
    case True
    then show ?thesis using that assms(6) D(3)[of j] by auto
  next
    case False
    then have "count (users s + extra) j > 0" using that assms(5)[OF False] by (auto simp flip: count_greater_zero_iff)
    then show ?thesis using D(3)[of j] by (simp only: count_greater_zero_iff)
  qed
  ultimately show ?thesis
    using D(2,5-8) assms(3,4) unfolding refs_ok_def users_upd[OF assms(2)] by auto
qed

subsection \<open>Every step keeps the count\<close>

lemma pin_ok:
  assumes "refs_ok extra s" "i < ps_next_gen s" "\<not> gen_drained (ps_gens s i)"
  shows "refs_ok (add_mset i extra) (pin i s)"
  unfolding pin_def
proof (rule refs_ok_upd[OF assms(1)])
  note D = refs_okD[OF assms(1)]
  show "gen_refs (ps_gens s i\<lparr>gen_refs := gen_refs (ps_gens s i) + 1\<rparr>) = int (count (users s + add_mset i extra) i)"
    using D(1)[of i] by simp
  have "gen_refs (ps_gens s i) \<ge> 0" using D(1)[of i] by linarith
  then show "gen_ok (ps_gens s i\<lparr>gen_refs := gen_refs (ps_gens s i) + 1\<rparr>)"
    using D(2)[of i] assms(3) by (auto simp: gen_ok_def)
qed (use assms in simp_all)

lemma release_generation_ok:
  assumes "refs_ok (add_mset i extra) s"
  shows "\<exists>s'. release_generation i s = Some s' \<and> refs_ok extra s'"
proof -
  note D = refs_okD[OF assms]
  let ?g = "ps_gens s i"
  have pos: "gen_refs ?g = int (count (users s + extra) i) + 1" using D(1)[of i] by simp
  then have nd: "\<not> gen_drained ?g" using D(2)[of i] by (auto simp: gen_ok_def)
  show ?thesis
  proof (cases "gen_retired ?g \<and> gen_refs ?g - 1 = 0")
    case True
    let ?f = "\<lambda>g. g\<lparr>gen_refs := gen_refs ?g - 1, gen_drained := True\<rparr>"
    have "refs_ok extra (upd_gen i ?f s)"
      using True pos D(2)[of i] by (intro refs_ok_upd[OF assms]) (auto simp: gen_ok_def D(3))
    then show ?thesis using True nd by (simp add: release_generation_def Let_def)
  next
    case False
    let ?f = "\<lambda>g. g\<lparr>gen_refs := gen_refs ?g - 1\<rparr>"
    have "refs_ok extra (upd_gen i ?f s)"
      using False pos D(2)[of i] nd by (intro refs_ok_upd[OF assms]) (auto simp: gen_ok_def D(3))
    then show ?thesis using False by (auto simp: release_generation_def Let_def)
  qed
qed

text \<open>What releasing references leaves as it is.\<close>

definition same_but_refs :: "psys \<Rightarrow> psys \<Rightarrow> bool" where
  "same_but_refs s s' \<longleftrightarrow> ps_plugins s' = ps_plugins s \<and> ps_insts s' = ps_insts s \<and> ps_next_inst s' = ps_next_inst s \<and>
     ps_next_gen s' = ps_next_gen s \<and> ps_leases s' = ps_leases s \<and> ps_next_lease s' = ps_next_lease s \<and>
     ps_retiring s' = ps_retiring s \<and> ps_order s' = ps_order s \<and> ps_events s' = ps_events s \<and>
     ps_busy s' = ps_busy s \<and>
     (\<forall>i. \<exists>n d. ps_gens s' i = (ps_gens s i)\<lparr>gen_refs := n, gen_drained := d\<rparr> \<and> (gen_drained (ps_gens s i) \<longrightarrow> d))"

lemma same_but_refs_refl: "same_but_refs s s"
proof -
  have "\<exists>n d. ps_gens s i = (ps_gens s i)\<lparr>gen_refs := n, gen_drained := d\<rparr> \<and> (gen_drained (ps_gens s i) \<longrightarrow> d)" for i
    by (intro exI[of _ "gen_refs (ps_gens s i)"] exI[of _ "gen_drained (ps_gens s i)"]) simp
  then show ?thesis by (simp add: same_but_refs_def)
qed

lemma same_but_refs_trans:
  assumes "same_but_refs s s'" "same_but_refs s' s''"
  shows "same_but_refs s s''"
proof -
  have "\<exists>n d. ps_gens s'' i = (ps_gens s i)\<lparr>gen_refs := n, gen_drained := d\<rparr> \<and> (gen_drained (ps_gens s i) \<longrightarrow> d)" for i
  proof -
    obtain n d where 1: "ps_gens s' i = (ps_gens s i)\<lparr>gen_refs := n, gen_drained := d\<rparr>" "gen_drained (ps_gens s i) \<longrightarrow> d"
      using assms(1) unfolding same_but_refs_def by blast
    obtain n' d' where 2: "ps_gens s'' i = (ps_gens s' i)\<lparr>gen_refs := n', gen_drained := d'\<rparr>" "gen_drained (ps_gens s' i) \<longrightarrow> d'"
      using assms(2) unfolding same_but_refs_def by blast
    show ?thesis using 1 2 by (intro exI[of _ n'] exI[of _ d']) simp
  qed
  then show ?thesis using assms unfolding same_but_refs_def by simp
qed

lemma same_but_refs_upd:
  assumes "f (ps_gens s i) = (ps_gens s i)\<lparr>gen_refs := n, gen_drained := d\<rparr>" "gen_drained (ps_gens s i) \<longrightarrow> d"
  shows "same_but_refs s (upd_gen i f s)"
proof -
  have "\<exists>n d. ps_gens (upd_gen i f s) j = (ps_gens s j)\<lparr>gen_refs := n, gen_drained := d\<rparr> \<and> (gen_drained (ps_gens s j) \<longrightarrow> d)" for j
  proof (cases "j = i")
    case True
    then show ?thesis using assms by auto
  next
    case False
    then show ?thesis using same_but_refs_refl[of s] by (simp add: same_but_refs_def)
  qed
  then show ?thesis by (simp add: same_but_refs_def)
qed

lemma same_but_refsD:
  assumes "same_but_refs s s'"
  shows "gen_bindings (ps_gens s' i) = gen_bindings (ps_gens s i)" "gen_retired (ps_gens s' i) = gen_retired (ps_gens s i)"
    "gen_forced (ps_gens s' i) = gen_forced (ps_gens s i)" "gen_started (ps_gens s' i) = gen_started (ps_gens s i)"
    "gen_done (ps_gens s' i) = gen_done (ps_gens s i)" "gen_stopping (ps_gens s' i) = gen_stopping (ps_gens s i)"
    "gen_name (ps_gens s' i) = gen_name (ps_gens s i)" "gen_drained (ps_gens s i) \<Longrightarrow> gen_drained (ps_gens s' i)"
    "users s' = users s" "binding_uses s' = binding_uses s" "ps_next_gen s' = ps_next_gen s"
    "ps_plugins s' = ps_plugins s" "ps_insts s' = ps_insts s"
proof -
  have g: "\<exists>n d. ps_gens s' i = (ps_gens s i)\<lparr>gen_refs := n, gen_drained := d\<rparr> \<and> (gen_drained (ps_gens s i) \<longrightarrow> d)" for i
    using assms unfolding same_but_refs_def by blast
  show "gen_bindings (ps_gens s' i) = gen_bindings (ps_gens s i)" "gen_retired (ps_gens s' i) = gen_retired (ps_gens s i)"
    "gen_forced (ps_gens s' i) = gen_forced (ps_gens s i)" "gen_started (ps_gens s' i) = gen_started (ps_gens s i)"
    "gen_done (ps_gens s' i) = gen_done (ps_gens s i)" "gen_stopping (ps_gens s' i) = gen_stopping (ps_gens s i)"
    "gen_name (ps_gens s' i) = gen_name (ps_gens s i)" "gen_drained (ps_gens s i) \<Longrightarrow> gen_drained (ps_gens s' i)"
    using g[of i] by auto
  have b: "gen_bindings (ps_gens s' i) = gen_bindings (ps_gens s i)" for i using g[of i] by auto
  show "binding_uses s' = binding_uses s" using assms by (simp add: binding_uses_def b same_but_refs_def)
  then show "users s' = users s" using assms by (simp add: users_def lease_uses_def same_but_refs_def)
  show "ps_next_gen s' = ps_next_gen s" "ps_plugins s' = ps_plugins s" "ps_insts s' = ps_insts s"
    using assms by (simp_all add: same_but_refs_def)
qed

lemma pin_same:
  "\<not> gen_drained (ps_gens s i) \<Longrightarrow> same_but_refs s (pin i s)"
  unfolding pin_def by (rule same_but_refs_upd[where d = False and n = "gen_refs (ps_gens s i) + 1"]) simp_all

lemma release_generation_same:
  assumes "release_generation i s = Some s'"
  shows "same_but_refs s s'"
proof (cases "gen_retired (ps_gens s i) \<and> gen_refs (ps_gens s i) - 1 = 0")
  case True
  then have "s' = upd_gen i (\<lambda>g. g\<lparr>gen_refs := gen_refs (ps_gens s i) - 1, gen_drained := True\<rparr>) s"
    using assms by (simp add: release_generation_def Let_def split: if_splits)
  then show ?thesis by (simp only:, intro same_but_refs_upd[where n = "gen_refs (ps_gens s i) - 1" and d = True]) simp_all
next
  case False
  then have "s' = upd_gen i (\<lambda>g. g\<lparr>gen_refs := gen_refs (ps_gens s i) - 1\<rparr>) s"
    using assms by (auto simp: release_generation_def Let_def split: if_splits)
  then show ?thesis
    by (simp only:, intro same_but_refs_upd[where n = "gen_refs (ps_gens s i) - 1" and d = "gen_drained (ps_gens s i)"]) simp_all
qed

lemma release_all_ok:
  assumes "refs_ok (mset is + extra) s"
  shows "\<exists>s'. release_all is s = Some s' \<and> refs_ok extra s' \<and> same_but_refs s s'"
  using assms
proof (induction "is" arbitrary: s)
  case (Cons i "is")
  then obtain s1 where s1: "release_generation i s = Some s1" "refs_ok (mset is + extra) s1"
    using release_generation_ok[of i "mset is + extra" s] by auto
  then show ?case using Cons.IH[OF s1(2)] same_but_refs_trans[OF release_generation_same[OF s1(1)]] by auto
qed (simp add: same_but_refs_refl)

text \<open>References move between calls, leases and bindings without being lost.\<close>

lemma refs_ok_move:
  assumes "refs_ok extra s" "users s' + extra' = users s + extra" "\<And>i. gen_refs (ps_gens s' i) = gen_refs (ps_gens s i)"
    "\<And>i. gen_ok (ps_gens s' i)" "ps_next_gen s' = ps_next_gen s"
    "\<And>n k. map_of (ps_plugins s') n = Some k \<Longrightarrow> k < ps_next_inst s'"
    "\<And>k. k < ps_next_inst s' \<Longrightarrow> in_gen (ps_insts s' k) < ps_next_gen s"
    "distinct (map fst (ps_leases s'))" "\<And>l le. (l, le) \<in> set (ps_leases s') \<Longrightarrow> l < ps_next_lease s'"
  shows "refs_ok extra' s'"
  using refs_okD(1,3)[OF assms(1)] assms(3-9) unfolding refs_ok_def assms(2) by auto

lemma capture_ok:
  assumes "refs_ok (mset bs + extra) s"
  shows "\<exists>r s'. capture ns seen bs s = Some (r, s') \<and> same_but_refs s s' \<and>
    (case r of Inl _ \<Rightarrow> refs_ok extra s' | Inr bs' \<Rightarrow> refs_ok (mset bs' + extra) s')"
  using assms
proof (induction ns seen bs s rule: capture.induct)
  case (1 seen bs s)
  then show ?case by (simp add: same_but_refs_refl)
next
  case (2 n ns seen bs s)
  obtain s1 where rel: "release_all bs s = Some s1" "refs_ok extra s1" "same_but_refs s s1"
    using release_all_ok[OF 2(3)] by blast
  show ?case
  proof (cases "n \<in> set seen")
    case True
    then show ?thesis using 2(1)[OF True 2(3)] by simp
  next
    case False
    show ?thesis
    proof (cases "map_of (ps_plugins s) n")
      case None
      then show ?thesis using False rel by simp
    next
      case (Some k)
      let ?i = "in_gen (ps_insts s k)"
      show ?thesis
      proof (cases "gen_retired (ps_gens s ?i) \<or> gen_forced (ps_gens s ?i)")
        case True
        then show ?thesis using False Some rel by (simp add: Let_def)
      next
        case ok: False
        then have nd: "\<not> gen_drained (ps_gens s ?i)" using refs_okD(2)[OF 2(3), of ?i] by (simp add: gen_ok_def)
        have "refs_ok (mset (bs @ [?i]) + extra) (pin ?i s)"
          using pin_ok[OF 2(3) refs_okD(4)[OF 2(3) Some] nd] by simp
        from 2(2)[OF False Some refl ok this] show ?thesis
          using False Some ok same_but_refs_trans[OF pin_same[OF nd]] by (auto simp: Let_def)
      qed
    qed
  qed
qed

lemma capture_dependencies_ok:
  assumes "refs_ok extra s"
  shows "\<exists>r s'. capture_dependencies names s = Some (r, s') \<and> same_but_refs s s' \<and>
    (case r of Inl _ \<Rightarrow> refs_ok extra s' | Inr bs \<Rightarrow> refs_ok (mset bs + extra) s')"
  using capture_ok[of "[]" extra s names "[]"] assms by (simp add: capture_dependencies_def)

text \<open>The bindings of one generation, within those of all.\<close>

lemma binding_uses_split:
  assumes "i < ps_next_gen s" "ps_next_gen s' = ps_next_gen s"
    "\<And>j. j \<noteq> i \<Longrightarrow> gen_bindings (ps_gens s' j) = gen_bindings (ps_gens s j)"
  shows "binding_uses s' + mset (gen_bindings (ps_gens s i)) = binding_uses s + mset (gen_bindings (ps_gens s' i))"
proof -
  let ?rest = "\<lambda>s. \<Sum>j\<in>{..<ps_next_gen s} - {i}. mset (gen_bindings (ps_gens s j))"
  have split: "binding_uses t = mset (gen_bindings (ps_gens t i)) + ?rest t" if "ps_next_gen t = ps_next_gen s" for t
    unfolding binding_uses_def using assms(1) that by (intro sum.remove) simp_all
  have "?rest s' = ?rest s" using assms(2,3) by (intro sum.cong) simp_all
  then show ?thesis using split[OF refl] split[OF assms(2)] by (simp add: ac_simps)
qed

lemma binding_used:
  assumes "j < ps_next_gen s" "i \<in> set (gen_bindings (ps_gens s j))"
  shows "i \<in># binding_uses s"
  using assms unfolding binding_uses_def by (auto simp: set_mset_sum)

text \<open>The references of a call become the bindings of a generation, and those it had the call's.\<close>

lemma install_bindings_ok:
  assumes "refs_ok (mset bs + extra) s" "i < ps_next_gen s" "\<And>g. gen_bindings (f g) = bs"
    "\<And>g. gen_refs (f g) = gen_refs g" "\<And>g. gen_ok (f g) = gen_ok g"
  shows "refs_ok (mset (gen_bindings (ps_gens s i)) + extra) (upd_gen i f s)"
proof -
  let ?s = "upd_gen i f s"
  have "binding_uses ?s + mset (gen_bindings (ps_gens s i)) = binding_uses s + mset bs"
    using binding_uses_split[OF assms(2), of ?s] by (simp add: assms(3))
  then have sub: "users ?s + (mset (gen_bindings (ps_gens s i)) + extra) = users s + (mset bs + extra)"
    by (simp add: users_def ac_simps)
  show ?thesis
    using sub refs_okD(2,5-8)[OF assms(1)] by (intro refs_ok_move[OF assms(1)]) (auto simp: assms(4,5))
qed

lemma release_dependency_bindings_ok:
  assumes "refs_ok extra s" "i < ps_next_gen s"
  shows "\<exists>s'. release_dependency_bindings i s = Some s' \<and> refs_ok extra s' \<and> gen_bindings (ps_gens s' i) = [] \<and>
    ps_next_gen s' = ps_next_gen s \<and> ps_insts s' = ps_insts s \<and>
    gen_stopping (ps_gens s' i) = gen_stopping (ps_gens s i)"
proof -
  let ?bs = "gen_bindings (ps_gens s i)"
  let ?s = "upd_gen i (\<lambda>g. g\<lparr>gen_stopped_bindings := ?bs, gen_bindings := [], gen_legacy := []\<rparr>) s"
  have "binding_uses ?s + mset ?bs = binding_uses s" using binding_uses_split[OF assms(2), of ?s] by simp
  then have "users ?s + mset ?bs = users s" by (simp add: users_def add.assoc)
  then have ok: "refs_ok (mset ?bs + extra) ?s"
    using refs_okD(2,5-8)[OF assms(1)] by (intro refs_ok_move[OF assms(1)]) (auto simp: gen_ok_def)
  obtain s' where s': "release_all ?bs ?s = Some s'" "refs_ok extra s'" "same_but_refs ?s s'" using release_all_ok[OF ok] by blast
  then show ?thesis
    using same_but_refsD(1,6)[OF s'(3), of i] by (auto simp: release_dependency_bindings_def Let_def same_but_refs_def)
qed

subsection \<open>Leases keep the count\<close>

lemma used_not_drained:
  assumes "refs_ok extra s" "i \<in># users s + extra"
  shows "\<not> gen_drained (ps_gens s i)"
proof -
  have "0 < count (users s + extra) i" using assms(2) by (simp only: count_greater_zero_iff)
  then have "0 < gen_refs (ps_gens s i)" using refs_okD(1)[OF assms(1), of i] by linarith
  then show ?thesis using refs_okD(2)[OF assms(1), of i] by (simp add: gen_ok_def)
qed

text \<open>What may be included: the current generation of a plugin as a root, else a binding.\<close>

definition includable :: "psys \<Rightarrow> gid \<Rightarrow> bool \<Rightarrow> bool" where
  "includable s i root \<longleftrightarrow> i < ps_next_gen s \<and> (root \<or> i \<in># binding_uses s)"

lemma includable_cong: "same_but_refs s s' \<Longrightarrow> includable s' i root = includable s i root"
  by (simp add: includable_def same_but_refsD(10,11))

definition pins_ok :: "gid multiset \<Rightarrow> gid list \<Rightarrow> psys \<Rightarrow> bool" where
  "pins_ok extra pins s \<longleftrightarrow> refs_ok (mset pins + extra) s \<and> distinct pins \<and> set pins \<subseteq> {..<ps_next_gen s}"

lemma pins_short: "pins_ok extra pins s \<Longrightarrow> length pins \<le> ps_next_gen s"
  unfolding pins_ok_def using card_mono[of "{..<ps_next_gen s}" "set pins"] by (simp add: distinct_card)

lemma include_gen_ok:
  shows "pins_ok extra pins s \<Longrightarrow> includable s i root \<Longrightarrow> ps_next_gen s < k + length pins \<Longrightarrow>
      \<exists>e pins' s'. include_gen k i root pins s = Some (e, pins', s') \<and> pins_ok extra pins' s' \<and> same_but_refs s s' \<and>
        length pins \<le> length pins'"
    and "pins_ok extra pins s \<Longrightarrow> \<forall>i \<in> set is. includable s i root \<Longrightarrow> ps_next_gen s < k + length pins \<Longrightarrow>
      \<exists>e pins' s'. include_bindings k is root pins s = Some (e, pins', s') \<and> pins_ok extra pins' s' \<and> same_but_refs s s' \<and>
        length pins \<le> length pins'"
proof (induction k i root pins s and k "is" root pins s rule: include_gen_include_bindings.induct)
  case (1 i root pins s)
  then show ?case using pins_short by fastforce
next
  case (2 k i root pins s)
  show ?case
  proof (cases "i \<in> set pins")
    case True
    then show ?thesis using 2(2) same_but_refs_refl by auto
  next
    case new: False
    let ?g = "ps_gens s i"
    show ?thesis
    proof (cases "gen_forced ?g \<or> root \<and> gen_retired ?g \<or> \<not> root \<and> \<not> gen_started ?g \<or> gen_done ?g")
      case True
      then show ?thesis using new 2(2) same_but_refs_refl by (auto simp: Let_def)
    next
      case ok: False
      have refs: "refs_ok (mset pins + extra) s" using 2(2) by (simp add: pins_ok_def)
      have nd: "\<not> gen_drained ?g"
      proof (cases root)
        case True
        then show ?thesis using ok refs_okD(2)[OF refs, of i] by (simp add: gen_ok_def)
      next
        case False
        then show ?thesis using 2(3) by (intro used_not_drained[OF refs]) (simp add: includable_def users_def)
      qed
      note same = pin_same[OF nd]
      have i: "i < ps_next_gen s" using 2(3) by (simp add: includable_def)
      have pins: "pins_ok extra (pins @ [i]) (pin i s)"
        using pin_ok[OF refs i nd] 2(2) new i same_but_refsD(11)[OF same] by (simp add: pins_ok_def)
      have below: "\<forall>j \<in> set (gen_bindings ?g). includable (pin i s) j False"
      proof
        fix j
        assume j: "j \<in> set (gen_bindings ?g)"
        have "j \<in># binding_uses s" by (rule binding_used[OF i j])
        moreover have "j < ps_next_gen s" using refs_okD(3)[OF refs, of j] \<open>j \<in># binding_uses s\<close> by (simp add: users_def)
        ultimately show "includable (pin i s) j False" unfolding includable_cong[OF same] by (simp add: includable_def)
      qed
      have fuel: "ps_next_gen (pin i s) < k + length (pins @ [i])" using 2(4) same_but_refsD(11)[OF same] by simp
      have neg: "\<not> (gen_forced ?g \<or> root \<and> gen_retired ?g \<or> \<not> root \<and> \<not> gen_started ?g)" "\<not> gen_done ?g" using ok by blast+
      from 2(1)[OF new refl neg pins below fuel] show ?thesis
        using new neg same_but_refs_trans[OF same] by (fastforce simp: Let_def)
    qed
  qed
next
  case (3 k root pins s)
  then show ?case using same_but_refs_refl by auto
next
  case (4 k i "is" root pins s)
  have "includable s i root" using 4(4) by simp
  from 4(1)[OF 4(3) this 4(5)] obtain e pins1 s1 where first: "include_gen k i root pins s = Some (e, pins1, s1)"
    "pins_ok extra pins1 s1" "same_but_refs s s1" "length pins \<le> length pins1" by blast
  show ?case
  proof (cases e)
    case None
    have rest: "\<forall>j \<in> set is. includable s1 j root" using 4(4) includable_cong[OF first(3)] by simp
    have "ps_next_gen s1 < k + length pins1" using 4(5) first(4) same_but_refsD(11)[OF first(3)] by simp
    from 4(2)[OF first(1) refl None refl first(2) rest this] show ?thesis
      using first None same_but_refs_trans[OF first(3)] by fastforce
  qed (use first in auto)
qed

lemma lease_roots_current:
  assumes "lease_roots s ns roots = Inr roots'" "refs_ok extra s" "\<forall>i \<in> set (map snd roots). i < ps_next_gen s"
  shows "\<forall>i \<in> set (map snd roots'). i < ps_next_gen s"
  using assms
proof (induction ns arbitrary: roots)
  case (Cons n ns)
  obtain k where k: "map_of (ps_plugins s) n = Some k" using Cons.prems(1) by (auto split: option.splits)
  note i = refs_okD(4)[OF Cons.prems(2) k]
  show ?case
    by (rule Cons.IH[of "if map_of roots n = None then roots @ [(n, in_gen (ps_insts s k))] else roots"])
      (use Cons.prems k i in \<open>auto split: if_splits\<close>)
qed simp

lemma acquire_ok:
  assumes "refs_ok extra s"
  shows "\<exists>r s'. acquire names s = Some (r, s') \<and> refs_ok extra s' \<and>
    (case r of Inl _ \<Rightarrow> same_but_refs s s'
     | Inr l \<Rightarrow> \<exists>le t. same_but_refs s t \<and> s' = t\<lparr>ps_leases := (l, le) # ps_leases t, ps_next_lease := Suc (ps_next_lease t)\<rparr>)"
proof -
  let ?names = "lease_names s names"
  show ?thesis
  proof (cases "lease_roots s ?names []")
    case (Inl e)
    then show ?thesis using assms same_but_refs_refl by (simp add: acquire_def Let_def)
  next
    case (Inr roots)
    have "\<forall>i \<in> set (map snd roots). i < ps_next_gen s" using lease_roots_current[OF Inr assms] by simp
    then have inc: "\<forall>i \<in> set (map snd roots). includable s i True" by (simp add: includable_def)
    have pins: "pins_ok extra [] s" using assms by (simp add: pins_ok_def)
    have fuel: "ps_next_gen s < Suc (ps_next_gen s) + length []" by simp
    from include_gen_ok(2)[OF pins inc fuel] obtain e pins' s' where
      run: "include_bindings (Suc (ps_next_gen s)) (map snd roots) True [] s = Some (e, pins', s')"
      and p: "pins_ok extra pins' s'" "same_but_refs s s'" by blast
    have refs: "refs_ok (mset pins' + extra) s'" using p(1) by (simp add: pins_ok_def)
    show ?thesis
    proof (cases e)
      case (Some err)
      obtain s2 where "release_all pins' s' = Some s2" "refs_ok extra s2" "same_but_refs s' s2" using release_all_ok[OF refs] by blast
      then show ?thesis
        using Inr run Some same_but_refs_trans[OF p(2)] by (simp add: acquire_def Let_def)
    next
      case None
      let ?le = "\<lparr>le_plugins = lease_routes s' roots pins', le_generations = pins', le_roots = map snd roots\<rparr>"
      let ?s = "s'\<lparr>ps_leases := (ps_next_lease s', ?le) # ps_leases s', ps_next_lease := Suc (ps_next_lease s')\<rparr>"
      have "users ?s = users s' + mset pins'" by (simp add: users_def lease_uses_def binding_uses_def)
      then have "refs_ok extra ?s"
        using refs_okD(2,5-8)[OF refs] by (intro refs_ok_move[OF refs]) (auto simp: less_Suc_eq dest: refs_okD(8)[OF refs])
      then show ?thesis using Inr run None p(2) by (auto simp: acquire_def Let_def)
    qed
  qed
qed

lemma delete_lease_uses:
  "map_of (ls :: (nat \<times> lease) list) l = Some le \<Longrightarrow> distinct (map fst ls) \<Longrightarrow>
    mset (concat (map (\<lambda>x. le_generations (snd x)) (AList.delete l ls))) + mset (le_generations le)
      = mset (concat (map (\<lambda>x. le_generations (snd x)) ls))"
proof (induction ls)
  case (Cons x ls)
  show ?case
  proof (cases "fst x = l")
    case True
    then have "l \<notin> fst ` set ls" using Cons.prems(2) by auto
    then show ?thesis using Cons.prems True by (cases x) (simp add: add.commute)
  next
    case False
    then show ?thesis using Cons by (cases x) (auto simp: add.assoc)
  qed
qed simp

lemma release_lease_ok:
  assumes "refs_ok extra s"
  shows "\<exists>s'. release_lease l s = Some s' \<and> refs_ok extra s' \<and>
    same_but_refs (s\<lparr>ps_leases := AList.delete l (ps_leases s)\<rparr>) s'"
proof (cases "map_of (ps_leases s) l")
  case None
  then have "AList.delete l (ps_leases s) = ps_leases s" by (simp add: delete_id map_of_eq_None_iff)
  then show ?thesis using None assms same_but_refs_refl by (simp add: release_lease_def)
next
  case (Some le)
  let ?s = "s\<lparr>ps_leases := AList.delete l (ps_leases s)\<rparr>"
  have "lease_uses ?s + mset (le_generations le) = lease_uses s"
    using delete_lease_uses[OF Some refs_okD(7)[OF assms]] by (simp add: lease_uses_def)
  then have u: "users ?s + (mset (le_generations le) + extra) = users s + extra"
    by (simp add: users_def binding_uses_def ac_simps)
  have "set (AList.delete l (ps_leases s)) \<subseteq> set (ps_leases s)" by (auto simp: AList.delete_eq)
  then have ok: "refs_ok (mset (le_generations le) + extra) ?s"
    using refs_okD(2,5-8)[OF assms] u by (intro refs_ok_move[OF assms]) (auto simp: distinct_delete)
  then obtain s' where "release_all (le_generations le) ?s = Some s'" "refs_ok extra s'" "same_but_refs ?s s'"
    using release_all_ok by blast
  then show ?thesis using Some by (simp add: release_lease_def)
qed

subsection \<open>Retirement keeps the count\<close>

lemma retire_generation_ok:
  assumes "refs_ok extra s"
  shows "\<exists>f. retire_generation i s = Some (upd_gen i f s) \<and> refs_ok extra (upd_gen i f s) \<and>
    (\<forall>g. gen_bindings (f g) = gen_bindings g \<and> gen_name (f g) = gen_name g \<and> gen_plugin (f g) = gen_plugin g)"
proof -
  let ?g = "ps_gens s i"
  note D = refs_okD(1,2)[OF assms, of i]
  have keep: "refs_ok extra (upd_gen i f s)"
    if "\<And>g. gen_bindings (f g) = gen_bindings g" "gen_refs (f ?g) = gen_refs ?g" "gen_ok (f ?g)" for f
    using that D by (intro refs_ok_upd[OF assms]) (auto simp: refs_okD(3)[OF assms])
  consider (was) "gen_retired ?g" | (idle) "\<not> gen_retired ?g" "gen_refs ?g = 0" | (used) "\<not> gen_retired ?g" "gen_refs ?g \<noteq> 0" by blast
  then show ?thesis
  proof cases
    case was
    then show ?thesis using assms by (intro exI[of _ id]) (simp add: retire_generation_def Let_def upd_gen_def)
  next
    case idle
    let ?f = "\<lambda>g. g\<lparr>gen_retired := True, gen_drained := True\<rparr>"
    have "refs_ok extra (upd_gen i ?f s)" using D(2) idle by (intro keep) (auto simp: gen_ok_def)
    then show ?thesis using idle D(2) by (intro exI[of _ ?f]) (simp add: retire_generation_def Let_def gen_ok_def)
  next
    case used
    let ?f = "\<lambda>g. g\<lparr>gen_retired := True\<rparr>"
    have "refs_ok extra (upd_gen i ?f s)" using D(2) used by (intro keep) (auto simp: gen_ok_def)
    then show ?thesis using used by (intro exI[of _ ?f]) (simp add: retire_generation_def Let_def)
  qed
qed

lemma begin_stop_ok:
  assumes "refs_ok extra s" "gen_drained (ps_gens s i) \<or> gen_forced (ps_gens s i)"
  shows "refs_ok extra (begin_stop i s)"
  unfolding begin_stop_def
  using assms(2) refs_okD(1-3)[OF assms(1), of i] by (intro refs_ok_upd[OF assms(1)]) (auto simp: gen_ok_def)

lemma force_stop_ok:
  assumes "refs_ok extra s"
  shows "refs_ok extra (force_stop i s)"
  unfolding force_stop_def
proof (rule begin_stop_ok)
  show "refs_ok extra (upd_gen i (\<lambda>g. g\<lparr>gen_forced := True\<rparr>) s)"
    using refs_okD(1-3)[OF assms, of i] by (intro refs_ok_upd[OF assms]) (auto simp: gen_ok_def)
qed simp

lemma finish_stop_ok:
  assumes "refs_ok extra s" "i < ps_next_gen s" "gen_stopping (ps_gens s i)"
  shows "\<exists>s'. finish_stop i e s = Some s' \<and> refs_ok extra s'"
proof -
  let ?err = "\<lambda>g. g\<lparr>gen_err := (if gen_forced g then Some (Joined (ForcedStop # (case e of None \<Rightarrow> [] | Some e \<Rightarrow> [e]))) else e)\<rparr>"
  let ?s = "upd_gen i ?err s"
  have "refs_ok extra ?s" using refs_okD(1-3)[OF assms(1), of i] by (intro refs_ok_upd[OF assms(1)]) (auto simp: gen_ok_def)
  then obtain s' where s': "release_dependency_bindings i ?s = Some s'" "refs_ok extra s'" "gen_stopping (ps_gens s' i)"
    using release_dependency_bindings_ok[of extra ?s i] assms(2,3) by auto
  have "refs_ok extra (upd_gen i (\<lambda>g. g\<lparr>gen_done := True\<rparr>) s')"
    using s'(3) refs_okD(1-3)[OF s'(2), of i] by (intro refs_ok_upd[OF s'(2)]) (auto simp: gen_ok_def)
  then show ?thesis using s'(1) by (simp add: finish_stop_def)
qed

lemma refs_ok_cong:
  assumes "refs_ok extra s" "ps_gens s' = ps_gens s" "ps_next_gen s' = ps_next_gen s" "ps_leases s' = ps_leases s"
    "ps_next_lease s' = ps_next_lease s" "\<And>n k. map_of (ps_plugins s') n = Some k \<Longrightarrow> k < ps_next_inst s'"
    "\<And>k. k < ps_next_inst s' \<Longrightarrow> in_gen (ps_insts s' k) < ps_next_gen s"
  shows "refs_ok extra s'"
proof -
  have "users s' = users s" by (simp add: users_def lease_uses_def binding_uses_def assms(2-4))
  then show ?thesis using assms(6,7) refs_okD(2,7,8)[OF assms(1)] by (intro refs_ok_move[OF assms(1)]) (simp_all add: assms(2-5))
qed

lemma retirement_turn_ok:
  assumes "refs_ok extra s"
  shows "refs_ok extra (retirement_turn r s)"
proof (cases "ps_retiring s ! r")
  case (Cons i "is")
  have "refs_ok extra (s\<lparr>ps_retiring := (ps_retiring s)[r := is]\<rparr>)"
    by (rule refs_ok_cong[OF assms]) (use refs_okD(5,6)[OF assms] in simp_all)
  then show ?thesis using Cons assms begin_stop_ok[OF assms, of i] by (simp add: retirement_turn_def)
qed (use assms in \<open>simp add: retirement_turn_def\<close>)

lemma add_generation_ok:
  assumes "refs_ok (mset (gen_bindings g) + extra) s" "gen_refs g = 0" "gen_ok g"
  shows "refs_ok extra (snd (add_generation g s))"
proof -
  let ?i = "ps_next_gen s" and ?s = "snd (add_generation g s)"
  note D = refs_okD[OF assms(1)]
  have "(\<Sum>j<?i. mset (gen_bindings (if j = ?i then g else ps_gens s j))) = (\<Sum>j<?i. mset (gen_bindings (ps_gens s j)))"
    by (rule sum.cong) simp_all
  then have "users ?s = users s + mset (gen_bindings g)"
    by (simp add: users_def lease_uses_def binding_uses_def add_generation_def)
  then have uses: "users ?s + extra = users s + (mset (gen_bindings g) + extra)" by (simp add: ac_simps)
  have "?i \<notin># users s + (mset (gen_bindings g) + extra)" using D(3)[of ?i] by blast
  then have "count (users s + (mset (gen_bindings g) + extra)) ?i = 0" by (rule iffD2[OF count_eq_zero_iff])
  then have "gen_refs (ps_gens ?s j) = int (count (users ?s + extra) j)" for j
    unfolding uses using D(1)[of j] assms(2) by (cases "j = ?i") (simp_all add: add_generation_def)
  moreover have "j < ps_next_gen ?s" if "j \<in># users ?s + extra" for j
    using D(3)[of j] that unfolding uses by (simp add: add_generation_def less_SucI)
  moreover have "gen_ok (ps_gens ?s j)" for j using D(2) assms(3) by (simp add: add_generation_def)
  ultimately show ?thesis
    using D(5,7,8) less_SucI[OF D(6)] unfolding refs_ok_def by (auto simp: add_generation_def)
qed

text \<open>A generation that began to stop, unless forced, has no user left.\<close>

lemma stopping_unused:
  assumes "refs_ok extra s" "gen_stopping (ps_gens s i)" "\<not> gen_forced (ps_gens s i)"
  shows "gen_retired (ps_gens s i)" "gen_refs (ps_gens s i) = 0" "i \<notin># users s + extra"
proof -
  show "gen_retired (ps_gens s i)" "gen_refs (ps_gens s i) = 0"
    using assms(2,3) refs_okD(2)[OF assms(1), of i] by (auto simp: gen_ok_def)
  then have "count (users s + extra) i = 0" using refs_okD(1)[OF assms(1), of i] by simp
  then show "i \<notin># users s + extra" by (rule iffD1[OF count_eq_zero_iff])
qed

subsection \<open>What a lease holds\<close>

text \<open>The generations included are closed under the bindings.\<close>

definition included :: "psys \<Rightarrow> gid list \<Rightarrow> gid list \<Rightarrow> psys \<Rightarrow> bool" where
  "included s pins pins' s' \<longleftrightarrow> set pins \<subseteq> set pins' \<and> (distinct pins \<longrightarrow> distinct pins') \<and> (\<forall>j. gen_bindings (ps_gens s' j) = gen_bindings (ps_gens s j)) \<and>
     (\<forall>j \<in> set pins' - set pins. set (gen_bindings (ps_gens s j)) \<subseteq> set pins' \<and> \<not> gen_forced (ps_gens s j) \<and> \<not> gen_done (ps_gens s j)) \<and>
     (\<forall>j. gen_forced (ps_gens s' j) = gen_forced (ps_gens s j) \<and> gen_done (ps_gens s' j) = gen_done (ps_gens s j) \<and>
        gen_name (ps_gens s' j) = gen_name (ps_gens s j) \<and> gen_plugin (ps_gens s' j) = gen_plugin (ps_gens s j)) \<and>
     ps_leases s' = ps_leases s \<and> ps_next_lease s' = ps_next_lease s"

lemma included_refl: "included s pins pins s"
  by (simp add: included_def)

lemma included_trans: "included s pins pins1 s1 \<Longrightarrow> included s1 pins1 pins2 s2 \<Longrightarrow> included s pins pins2 s2"
  unfolding included_def by (auto; blast)

lemma include_gen_included:
  shows "include_gen k i root pins s = Some (None, pins', s') \<Longrightarrow> included s pins pins' s' \<and> i \<in> set pins'"
    and "include_bindings k is root pins s = Some (None, pins', s') \<Longrightarrow> included s pins pins' s' \<and> set is \<subseteq> set pins'"
proof (induction k i root pins s and k "is" root pins s arbitrary: pins' s' and pins' s' rule: include_gen_include_bindings.induct)
  case (2 k i root pins s)
  show ?case
  proof (cases "i \<in> set pins")
    case True
    then show ?thesis using 2(2) included_refl by auto
  next
    case new: False
    let ?g = "ps_gens s i"
    have neg: "\<not> (gen_forced ?g \<or> root \<and> gen_retired ?g \<or> \<not> root \<and> \<not> gen_started ?g)" "\<not> gen_done ?g"
      and run: "include_bindings k (gen_bindings ?g) False (pins @ [i]) (pin i s) = Some (None, pins', s')"
      using 2(2) new by (auto simp: Let_def split: if_splits)
    from 2(1)[OF new refl neg run] show ?thesis
      using neg new by (auto simp: included_def pin_def)
  qed
next
  case (4 k i "is" root pins s)
  obtain pins1 s1 where first: "include_gen k i root pins s = Some (None, pins1, s1)"
    and rest: "include_bindings k is root pins1 s1 = Some (None, pins', s')"
    using 4(3) by (auto split: option.splits)
  have "included s pins pins1 s1 \<and> i \<in> set pins1" by (rule 4(1)[OF first])
  moreover have "included s1 pins1 pins' s' \<and> set is \<subseteq> set pins'" by (rule 4(2)[OF first refl refl refl rest])
  ultimately show ?case using included_trans[of s pins pins1 s1 pins' s'] by (auto simp: included_def)
qed (simp_all add: included_refl)

text \<open>The route of a name: its root, else the only generation of that name in the lease.\<close>

lemma routes_root:
  "map_of roots n = Some r \<Longrightarrow>
    fst (fold (route_name s roots) pins acc) n =
      (if \<exists>i \<in> set pins. gen_name (ps_gens s i) = n then Some (gen_plugin (ps_gens s r)) else fst acc n)"
  by (induction pins arbitrary: acc) (auto simp: route_name_def Let_def split: prod.splits option.splits)

definition named :: "psys \<Rightarrow> string \<Rightarrow> gid list \<Rightarrow> gid list" where
  "named s n = filter (\<lambda>i. gen_name (ps_gens s i) = n)"

definition sole_plugin :: "psys \<Rightarrow> gid list \<Rightarrow> plugin option" where
  "sole_plugin s is = (case is of [i] \<Rightarrow> Some (gen_plugin (ps_gens s i)) | _ \<Rightarrow> None)"

definition routed_as :: "psys \<Rightarrow> string \<Rightarrow> gid list \<Rightarrow> (string \<rightharpoonup> plugin) \<times> (string \<rightharpoonup> gid) \<times> string list \<Rightarrow> bool" where
  "routed_as s n is acc \<longleftrightarrow> fst acc n = sole_plugin s is \<and>
     fst (snd acc) n = (case is of [] \<Rightarrow> None | i # _ \<Rightarrow> Some i) \<and> (n \<in> set (snd (snd acc)) \<longleftrightarrow> 1 < length is)"

lemma routed_step:
  assumes "map_of roots n = None" "routed_as s n (named s n seen) acc" "i \<notin> set seen"
  shows "routed_as s n (named s n (seen @ [i])) (route_name s roots i acc)"
proof (cases "gen_name (ps_gens s i) = n")
  case False
  then show ?thesis
    using assms(2) by (auto simp: routed_as_def named_def route_name_def Let_def split: prod.splits option.splits)
next
  case True
  have i: "i \<notin> set (named s n seen)" using assms(3) by (auto simp: named_def)
  have "named s n (seen @ [i]) = named s n seen @ [i]" using True by (simp add: named_def)
  moreover have "routed_as s n (js @ [i]) (route_name s roots i acc)" if "routed_as s n js acc" "i \<notin> set js" for js
    using that True assms(1) by (auto simp: routed_as_def route_name_def sole_plugin_def Let_def split: prod.splits list.splits)
  ultimately show ?thesis using assms(2) i by simp
qed

lemma routes_other:
  assumes "map_of roots n = None"
  shows "distinct (seen @ pins) \<Longrightarrow> routed_as s n (named s n seen) acc \<Longrightarrow>
    fst (fold (route_name s roots) pins acc) n = sole_plugin s (named s n (seen @ pins))"
proof (induction pins arbitrary: seen acc)
  case Nil
  then show ?case by (simp add: routed_as_def)
next
  case (Cons i pins)
  have d: "distinct ((seen @ [i]) @ pins)" and i: "i \<notin> set seen" using Cons.prems(1) by simp_all
  from Cons.IH[OF d routed_step[OF assms Cons.prems(2) i]] show ?case by simp
qed

definition current_running :: "psys \<Rightarrow> string \<Rightarrow> gid \<Rightarrow> bool" where
  "current_running s n i \<longleftrightarrow>
     (\<exists>k. map_of (ps_plugins s) n = Some k \<and> in_state (ps_insts s k) = PluginStateRunning \<and> i = in_gen (ps_insts s k))"

lemma lease_roots_Inr:
  assumes "lease_roots s ns roots = Inr roots'" "\<And>n i. map_of roots n = Some i \<Longrightarrow> current_running s n i"
  shows "(\<forall>n i. map_of roots' n = Some i \<longrightarrow> current_running s n i) \<and> fst ` set roots' = fst ` set roots \<union> set ns"
  using assms
proof (induction ns arbitrary: roots)
  case (Cons n ns)
  obtain k where k: "map_of (ps_plugins s) n = Some k" "in_state (ps_insts s k) = PluginStateRunning"
    using Cons.prems(1) by (auto split: option.splits if_splits)
  let ?roots = "if map_of roots n = None then roots @ [(n, in_gen (ps_insts s k))] else roots"
  have n: "current_running s n (in_gen (ps_insts s k))" using k by (auto simp: current_running_def)
  have rest: "lease_roots s ns ?roots = Inr roots'" using Cons.prems(1) k by simp
  have cur: "current_running s m i" if "map_of ?roots m = Some i" for m i
  proof (cases "map_of roots m = Some i")
    case True
    then show ?thesis by (rule Cons.prems(2))
  next
    case False
    then have "m = n \<and> i = in_gen (ps_insts s k)" using that by (auto simp: map_add_Some_iff split: if_splits)
    then show ?thesis using n by simp
  qed
  have dom: "fst ` set ?roots = insert n (fst ` set roots)" by (auto simp: map_of_eq_None_iff)
  from Cons.IH[OF rest cur] show ?case unfolding dom by simp
qed simp

text \<open>What \<open>Acquire\<close> promises of the lease it returns.\<close>

definition lease_sound :: "psys \<Rightarrow> string list \<Rightarrow> lease \<Rightarrow> bool" where
  "lease_sound s names le \<longleftrightarrow>
     distinct (le_generations le) \<and>
     (\<forall>n \<in> set names. \<exists>k. map_of (ps_plugins s) n = Some k \<and> in_state (ps_insts s k) = PluginStateRunning \<and>
        in_gen (ps_insts s k) \<in> set (le_generations le) \<and> le_plugins le n = Some (gen_plugin (ps_gens s (in_gen (ps_insts s k))))) \<and>
     (\<forall>i \<in> set (le_generations le). \<not> gen_forced (ps_gens s i) \<and> \<not> gen_done (ps_gens s i) \<and>
        set (gen_bindings (ps_gens s i)) \<subseteq> set (le_generations le)) \<and>
     (\<forall>n p. le_plugins le n = Some p \<longrightarrow> n \<notin> set names \<longrightarrow>
        (\<exists>i. {j \<in> set (le_generations le). gen_name (ps_gens s j) = n} = {i} \<and> p = gen_plugin (ps_gens s i)))"

lemma acquire_sound:
  assumes "acquire names s = Some (Inr l, s')"
    "\<And>n k. map_of (ps_plugins s) n = Some k \<Longrightarrow> gen_name (ps_gens s (in_gen (ps_insts s k))) = n"
  shows "\<exists>le. ps_leases s' = (l, le) # ps_leases s \<and> lease_sound s (lease_names s names) le"
proof -
  let ?ns = "lease_names s names"
  obtain roots where roots: "lease_roots s ?ns [] = Inr roots"
    using assms(1) by (auto simp: acquire_def split: sum.splits)
  obtain pins t where run: "include_bindings (Suc (ps_next_gen s)) (map snd roots) True [] s = Some (None, pins, t)"
    and s': "l = ps_next_lease t" "s' = t\<lparr>ps_leases := (ps_next_lease t, \<lparr>le_plugins = lease_routes t roots pins, le_generations = pins,
                      le_roots = map snd roots\<rparr>) # ps_leases t, ps_next_lease := Suc (ps_next_lease t)\<rparr>"
    using assms(1) roots by (auto simp: acquire_def split: option.splits)
  let ?le = "\<lparr>le_plugins = lease_routes t roots pins, le_generations = pins, le_roots = map snd roots\<rparr>"
  have inc: "included s [] pins t" "set (map snd roots) \<subseteq> set pins" using include_gen_included(2)[OF run] by simp_all
  have R: "current_running s n i" if "map_of roots n = Some i" for n i using lease_roots_Inr[OF roots] that by simp
  have dom: "fst ` set roots = set ?ns" using lease_roots_Inr[OF roots] by simp
  have same: "gen_name (ps_gens t j) = gen_name (ps_gens s j)" "gen_plugin (ps_gens t j) = gen_plugin (ps_gens s j)" for j
    using inc(1) by (simp_all add: included_def)
  have asked: "\<exists>k. map_of (ps_plugins s) n = Some k \<and> in_state (ps_insts s k) = PluginStateRunning \<and>
        in_gen (ps_insts s k) \<in> set pins \<and> lease_routes t roots pins n = Some (gen_plugin (ps_gens s (in_gen (ps_insts s k))))"
    if "n \<in> set ?ns" for n
  proof -
    have "map_of roots n \<noteq> None" using that unfolding map_of_eq_None_iff dom by simp
    then obtain i where i: "map_of roots n = Some i" by blast
    then obtain k where k: "map_of (ps_plugins s) n = Some k" "in_state (ps_insts s k) = PluginStateRunning" "i = in_gen (ps_insts s k)"
      using R[OF i] unfolding current_running_def by blast
    have "i \<in> set pins" using map_of_SomeD[OF i] inc(2) by force
    moreover have "gen_name (ps_gens t i) = n" using assms(2)[OF k(1)] k(3) same by simp
    ultimately show ?thesis using k routes_root[OF i, of t pins] same by (auto simp: lease_routes_def)
  qed
  have other: "\<exists>i. {j \<in> set pins. gen_name (ps_gens s j) = n} = {i} \<and> p = gen_plugin (ps_gens s i)"
    if "lease_routes t roots pins n = Some p" "n \<notin> set ?ns" for n p
  proof -
    note given = that
    have none: "map_of roots n = None" using that(2) dom by (simp add: map_of_eq_None_iff)
    have "routed_as t n (named t n []) (Map.empty, Map.empty, [])" by (simp add: routed_as_def named_def sole_plugin_def)
    then have "lease_routes t roots pins n = sole_plugin t (named t n pins)"
      using routes_other[OF none, of "[]" pins t] inc(1) by (simp add: lease_routes_def included_def)
    then obtain i where i: "named t n pins = [i]" "p = gen_plugin (ps_gens t i)"
      using given(1) by (auto simp: sole_plugin_def split: list.splits)
    have "{j \<in> set pins. gen_name (ps_gens t j) = n} = set (named t n pins)" by (auto simp: named_def)
    then show ?thesis using i same by auto
  qed
  have "lease_sound s ?ns ?le"
    using asked other inc(1) unfolding lease_sound_def included_def by simp
  moreover have "ps_leases s' = (l, ?le) # ps_leases s" using s' inc(1) by (simp add: included_def)
  ultimately show ?thesis by blast
qed

end
