(* ===== verification/PluginLifecycle.thy ===== *)
theory PluginLifecycle
  imports Calls PluginGenerations
begin

section \<open>The plugin registry and the lifecycle of plugins\<close>

text \<open>
  \<open>plugin/registry.go\<close> and \<open>plugin/lifecycle.go\<close>: registration, and \<open>Init\<close>, \<open>Start\<close> and \<open>Stop\<close> with the
  operations made of them, as calls (\<open>Calls\<close>) cut where they take the registry's or a generation's lock.
  The callbacks of the plugin run between two sections; what they answer, and the dependencies they look
  up in their context, is an argument (\<open>callbacks\<close>). A loop that releases references one generation at a
  time is one section. \<open>DeepCopyChecked\<close> and the hash of a configuration are parameters.
\<close>

type_synonym config = "string option"
type_synonym call = "(psys, plugin_error option) proc"

record callbacks =
  cb_ctx_err :: "plugin_error option"
  cb_copy :: "config \<Rightarrow> config option"
  cb_hash :: "config \<Rightarrow> string"
  cb_init_err :: "plugin_error option"
  cb_init_used :: "string list"
  cb_start_err :: "plugin_error option"
  cb_start_used :: "string list"
  cb_cleanup_err :: "plugin_error option"
  cb_wait_err :: "plugin_error option"
  cb_now :: gotime

definition new_registry :: psys where
  "new_registry = \<lparr>ps_plugins = [], ps_insts = (\<lambda>_. \<lparr>in_plugin = \<lparr>pl_id = 0, pl_info = \<lparr>pi_name = '''', pi_version = '''', pi_dependencies = []\<rparr>\<rparr>,
       in_state = PluginStateUnloaded, in_config = None, in_started_at = None, in_error = None, in_gen = 0\<rparr>), ps_next_inst = 0,
     ps_gens = (\<lambda>_. new_generation \<lparr>pl_id = 0, pl_info = \<lparr>pi_name = '''', pi_version = '''', pi_dependencies = []\<rparr>\<rparr> '''' '''' ''''),
     ps_next_gen = 0, ps_leases = [], ps_next_lease = 0, ps_retiring = [], ps_order = [], ps_events = [], ps_busy = []\<rparr>"

definition join_errors :: "plugin_error option list \<Rightarrow> plugin_error option" where
  "join_errors es = (case List.map_filter id es of [] \<Rightarrow> None | es' \<Rightarrow> Some (Joined es'))"

definition emit :: "plugin_event \<Rightarrow> string \<Rightarrow> psys \<Rightarrow> psys" where
  "emit e n s = s\<lparr>ps_events := ps_events s @ [(e, n)]\<rparr>"

definition fail_instance :: "nat \<Rightarrow> plugin_error option \<Rightarrow> psys \<Rightarrow> psys" where
  "fail_instance k e = upd_inst k (\<lambda>i. i\<lparr>in_state := PluginStateError, in_error := e\<rparr>)"

subsection \<open>The registry\<close>

definition register_plugin :: "plugin \<Rightarrow> psys \<Rightarrow> (plugin_error option \<times> psys) option" where
  "register_plugin p s =
     (let n = pi_name (pl_info p) in
      if map_of (ps_plugins s) n \<noteq> None then Some (Some (AlreadyRegistered n), s)
      else
        (let (g, s1) = add_generation ((new_generation p n (pi_version (pl_info p)) '''')\<lparr>gen_dependencies := pi_dependencies (pl_info p)\<rparr>) s;
             inst = \<lparr>in_plugin = p, in_state = PluginStateLoaded, in_config = None, in_started_at = None, in_error = None, in_gen = g\<rparr>
         in Some (None, s1\<lparr>ps_insts := (ps_insts s1)(ps_next_inst s1 := inst), ps_plugins := (n, ps_next_inst s1) # ps_plugins s1,
                           ps_next_inst := Suc (ps_next_inst s1)\<rparr>)))"

definition register_call :: "plugin \<Rightarrow> call" where
  "register_call p =
     attempt (register_plugin p) (\<lambda>r. case r of
         Some e \<Rightarrow> Return (Some e)
       | None \<Rightarrow> modify (emit PluginEventLoaded (pi_name (pl_info p))) (Return None))"

definition unregister_plugin :: "string \<Rightarrow> psys \<Rightarrow> ((plugin_error + nat) \<times> psys) option" where
  "unregister_plugin n s =
     (case map_of (ps_plugins s) n of
        None \<Rightarrow> Some (Inl (PluginNotFound n), s)
      | Some k \<Rightarrow>
          if in_state (ps_insts s k) = PluginStateRunning then Some (Inl (RunningPlugin n), s)
          else Some (Inr k, s\<lparr>ps_plugins := AList.delete n (ps_plugins s)\<rparr>))"

definition unregister_call :: "string \<Rightarrow> call" where
  "unregister_call n =
     attempt (unregister_plugin n) (\<lambda>r. case r of
         Inl e \<Rightarrow> Return (Some e)
       | Inr k \<Rightarrow>
           try_modify (\<lambda>s. release_dependency_bindings (in_gen (ps_insts s k)) s)
             (modify (emit PluginEventUnloaded n) (Return None)))"

text \<open>\<open>GetInstance\<close> answers the state at that moment, or fails when the configuration cannot be copied.\<close>

definition get_instance :: "callbacks \<Rightarrow> string \<Rightarrow> psys \<Rightarrow> plugin_error + instance_" where
  "get_instance v n s =
     (case map_of (ps_plugins s) n of
        None \<Rightarrow> Inl (PluginNotFound n)
      | Some k \<Rightarrow> if cb_copy v (in_config (ps_insts s k)) = None then Inl ConfigNotCopied else Inr (ps_insts s k))"

definition list_plugins :: "psys \<Rightarrow> plugin_info list" where
  "list_plugins s = sort_key pi_name (map (\<lambda>(n, k). pl_info (in_plugin (ps_insts s k))) (ps_plugins s))"

text \<open>\<open>SetState\<close> writes any state over any other.\<close>

definition set_state :: "string \<Rightarrow> plugin_state \<Rightarrow> psys \<Rightarrow> (plugin_error option \<times> psys) option" where
  "set_state n st s =
     (case map_of (ps_plugins s) n of
        None \<Rightarrow> Some (Some (PluginNotFound n), s)
      | Some k \<Rightarrow> Some (None, upd_inst k (\<lambda>i. i\<lparr>in_state := st\<rparr>) s))"

subsection \<open>Init\<close>

text \<open>Operations on one name are serial; the lock is given up on every return.\<close>

definition lock_operation :: "callbacks \<Rightarrow> string \<Rightarrow> call \<Rightarrow> call" where
  "lock_operation v n body =
     (case cb_ctx_err v of
        Some e \<Rightarrow> Return (Some e)
      | None \<Rightarrow>
          wait_until (\<lambda>s. n \<notin> set (ps_busy s)) (\<lambda>s. s\<lparr>ps_busy := n # ps_busy s\<rparr>)
            (bind_proc body (\<lambda>r. modify (\<lambda>s. s\<lparr>ps_busy := remove1 n (ps_busy s)\<rparr>) (Return r))))"

definition release_held :: "gid list \<Rightarrow> call \<Rightarrow> call" where
  "release_held bs = try_modify (release_all bs)"

text \<open>The route check and the new bindings, under the registry's lock.\<close>

definition publish_init :: "callbacks \<Rightarrow> string \<Rightarrow> nat \<Rightarrow> gid list \<Rightarrow> config \<Rightarrow> psys \<Rightarrow> (bool \<times> psys) option" where
  "publish_init v n k bs frozen s =
     (if map_of (ps_plugins s) n \<noteq> Some k then Some (False, s)
      else Some (True,
        upd_gen (in_gen (ps_insts s k)) (\<lambda>g. g\<lparr>gen_config_hash := cb_hash v frozen, gen_bindings := bs,
            gen_legacy := map (\<lambda>i. (gen_name (ps_gens s i), gen_name (ps_gens s i) \<notin> set (cb_init_used v))) bs\<rparr>)
          (upd_inst k (\<lambda>i. i\<lparr>in_state := PluginStateInitialized, in_config := frozen\<rparr>) s)))"

definition init_bound :: "callbacks \<Rightarrow> string \<Rightarrow> nat \<Rightarrow> config \<Rightarrow> gid list \<Rightarrow> call" where
  "init_bound v n k frozen bs =
     (case cb_init_err v of
        Some e \<Rightarrow> release_held bs (modify (fail_instance k (Some e)) (Return (Some (FailedTo ''init'' n e))))
      | None \<Rightarrow>
          read (legacy_bindings_current bs (cb_init_used v)) (\<lambda>current.
            if \<not> current then release_held bs (Return (join_errors [Some (DependenciesChanged n), cb_cleanup_err v]))
            else
              attempt (publish_init v n k bs frozen) (\<lambda>ok.
                if ok then modify (emit PluginEventInitialized n) (Return None)
                else release_held bs (Return (join_errors [Some (RouteChanged n), cb_cleanup_err v])))))"

definition init_instance :: "callbacks \<Rightarrow> string \<Rightarrow> config \<Rightarrow> nat \<Rightarrow> instance_ \<Rightarrow> call" where
  "init_instance v n cfg k inst =
     (if in_state inst \<noteq> PluginStateLoaded then Return (Some (NotLoadedState n (in_state inst)))
      else
        (case cb_copy v cfg of
           None \<Rightarrow> Return (Some ConfigNotCopied)
         | Some frozen \<Rightarrow>
             if cb_copy v frozen = None then Return (Some ConfigNotCopied)
             else if n \<in> set (pi_dependencies (pl_info (in_plugin inst))) then Return (Some (SelfDependency n))
             else
               attempt (capture_dependencies (pi_dependencies (pl_info (in_plugin inst)))) (\<lambda>r. case r of
                   Inl e \<Rightarrow> Return (Some e)
                 | Inr bs \<Rightarrow> init_bound v n k frozen bs)))"

definition init_call :: "callbacks \<Rightarrow> string \<Rightarrow> config \<Rightarrow> call" where
  "init_call v n cfg = lock_operation v n
     (read (\<lambda>s. map_of (ps_plugins s) n) (\<lambda>found. case found of
         None \<Rightarrow> Return (Some (PluginNotFound n))
       | Some k \<Rightarrow> read (\<lambda>s. ps_insts s k) (init_instance v n cfg k)))"

subsection \<open>Start\<close>

text \<open>A stopped plugin starts in a new generation, bound to the current generations of its dependencies.\<close>

definition restart_generation :: "nat \<Rightarrow> psys \<Rightarrow> ((plugin_error + gid \<times> bool) \<times> psys) option" where
  "restart_generation k s =
     (let previous = ps_gens s (in_gen (ps_insts s k)) in
      case capture_dependencies (gen_dependencies previous) s of
        None \<Rightarrow> None
      | Some (Inl e, s1) \<Rightarrow> Some (Inl e, s1)
      | Some (Inr bs, s1) \<Rightarrow>
          (let (g, s2) = add_generation
             ((new_generation (in_plugin (ps_insts s k)) (gen_name previous) (gen_version previous) (gen_config_hash previous))
                \<lparr>gen_dependencies := gen_dependencies previous, gen_bindings := bs,
                 gen_legacy := map (\<lambda>i. (gen_name (ps_gens s i), True)) bs\<rparr>) s1
           in Some (Inr (g, list_ex (\<lambda>i. i \<notin> set (gen_stopped_bindings previous)) bs), s2)))"

definition publish_start :: "callbacks \<Rightarrow> string \<Rightarrow> nat \<Rightarrow> gid \<Rightarrow> psys \<Rightarrow> (bool \<times> psys) option" where
  "publish_start v n k g s =
     (if map_of (ps_plugins s) n \<noteq> Some k then Some (False, s)
      else Some (True,
        upd_inst k (\<lambda>i. i\<lparr>in_gen := g, in_state := PluginStateRunning, in_started_at := Some (cb_now v), in_error := None\<rparr>)
          (upd_gen g (\<lambda>x. x\<lparr>gen_started := True\<rparr>) s)))"

definition start_bound :: "callbacks \<Rightarrow> string \<Rightarrow> nat \<Rightarrow> gid \<Rightarrow> gid list \<Rightarrow> string list \<Rightarrow> call" where
  "start_bound v n k g bs used =
     (case cb_start_err v of
        Some e \<Rightarrow>
          (let e' = join_errors [Some e, cb_cleanup_err v] in
           try_modify (release_dependency_bindings g)
             (modify (fail_instance k e') (Return (map_option (FailedTo ''start'' n) e'))))
      | None \<Rightarrow>
          read (legacy_bindings_current bs used) (\<lambda>current.
            if \<not> current
            then try_modify (release_dependency_bindings g)
                   (modify (upd_inst k (\<lambda>i. i\<lparr>in_state := PluginStateError\<rparr>))
                     (Return (join_errors [Some (DependenciesChanged n), cb_cleanup_err v])))
            else
              attempt (publish_start v n k g) (\<lambda>ok.
                if ok
                then modify (\<lambda>s. s\<lparr>ps_order := ps_order s @ [n]\<rparr>) (modify (emit PluginEventStarted n) (Return None))
                else try_modify (release_dependency_bindings g)
                       (Return (join_errors [Some (RouteChanged n), cb_cleanup_err v])))))"

definition start_generation :: "callbacks \<Rightarrow> string \<Rightarrow> nat \<Rightarrow> gid \<Rightarrow> bool \<Rightarrow> bool \<Rightarrow> call" where
  "start_generation v n k g stopped rebind =
     read (\<lambda>s. (gen_bindings (ps_gens s g), map fst (filter (\<lambda>x. \<not> snd x) (gen_legacy (ps_gens s g))),
               find (\<lambda>i. \<not> gen_started (ps_gens s i) \<or> gen_forced (ps_gens s i)) (gen_bindings (ps_gens s g)),
               s))
       (\<lambda>(bs, resolved, idle, s). case idle of
          Some i \<Rightarrow>
            (let e = DependencyNotRunning (gen_name (ps_gens s i)) n in
             if stopped then try_modify (release_dependency_bindings g) (Return (Some e)) else Return (Some e))
        | None \<Rightarrow>
            if \<not> rebind then start_bound v n k g bs (cb_start_used v @ resolved)
            else if cb_copy v (in_config (ps_insts s k)) = None
            then try_modify (release_dependency_bindings g) (Return (Some ConfigNotCopied))
            else
              (case cb_init_err v of
                 Some e \<Rightarrow>
                   (let e' = join_errors [Some e, cb_cleanup_err v] in
                    try_modify (release_dependency_bindings g)
                      (modify (fail_instance k e') (Return (map_option (FailedTo ''reinitialize'' n) e'))))
               | None \<Rightarrow> start_bound v n k g bs (cb_init_used v @ cb_start_used v @ resolved)))"

definition start_instance :: "callbacks \<Rightarrow> string \<Rightarrow> nat \<Rightarrow> instance_ \<Rightarrow> call" where
  "start_instance v n k inst =
     (if in_state inst = PluginStateInitialized then start_generation v n k (in_gen inst) False False
      else if in_state inst = PluginStateStopped
      then attempt (restart_generation k) (\<lambda>r. case r of
          Inl e \<Rightarrow> Return (Some e)
        | Inr (g, rebind) \<Rightarrow> start_generation v n k g True rebind)
      else Return (Some (NotReadyState n (in_state inst))))"

definition start_call :: "callbacks \<Rightarrow> string \<Rightarrow> call" where
  "start_call v n = lock_operation v n
     (read (\<lambda>s. map_of (ps_plugins s) n) (\<lambda>found. case found of
         None \<Rightarrow> Return (Some (PluginNotFound n))
       | Some k \<Rightarrow> read (\<lambda>s. ps_insts s k) (start_instance v n k)))"

subsection \<open>Stop\<close>

text \<open>The first running plugin, in the order of the map, that is bound to the generation to stop.\<close>

definition running_dependent :: "nat \<Rightarrow> psys \<Rightarrow> string option" where
  "running_dependent k s =
     map_option fst (find (\<lambda>(n, j). in_state (ps_insts s j) = PluginStateRunning \<and> j \<noteq> k \<and>
        in_gen (ps_insts s k) \<in> set (gen_bindings (ps_gens s (in_gen (ps_insts s j))))) (ps_plugins s))"

definition retire_instance :: "nat \<Rightarrow> psys \<Rightarrow> (gid \<times> psys) option" where
  "retire_instance k s =
     map_option (\<lambda>s'. (in_gen (ps_insts s k), start_retirement [in_gen (ps_insts s k)] s')) (retire_generation (in_gen (ps_insts s k)) s)"

text \<open>\<open>Wait\<close> ends when the generation is stopped, or with the context's error.\<close>

definition stop_result :: "string \<Rightarrow> nat \<Rightarrow> plugin_error option \<Rightarrow> call" where
  "stop_result n k err =
     (case err of
        Some e \<Rightarrow> modify (fail_instance k (Some e)) (Return (Some (FailedTo ''stop'' n e)))
      | None \<Rightarrow>
          modify (upd_inst k (\<lambda>i. i\<lparr>in_state := PluginStateStopped, in_started_at := None\<rparr>))
            (modify (\<lambda>s. s\<lparr>ps_order := remove1 n (ps_order s)\<rparr>)
              (modify (emit PluginEventStopped n) (Return None))))"

definition await_stop :: "callbacks \<Rightarrow> string \<Rightarrow> nat \<Rightarrow> gid \<Rightarrow> call" where
  "await_stop v n k g =
     (case cb_wait_err v of
        Some e \<Rightarrow> Return (Some e)
      | None \<Rightarrow> wait_until (\<lambda>s. gen_done (ps_gens s g)) id (read (\<lambda>s. gen_err (ps_gens s g)) (stop_result n k)))"

definition stop_instance :: "callbacks \<Rightarrow> string \<Rightarrow> nat \<Rightarrow> plugin_state \<Rightarrow> call" where
  "stop_instance v n k st =
     (if st \<noteq> PluginStateRunning then Return (Some (NotRunningState n st))
      else
        read (running_dependent k) (\<lambda>dependent. case dependent of
            Some d \<Rightarrow> Return (Some (DependentRunning n d))
          | None \<Rightarrow> attempt (retire_instance k) (await_stop v n k)))"

definition stop_call :: "callbacks \<Rightarrow> string \<Rightarrow> call" where
  "stop_call v n = lock_operation v n
     (read (\<lambda>s. map_of (ps_plugins s) n) (\<lambda>found. case found of
         None \<Rightarrow> Return (Some (PluginNotFound n))
       | Some k \<Rightarrow> read (\<lambda>s. in_state (ps_insts s k)) (stop_instance v n k)))"

subsection \<open>Restart, and all plugins at once\<close>

definition and_then :: "call \<Rightarrow> call \<Rightarrow> call" where
  "and_then p q = bind_proc p (\<lambda>r. case r of Some e \<Rightarrow> Return (Some e) | None \<Rightarrow> q)"

definition restart_call :: "callbacks \<Rightarrow> string \<Rightarrow> call" where
  "restart_call v n =
     read (get_instance v n) (\<lambda>r. case r of
         Inl e \<Rightarrow> Return (Some e)
       | Inr inst \<Rightarrow> if in_state inst = PluginStateRunning then and_then (stop_call v n) (start_call v n) else start_call v n)"

fun init_each :: "(string \<Rightarrow> callbacks) \<Rightarrow> (string \<rightharpoonup> config) \<Rightarrow> plugin_info list \<Rightarrow> call" where
  "init_each v cfgs [] = Return None"
| "init_each v cfgs (info # infos) =
     (let n = pi_name info in
      and_then (init_call (v n) n (case cfgs n of None \<Rightarrow> Some ''{}'' | Some c \<Rightarrow> c)) (init_each v cfgs infos))"

definition init_all :: "(string \<Rightarrow> callbacks) \<Rightarrow> (string \<rightharpoonup> config) \<Rightarrow> call" where
  "init_all v cfgs = read list_plugins (init_each v cfgs)"

text \<open>
  \<open>sortByDependency\<close>: Kahn's algorithm on the dependencies within the list; \<open>ks\<close> is the order in which
  the map of in-degrees is ranged over. A cycle gives the list back as it was.
\<close>

definition count_dependency :: "string set \<Rightarrow> string \<Rightarrow> string \<Rightarrow> degrees \<times> (string \<Rightarrow> string list) \<Rightarrow> degrees \<times> (string \<Rightarrow> string list)" where
  "count_dependency names n dep acc =
     (case acc of (d, dependents) \<Rightarrow>
        if dep \<in> names then (d(n := d n + 1), dependents(dep := dependents dep @ [n])) else (d, dependents))"

definition dependents_of :: "plugin_info list \<Rightarrow> degrees \<times> (string \<Rightarrow> string list)" where
  "dependents_of infos =
     fold (\<lambda>p. fold (count_dependency (set (map pi_name infos)) (pi_name p)) (pi_dependencies p)) infos (\<lambda>_. 0, \<lambda>_. [])"

definition sort_by_dependency :: "string list \<Rightarrow> plugin_info list \<Rightarrow> plugin_info list option" where
  "sort_by_dependency ks infos =
     (case dependents_of infos of (d, dependents) \<Rightarrow>
        map_option (\<lambda>names.
            let ordered = List.map_filter (map_of (map (\<lambda>p. (pi_name p, p)) (rev infos))) names in
            if length ordered < length infos then infos else ordered)
          (kahn_loop enq_fifo dependents (length infos) d (filter (\<lambda>n. d n = 0) ks) []))"

fun start_each :: "(string \<Rightarrow> callbacks) \<Rightarrow> plugin_info list \<Rightarrow> call" where
  "start_each v [] = Return None"
| "start_each v (info # infos) =
     (let n = pi_name info in
      read (get_instance (v n) n) (\<lambda>r. case r of
          Inl e \<Rightarrow> start_each v infos
        | Inr inst \<Rightarrow>
            if in_state inst = PluginStateInitialized \<or> in_state inst = PluginStateStopped
            then and_then (start_call (v n) n) (start_each v infos)
            else start_each v infos))"

definition start_all :: "(string \<Rightarrow> callbacks) \<Rightarrow> string list \<Rightarrow> call" where
  "start_all v ks =
     read list_plugins (\<lambda>infos. case sort_by_dependency ks infos of None \<Rightarrow> Return None | Some ordered \<Rightarrow> start_each v ordered)"

fun stop_each :: "(string \<Rightarrow> callbacks) \<Rightarrow> string list \<Rightarrow> plugin_error list \<Rightarrow> call" where
  "stop_each v [] errs = Return (if errs = [] then None else Some (Joined errs))"
| "stop_each v (n # ns) errs =
     bind_proc (stop_call (v n) n) (\<lambda>r. stop_each v ns (case r of None \<Rightarrow> errs | Some e \<Rightarrow> errs @ [FailedTo ''stop'' n e]))"

definition stop_all :: "(string \<Rightarrow> callbacks) \<Rightarrow> call" where
  "stop_all v = read ps_order (\<lambda>order. stop_each v (rev order) [])"

text \<open>A health check takes a lease of each plugin for the time of its \<open>Health\<close>.\<close>

fun health_each :: "plugin_info list \<Rightarrow> call" where
  "health_each [] = Return None"
| "health_each (info # infos) =
     attempt (acquire [pi_name info]) (\<lambda>r. case r of
         Inl e \<Rightarrow> health_each infos
       | Inr l \<Rightarrow> try_modify (release_lease l) (modify (emit PluginEventHealthCheck (pi_name info)) (health_each infos)))"

definition health_check :: call where
  "health_check = read list_plugins health_each"

subsection \<open>The manager\<close>

definition unload_call :: "callbacks \<Rightarrow> string \<Rightarrow> call" where
  "unload_call v n =
     read (get_instance v n) (\<lambda>r. case r of
         Inl e \<Rightarrow> Return (Some e)
       | Inr inst \<Rightarrow> if in_state inst = PluginStateRunning then and_then (stop_call v n) (unregister_call n) else unregister_call n)"

definition enable_call :: "callbacks \<Rightarrow> string \<Rightarrow> config \<Rightarrow> call" where
  "enable_call v n cfg = and_then (init_call v n cfg) (start_call v n)"

definition acquire_call :: "string list \<Rightarrow> call" where
  "acquire_call names = attempt (acquire names) (\<lambda>r. case r of Inl e \<Rightarrow> Return (Some e) | Inr l \<Rightarrow> Return None)"

definition release_call :: "nat \<Rightarrow> call" where
  "release_call l = try_modify (release_lease l) (Return None)"

text \<open>The calls a host makes, and what goes on by itself: retirements, callbacks that return, forced stops.\<close>

inductive_set plugin_calls :: "call set" where
  "register_call p \<in> plugin_calls"
| "unregister_call n \<in> plugin_calls"
| "init_call v n c \<in> plugin_calls"
| "start_call v n \<in> plugin_calls"
| "stop_call v n \<in> plugin_calls"
| "restart_call v n \<in> plugin_calls"
| "init_all vs cs \<in> plugin_calls"
| "start_all vs ks \<in> plugin_calls"
| "stop_all vs \<in> plugin_calls"
| "health_check \<in> plugin_calls"
| "unload_call v n \<in> plugin_calls"
| "enable_call v n c \<in> plugin_calls"
| "acquire_call names \<in> plugin_calls"
| "release_call l \<in> plugin_calls"

inductive plugin_background :: "psys \<Rightarrow> psys \<Rightarrow> bool" where
  turn: "r < length (ps_retiring s) \<Longrightarrow> plugin_background s (retirement_turn r s)"
| stopped: "i < ps_next_gen s \<Longrightarrow> gen_stopping (ps_gens s i) \<Longrightarrow> \<not> gen_done (ps_gens s i) \<Longrightarrow> finish_stop i e s = Some s' \<Longrightarrow>
    plugin_background s s'"
| forced: "i < ps_next_gen s \<Longrightarrow> gen_retired (ps_gens s i) \<Longrightarrow> plugin_background s (force_stop i s)"

end
