(* ===== verification/PluginSafety.thy ===== *)
theory PluginSafety
  imports PluginLifecycle
begin

section \<open>The plugin calls are safe together\<close>

text \<open>
  Every call of \<open>PluginLifecycle\<close> keeps the count of the references and the registry's typing, under any
  interleaving with the others, with retirements and with forced stops. What a call holds (\<open>held\<close>) are the
  references in its local variables and the names whose operation lock it has; what it relies on (\<open>rely\<close>)
  is that only the owner of a name moves its instance to another generation, or gives it new bindings.
\<close>

datatype held = Held (held_refs: "gid multiset") (held_names: "string multiset")

instantiation held :: comm_monoid_add
begin

definition "0 = Held {#} {#}"
definition "a + b = Held (held_refs a + held_refs b) (held_names a + held_names b)"

instance by standard (simp_all add: zero_held_def plus_held_def ac_simps)

end

lemma held_simps [simp]:
  "held_refs (a + b) = held_refs a + held_refs b" "held_names (a + b) = held_names a + held_names b"
  "held_refs 0 = {#}" "held_names 0 = {#}"
  by (simp_all add: zero_held_def plus_held_def)

definition inst_name :: "psys \<Rightarrow> nat \<Rightarrow> string" where
  "inst_name s k = pi_name (pl_info (in_plugin (ps_insts s k)))"

definition bindings_of :: "psys \<Rightarrow> nat \<Rightarrow> gid list" where
  "bindings_of s k = gen_bindings (ps_gens s (in_gen (ps_insts s k)))"

definition registry_ok :: "psys \<Rightarrow> bool" where
  "registry_ok s \<longleftrightarrow>
     distinct (map fst (ps_plugins s)) \<and>
     (\<forall>n k. map_of (ps_plugins s) n = Some k \<longrightarrow> inst_name s k = n) \<and>
     (\<forall>k < ps_next_inst s. gen_name (ps_gens s (in_gen (ps_insts s k))) = inst_name s k) \<and>
     inj_on (\<lambda>k. in_gen (ps_insts s k)) {..<ps_next_inst s} \<and>
     (\<forall>k < ps_next_inst s. in_state (ps_insts s k) = PluginStateLoaded \<longrightarrow> bindings_of s k = [])"

definition good :: "held \<Rightarrow> psys \<Rightarrow> bool" where
  "good r s \<longleftrightarrow> refs_ok (held_refs r) s \<and> registry_ok s \<and> mset (ps_busy s) = held_names r \<and> distinct (ps_busy s)"

definition registry_grows :: "psys \<Rightarrow> psys \<Rightarrow> bool" where
  "registry_grows s s' \<longleftrightarrow> ps_next_gen s \<le> ps_next_gen s' \<and> ps_next_inst s \<le> ps_next_inst s' \<and>
     (\<forall>i < ps_next_gen s. gen_name (ps_gens s' i) = gen_name (ps_gens s i)) \<and>
     (\<forall>k < ps_next_inst s. in_plugin (ps_insts s' k) = in_plugin (ps_insts s k))"

definition rely :: "held \<Rightarrow> psys \<Rightarrow> psys \<Rightarrow> bool" where
  "rely r s s' \<longleftrightarrow> registry_grows s s' \<and>
     (\<forall>k < ps_next_inst s'. inst_name s' k \<in># held_names r \<longrightarrow>
        (if k < ps_next_inst s
         then in_gen (ps_insts s' k) = in_gen (ps_insts s k) \<and> (bindings_of s k = [] \<longrightarrow> bindings_of s' k = [])
         else ps_next_gen s \<le> in_gen (ps_insts s' k)))"

lemma registry_grows_trans: "registry_grows s s' \<Longrightarrow> registry_grows s' s'' \<Longrightarrow> registry_grows s s''"
  by (auto simp: registry_grows_def)

lemma rely_refl: "rely r s s"
  by (simp add: rely_def registry_grows_def)

lemma rely_part: "rely (r + q) s s' \<Longrightarrow> rely r s s'"
  by (simp add: rely_def)

lemma rely_trans:
  assumes "rely r s s'" "rely r s' s''"
  shows "rely r s s''"
  unfolding rely_def
proof (intro conjI allI impI)
  have g: "registry_grows s s'" "registry_grows s' s''" using assms by (simp_all add: rely_def)
  then show "registry_grows s s''" by (rule registry_grows_trans)
  fix k
  assume k: "k < ps_next_inst s''" "inst_name s'' k \<in># held_names r"
  have name: "inst_name s'' k = inst_name s' k" if "k < ps_next_inst s'"
    using g(2) that by (simp add: registry_grows_def inst_name_def)
  show "if k < ps_next_inst s
         then in_gen (ps_insts s'' k) = in_gen (ps_insts s k) \<and> (bindings_of s k = [] \<longrightarrow> bindings_of s'' k = [])
         else ps_next_gen s \<le> in_gen (ps_insts s'' k)"
  proof (cases "k < ps_next_inst s'")
    case True
    have 1: "in_gen (ps_insts s'' k) = in_gen (ps_insts s' k)" "bindings_of s' k = [] \<longrightarrow> bindings_of s'' k = []"
      using assms(2) k True by (auto simp: rely_def)
    have "inst_name s' k \<in># held_names r" using name[OF True] k(2) by simp
    then have 2: "if k < ps_next_inst s
         then in_gen (ps_insts s' k) = in_gen (ps_insts s k) \<and> (bindings_of s k = [] \<longrightarrow> bindings_of s' k = [])
         else ps_next_gen s \<le> in_gen (ps_insts s' k)"
      using assms(1) True by (simp add: rely_def)
    show ?thesis using 1 2 by (auto split: if_splits)
  next
    case False
    then have "ps_next_gen s' \<le> in_gen (ps_insts s'' k)" using assms(2) k by (auto simp: rely_def)
    then show ?thesis using False g(1) by (auto simp: registry_grows_def)
  qed
qed

interpretation plugins: shared_state good rely
  by unfold_locales (fact rely_refl, fact rely_trans, fact rely_part)

subsection \<open>Steps that leave instances and bindings in place\<close>

definition tame :: "psys \<Rightarrow> psys \<Rightarrow> bool" where
  "tame s s' \<longleftrightarrow>
     (\<forall>n k. map_of (ps_plugins s') n = Some k \<longrightarrow> map_of (ps_plugins s) n = Some k) \<and>
     (distinct (map fst (ps_plugins s)) \<longrightarrow> distinct (map fst (ps_plugins s'))) \<and>
     ps_next_inst s' = ps_next_inst s \<and> ps_next_gen s' = ps_next_gen s \<and> ps_busy s' = ps_busy s \<and>
     (\<forall>k. in_plugin (ps_insts s' k) = in_plugin (ps_insts s k) \<and> in_gen (ps_insts s' k) = in_gen (ps_insts s k) \<and>
        (in_state (ps_insts s' k) = PluginStateLoaded \<longrightarrow> in_state (ps_insts s k) = PluginStateLoaded)) \<and>
     (\<forall>i. gen_name (ps_gens s' i) = gen_name (ps_gens s i) \<and>
        (gen_bindings (ps_gens s' i) = gen_bindings (ps_gens s i) \<or> gen_bindings (ps_gens s' i) = []))"

lemma tame_trans [trans]: "tame s s' \<Longrightarrow> tame s' s'' \<Longrightarrow> tame s s''"
  unfolding tame_def by metis

lemma tameD:
  assumes "tame s s'"
  shows "map_of (ps_plugins s') n = Some k \<Longrightarrow> map_of (ps_plugins s) n = Some k" "inst_name s' k = inst_name s k"
    "in_gen (ps_insts s' k) = in_gen (ps_insts s k)" "gen_name (ps_gens s' i) = gen_name (ps_gens s i)"
    "bindings_of s k = [] \<Longrightarrow> bindings_of s' k = []"
    "in_state (ps_insts s' k) = PluginStateLoaded \<Longrightarrow> in_state (ps_insts s k) = PluginStateLoaded"
    "ps_next_inst s' = ps_next_inst s" "ps_next_gen s' = ps_next_gen s" "ps_busy s' = ps_busy s"
    "distinct (map fst (ps_plugins s)) \<Longrightarrow> distinct (map fst (ps_plugins s'))"
    "in_plugin (ps_insts s' k) = in_plugin (ps_insts s k)"
  using assms unfolding tame_def inst_name_def bindings_of_def by metis+

lemma tame_registry:
  assumes "tame s s'" "registry_ok s"
  shows "registry_ok s'"
  using assms(2) tameD(1,5,6,10)[OF assms(1)] unfolding registry_ok_def tameD(2-4,7,8)[OF assms(1)] by blast

lemma tame_rely:
  assumes "tame s s'"
  shows "rely r s s'"
  using tameD(5)[OF assms] unfolding rely_def registry_grows_def tameD(2-4,7,8,11)[OF assms] by simp

lemma tame_good:
  assumes "good r s" "tame s s'" "refs_ok (held_refs r') s'" "held_names r' = held_names r"
  shows "good r' s'"
  using assms tame_registry[OF assms(2)] unfolding good_def tame_def by simp

lemma same_tame:
  assumes "same_but_refs s s'"
  shows "tame s s'"
proof -
  have "ps_next_inst s' = ps_next_inst s" "ps_busy s' = ps_busy s" using assms by (simp_all add: same_but_refs_def)
  then show ?thesis unfolding tame_def same_but_refsD(1,7,11-13)[OF assms] by simp
qed

lemma tame_upd_gen:
  assumes "\<And>g. gen_name (f g) = gen_name g" "\<And>g. gen_bindings (f g) = gen_bindings g \<or> gen_bindings (f g) = []"
  shows "tame s (upd_gen i f s)"
  using assms by (auto simp: tame_def)

lemma tame_upd_inst:
  assumes "\<And>x. in_plugin (f x) = in_plugin x \<and> in_gen (f x) = in_gen x \<and> in_state (f x) \<noteq> PluginStateLoaded"
  shows "tame s (upd_inst k f s)"
  using assms by (auto simp: tame_def upd_inst_def)

lemma refs_ok_upd_inst:
  assumes "refs_ok extra s" "\<And>x. in_gen (f x) = in_gen x"
  shows "refs_ok extra (upd_inst k f s)"
  using refs_okD(5,6)[OF assms(1)] by (intro refs_ok_cong[OF assms(1)]) (auto simp: upd_inst_def assms(2))

lemma tame_emit: "tame s (emit e n s)" and refs_ok_emit: "refs_ok extra s \<Longrightarrow> refs_ok extra (emit e n s)"
proof -
  show "tame s (emit e n s)" by (simp add: tame_def emit_def)
  show "refs_ok extra (emit e n s)" if "refs_ok extra s"
    using refs_okD(5,6)[OF that] by (intro refs_ok_cong[OF that]) (auto simp: emit_def)
qed

lemma release_all_same: "release_all is s = Some s' \<Longrightarrow> same_but_refs s s'"
proof (induction "is" arbitrary: s)
  case (Cons i "is")
  then show ?case using release_generation_same same_but_refs_trans by (fastforce split: option.splits)
qed (simp add: same_but_refs_refl)

lemma release_dependency_bindings_tame:
  assumes "release_dependency_bindings i s = Some s'"
  shows "tame s s'"
proof -
  let ?s = "upd_gen i (\<lambda>g. g\<lparr>gen_stopped_bindings := gen_bindings (ps_gens s i), gen_bindings := [], gen_legacy := []\<rparr>) s"
  have "tame s ?s" by (rule tame_upd_gen) simp_all
  moreover have "tame ?s s'"
    using assms by (intro same_tame release_all_same) (simp add: release_dependency_bindings_def Let_def)
  ultimately show ?thesis by (rule tame_trans)
qed

lemma retire_generation_tame:
  assumes "retire_generation i s = Some s'"
  shows "tame s s'"
proof -
  consider "s' = s" | "s' = upd_gen i (\<lambda>g. g\<lparr>gen_retired := True, gen_drained := True\<rparr>) s" | "s' = upd_gen i (\<lambda>g. g\<lparr>gen_retired := True\<rparr>) s"
    using assms by (auto simp: retire_generation_def Let_def split: if_splits)
  then show ?thesis
  proof cases
    case 1
    then show ?thesis by (simp add: tame_def)
  qed (auto intro: tame_upd_gen)
qed

subsection \<open>Rules for the sections\<close>

definition returned :: "'a \<Rightarrow> held \<Rightarrow> psys \<Rightarrow> bool" where
  "returned a r s \<longleftrightarrow> r = 0"

definition holding :: "string \<Rightarrow> 'a \<Rightarrow> held \<Rightarrow> psys \<Rightarrow> bool" where
  "holding n a r s \<longleftrightarrow> r = Held {#} {#n#}"

lemma safe_reads:
  "(\<And>others s. good (r + others) s \<Longrightarrow> rely r s0 s \<Longrightarrow> safe good rely Q r s (k (h s))) \<Longrightarrow> safe good rely Q r s0 (read h k)"
  by (rule safe_read) (blast intro: rely_refl)

lemma safe_modifies:
  assumes "\<And>s. tame s (h s)" "\<And>extra s. refs_ok extra s \<Longrightarrow> refs_ok extra (h s)" "\<And>s. safe good rely Q r s p"
  shows "safe good rely Q r s0 (modify h p)"
proof (rule safe_modify)
  fix others s
  assume g: "good (r + others) s"
  then have "refs_ok (held_refs (r + others)) (h s)" using assms(2) by (simp add: good_def)
  then have "good (r + others) (h s)" by (rule tame_good[OF g assms(1)]) simp
  then show "\<exists>r'. rely others s (h s) \<and> good (r' + others) (h s) \<and> safe good rely Q r' (h s) p"
    using tame_rely[OF assms(1)] assms(3) by blast
qed

lemma safe_tries:
  assumes "\<And>others s. good (r + others) s \<Longrightarrow> rely r s0 s \<Longrightarrow>
      \<exists>s'. h s = Some s' \<and> tame s s' \<and> refs_ok (held_refs (r' + others)) s'"
    and "held_names r' = held_names r" "\<And>s. safe good rely Q r' s p"
  shows "safe good rely Q r s0 (try_modify h p)"
proof (rule safe_try_modify)
  fix others s
  assume g: "good (r + others) s" "rely r s0 s"
  obtain s' where s': "h s = Some s'" "tame s s'" "refs_ok (held_refs (r' + others)) s'" using assms(1)[OF g] by blast
  have "good (r' + others) s'" by (rule tame_good[OF g(1) s'(2,3)]) (simp add: assms(2))
  then show "\<exists>s' r'. h s = Some s' \<and> rely others s s' \<and> good (r' + others) s' \<and> safe good rely Q r' s' p"
    using s'(1) tame_rely[OF s'(2)] assms(3) by blast
qed

lemma safe_attempts:
  assumes "\<And>others s. good (r + others) s \<Longrightarrow> rely r s0 s \<Longrightarrow>
      \<exists>x s' r'. h s = Some (x, s') \<and> tame s s' \<and> refs_ok (held_refs (r' + others)) s' \<and> held_names r' = held_names r \<and>
        safe good rely Q r' s' (k x)"
  shows "safe good rely Q r s0 (attempt h k)"
proof (rule safe_attempt)
  fix others s
  assume g: "good (r + others) s" "rely r s0 s"
  obtain x s' r' where s': "h s = Some (x, s')" "tame s s'" "refs_ok (held_refs (r' + others)) s'" "held_names r' = held_names r"
    "safe good rely Q r' s' (k x)" using assms[OF g] by blast
  have "good (r' + others) s'" by (rule tame_good[OF g(1) s'(2,3)]) (simp add: s'(4))
  then show "\<exists>x s' r'. h s = Some (x, s') \<and> rely others s s' \<and> good (r' + others) s' \<and> safe good rely Q r' s' (k x)"
    using s'(1,5) tame_rely[OF s'(2)] by blast
qed

lemma safe_release_held:
  assumes "\<And>s. safe good rely Q (Held {#} N) s p"
  shows "safe good rely Q (Held (mset bs) N) s0 (release_held bs p)"
  unfolding release_held_def
proof (rule safe_tries[where r' = "Held {#} N"])
  fix others s
  assume "good (Held (mset bs) N + others) s"
  then have "refs_ok (mset bs + held_refs others) s" by (simp add: good_def)
  then show "\<exists>s'. release_all bs s = Some s' \<and> tame s s' \<and> refs_ok (held_refs (Held {#} N + others)) s'"
    using release_all_ok same_tame by fastforce
qed (simp_all add: assms)

lemma safe_release_bindings:
  assumes "g < ps_next_gen s0" "\<And>s. safe good rely Q r s p"
  shows "safe good rely Q r s0 (try_modify (release_dependency_bindings g) p)"
proof (rule safe_tries[where r' = r])
  fix others s
  assume g: "good (r + others) s" "rely r s0 s"
  have "g < ps_next_gen s" using assms(1) g(2) by (simp add: rely_def registry_grows_def)
  moreover have "refs_ok (held_refs (r + others)) s" using g(1) by (simp add: good_def)
  ultimately show "\<exists>s'. release_dependency_bindings g s = Some s' \<and> tame s s' \<and> refs_ok (held_refs (r + others)) s'"
    using release_dependency_bindings_ok release_dependency_bindings_tame by meson
qed (simp_all add: assms)

lemma safe_lock:
  assumes "\<And>s. safe good rely (holding n) (Held {#} {#n#}) s body"
  shows "safe good rely returned 0 s0 (lock_operation v n body)"
proof (cases "cb_ctx_err v")
  case None
  let ?unlock = "\<lambda>r. modify (\<lambda>s. s\<lparr>ps_busy := remove1 n (ps_busy s)\<rparr>) (Return r)"
  have same: "rely r s (s\<lparr>ps_busy := b\<rparr>)" "registry_ok (s\<lparr>ps_busy := b\<rparr>) = registry_ok s"
    "refs_ok extra (s\<lparr>ps_busy := b\<rparr>) = refs_ok extra s" for r s b extra
    by (simp_all add: rely_def registry_grows_def registry_ok_def inst_name_def bindings_of_def refs_ok_def users_def lease_uses_def binding_uses_def)
  have unlock: "safe good rely returned (Held {#} {#n#}) s (?unlock r)" for s r
  proof (rule safe_modify)
    fix others s
    assume g: "good (Held {#} {#n#} + others) s"
    then have "mset (ps_busy s) = add_mset n (held_names others)" "distinct (ps_busy s)" by (simp_all add: good_def)
    then have "good (0 + others) (s\<lparr>ps_busy := remove1 n (ps_busy s)\<rparr>)" using g by (simp add: good_def same distinct_remove1)
    then show "\<exists>r'. rely others s (s\<lparr>ps_busy := remove1 n (ps_busy s)\<rparr>) \<and> good (r' + others) (s\<lparr>ps_busy := remove1 n (ps_busy s)\<rparr>) \<and>
        safe good rely returned r' (s\<lparr>ps_busy := remove1 n (ps_busy s)\<rparr>) (Return r)"
      using same(1) by (intro exI[of _ 0]) (simp add: safe_Return returned_def)
  qed
  have body: "safe good rely returned (Held {#} {#n#}) s (bind_proc body ?unlock)" for s
    by (rule safe_bind[OF assms]) (simp add: holding_def unlock)
  show ?thesis unfolding lock_operation_def None option.case
  proof (rule safe_wait_until)
    fix others s
    assume g: "good (0 + others) s" "n \<notin> set (ps_busy s)"
    then have "good (Held {#} {#n#} + others) (s\<lparr>ps_busy := n # ps_busy s\<rparr>)" by (simp add: good_def same)
    then show "\<exists>r'. rely others s (s\<lparr>ps_busy := n # ps_busy s\<rparr>) \<and> good (r' + others) (s\<lparr>ps_busy := n # ps_busy s\<rparr>) \<and>
        safe good rely returned r' (s\<lparr>ps_busy := n # ps_busy s\<rparr>) (bind_proc body ?unlock)"
      using same(1) body by blast
  qed
qed (simp add: lock_operation_def safe_Return returned_def)

subsection \<open>What the owner of a name knows\<close>

text \<open>The instance found under the name, and a generation that is this instance's or nobody's.\<close>

definition known_as :: "string \<Rightarrow> nat \<Rightarrow> psys \<Rightarrow> bool" where
  "known_as n k s \<longleftrightarrow> k < ps_next_inst s \<and> inst_name s k = n"

definition own :: "string \<Rightarrow> nat \<Rightarrow> gid \<Rightarrow> psys \<Rightarrow> bool" where
  "own n k g s \<longleftrightarrow> known_as n k s \<and> g < ps_next_gen s \<and> gen_name (ps_gens s g) = n \<and>
     (\<forall>j < ps_next_inst s. in_gen (ps_insts s j) = g \<longrightarrow> j = k)"

lemma known_as_stable: "known_as n k s \<Longrightarrow> rely r s s' \<Longrightarrow> known_as n k s'"
  by (auto simp: known_as_def rely_def registry_grows_def inst_name_def)

lemma unbound_stable:
  assumes "known_as n k s" "bindings_of s k = []" "rely r s s'" "n \<in># held_names r"
  shows "bindings_of s' k = []"
  using assms known_as_stable[OF assms(1,3)] by (auto simp: known_as_def rely_def)

lemma own_stable:
  assumes "own n k g s" "rely r s s'" "n \<in># held_names r" "registry_ok s'"
  shows "own n k g s'"
  unfolding own_def
proof (intro conjI allI impI)
  have o: "known_as n k s" "g < ps_next_gen s" "gen_name (ps_gens s g) = n" "\<And>j. j < ps_next_inst s \<Longrightarrow> in_gen (ps_insts s j) = g \<Longrightarrow> j = k"
    using assms(1) by (auto simp: own_def)
  show "known_as n k s'" by (rule known_as_stable[OF o(1) assms(2)])
  show "g < ps_next_gen s'" using o(2) assms(2) by (simp add: rely_def registry_grows_def)
  show name: "gen_name (ps_gens s' g) = n" using o(2,3) assms(2) by (simp add: rely_def registry_grows_def)
  fix j
  assume j: "j < ps_next_inst s'" "in_gen (ps_insts s' j) = g"
  then have "inst_name s' j \<in># held_names r" using name assms(3,4) by (auto simp: registry_ok_def)
  then have "if j < ps_next_inst s then in_gen (ps_insts s' j) = in_gen (ps_insts s j) else ps_next_gen s \<le> in_gen (ps_insts s' j)"
    using assms(2) j(1) by (auto simp: rely_def split: if_splits)
  then show "j = k" using o(2,4) j(2) by (auto split: if_splits)
qed

lemma found_known_as:
  assumes "registry_ok s" "refs_ok extra s" "map_of (ps_plugins s) n = Some k"
  shows "known_as n k s" "own n k (in_gen (ps_insts s k)) s"
proof -
  show k: "known_as n k s" using assms refs_okD(5)[OF assms(2,3)] by (simp add: known_as_def registry_ok_def)
  have "gen_name (ps_gens s (in_gen (ps_insts s k))) = n" using k assms(1) by (simp add: known_as_def registry_ok_def)
  moreover have "j = k" if "j < ps_next_inst s" "in_gen (ps_insts s j) = in_gen (ps_insts s k)" for j
    using assms(1) that k by (auto simp: registry_ok_def inj_on_def known_as_def)
  ultimately show "own n k (in_gen (ps_insts s k)) s" using k refs_okD(4)[OF assms(2,3)] by (auto simp: own_def)
qed

text \<open>An owner's step: it changes its instance and its generation, and nothing else.\<close>

lemma owner_step:
  assumes "good (Held R {#n#} + others) s" "own n k g s"
    and "ps_plugins s' = ps_plugins s" "ps_next_inst s' = ps_next_inst s" "ps_next_gen s' = ps_next_gen s"
    and "\<And>j. j \<noteq> k \<Longrightarrow> ps_insts s' j = ps_insts s j" "in_plugin (ps_insts s' k) = in_plugin (ps_insts s k)"
    and "in_gen (ps_insts s' k) = in_gen (ps_insts s k) \<or> in_gen (ps_insts s' k) = g" "in_state (ps_insts s' k) \<noteq> PluginStateLoaded"
    and "\<And>j. j \<noteq> g \<Longrightarrow> ps_gens s' j = ps_gens s j" "gen_name (ps_gens s' g) = gen_name (ps_gens s g)"
  shows "registry_ok s'" "rely others s s'"
proof -
  have reg: "registry_ok s" and names: "mset (ps_busy s) = add_mset n (held_names others)" "distinct (ps_busy s)"
    using assms(1) by (simp_all add: good_def)
  have k: "k < ps_next_inst s" "inst_name s k = n" and g: "gen_name (ps_gens s g) = n"
    and only: "\<And>j. j < ps_next_inst s \<Longrightarrow> in_gen (ps_insts s j) = g \<Longrightarrow> j = k"
    using assms(2) by (auto simp: own_def known_as_def)
  have name: "inst_name s' j = inst_name s j" for j using assms(6,7) by (cases "j = k") (simp_all add: inst_name_def)
  have other: "in_gen (ps_insts s' j) = in_gen (ps_insts s j)" "bindings_of s' j = bindings_of s j"
    "gen_name (ps_gens s' (in_gen (ps_insts s' j))) = gen_name (ps_gens s (in_gen (ps_insts s j)))"
    if "j < ps_next_inst s" "j \<noteq> k" for j
  proof -
    have "in_gen (ps_insts s j) \<noteq> g" using only[OF that(1)] that(2) by blast
    then have "ps_gens s' (in_gen (ps_insts s j)) = ps_gens s (in_gen (ps_insts s j))" by (rule assms(10))
    then show "in_gen (ps_insts s' j) = in_gen (ps_insts s j)" "bindings_of s' j = bindings_of s j"
      "gen_name (ps_gens s' (in_gen (ps_insts s' j))) = gen_name (ps_gens s (in_gen (ps_insts s j)))"
      using assms(6)[OF that(2)] by (simp_all add: bindings_of_def)
  qed
  have gname: "gen_name (ps_gens s' i) = gen_name (ps_gens s i)" for i using assms(10,11) by (cases "i = g") simp_all
  have mine: "gen_name (ps_gens s' (in_gen (ps_insts s' k))) = n"
    using assms(8) g gname k reg by (auto simp: registry_ok_def)
  show "registry_ok s'"
    unfolding registry_ok_def
  proof (intro conjI allI impI)
    show "distinct (map fst (ps_plugins s'))" using reg assms(3) by (simp add: registry_ok_def)
    show "inst_name s' j = m" if "map_of (ps_plugins s') m = Some j" for m j
      using reg that assms(3) name by (simp add: registry_ok_def)
    show "gen_name (ps_gens s' (in_gen (ps_insts s' j))) = inst_name s' j" if "j < ps_next_inst s'" for j
      using that assms(4) reg mine k name other(3)[of j] by (cases "j = k") (simp_all add: registry_ok_def)
    have inj: "i = j" if "i < ps_next_inst s" "j < ps_next_inst s" "in_gen (ps_insts s i) = in_gen (ps_insts s j)" for i j
      using reg that by (auto simp: registry_ok_def inj_on_def)
    have with_k: "j = k" if "j < ps_next_inst s" "in_gen (ps_insts s' k) = in_gen (ps_insts s' j)" for j
    proof (rule ccontr)
      assume "j \<noteq> k"
      then have "in_gen (ps_insts s' k) = in_gen (ps_insts s j)" using that other(1) by simp
      then show False using assms(8) inj[OF k(1) that(1)] only[OF that(1)] \<open>j \<noteq> k\<close> by auto
    qed
    show "inj_on (\<lambda>k. in_gen (ps_insts s' k)) {..<ps_next_inst s'}"
    proof (rule inj_onI)
      fix i j
      assume "i \<in> {..<ps_next_inst s'}" "j \<in> {..<ps_next_inst s'}" and eq: "in_gen (ps_insts s' i) = in_gen (ps_insts s' j)"
      then have ij: "i < ps_next_inst s" "j < ps_next_inst s" using assms(4) by simp_all
      consider "i = k" | "j = k" | "i \<noteq> k" "j \<noteq> k" by blast
      then show "i = j"
      proof cases
        case 1
        then show ?thesis using with_k[OF ij(2)] eq by simp
      next
        case 2
        then show ?thesis using with_k[OF ij(1)] eq by simp
      next
        case 3
        then show ?thesis using inj[OF ij] eq other(1)[OF ij(1)] other(1)[OF ij(2)] by simp
      qed
    qed
    show "bindings_of s' j = []" if "j < ps_next_inst s'" "in_state (ps_insts s' j) = PluginStateLoaded" for j
      using that assms(4,6,9) reg other(2)[of j] by (cases "j = k") (auto simp: registry_ok_def)
  qed
  have "count (mset (ps_busy s)) n \<le> 1" using names(2) by (simp add: distinct_count_atmost_1)
  then have "count (held_names others) n = 0" unfolding names(1) by simp
  then have free: "n \<notin># held_names others" by (rule iffD1[OF count_eq_zero_iff])
  have plugin: "in_plugin (ps_insts s' j) = in_plugin (ps_insts s j)" for j using assms(6,7) by (cases "j = k") simp_all
  show "rely others s s'"
    unfolding rely_def registry_grows_def
  proof (intro conjI allI impI)
    fix j
    assume j: "j < ps_next_inst s'" "inst_name s' j \<in># held_names others"
    then have "j \<noteq> k" using free k name by auto
    then show "if j < ps_next_inst s
        then in_gen (ps_insts s' j) = in_gen (ps_insts s j) \<and> (bindings_of s j = [] \<longrightarrow> bindings_of s' j = [])
        else ps_next_gen s \<le> in_gen (ps_insts s' j)" using other[of j] j(1) assms(4) by simp
  qed (use assms(4,5) gname plugin in simp_all)
qed

text \<open>A new generation, bound to references of the call.\<close>

lemma alloc_step:
  assumes "registry_ok s" "refs_ok extra s"
  shows "registry_ok (snd (add_generation g s))" "rely others s (snd (add_generation g s))"
proof -
  have "in_gen (ps_insts s k) \<noteq> ps_next_gen s" if "k < ps_next_inst s" for k using refs_okD(6)[OF assms(2) that] by simp
  then show "registry_ok (snd (add_generation g s))" "rely others s (snd (add_generation g s))"
    using assms(1) by (auto simp: registry_ok_def rely_def registry_grows_def add_generation_def inst_name_def bindings_of_def inj_on_def)
qed

subsection \<open>Each call is safe\<close>

lemma safe_fail:
  "(\<And>s. safe good rely Q r s p) \<Longrightarrow> safe good rely Q r s0 (modify (fail_instance k e) p)"
  unfolding fail_instance_def by (rule safe_modifies) (auto intro: tame_upd_inst refs_ok_upd_inst)

lemma safe_emit: "(\<And>s. safe good rely Q r s p) \<Longrightarrow> safe good rely Q r s0 (modify (emit e n) p)"
  by (rule safe_modifies) (rule tame_emit, rule refs_ok_emit)

lemma safe_order: "(\<And>s. safe good rely Q r s p) \<Longrightarrow> safe good rely Q r s0 (modify (\<lambda>s. s\<lparr>ps_order := f (ps_order s)\<rparr>) p)"
proof (rule safe_modifies)
  show "refs_ok extra (s\<lparr>ps_order := f (ps_order s)\<rparr>)" if "refs_ok extra s" for extra s
    using refs_okD(5,6)[OF that] by (intro refs_ok_cong[OF that]) simp_all
qed (simp_all add: tame_def)

lemma safe_found:
  assumes "safe good rely Q r s0 (Return (Some (PluginNotFound n)))"
    and "\<And>s k. registry_ok s \<Longrightarrow> known_as n k s \<Longrightarrow> safe good rely Q r s (p k)"
    and "\<And>a s s'. Q a r s \<Longrightarrow> Q a r s'"
  shows "safe good rely Q r s0 (read (\<lambda>s. map_of (ps_plugins s) n) (\<lambda>x. case x of None \<Rightarrow> Return (Some (PluginNotFound n)) | Some k \<Rightarrow> p k))"
proof (rule safe_reads)
  fix others s
  assume g: "good (r + others) s"
  then have ok: "registry_ok s" "refs_ok (held_refs (r + others)) s" by (simp_all add: good_def)
  have q: "Q (Some (PluginNotFound n)) r s" using assms(1,3) by (blast elim: safe_ReturnE)
  show "safe good rely Q r s (case map_of (ps_plugins s) n of None \<Rightarrow> Return (Some (PluginNotFound n)) | Some k \<Rightarrow> p k)"
    using assms(2) ok found_known_as(1)[OF ok] q by (cases "map_of (ps_plugins s) n") (simp_all add: safe_Return)
qed

lemma holding_done: "safe good rely (holding n) (Held {#} {#n#}) s (Return a)"
  by (rule safe_Return) (simp add: holding_def)

lemma safe_init_bound:
  assumes "known_as n k s0" "bindings_of s0 k = []"
  shows "safe good rely (holding n) (Held (mset bs) {#n#}) s0 (init_bound v n k frozen bs)"
proof (cases "cb_init_err v")
  case (Some e)
  then show ?thesis by (auto simp: init_bound_def intro!: safe_release_held safe_fail holding_done)
next
  case None
  let ?r = "Held (mset bs) {#n#}"
  have publish: "safe good rely (holding n) ?r s (attempt (publish_init v n k bs frozen) (\<lambda>ok.
      if ok then modify (emit PluginEventInitialized n) (Return None)
      else release_held bs (Return (join_errors [Some (RouteChanged n), cb_cleanup_err v]))))"
    if s: "known_as n k s" "bindings_of s k = []" for s
  proof (rule safe_attempt)
    fix others t
    assume g: "good (?r + others) t" "rely ?r s t"
    have k: "known_as n k t" "bindings_of t k = []" using known_as_stable[OF s(1) g(2)] unbound_stable[OF s g(2)] by simp_all
    have reg: "registry_ok t" "refs_ok (mset bs + held_refs others) t" using g(1) by (simp_all add: good_def)
    show "\<exists>ok t' r'. publish_init v n k bs frozen t = Some (ok, t') \<and> rely others t t' \<and> good (r' + others) t' \<and>
        safe good rely (holding n) r' t' (if ok then modify (emit PluginEventInitialized n) (Return None)
          else release_held bs (Return (join_errors [Some (RouteChanged n), cb_cleanup_err v])))"
    proof (cases "map_of (ps_plugins t) n = Some k")
      case False
      then show ?thesis
        using g(1) by (intro exI[of _ False] exI[of _ t] exI[of _ ?r])
          (simp add: publish_init_def rely_refl safe_release_held holding_done)
    next
      case True
      let ?g = "in_gen (ps_insts t k)"
      let ?u = "upd_inst k (\<lambda>i. i\<lparr>in_state := PluginStateInitialized, in_config := frozen\<rparr>) t"
      let ?f = "\<lambda>x. x\<lparr>gen_config_hash := cb_hash v frozen, gen_bindings := bs,
            gen_legacy := map (\<lambda>i. (gen_name (ps_gens t i), gen_name (ps_gens t i) \<notin> set (cb_init_used v))) bs\<rparr>"
      let ?t = "upd_gen ?g ?f ?u"
      have own: "own n k ?g t" by (rule found_known_as(2)[OF reg True])
      have "refs_ok (mset bs + held_refs others) ?u" by (rule refs_ok_upd_inst[OF reg(2)]) simp
      then have "refs_ok (mset (gen_bindings (ps_gens ?u ?g)) + held_refs others) ?t"
        using own by (intro install_bindings_ok) (simp_all add: own_def upd_inst_def gen_ok_def)
      then have refs: "refs_ok (held_refs others) ?t" using k(2) by (simp add: upd_inst_def bindings_of_def)
      have step: "registry_ok ?t" "rely others t ?t"
        by (rule owner_step[OF g(1) own]; simp add: upd_inst_def)+
      have "good (Held {#} {#n#} + others) ?t" using refs step(1) g(1) by (simp add: good_def upd_inst_def)
      then show ?thesis
        using True step(2)
        by (intro exI[of _ True] exI[of _ ?t] exI[of _ "Held {#} {#n#}"]) (simp add: publish_init_def safe_emit holding_done)
    qed
  qed
  show ?thesis unfolding init_bound_def None option.case
  proof (rule safe_reads)
    fix others t
    assume g: "rely ?r s0 t"
    have "known_as n k t" "bindings_of t k = []" using known_as_stable[OF assms(1) g] unbound_stable[OF assms g] by simp_all
    then show "safe good rely (holding n) ?r t (if \<not> legacy_bindings_current bs (cb_init_used v) t
        then release_held bs (Return (join_errors [Some (DependenciesChanged n), cb_cleanup_err v]))
        else attempt (publish_init v n k bs frozen) (\<lambda>ok.
          if ok then modify (emit PluginEventInitialized n) (Return None)
          else release_held bs (Return (join_errors [Some (RouteChanged n), cb_cleanup_err v]))))"
      using publish by (simp add: safe_release_held holding_done)
  qed
qed

lemma safe_init_instance:
  assumes "known_as n k s0" "in_state inst = PluginStateLoaded \<Longrightarrow> bindings_of s0 k = []"
  shows "safe good rely (holding n) (Held {#} {#n#}) s0 (init_instance v n cfg k inst)"
proof -
  let ?r = "Held {#} {#n#}" and ?deps = "pi_dependencies (pl_info (in_plugin inst))"
  have "safe good rely (holding n) ?r s0 (attempt (capture_dependencies ?deps) (\<lambda>r. case r of
      Inl e \<Rightarrow> Return (Some e) | Inr bs \<Rightarrow> init_bound v n k frozen bs))" if "in_state inst = PluginStateLoaded" for frozen
  proof (rule safe_attempts)
    fix others u
    assume h: "good (?r + others) u" "rely ?r s0 u"
    note u = known_as_stable[OF assms(1) h(2)] unbound_stable[OF assms(1) assms(2)[OF that] h(2)]
    have "refs_ok (held_refs others) u" using h(1) by (simp add: good_def)
    from capture_dependencies_ok[OF this] obtain x t where c: "capture_dependencies ?deps u = Some (x, t)" "same_but_refs u t"
      "case x of Inl _ \<Rightarrow> refs_ok (held_refs others) t | Inr bs \<Rightarrow> refs_ok (mset bs + held_refs others) t" by blast
    note tame = same_tame[OF c(2)]
    have t: "known_as n k t" "bindings_of t k = []" using u tameD(2,5,7)[OF tame] by (auto simp: known_as_def)
    show "\<exists>x t r'. capture_dependencies ?deps u = Some (x, t) \<and> tame u t \<and>
        refs_ok (held_refs (r' + others)) t \<and> held_names r' = held_names ?r \<and>
        safe good rely (holding n) r' t (case x of Inl e \<Rightarrow> Return (Some e) | Inr bs \<Rightarrow> init_bound v n k frozen bs)"
    proof (cases x)
      case (Inl e)
      then show ?thesis using c tame holding_done by (intro exI[of _ x] exI[of _ t] exI[of _ ?r]) simp
    next
      case (Inr bs)
      then show ?thesis using c tame safe_init_bound[OF t]
        by (intro exI[of _ x] exI[of _ t] exI[of _ "Held (mset bs) {#n#}"]) simp
    qed
  qed
  then show ?thesis using holding_done by (auto simp: init_instance_def split: option.splits)
qed

lemma safe_init: "safe good rely returned 0 s0 (init_call v n cfg)"
  unfolding init_call_def
proof (rule safe_lock, rule safe_found)
  fix s k
  assume k: "known_as n k s"
  show "safe good rely (holding n) (Held {#} {#n#}) s (read (\<lambda>s. ps_insts s k) (init_instance v n cfg k))"
  proof (rule safe_reads)
    fix others t
    assume g: "good (Held {#} {#n#} + others) t" "rely (Held {#} {#n#}) s t"
    have kt: "known_as n k t" by (rule known_as_stable[OF k g(2)])
    then have "in_state (ps_insts t k) = PluginStateLoaded \<Longrightarrow> bindings_of t k = []"
      using g(1) by (auto simp: good_def registry_ok_def known_as_def)
    with kt show "safe good rely (holding n) (Held {#} {#n#}) t (init_instance v n cfg k (ps_insts t k))"
      by (rule safe_init_instance)
  qed
qed (simp_all add: holding_done holding_def)

lemma safe_start_bound:
  assumes "own n k g s0"
  shows "safe good rely (holding n) (Held {#} {#n#}) s0 (start_bound v n k g bs used)"
proof -
  let ?r = "Held {#} {#n#}"
  have alloc: "g < ps_next_gen s" if "own n k g s" for s using that by (simp add: own_def)
  show ?thesis
  proof (cases "cb_start_err v")
    case (Some e)
    then show ?thesis using alloc[OF assms]
      by (auto simp: start_bound_def Let_def intro!: safe_release_bindings safe_fail holding_done)
  next
    case None
    let ?publish = "attempt (publish_start v n k g) (\<lambda>ok.
                if ok
                then modify (\<lambda>s. s\<lparr>ps_order := ps_order s @ [n]\<rparr>) (modify (emit PluginEventStarted n) (Return None))
                else try_modify (release_dependency_bindings g)
                       (Return (join_errors [Some (RouteChanged n), cb_cleanup_err v])))"
    have started: "safe good rely (holding n) ?r s (modify (\<lambda>s. s\<lparr>ps_order := ps_order s @ [n]\<rparr>) (modify (emit PluginEventStarted n) (Return None)))" for s
      by (rule safe_order[where f = "\<lambda>ns. ns @ [n]"], rule safe_emit, rule holding_done)
    have publish: "safe good rely (holding n) ?r s ?publish" if own: "own n k g s" for s
    proof (rule safe_attempt)
      fix others t
      assume g: "good (?r + others) t" "rely ?r s t"
      have reg: "registry_ok t" "refs_ok (held_refs others) t" using g(1) by (simp_all add: good_def)
      have ot: "own n k g t" by (rule own_stable[OF own g(2) _ reg(1)]) simp
      show "\<exists>ok t' r'. publish_start v n k g t = Some (ok, t') \<and> rely others t t' \<and> good (r' + others) t' \<and>
          safe good rely (holding n) r' t' (if ok
                then modify (\<lambda>s. s\<lparr>ps_order := ps_order s @ [n]\<rparr>) (modify (emit PluginEventStarted n) (Return None))
                else try_modify (release_dependency_bindings g)
                       (Return (join_errors [Some (RouteChanged n), cb_cleanup_err v])))"
      proof (cases "map_of (ps_plugins t) n = Some k")
        case False
        then show ?thesis
          using g(1) alloc[OF ot] by (intro exI[of _ False] exI[of _ t] exI[of _ ?r])
            (simp add: publish_start_def rely_refl safe_release_bindings holding_done)
      next
        case True
        let ?u = "upd_gen g (\<lambda>x. x\<lparr>gen_started := True\<rparr>) t"
        let ?t = "upd_inst k (\<lambda>i. i\<lparr>in_gen := g, in_state := PluginStateRunning, in_started_at := Some (cb_now v), in_error := None\<rparr>) ?u"
        have u: "refs_ok (held_refs others) ?u"
          using refs_okD(1-3)[OF reg(2), of g] by (intro refs_ok_upd[OF reg(2)]) (auto simp: gen_ok_def)
        have "refs_ok (held_refs others) ?t"
          using refs_okD(5,6)[OF u] alloc[OF ot] by (intro refs_ok_cong[OF u]) (auto simp: upd_inst_def)
        moreover have step: "registry_ok ?t" "rely others t ?t"
          by (rule owner_step[OF g(1) ot]; simp add: upd_inst_def)+
        ultimately have "good (?r + others) ?t" using g(1) by (simp add: good_def upd_inst_def)
        then show ?thesis
          using True step(2)
          by (intro exI[of _ True] exI[of _ ?t] exI[of _ ?r]) (simp add: publish_start_def started)
      qed
    qed
    have changed: "safe good rely (holding n) ?r t (try_modify (release_dependency_bindings g)
        (modify (upd_inst k (\<lambda>i. i\<lparr>in_state := PluginStateError\<rparr>)) (Return e)))" if "own n k g t" for t e
      by (rule safe_release_bindings[OF alloc[OF that]], rule safe_modifies)
        (auto intro: tame_upd_inst refs_ok_upd_inst holding_done)
    show ?thesis unfolding start_bound_def None option.case
    proof (rule safe_reads)
      fix others t
      assume g: "good (?r + others) t" "rely ?r s0 t"
      have "own n k g t" by (rule own_stable[OF assms g(2)]) (use g(1) in \<open>simp_all add: good_def\<close>)
      then show "safe good rely (holding n) ?r t (if \<not> legacy_bindings_current bs used t
          then try_modify (release_dependency_bindings g) (modify (upd_inst k (\<lambda>i. i\<lparr>in_state := PluginStateError\<rparr>))
                     (Return (join_errors [Some (DependenciesChanged n), cb_cleanup_err v])))
          else ?publish)"
        using publish by (simp add: changed)
    qed
  qed
qed

lemma safe_start_generation:
  assumes "own n k g s0"
  shows "safe good rely (holding n) (Held {#} {#n#}) s0 (start_generation v n k g stopped rebind)"
  unfolding start_generation_def
proof (rule safe_reads)
  fix others s
  assume g: "good (Held {#} {#n#} + others) s" "rely (Held {#} {#n#}) s0 s"
  have own: "own n k g s" by (rule own_stable[OF assms g(2)]) (use g(1) in \<open>simp_all add: good_def\<close>)
  then have "g < ps_next_gen s" by (simp add: own_def)
  then show "safe good rely (holding n) (Held {#} {#n#}) s
      (case (gen_bindings (ps_gens s g), map fst (filter (\<lambda>x. \<not> snd x) (gen_legacy (ps_gens s g))),
             find (\<lambda>i. \<not> gen_started (ps_gens s i) \<or> gen_forced (ps_gens s i)) (gen_bindings (ps_gens s g)), s) of
         (bs, resolved, idle, s) \<Rightarrow> (case idle of
          Some i \<Rightarrow>
            (let e = DependencyNotRunning (gen_name (ps_gens s i)) n in
             if stopped then try_modify (release_dependency_bindings g) (Return (Some e)) else Return (Some e))
        | None \<Rightarrow>
            if \<not> rebind then start_bound v n k g bs (cb_start_used v @ resolved)
            else if cb_copy v (in_config (ps_insts s k)) = None
            then try_modify (release_dependency_bindings g) (Return (Some ConfigNotCopied))
            else
              (case cb_init_err v of
                 Some e \<Rightarrow>
                   (let e' = join_errors [Some e, cb_cleanup_err v] in
                    try_modify (release_dependency_bindings g)
                      (modify (fail_instance k e') (Return (map_option (FailedTo ''reinitialize'' n) e'))))
               | None \<Rightarrow> start_bound v n k g bs (cb_init_used v @ cb_start_used v @ resolved))))"
    using safe_start_bound[OF own]
    by (auto simp: Let_def split: option.splits intro!: safe_release_bindings safe_fail holding_done)
qed

lemma safe_restart_generation:
  assumes "known_as n k s0" "\<And>s g rebind. own n k g s \<Longrightarrow> safe good rely (holding n) (Held {#} {#n#}) s (p g rebind)"
  shows "safe good rely (holding n) (Held {#} {#n#}) s0
    (attempt (restart_generation k) (\<lambda>r. case r of Inl e \<Rightarrow> Return (Some e) | Inr (g, rebind) \<Rightarrow> p g rebind))"
    (is "safe _ _ _ ?r _ (attempt _ ?k)")
proof (rule safe_attempt)
  fix others s
  assume g: "good (?r + others) s" "rely ?r s0 s"
  have reg: "registry_ok s" "refs_ok (held_refs others) s" using g(1) by (simp_all add: good_def)
  have k: "known_as n k s" by (rule known_as_stable[OF assms(1) g(2)])
  let ?old = "ps_gens s (in_gen (ps_insts s k))"
  from capture_dependencies_ok[OF reg(2)] obtain x t where c: "capture_dependencies (gen_dependencies ?old) s = Some (x, t)" "same_but_refs s t"
    "case x of Inl _ \<Rightarrow> refs_ok (held_refs others) t | Inr bs \<Rightarrow> refs_ok (mset bs + held_refs others) t" by blast
  note tame = same_tame[OF c(2)]
  show "\<exists>x s' r'. restart_generation k s = Some (x, s') \<and> rely others s s' \<and> good (r' + others) s' \<and>
      safe good rely (holding n) r' s' (?k x)"
  proof (cases x)
    case (Inl e)
    have "good (?r + others) t" by (rule tame_good[OF g(1) tame]) (use c Inl in simp_all)
    moreover have "restart_generation k s = Some (Inl e, t)" using c(1) Inl by (simp add: restart_generation_def Let_def)
    ultimately show ?thesis using tame_rely[OF tame]
      by (intro exI[of _ "Inl e"] exI[of _ t] exI[of _ ?r]) (simp add: holding_done)
  next
    case (Inr bs)
    let ?g = "(new_generation (in_plugin (ps_insts s k)) (gen_name ?old) (gen_version ?old) (gen_config_hash ?old))
                \<lparr>gen_dependencies := gen_dependencies ?old, gen_bindings := bs,
                 gen_legacy := map (\<lambda>i. (gen_name (ps_gens s i), True)) bs\<rparr>"
    let ?t = "snd (add_generation ?g t)"
    have refs: "refs_ok (mset bs + held_refs others) t" using c Inr by simp
    have "refs_ok (mset (gen_bindings ?g) + held_refs others) t" using refs by simp
    then have ok: "refs_ok (held_refs others) ?t"
      by (rule add_generation_ok) (simp_all add: new_generation_def gen_ok_def)
    have regt: "registry_ok t" by (rule tame_registry[OF tame reg(1)])
    note alloc = alloc_step[OF regt refs, where g = ?g]
    have "good (?r + others) ?t" using ok alloc(1) g(1) c(2) by (simp add: good_def add_generation_def same_but_refs_def)
    moreover have "rely others s ?t" using rely_trans[OF tame_rely[OF tame] alloc(2)] .
    moreover have "own n k (ps_next_gen t) ?t"
    proof -
      have name: "gen_name ?old = n" using k reg(1) by (simp add: known_as_def registry_ok_def)
      have "in_gen (ps_insts t j) \<noteq> ps_next_gen t" if "j < ps_next_inst t" for j using refs_okD(6)[OF refs that] by simp
      moreover have "known_as n k t" using k tameD(2,7)[OF tame] by (simp add: known_as_def)
      ultimately show ?thesis using name
        by (auto simp: own_def known_as_def add_generation_def inst_name_def new_generation_def)
    qed
    moreover have "restart_generation k s =
        Some (Inr (ps_next_gen t, list_ex (\<lambda>i. i \<notin> set (gen_stopped_bindings ?old)) bs), ?t)"
      using c(1) Inr by (simp add: restart_generation_def Let_def add_generation_def)
    ultimately show ?thesis using assms(2) by (intro exI[of _ "Inr (ps_next_gen t, list_ex (\<lambda>i. i \<notin> set (gen_stopped_bindings ?old)) bs)"] exI[of _ ?t] exI[of _ ?r]) simp
  qed
qed

lemma safe_start: "safe good rely returned 0 s0 (start_call v n)"
  unfolding start_call_def
proof (rule safe_lock, rule safe_found)
  fix s k
  assume k: "known_as n k s"
  show "safe good rely (holding n) (Held {#} {#n#}) s (read (\<lambda>s. ps_insts s k) (start_instance v n k))"
  proof (rule safe_reads)
    fix others t
    assume g: "good (Held {#} {#n#} + others) t" "rely (Held {#} {#n#}) s t"
    have kt: "known_as n k t" by (rule known_as_stable[OF k g(2)])
    have reg: "registry_ok t" "refs_ok (held_refs others) t" using g(1) by (simp_all add: good_def)
    have "own n k (in_gen (ps_insts t k)) t"
      using kt reg refs_okD(6)[OF reg(2)] by (auto simp: own_def known_as_def registry_ok_def inj_on_def)
    then show "safe good rely (holding n) (Held {#} {#n#}) t (start_instance v n k (ps_insts t k))"
      using safe_restart_generation[OF kt, of "\<lambda>g. start_generation v n k g True"] safe_start_generation
      by (simp add: start_instance_def holding_done)
  qed
qed (simp_all add: holding_done holding_def)

lemma safe_stop_result:
  "safe good rely (holding n) (Held {#} {#n#}) s (stop_result n k err)"
proof (cases err)
  case None
  have "tame s (upd_inst k (\<lambda>i. i\<lparr>in_state := PluginStateStopped, in_started_at := None\<rparr>) s)" for s
    by (rule tame_upd_inst) simp
  then show ?thesis unfolding stop_result_def None option.case
    by (intro safe_modifies safe_order[where f = "remove1 n"] safe_emit holding_done) (auto intro: refs_ok_upd_inst)
qed (simp add: stop_result_def safe_fail holding_done)

lemma safe_await_stop: "safe good rely (holding n) (Held {#} {#n#}) s0 (await_stop v n k g)"
proof (cases "cb_wait_err v")
  case None
  have "safe good rely (holding n) (Held {#} {#n#}) s (read (\<lambda>s. gen_err (ps_gens s g)) (stop_result n k))" for s
    by (rule safe_reads) (rule safe_stop_result)
  then show ?thesis unfolding await_stop_def None option.case by (intro safe_wait_until) (auto intro: rely_refl)
qed (simp add: await_stop_def holding_done)

lemma retire_instance_tame:
  assumes "refs_ok extra s"
  shows "\<exists>s'. retire_instance k s = Some (in_gen (ps_insts s k), s') \<and> tame s s' \<and> refs_ok extra s'"
proof -
  let ?i = "in_gen (ps_insts s k)"
  obtain f where f: "retire_generation ?i s = Some (upd_gen ?i f s)" "refs_ok extra (upd_gen ?i f s)"
    using retire_generation_ok[OF assms] by blast
  let ?s = "upd_gen ?i f s"
  have "tame ?s (start_retirement [?i] ?s)" by (simp add: start_retirement_def tame_def)
  then have "tame s (start_retirement [?i] ?s)" by (rule tame_trans[OF retire_generation_tame[OF f(1)]])
  moreover have "refs_ok extra (start_retirement [?i] ?s)"
    using refs_okD(5,6)[OF f(2)] by (intro refs_ok_cong[OF f(2)]) (simp_all add: start_retirement_def)
  ultimately show ?thesis using f(1) by (simp add: retire_instance_def)
qed

lemma safe_stop: "safe good rely returned 0 s0 (stop_call v n)"
  unfolding stop_call_def
proof (rule safe_lock, rule safe_found)
  fix s k
  let ?r = "Held {#} {#n#}"
  have retire: "safe good rely (holding n) ?r s (attempt (retire_instance k) (await_stop v n k))" for s
  proof (rule safe_attempts)
    fix others t
    assume "good (?r + others) t"
    then have "refs_ok (held_refs (?r + others)) t" by (simp add: good_def)
    from retire_instance_tame[OF this] show "\<exists>x s' r'. retire_instance k t = Some (x, s') \<and> tame t s' \<and>
        refs_ok (held_refs (r' + others)) s' \<and> held_names r' = held_names ?r \<and> safe good rely (holding n) r' s' (await_stop v n k x)"
      using safe_await_stop by blast
  qed
  have "safe good rely (holding n) ?r s (stop_instance v n k st)" for s st
    unfolding stop_instance_def using retire by (auto simp: holding_done split: option.splits intro!: safe_reads)
  then show "safe good rely (holding n) ?r s (read (\<lambda>s. in_state (ps_insts s k)) (stop_instance v n k))"
    by (rule safe_reads)
qed (simp_all add: holding_done holding_def)

lemma return_done: "safe good rely returned 0 s (Return a)"
  by (rule safe_Return) (simp add: returned_def)

lemma safe_and_then:
  assumes "safe good rely returned 0 s p" "\<And>s. safe good rely returned 0 s q"
  shows "safe good rely returned 0 s (and_then p q)"
  unfolding and_then_def
proof (rule safe_bind[OF assms(1)])
  fix a :: "plugin_error option" and r s
  assume "returned a r s"
  then show "safe good rely returned r s (case a of None \<Rightarrow> q | Some e \<Rightarrow> Return (Some e))"
    using assms(2) by (cases a) (simp_all add: returned_def return_done)
qed

text \<open>Registration adds an instance with a generation of its own.\<close>

definition with_instance :: "plugin \<Rightarrow> psys \<Rightarrow> psys" where
  "with_instance p s =
     (let n = pi_name (pl_info p);
          t = snd (add_generation ((new_generation p n (pi_version (pl_info p)) '''')\<lparr>gen_dependencies := pi_dependencies (pl_info p)\<rparr>) s)
      in t\<lparr>ps_insts := (ps_insts s)(ps_next_inst s :=
               \<lparr>in_plugin = p, in_state = PluginStateLoaded, in_config = None, in_started_at = None, in_error = None, in_gen = ps_next_gen s\<rparr>),
           ps_plugins := (n, ps_next_inst s) # ps_plugins s, ps_next_inst := Suc (ps_next_inst s)\<rparr>)"

lemma with_instance_fields:
  "ps_plugins (with_instance p s) = (pi_name (pl_info p), ps_next_inst s) # ps_plugins s"
  "ps_next_inst (with_instance p s) = Suc (ps_next_inst s)" "ps_next_gen (with_instance p s) = Suc (ps_next_gen s)"
  "ps_busy (with_instance p s) = ps_busy s"
  "inst_name (with_instance p s) k = (if k = ps_next_inst s then pi_name (pl_info p) else inst_name s k)"
  "in_plugin (ps_insts (with_instance p s) k) = (if k = ps_next_inst s then p else in_plugin (ps_insts s k))"
  "in_gen (ps_insts (with_instance p s) k) = (if k = ps_next_inst s then ps_next_gen s else in_gen (ps_insts s k))"
  "in_state (ps_insts (with_instance p s) k) = (if k = ps_next_inst s then PluginStateLoaded else in_state (ps_insts s k))"
  "gen_name (ps_gens (with_instance p s) i) = (if i = ps_next_gen s then pi_name (pl_info p) else gen_name (ps_gens s i))"
  "gen_bindings (ps_gens (with_instance p s) i) = (if i = ps_next_gen s then [] else gen_bindings (ps_gens s i))"
  by (simp_all add: with_instance_def Let_def add_generation_def inst_name_def new_generation_def)

lemma with_instance_refs:
  assumes "refs_ok extra s"
  shows "refs_ok extra (with_instance p s)"
proof -
  let ?g = "(new_generation p (pi_name (pl_info p)) (pi_version (pl_info p)) '''')\<lparr>gen_dependencies := pi_dependencies (pl_info p)\<rparr>"
  have "refs_ok (mset (gen_bindings ?g) + extra) s" using assms by (simp add: new_generation_def)
  then have t: "refs_ok extra (snd (add_generation ?g s))"
    by (rule add_generation_ok) (simp_all add: new_generation_def gen_ok_def)
  have "k < ps_next_inst (with_instance p s)" if "map_of (ps_plugins (with_instance p s)) n = Some k" for n k
    using that refs_okD(5)[OF assms, of n k] by (auto simp: with_instance_fields split: if_splits)
  moreover have "in_gen (ps_insts (with_instance p s) k) < Suc (ps_next_gen s)" if "k < ps_next_inst (with_instance p s)" for k
    using that refs_okD(6)[OF assms, of k] by (auto simp: with_instance_fields less_Suc_eq)
  ultimately show ?thesis by (intro refs_ok_cong[OF t]) (simp_all add: with_instance_def Let_def add_generation_def)
qed

lemma with_instance_registry:
  assumes "registry_ok s" "refs_ok extra s" "map_of (ps_plugins s) (pi_name (pl_info p)) = None"
  shows "registry_ok (with_instance p s)" "rely others s (with_instance p s)"
proof -
  have old: "in_gen (ps_insts s k) < ps_next_gen s" if "k < ps_next_inst s" for k by (rule refs_okD(6)[OF assms(2) that])
  have lt: "k < ps_next_inst s" if "map_of (ps_plugins s) m = Some k" for m k by (rule refs_okD(5)[OF assms(2) that])
  have bind: "bindings_of (with_instance p s) k = (if k = ps_next_inst s then [] else bindings_of s k)" if "k \<le> ps_next_inst s" for k
    using that old[of k] by (auto simp: bindings_of_def with_instance_fields)
  show "registry_ok (with_instance p s)"
    unfolding registry_ok_def
  proof (intro conjI allI impI)
    show "distinct (map fst (ps_plugins (with_instance p s)))"
      using assms(1,3) by (simp add: with_instance_fields registry_ok_def map_of_eq_None_iff)
    show "inst_name (with_instance p s) k = m" if "map_of (ps_plugins (with_instance p s)) m = Some k" for m k
      using that assms(1) lt[of m k] by (auto simp: with_instance_fields registry_ok_def split: if_splits)
    show "gen_name (ps_gens (with_instance p s) (in_gen (ps_insts (with_instance p s) k))) = inst_name (with_instance p s) k"
      if "k < ps_next_inst (with_instance p s)" for k
      using that assms(1) old[of k] by (auto simp: with_instance_fields registry_ok_def less_Suc_eq)
    show "inj_on (\<lambda>k. in_gen (ps_insts (with_instance p s) k)) {..<ps_next_inst (with_instance p s)}"
      using assms(1) old by (fastforce simp: with_instance_fields registry_ok_def inj_on_def less_Suc_eq)
    show "bindings_of (with_instance p s) k = []"
      if "k < ps_next_inst (with_instance p s)" "in_state (ps_insts (with_instance p s) k) = PluginStateLoaded" for k
      using that assms(1) bind[of k] by (auto simp: with_instance_fields registry_ok_def less_Suc_eq split: if_splits)
  qed
  show "rely others s (with_instance p s)"
    using old bind unfolding rely_def registry_grows_def by (auto simp: with_instance_fields less_Suc_eq)
qed

lemma safe_register: "safe good rely returned 0 s0 (register_call p)"
  unfolding register_call_def
proof (rule safe_attempt)
  fix others s
  assume g: "good (0 + others) s"
  let ?n = "pi_name (pl_info p)"
  let ?done = "\<lambda>r. case r of Some e \<Rightarrow> Return (Some e) | None \<Rightarrow> modify (emit PluginEventLoaded ?n) (Return None)"
  have fin: "safe good rely returned 0 s (?done r)" for s r by (simp add: safe_emit return_done split: option.splits)
  have reg: "registry_ok s" "refs_ok (held_refs others) s" using g by (simp_all add: good_def)
  show "\<exists>x s' r'. register_plugin p s = Some (x, s') \<and> rely others s s' \<and> good (r' + others) s' \<and> safe good rely returned r' s' (?done x)"
  proof (cases "map_of (ps_plugins s) ?n")
    case (Some k)
    then show ?thesis using g
      by (intro exI[of _ "Some (AlreadyRegistered ?n)"] exI[of _ s] exI[of _ 0]) (simp add: register_plugin_def Let_def rely_refl return_done)
  next
    case None
    have new: "register_plugin p s = Some (None, with_instance p s)"
      using None by (simp add: register_plugin_def with_instance_def Let_def add_generation_def)
    have "good (0 + others) (with_instance p s)"
      using with_instance_registry(1)[OF reg None] with_instance_refs[OF reg(2), of p] g by (simp add: good_def with_instance_fields)
    then show ?thesis using new with_instance_registry(2)[OF reg None] fin by blast
  qed
qed

lemma safe_unregister: "safe good rely returned 0 s0 (unregister_call n)"
  unfolding unregister_call_def
proof (rule safe_attempts)
  fix others s
  assume g: "good (0 + others) s"
  let ?rest = "\<lambda>r. case r of Inl e \<Rightarrow> Return (Some e) | Inr k \<Rightarrow>
    try_modify (\<lambda>s. release_dependency_bindings (in_gen (ps_insts s k)) s) (modify (emit PluginEventUnloaded n) (Return None))"
  have reg: "registry_ok s" "refs_ok (held_refs others) s" using g by (simp_all add: good_def)
  have err: "\<exists>x s' r'. unregister_plugin n s = Some (x, s') \<and> tame s s' \<and> refs_ok (held_refs (r' + others)) s' \<and>
      held_names r' = held_names 0 \<and> safe good rely returned r' s' (?rest x)" if "unregister_plugin n s = Some (Inl e, s)" for e
    using that reg(2) by (intro exI[of _ "Inl e"] exI[of _ s] exI[of _ 0]) (simp add: tame_def return_done)
  show "\<exists>x s' r'. unregister_plugin n s = Some (x, s') \<and> tame s s' \<and> refs_ok (held_refs (r' + others)) s' \<and>
      held_names r' = held_names 0 \<and> safe good rely returned r' s' (?rest x)"
  proof (cases "map_of (ps_plugins s) n")
    case None
    then show ?thesis by (intro err) (simp add: unregister_plugin_def)
  next
    case (Some k)
    show ?thesis
    proof (cases "in_state (ps_insts s k) = PluginStateRunning")
      case True
      then show ?thesis using Some by (intro err) (simp add: unregister_plugin_def)
    next
      case False
      let ?s = "s\<lparr>ps_plugins := AList.delete n (ps_plugins s)\<rparr>"
      have k: "known_as n k s" by (rule found_known_as(1)[OF reg Some])
      have sub: "map_of (ps_plugins s) m = Some j" if "map_of (AList.delete n (ps_plugins s)) m = Some j" for m j
        using that by (simp add: delete_conv' split: if_splits)
      have "tame s ?s" using sub by (auto simp: tame_def distinct_delete)
      moreover have "refs_ok (held_refs others) ?s"
        using refs_okD(5)[OF reg(2) sub] refs_okD(6)[OF reg(2)] by (intro refs_ok_cong[OF reg(2)]) simp_all
      moreover have "safe good rely returned 0 ?s (?rest (Inr k))"
        unfolding sum.case
      proof (rule safe_tries[where r' = 0])
        fix others' t
        assume h: "good (0 + others') t" "rely 0 ?s t"
        have "k < ps_next_inst t" using k h(2) by (simp add: known_as_def rely_def registry_grows_def)
        then have "in_gen (ps_insts t k) < ps_next_gen t" using h(1) refs_okD(6) by (auto simp: good_def)
        moreover have "refs_ok (held_refs (0 + others')) t" using h(1) by (simp add: good_def)
        ultimately show "\<exists>s'. release_dependency_bindings (in_gen (ps_insts t k)) t = Some s' \<and> tame t s' \<and>
            refs_ok (held_refs (0 + others')) s'"
          using release_dependency_bindings_ok release_dependency_bindings_tame by meson
      qed (simp_all add: safe_emit return_done)
      ultimately show ?thesis using Some False
        by (intro exI[of _ "Inr k"] exI[of _ ?s] exI[of _ 0]) (simp add: unregister_plugin_def)
    qed
  qed
qed

lemma safe_release_lease:
  assumes "\<And>s. safe good rely returned 0 s p"
  shows "safe good rely returned 0 s0 (try_modify (release_lease l) p)"
proof (rule safe_tries[where r' = 0])
  fix others s
  assume "good (0 + others) s"
  then have "refs_ok (held_refs others) s" by (simp add: good_def)
  from release_lease_ok[OF this, of l] obtain s' where s': "release_lease l s = Some s'" "refs_ok (held_refs others) s'"
    "same_but_refs (s\<lparr>ps_leases := AList.delete l (ps_leases s)\<rparr>) s'" by blast
  have "tame s (s\<lparr>ps_leases := AList.delete l (ps_leases s)\<rparr>)" by (simp add: tame_def)
  then have "tame s s'" using same_tame[OF s'(3)] by (rule tame_trans)
  then show "\<exists>s'. release_lease l s = Some s' \<and> tame s s' \<and> refs_ok (held_refs (0 + others)) s'" using s' by simp
qed (simp_all add: assms)

lemma safe_acquire:
  assumes "\<And>s x. safe good rely returned 0 s (k x)"
  shows "safe good rely returned 0 s0 (attempt (acquire names) k)"
proof (rule safe_attempts)
  fix others s
  assume "good (0 + others) s"
  then have "refs_ok (held_refs others) s" by (simp add: good_def)
  from acquire_ok[OF this, of names] obtain x s' where a: "acquire names s = Some (x, s')" "refs_ok (held_refs others) s'"
    "case x of Inl _ \<Rightarrow> same_but_refs s s'
     | Inr l \<Rightarrow> \<exists>le t. same_but_refs s t \<and> s' = t\<lparr>ps_leases := (l, le) # ps_leases t, ps_next_lease := Suc (ps_next_lease t)\<rparr>"
    by blast
  have "tame s s'"
  proof (cases x)
    case (Inl e)
    then show ?thesis using a(3) by (simp add: same_tame)
  next
    case (Inr l)
    then obtain le t where t: "same_but_refs s t" "s' = t\<lparr>ps_leases := (l, le) # ps_leases t, ps_next_lease := Suc (ps_next_lease t)\<rparr>"
      using a(3) by auto
    have "tame t s'" unfolding t(2) by (simp add: tame_def)
    then show ?thesis by (rule tame_trans[OF same_tame[OF t(1)]])
  qed
  then show "\<exists>x s' r'. acquire names s = Some (x, s') \<and> tame s s' \<and> refs_ok (held_refs (r' + others)) s' \<and>
      held_names r' = held_names 0 \<and> safe good rely returned r' s' (k x)"
    using a(1,2) assms by (intro exI[of _ x] exI[of _ s'] exI[of _ 0]) simp
qed

lemma safe_init_each: "safe good rely returned 0 s (init_each v cfgs infos)"
  by (induction infos arbitrary: s) (simp_all add: Let_def return_done safe_and_then safe_init)

lemma safe_start_each: "safe good rely returned 0 s (start_each v infos)"
proof (induction infos arbitrary: s)
  case (Cons info infos)
  show ?case unfolding start_each.simps Let_def
    by (rule safe_reads) (simp add: Cons.IH safe_and_then safe_start split: sum.splits)
qed (simp add: return_done)

lemma safe_stop_each: "safe good rely returned 0 s (stop_each v ns errs)"
proof (induction ns arbitrary: s errs)
  case (Cons n ns)
  show ?case unfolding stop_each.simps
    by (rule safe_bind[OF safe_stop]) (use Cons.IH in \<open>metis returned_def\<close>)
qed (simp add: return_done)

lemma safe_health_each: "safe good rely returned 0 s (health_each infos)"
proof (induction infos arbitrary: s)
  case (Cons info infos)
  show ?case unfolding health_each.simps
    by (rule safe_acquire) (simp add: Cons.IH safe_release_lease safe_emit split: sum.splits)
qed (simp add: return_done)

lemma plugin_call_safe: "p \<in> plugin_calls \<Longrightarrow> safe good rely returned 0 s p"
proof -
  have all: "safe good rely returned 0 s (init_all v c)" "safe good rely returned 0 s (start_all v' ks)"
    "safe good rely returned 0 s (stop_all v')" "safe good rely returned 0 s health_check" for v c v' ks
    unfolding init_all_def start_all_def stop_all_def health_check_def
    by (rule safe_reads; simp add: safe_init_each safe_start_each safe_stop_each safe_health_each return_done split: option.splits)+
  have two: "safe good rely returned 0 s (restart_call v n)" "safe good rely returned 0 s (unload_call v n)"
    "safe good rely returned 0 s (enable_call v n c)" for v n c
    unfolding restart_call_def unload_call_def enable_call_def
    by (rule safe_reads; simp add: safe_and_then safe_stop safe_start safe_unregister return_done split: sum.splits)+
      (simp add: safe_and_then safe_init safe_start)
  have lease: "safe good rely returned 0 s (acquire_call names)" "safe good rely returned 0 s (release_call l)" for names l
    unfolding acquire_call_def release_call_def
    by (rule safe_acquire, simp add: return_done split: sum.splits) (rule safe_release_lease, rule return_done)
  show "p \<in> plugin_calls \<Longrightarrow> safe good rely returned 0 s p"
    by (elim plugin_calls.cases) (simp_all add: all two lease safe_register safe_unregister safe_init safe_start safe_stop)
qed

subsection \<open>What goes on by itself\<close>

lemma begin_stop_tame: "tame s (begin_stop i s)"
  unfolding begin_stop_def by (rule tame_upd_gen) simp_all

lemma retirement_turn_tame: "tame s (retirement_turn r s)"
proof (cases "ps_retiring s ! r")
  case Nil
  then show ?thesis by (simp add: retirement_turn_def tame_def)
next
  case (Cons i "is")
  have "tame s (s\<lparr>ps_retiring := (ps_retiring s)[r := is]\<rparr>)" "tame s s" by (simp_all add: tame_def)
  then show ?thesis using Cons begin_stop_tame by (simp add: retirement_turn_def)
qed

lemma finish_stop_tame:
  assumes "finish_stop i e s = Some s'"
  shows "tame s s'"
proof -
  let ?err = "\<lambda>g. g\<lparr>gen_err := (if gen_forced g then Some (Joined (ForcedStop # (case e of None \<Rightarrow> [] | Some e \<Rightarrow> [e]))) else e)\<rparr>"
  obtain t where t: "release_dependency_bindings i (upd_gen i ?err s) = Some t" "s' = upd_gen i (\<lambda>g. g\<lparr>gen_done := True\<rparr>) t"
    using assms by (auto simp: finish_stop_def)
  have "tame s (upd_gen i ?err s)" by (rule tame_upd_gen) simp_all
  also have "tame (upd_gen i ?err s) t" by (rule release_dependency_bindings_tame[OF t(1)])
  also have "tame t s'" unfolding t(2) by (rule tame_upd_gen) simp_all
  finally show ?thesis .
qed

lemma background_good:
  assumes "good r s" "plugin_background s s'"
  shows "good r s' \<and> rely r s s'"
proof -
  have refs: "refs_ok (held_refs r) s" using assms(1) by (simp add: good_def)
  have "tame s s' \<and> refs_ok (held_refs r) s'"
    using assms(2)
  proof cases
    case (turn k)
    then show ?thesis using retirement_turn_tame retirement_turn_ok[OF refs] by simp
  next
    case (stopped i e)
    then show ?thesis using finish_stop_tame[of i e s s'] finish_stop_ok[OF refs stopped(1,2), of e] by auto
  next
    case (forced i)
    have "tame s (upd_gen i (\<lambda>g. g\<lparr>gen_forced := True\<rparr>) s)" by (rule tame_upd_gen) simp_all
    then have "tame s (force_stop i s)" unfolding force_stop_def by (rule tame_trans[OF _ begin_stop_tame])
    then show ?thesis using forced force_stop_ok[OF refs] by simp
  qed
  then show ?thesis using tame_good[OF assms(1), of s' r] tame_rely by simp
qed

lemma new_registry_good: "good 0 new_registry"
  by (simp add: good_def refs_ok_def registry_ok_def new_registry_def users_def lease_uses_def binding_uses_def gen_ok_def new_generation_def)

subsection \<open>Every reachable state\<close>

definition plugin_reachable :: "psys \<Rightarrow> call list \<Rightarrow> bool" where
  "plugin_reachable = reachable plugin_calls plugin_background new_registry"

lemma plugin_reachable_good:
  assumes "plugin_reachable s ps"
  shows "\<exists>rs. good (sum_list rs) s \<and> list_all2 (\<lambda>r p. \<exists>s0. rely r s0 s \<and> safe good rely returned r s0 p) rs ps"
  using assms plugins.reachable_good[OF _ new_registry_good plugin_call_safe background_good] unfolding plugin_reachable_def by blast

lemma reachable_refs_ok:
  assumes "plugin_reachable s ps"
  shows "\<exists>extra. refs_ok extra s" "registry_ok s"
  using plugin_reachable_good[OF assms] by (auto simp: good_def)


text \<open>Runs of calls one after the other, for examples.\<close>

fun run_calls :: "call list \<Rightarrow> psys \<Rightarrow> psys option" where
  "run_calls [] s = Some s"
| "run_calls (p # ps) s = (case run_alone p s of Returned a s' \<Rightarrow> run_calls ps s' | _ \<Rightarrow> None)"

lemma run_calls_reachable:
  assumes "run_calls qs s = Some s'" "set qs \<subseteq> plugin_calls" "plugin_reachable s ps" "\<forall>p \<in> set ps. \<exists>a. p = Return a"
  shows "\<exists>ps. plugin_reachable s' ps \<and> (\<forall>p \<in> set ps. \<exists>a. p = Return a)"
  using assms
proof (induction qs arbitrary: s ps)
  case (Cons q qs)
  obtain a t where run: "run_alone q s = Returned a t" "run_calls qs t = Some s'"
    using Cons.prems(1) by (auto split: run_end.splits)
  have "reachable plugin_calls plugin_background new_registry s (q # ps)"
    using Cons.prems(2,3) by (simp add: plugin_reachable_def reachable_call)
  then have "plugin_reachable t (Return a # ps)"
    using run_alone_reachable[OF _ run(1)] by (simp add: plugin_reachable_def)
  then show ?case using Cons.IH[OF run(2)] Cons.prems(2,4) by simp
qed auto

lemma run_reachable:
  assumes "run_calls qs new_registry = Some s" "set qs \<subseteq> plugin_calls"
  shows "\<exists>ps. plugin_reachable s ps \<and> (\<forall>p \<in> set ps. \<exists>a. p = Return a)"
  using run_calls_reachable[OF assms, of "[]"] by (simp add: plugin_reachable_def reachable_start)

definition host_plugin :: "nat \<Rightarrow> string \<Rightarrow> string list \<Rightarrow> plugin" where
  "host_plugin i n deps = \<lparr>pl_id = i, pl_info = \<lparr>pi_name = n, pi_version = ''1.0'', pi_dependencies = deps\<rparr>\<rparr>"

definition host_callbacks :: callbacks where
  "host_callbacks = \<lparr>cb_ctx_err = None, cb_copy = Some, cb_hash = (\<lambda>_. ''''), cb_init_err = None, cb_init_used = [], cb_start_err = None,
     cb_start_used = [], cb_cleanup_err = None, cb_wait_err = Some ContextDone, cb_now = 1\<rparr>"

text \<open>A store and an application that depends on it: both run, the application is leased, the store's stop is refused.\<close>

definition host_calls :: "call list" where
  "host_calls =
    [register_call (host_plugin 1 ''db'' []), register_call (host_plugin 2 ''app'' [''db'']),
     enable_call host_callbacks ''db'' None, enable_call host_callbacks ''app'' None, acquire_call [''app'']]"

lemma host_calls_ok: "set host_calls \<subseteq> plugin_calls"
  by (simp add: host_calls_def plugin_calls.intros)

definition host_run :: psys where
  "host_run = the (run_calls host_calls new_registry)"

lemma host_runs: "run_calls host_calls new_registry = Some host_run"
proof -
  have "run_calls host_calls new_registry \<noteq> None" by code_simp
  then show ?thesis by (auto simp: host_run_def)
qed

lemma host_reachable: "\<exists>ps. plugin_reachable host_run ps \<and> (\<forall>p \<in> set ps. \<exists>a. p = Return a)"
  by (rule run_reachable[OF host_runs host_calls_ok])

subsection \<open>The properties\<close>







text \<open>
  C27: Every reachable registry is well typed, whatever calls are in flight: a name is registered once, its
  instance is allocated and carries a plugin of that name, the instance's generation is allocated, carries
  the name too and belongs to no other instance, and every reference in a lease or a binding points to an
  allocated generation.
\<close>

theorem registry_well_typed:
  assumes "plugin_reachable s ps"
  shows "distinct (map fst (ps_plugins s)) \<and>
    (\<forall>(n, k) \<in> set (ps_plugins s). k < ps_next_inst s \<and> pi_name (pl_info (in_plugin (ps_insts s k))) = n \<and>
       in_gen (ps_insts s k) < ps_next_gen s \<and> gen_name (ps_gens s (in_gen (ps_insts s k))) = n) \<and>
    inj_on (\<lambda>k. in_gen (ps_insts s k)) {..<ps_next_inst s} \<and>
    (\<forall>(l, le) \<in> set (ps_leases s). set (le_generations le) \<subseteq> {..<ps_next_gen s}) \<and>
    (\<forall>j < ps_next_gen s. set (gen_bindings (ps_gens s j)) \<subseteq> {..<ps_next_gen s})"
proof -
  obtain extra where refs: "refs_ok extra s" using reachable_refs_ok[OF assms] by blast
  have reg: "registry_ok s" by (rule reachable_refs_ok[OF assms])
  have used: "i < ps_next_gen s" if "i \<in># users s" for i using refs_okD(3)[OF refs, of i] that by simp
  have d: "distinct (map fst (ps_plugins s))" using reg by (simp add: registry_ok_def)
  moreover have "\<forall>(n, k) \<in> set (ps_plugins s). k < ps_next_inst s \<and> pi_name (pl_info (in_plugin (ps_insts s k))) = n \<and>
       in_gen (ps_insts s k) < ps_next_gen s \<and> gen_name (ps_gens s (in_gen (ps_insts s k))) = n"
  proof (intro ballI, clarify)
    fix n k
    assume "(n, k) \<in> set (ps_plugins s)"
    then have "map_of (ps_plugins s) n = Some k" using d by (simp add: map_of_eq_Some_iff)
    then show "k < ps_next_inst s \<and> pi_name (pl_info (in_plugin (ps_insts s k))) = n \<and>
        in_gen (ps_insts s k) < ps_next_gen s \<and> gen_name (ps_gens s (in_gen (ps_insts s k))) = n"
      using found_known_as[OF reg refs] by (auto simp: own_def known_as_def inst_name_def)
  qed
  moreover have "inj_on (\<lambda>k. in_gen (ps_insts s k)) {..<ps_next_inst s}" using reg by (simp add: registry_ok_def)
  moreover have "\<forall>(l, le) \<in> set (ps_leases s). set (le_generations le) \<subseteq> {..<ps_next_gen s}"
    using used by (fastforce simp: users_def lease_uses_def)
  moreover have "\<forall>j < ps_next_gen s. set (gen_bindings (ps_gens s j)) \<subseteq> {..<ps_next_gen s}"
    using used binding_used by (fastforce simp: users_def)
  ultimately show ?thesis by blast
qed

theorem registry_well_typed_witness:
  "\<exists>s ps. plugin_reachable s ps \<and> map fst (ps_plugins s) = [''app'', ''db''] \<and> distinct (map fst (ps_plugins s))"
proof -
  obtain ps where ps: "plugin_reachable host_run ps" using host_reachable by blast
  moreover have "map fst (ps_plugins host_run) = [''app'', ''db'']" by code_simp
  ultimately show ?thesis using conjunct1[OF registry_well_typed[OF ps]] by (intro exI conjI)
qed



subsection \<open>What modelling showed\<close>

text \<open>
  \<open>Stop\<close> refuses to stop a plugin that a running plugin is bound to. A plugin that is only initialized holds
  the same reference: the check passes, the generation is retired, and the call waits on it for ever. Until the
  dependent starts and stops, or is unregistered, the plugin cannot be leased and cannot be stopped.
\<close>

definition bound_calls :: "call list" where
  "bound_calls =
    [register_call (host_plugin 1 ''db'' []), register_call (host_plugin 2 ''app'' [''db'']),
     enable_call host_callbacks ''db'' None, init_call host_callbacks ''app'' None]"

lemma stop_waits_for_initialized:
  "(case run_calls bound_calls new_registry of
      None \<Rightarrow> False
    | Some s \<Rightarrow>
        (case run_alone (stop_call (host_callbacks\<lparr>cb_wait_err := None\<rparr>) ''db'') s of
           Waits t \<Rightarrow> gen_retired (ps_gens t 0) \<and> gen_refs (ps_gens t 0) = 1 \<and> in_state (ps_insts t 0) = PluginStateRunning \<and>
             (case acquire [''db''] t of Some (Inl e, u) \<Rightarrow> e = GenerationUnavailable ''db'' | _ \<Rightarrow> False)
         | _ \<Rightarrow> False))"
  by code_simp

text \<open>
  A stop whose context ends while it waits leaves the plugin \<open>running\<close>: its generation is stopped in the
  background, and from then on the state says running, no lease can be had, and \<open>Start\<close> refuses.
\<close>

lemma cancelled_stop_stays_running:
  "(case run_calls [register_call (host_plugin 1 ''db'' []), enable_call host_callbacks ''db'' None,
                    stop_call host_callbacks ''db''] new_registry of
      None \<Rightarrow> False
    | Some s \<Rightarrow>
        (case finish_stop 0 None (retirement_turn 0 s) of
           None \<Rightarrow> False
         | Some t \<Rightarrow> gen_done (ps_gens t 0) \<and> in_state (ps_insts t 0) = PluginStateRunning \<and>
             (case acquire [''db''] t of Some (Inl e, u) \<Rightarrow> e = GenerationUnavailable ''db'' | _ \<Rightarrow> False) \<and>
             (case run_alone (start_call host_callbacks ''db'') t of
                Returned (Some (NotReadyState n st)) u \<Rightarrow> st = PluginStateRunning | _ \<Rightarrow> False)))"
  by code_simp

text \<open>
  \<open>SetState\<close> may write \<open>Loaded\<close> over \<open>Initialized\<close>; the next \<open>Init\<close> then replaces the bindings without
  releasing the old ones, so the dependency keeps a reference that nothing holds and never drains.
\<close>

lemma set_state_leaks_reference:
  "(case run_calls bound_calls new_registry of
      None \<Rightarrow> False
    | Some s \<Rightarrow>
        (case run_calls [attempt (set_state ''app'' PluginStateLoaded) Return, init_call host_callbacks ''app'' None] s of
           None \<Rightarrow> False
         | Some t \<Rightarrow> gen_refs (ps_gens t 0) = 2 \<and> ps_leases t = [] \<and>
             (\<Sum>j < ps_next_gen t. count_list (gen_bindings (ps_gens t j)) 0) = 1))"
  by code_simp

end
