(* ===== verification/PluginOrder.thy ===== *)
theory PluginOrder
  imports PluginLifecycle
begin

section \<open>The order in which plugins start\<close>

text \<open>
  \<open>sortByDependency\<close> of \<open>plugin/lifecycle.go\<close>, the order of \<open>StartAll\<close>: the counts and adjacency lists it
  builds are those of the dependency relation within the list, so the correctness of Kahn's loop (\<open>Kahn\<close>)
  gives that dependencies come first. (\<open>Resolve\<close> of \<open>PluginDeps\<close> has the edges the other way round.)
\<close>

definition start_depends :: "plugin_info list \<Rightarrow> (string \<times> string) set" where
  "start_depends infos = {(d, n). \<exists>p \<in> set infos. pi_name p = n \<and> d \<in> set (pi_dependencies p) \<and> d \<in> pi_name ` set infos}"

text \<open>The two maps built so far, when the edges \<open>E\<close> have been seen.\<close>

definition counted :: "string set \<Rightarrow> (string \<times> string) set \<Rightarrow> degrees \<times> (string \<Rightarrow> string list) \<Rightarrow> bool" where
  "counted V E acc \<longleftrightarrow> (\<forall>t. fst acc t = (\<Sum>m \<in> V. int (count_list (snd acc m) t))) \<and> (\<forall>m. set (snd acc m) = {t. (m, t) \<in> E})"

lemma counted_step:
  assumes "finite V" "counted V E acc"
  shows "counted V (E \<union> (if dep \<in> V then {(dep, n)} else {})) (count_dependency V n dep acc)"
proof (cases "dep \<in> V")
  case True
  obtain d r where acc: "acc = (d, r)" by (cases acc)
  have deg: "d t = (\<Sum>m \<in> V. int (count_list (r m) t))" and adj: "set (r m) = {t. (m, t) \<in> E}" for t m
    using assms(2) acc by (auto simp: counted_def)
  let ?r = "r(dep := r dep @ [n])"
  have "(\<Sum>m \<in> V. int (count_list (?r m) t)) = (\<Sum>m \<in> V. int (count_list (r m) t)) + (if t = n then 1 else 0)" for t
  proof -
    have rest: "(\<Sum>m \<in> V - {dep}. int (count_list (?r m) t)) = (\<Sum>m \<in> V - {dep}. int (count_list (r m) t))"
      by (rule sum.cong) auto
    have "(\<Sum>m \<in> V. int (count_list (f m) t)) = int (count_list (f dep) t) + (\<Sum>m \<in> V - {dep}. int (count_list (f m) t))" for f
      by (rule sum.remove[OF assms(1) True])
    then show ?thesis using rest by simp
  qed
  then show ?thesis using True acc deg adj by (auto simp: counted_def count_dependency_def)
qed (use assms in \<open>simp add: count_dependency_def split: prod.splits\<close>)

lemma counted_plugin:
  assumes "finite V" "counted V E acc"
  shows "counted V (E \<union> {(d, n). n = m \<and> d \<in> set deps \<and> d \<in> V}) (fold (count_dependency V m) deps acc)"
  using assms(2)
proof (induction deps arbitrary: E acc)
  case (Cons d ds)
  have eq: "E \<union> (if d \<in> V then {(d, m)} else {}) \<union> {(d, n). n = m \<and> d \<in> set ds \<and> d \<in> V} =
      E \<union> {(e, n). n = m \<and> e \<in> set (d # ds) \<and> e \<in> V}" by auto
  show ?case unfolding eq[symmetric] fold.simps comp_apply by (rule Cons.IH[OF counted_step[OF assms(1) Cons.prems]])
qed simp

lemma counted_plugins:
  assumes "finite V" "counted V E acc"
  shows "counted V (E \<union> {(d, n). \<exists>p \<in> set infos. pi_name p = n \<and> d \<in> set (pi_dependencies p) \<and> d \<in> V})
    (fold (\<lambda>p. fold (count_dependency V (pi_name p)) (pi_dependencies p)) infos acc)"
  using assms(2)
proof (induction infos arbitrary: E acc)
  case (Cons p ps)
  have eq: "E \<union> {(d, n). n = pi_name p \<and> d \<in> set (pi_dependencies p) \<and> d \<in> V} \<union>
        {(d, n). \<exists>q \<in> set ps. pi_name q = n \<and> d \<in> set (pi_dependencies q) \<and> d \<in> V} =
      E \<union> {(d, n). \<exists>q \<in> set (p # ps). pi_name q = n \<and> d \<in> set (pi_dependencies q) \<and> d \<in> V}" by auto
  show ?case unfolding eq[symmetric] fold.simps comp_apply by (rule Cons.IH[OF counted_plugin[OF assms(1) Cons.prems]])
qed simp

lemma dependents_of_counted:
  "counted (set (map pi_name infos)) (start_depends infos) (dependents_of infos)"
proof -
  have "counted (set (map pi_name infos)) {} (\<lambda>_. 0, \<lambda>_. [])" by (simp add: counted_def)
  from counted_plugins[OF _ this, of infos] show ?thesis by (simp add: dependents_of_def start_depends_def)
qed

lemma found_plugins:
  assumes "\<And>n. n \<in> set names \<Longrightarrow> \<exists>p \<in> A. f n = Some p \<and> pi_name p = n"
  shows "map pi_name (List.map_filter f names) = names \<and> set (List.map_filter f names) \<subseteq> A"
  using assms
proof (induction names)
  case (Cons n names)
  obtain p where "p \<in> A" "f n = Some p" "pi_name p = n" using Cons.prems[of n] by auto
  then show ?case using Cons.IH Cons.prems by (simp add: List.map_filter_simps)
qed (simp add: List.map_filter_simps)

lemma named_plugins:
  assumes "distinct (map pi_name infos)" "distinct names" "set names \<subseteq> set (map pi_name infos)"
  defines "f \<equiv> map_of (map (\<lambda>p. (pi_name p, p)) (rev infos))"
  shows "map pi_name (List.map_filter f names) = names" "set (List.map_filter f names) \<subseteq> set infos"
proof -
  have f: "\<exists>p \<in> set infos. f n = Some p \<and> pi_name p = n" if "n \<in> set (map pi_name infos)" for n
  proof -
    have "n \<in> pi_name ` set infos" using that by simp
    then obtain p where p: "p \<in> set infos" "pi_name p = n" by blast
    have "distinct (map fst (map (\<lambda>p. (pi_name p, p)) (rev infos)))"
      using assms(1) by (simp add: comp_def rev_map[symmetric])
    moreover have "(n, p) \<in> set (map (\<lambda>p. (pi_name p, p)) (rev infos))" using p by auto
    ultimately have "f n = Some p" unfolding f_def by (rule map_of_is_SomeI)
    then show ?thesis using p by blast
  qed
  show "map pi_name (List.map_filter f names) = names" "set (List.map_filter f names) \<subseteq> set infos"
    using found_plugins[of names "set infos" f] f assms(3) by (simp_all add: subset_iff)
qed

text \<open>
  C26: sortByDependency always returns, and returns every plugin of the list exactly once. When the
  dependencies within the list form no cycle, each plugin comes after all of its dependencies that are in
  the list, whatever the order in which the map of in-degrees is ranged over; otherwise the list comes
  back as it was.
\<close>

theorem sort_by_dependency_correct:
  assumes "distinct (map pi_name infos)" "distinct ks" "set ks = set (map pi_name infos)"
  shows "\<exists>out. sort_by_dependency ks infos = Some out \<and> mset out = mset infos \<and>
    (acyclic (start_depends infos) \<longrightarrow>
       (\<forall>xs p ys. out = xs @ p # ys \<longrightarrow> (\<forall>d \<in> set (pi_dependencies p). d \<in> pi_name ` set infos \<longrightarrow> d \<in> pi_name ` set xs))) \<and>
    (\<not> acyclic (start_depends infos) \<longrightarrow> out = infos)"
proof -
  let ?V = "set (map pi_name infos)" and ?f = "map_of (map (\<lambda>p. (pi_name p, p)) (rev infos))"
  obtain d r where dr: "dependents_of infos = (d, r)" by fastforce
  have deg: "d t = (\<Sum>m \<in> ?V. int (count_list (r m) t))" and adj: "set (r m) = {t. (m, t) \<in> start_depends infos}" for t m
    using dependents_of_counted[of infos] dr by (simp_all add: counted_def)
  have edges: "edge_rel ?V r = start_depends infos" by (auto simp: edge_rel_def adj start_depends_def)
  have closed: "set (r n) \<subseteq> ?V" for n by (auto simp: adj start_depends_def)
  have card: "card ?V = length infos" using distinct_card[OF assms(1)] by simp
  have fin: "finite ?V" by simp
  have q: "distinct (filter (\<lambda>n. d n = 0) ks)" "set (filter (\<lambda>n. d n = 0) ks) = {t \<in> ?V. d t = 0}"
    using assms(2,3) by auto
  have fuel: "card ?V \<le> length infos" using card by simp
  obtain names where names: "kahn_loop enq_fifo r (length infos) d (filter (\<lambda>n. d n = 0) ks) [] = Some names"
    "distinct names" "set names \<subseteq> ?V" "topo ?V r names" "set names = ?V \<longleftrightarrow> acyclic (edge_rel ?V r)"
    using fifo.kahn_loop_correct[OF fin closed deg q fuel] by blast
  let ?out = "List.map_filter ?f names"
  note out = named_plugins[OF assms(1) names(2,3)]
  have sort: "sort_by_dependency ks infos = Some (if length ?out < length infos then infos else ?out)"
    using names(1) dr by (simp add: sort_by_dependency_def Let_def)
  have len: "length ?out = card (set names)"
    using arg_cong[OF out(1), of length] distinct_card[OF names(2)] by simp
  show ?thesis
  proof (cases "acyclic (start_depends infos)")
    case True
    then have all: "set names = ?V" using names(5) edges by simp
    then have "length ?out = length infos" using len card by simp
    moreover have "mset ?out = mset infos"
    proof -
      have "distinct ?out" using out(1) names(2) by (metis distinct_map)
      moreover have "distinct infos" using assms(1) by (simp add: distinct_map)
      moreover have "card (set ?out) = card (set infos)"
        using calculation distinct_card \<open>length ?out = length infos\<close> by metis
      then have "set ?out = set infos" using out(2) by (intro card_subset_eq) simp_all
      ultimately show ?thesis by (simp add: set_eq_iff_mset_eq_distinct)
    qed
    moreover have first: "e \<in> pi_name ` set xs"
      if split: "?out = xs @ p # ys" and e: "e \<in> set (pi_dependencies p)" "e \<in> pi_name ` set infos" for xs p ys e
    proof -
      have "p \<in> set infos" using out(2) unfolding split by simp
      then have "(e, pi_name p) \<in> edge_rel ?V r" unfolding edges start_depends_def using e by auto
      moreover have "names = map pi_name xs @ pi_name p # map pi_name ys" using out(1) unfolding split by simp
      ultimately have "e \<in> set (map pi_name xs)" using names(4) unfolding topo_def by blast
      then show ?thesis by simp
    qed
    ultimately have res: "sort_by_dependency ks infos = Some ?out" "mset ?out = mset infos" using sort by simp_all
    have order: "\<forall>xs p ys. ?out = xs @ p # ys \<longrightarrow> (\<forall>d \<in> set (pi_dependencies p). d \<in> pi_name ` set infos \<longrightarrow> d \<in> pi_name ` set xs)"
    proof (intro allI impI ballI)
      show "d \<in> pi_name ` set xs" if "?out = xs @ p # ys" "d \<in> set (pi_dependencies p)" "d \<in> pi_name ` set infos" for xs p ys d
        by (rule first[OF that])
    qed
    show ?thesis by (intro exI[of _ ?out] conjI impI) (rule res(1), rule res(2), rule order, use True in blast)
  next
    case False
    then have "set names \<noteq> ?V" unfolding names(5) edges .
    then have "set names \<subset> ?V" using names(3) by (rule psubsetI[rotated])
    then have "card (set names) < card ?V" by (intro psubset_card_mono) simp_all
    then show ?thesis using False sort len card by simp
  qed
qed

theorem sort_by_dependency_correct_witness:
  "\<exists>app db. \<exists>out. sort_by_dependency [''app'', ''db''] [app, db] = Some out \<and> mset out = {#app, db#} \<and> out = [db, app]"
proof -
  let ?p = "\<lambda>n ds. \<lparr>pi_name = n, pi_version = ''1'', pi_dependencies = ds\<rparr>"
  let ?app = "?p ''app'' [''db'']" and ?db = "?p ''db'' []"
  have "sort_by_dependency [''app'', ''db''] [?app, ?db] = Some [?db, ?app]" by code_simp
  then show ?thesis using sort_by_dependency_correct[of "[?app, ?db]" "[''app'', ''db'']"] by fastforce
qed

end
