(* ===== verification/StateMachine.thy ===== *)
theory StateMachine
  imports GoBase
begin

section \<open>The state machine (orchestration/graph/statemachine.go)\<close>

text \<open>
  \<open>StateMachine[S]\<close>: its builder, \<open>findNextState\<close> and the loop of \<open>RunWithThreadID\<close>. The type
  parameter \<open>S\<close> is a pointer in every use of the package, so the state is the pointed-to value and
  each callback returns it updated; a callback that is nil is \<open>None\<close>. \<open>ctx.Err()\<close> is a function of
  how many times it has been asked, so a context may be cancelled at any point of the run. One pass
  of the loop is \<open>sm_iter\<close>; the loop itself terminates because a pass that continues uses a step.
  Setting a checkpointer only adds values to the context handed to the callbacks, and \<open>Resume\<close> and
  \<open>GetPending\<close> delegate to the interrupt package; neither is modelled.
\<close>

datatype handler_error = ErrInterrupted | HandlerFailure string

datatype sm_error =
    ErrNoInitialState
  | ContextError string
  | ErrMaxStepsExceeded
  | ErrStateNotFound string
  | OnEnterError string string
  | InterruptError
  | HandlerError string string
  | OnExitError string string
  | ErrNoTransition string
  | ErrNoConditionMatched string

type_synonym ctx_polls = "nat \<Rightarrow> string option"
type_synonym 's hook = "'s \<Rightarrow> string option \<times> 's"
type_synonym 's handler = "'s \<Rightarrow> (handler_error + string) \<times> 's"
type_synonym 's condition = "'s \<Rightarrow> bool \<times> 's"

record 's state_node =
  sn_name :: string
  on_enter :: "'s hook option"
  on_exit :: "'s hook option"
  sn_handler :: "'s handler option"

record 's transition =
  tr_from :: string
  tr_to :: string
  tr_condition :: "'s condition option"
  tr_priority :: int

record 's state_machine =
  sm_name :: string
  sm_states :: "string \<rightharpoonup> 's state_node"
  sm_transitions :: "string \<Rightarrow> 's transition list"
  sm_initial :: string
  sm_finals :: "string \<Rightarrow> bool"
  sm_max_steps :: int

subsection \<open>Builder\<close>

definition new_state_machine :: "string \<Rightarrow> 's state_machine" where
  "new_state_machine name = \<lparr>sm_name = name, sm_states = Map.empty, sm_transitions = (\<lambda>_. []),
     sm_initial = [], sm_finals = (\<lambda>_. False), sm_max_steps = 100\<rparr>"

definition add_state_with_hooks :: "string \<Rightarrow> 's handler option \<Rightarrow> 's hook option \<Rightarrow> 's hook option
    \<Rightarrow> 's state_machine \<Rightarrow> 's state_machine" where
  "add_state_with_hooks name h enter exit sm = sm\<lparr>sm_states := (sm_states sm)(name \<mapsto>
     \<lparr>sn_name = name, on_enter = enter, on_exit = exit, sn_handler = h\<rparr>)\<rparr>"

definition add_state :: "string \<Rightarrow> 's handler option \<Rightarrow> 's state_machine \<Rightarrow> 's state_machine" where
  "add_state name h sm = sm\<lparr>sm_states := (sm_states sm)(name \<mapsto>
     \<lparr>sn_name = name, on_enter = None, on_exit = None, sn_handler = h\<rparr>)\<rparr>"

definition add_transition_with_priority :: "string \<Rightarrow> string \<Rightarrow> 's condition option \<Rightarrow> int
    \<Rightarrow> 's state_machine \<Rightarrow> 's state_machine" where
  "add_transition_with_priority from to c p sm = sm\<lparr>sm_transitions := (sm_transitions sm)(from :=
     sm_transitions sm from @ [\<lparr>tr_from = from, tr_to = to, tr_condition = c, tr_priority = p\<rparr>])\<rparr>"

definition add_transition :: "string \<Rightarrow> string \<Rightarrow> 's condition option \<Rightarrow> 's state_machine \<Rightarrow> 's state_machine" where
  "add_transition from to c sm =
     add_transition_with_priority from to c (int (length (sm_transitions sm from))) sm"

definition set_initial :: "string \<Rightarrow> 's state_machine \<Rightarrow> 's state_machine" where
  "set_initial name sm = sm\<lparr>sm_initial := name\<rparr>"

definition add_final :: "string list \<Rightarrow> 's state_machine \<Rightarrow> 's state_machine" where
  "add_final names sm = sm\<lparr>sm_finals := fold (\<lambda>n f. f(n := True)) names (sm_finals sm)\<rparr>"

definition set_max_steps :: "int \<Rightarrow> 's state_machine \<Rightarrow> 's state_machine" where
  "set_max_steps n sm = sm\<lparr>sm_max_steps := n\<rparr>"

text \<open>The stock conditions and handlers.\<close>

definition always :: "'s condition" where "always s = (True, s)"
definition never :: "'s condition" where "never s = (False, s)"
definition when_cond :: "('s \<Rightarrow> bool) \<Rightarrow> 's condition" where "when_cond p s = (p s, s)"
definition pass_through :: "'s handler" where "pass_through s = (Inr [], s)"
definition end_handler :: "string \<Rightarrow> 's handler" where "end_handler next s = (Inr next, s)"
definition conditional :: "('s \<Rightarrow> bool) \<Rightarrow> string \<Rightarrow> string \<Rightarrow> 's handler" where
  "conditional p t f s = (Inr (if p s then t else f), s)"

subsection \<open>The run loop\<close>

record 's run =
  current :: string
  run_data :: 's
  run_steps :: int
  polls :: nat

type_synonym 's outcome = "sm_error option \<times> 's"

definition check_ctx :: "ctx_polls \<Rightarrow> 's run \<Rightarrow> 's outcome + 's run" where
  "check_ctx ctx r = (case ctx (polls r) of
     Some e \<Rightarrow> Inl (Some (ContextError e), run_data r)
   | None \<Rightarrow> Inr (r\<lparr>polls := Suc (polls r)\<rparr>))"

fun find_next :: "ctx_polls \<Rightarrow> string \<Rightarrow> 's transition list \<Rightarrow> 's run \<Rightarrow> 's outcome + string \<times> 's run" where
  "find_next ctx cur [] r = Inl (Some (ErrNoConditionMatched cur), run_data r)"
| "find_next ctx cur (t # ts) r =
     bind_res (check_ctx ctx r) (\<lambda>r.
       case tr_condition t of
         None \<Rightarrow> Inr (tr_to t, r)
       | Some c \<Rightarrow> (case c (run_data r) of (b, s) \<Rightarrow>
           let r = r\<lparr>run_data := s\<rparr> in
           if b then Inr (tr_to t, r) else find_next ctx cur ts r))"

definition find_next_state :: "'s state_machine \<Rightarrow> ctx_polls \<Rightarrow> 's run \<Rightarrow> 's outcome + string \<times> 's run" where
  "find_next_state sm ctx r =
     (if sm_transitions sm (current r) = [] then Inl (Some (ErrNoTransition (current r)), run_data r)
      else find_next ctx (current r) (sm_transitions sm (current r)) r)"

definition call_hook :: "'s hook option \<Rightarrow> (string \<Rightarrow> sm_error) \<Rightarrow> 's run \<Rightarrow> 's outcome + 's run" where
  "call_hook h wrap r = (case h of None \<Rightarrow> Inr r | Some f \<Rightarrow>
     (case f (run_data r) of
        (Some e, s) \<Rightarrow> Inl (Some (wrap e), s)
      | (None, s) \<Rightarrow> Inr (r\<lparr>run_data := s\<rparr>)))"

definition call_handler :: "'s state_node \<Rightarrow> 's run \<Rightarrow> 's outcome + string \<times> 's run" where
  "call_handler node r = (case sn_handler node of None \<Rightarrow> Inr ([], r) | Some h \<Rightarrow>
     (case h (run_data r) of
        (Inl ErrInterrupted, s) \<Rightarrow> Inl (Some InterruptError, s)
      | (Inl (HandlerFailure e), s) \<Rightarrow> Inl (Some (HandlerError (current r) e), s)
      | (Inr next, s) \<Rightarrow> Inr (next, r\<lparr>run_data := s\<rparr>)))"

text \<open>The part of a pass up to and including the handler, and the part after it.\<close>

definition visit_state :: "ctx_polls \<Rightarrow> 's state_node \<Rightarrow> 's run \<Rightarrow> 's outcome + string \<times> 's run" where
  "visit_state ctx node r =
     bind_res (check_ctx ctx r) (\<lambda>r.
     bind_res (call_hook (on_enter node) (OnEnterError (current r)) r) (\<lambda>r.
     bind_res (check_ctx ctx r) (call_handler node)))"

definition leave_state :: "'s state_machine \<Rightarrow> ctx_polls \<Rightarrow> 's state_node \<Rightarrow> string \<Rightarrow> 's run
    \<Rightarrow> 's outcome + 's run" where
  "leave_state sm ctx node next r =
     bind_res (check_ctx ctx r) (\<lambda>r.
     bind_res (call_hook (on_exit node) (OnExitError (current r)) r) (\<lambda>r.
     bind_res (check_ctx ctx r) (\<lambda>r.
     bind_res (if next = [] then find_next_state sm ctx r else Inr (next, r)) (\<lambda>(next, r).
     Inr (r\<lparr>current := next\<rparr>)))))"

text \<open>One pass of the \<open>for\<close> loop: \<open>Inl\<close> is a return, \<open>Inr\<close> the state of the next pass.\<close>

definition sm_iter :: "'s state_machine \<Rightarrow> ctx_polls \<Rightarrow> 's run \<Rightarrow> 's outcome + 's run" where
  "sm_iter sm ctx r =
     bind_res (check_ctx ctx r) (\<lambda>r.
     if sm_max_steps sm \<le> run_steps r then Inl (Some ErrMaxStepsExceeded, run_data r)
     else let r = r\<lparr>run_steps := run_steps r + 1\<rparr> in
     if sm_finals sm (current r) then Inl (None, run_data r)
     else case sm_states sm (current r) of
       None \<Rightarrow> Inl (Some (ErrStateNotFound (current r)), run_data r)
     | Some node \<Rightarrow> bind_res (visit_state ctx node r) (\<lambda>(next, r). leave_state sm ctx node next r))"

lemma check_ctx_Inr: "check_ctx ctx r = Inr r' \<longleftrightarrow> ctx (polls r) = None \<and> r' = r\<lparr>polls := Suc (polls r)\<rparr>"
  by (auto simp: check_ctx_def split: option.splits)

text \<open>What a pass's parts may change: the data and the poll counter.\<close>

definition same_place :: "'s run \<Rightarrow> 's run \<Rightarrow> bool" where
  "same_place r r' \<longleftrightarrow> current r' = current r \<and> run_steps r' = run_steps r"

lemma same_place_refl [simp]: "same_place r r"
  by (simp add: same_place_def)

lemma same_place_trans: "same_place r s \<Longrightarrow> same_place s t \<Longrightarrow> same_place r t"
  by (simp add: same_place_def)

lemma check_ctx_place: "check_ctx ctx r = Inr r' \<Longrightarrow> same_place r r'"
  by (simp add: check_ctx_Inr same_place_def)

lemma call_hook_place: "call_hook h w r = Inr r' \<Longrightarrow> same_place r r'"
  by (auto simp: call_hook_def same_place_def split: option.splits prod.splits)

lemma call_handler_place: "call_handler node r = Inr (n, r') \<Longrightarrow> same_place r r'"
  by (auto simp: call_handler_def same_place_def split: option.splits prod.splits sum.splits handler_error.splits)

lemma find_next_place:
  "find_next ctx cur ts r = Inr (n, r') \<Longrightarrow> same_place r r' \<and> n \<in> tr_to ` set ts"
proof (induction ts arbitrary: r)
  case (Cons t ts)
  then obtain r1 where r1: "check_ctx ctx r = Inr r1" by (auto simp: bind_res_Inr)
  show ?case
  proof (cases "tr_condition t")
    case None
    then show ?thesis using Cons.prems r1 check_ctx_place[OF r1] by auto
  next
    case (Some c)
    obtain b s where bs: "c (run_data r1) = (b, s)" by fastforce
    have "same_place r (r1\<lparr>run_data := s\<rparr>)" using check_ctx_place[OF r1] by (simp add: same_place_def)
    then show ?thesis
      using Cons.prems Cons.IH[of "r1\<lparr>run_data := s\<rparr>"] r1 Some bs same_place_trans by (cases b) (auto simp: Let_def)
  qed
qed simp

lemma find_next_state_place:
  "find_next_state sm ctx r = Inr (n, r') \<Longrightarrow> same_place r r' \<and> n \<in> tr_to ` set (sm_transitions sm (current r))"
  by (auto simp: find_next_state_def find_next_place split: if_splits dest: find_next_place)

text \<open>
  The moves a machine can make from a state: what its handler may answer, or, when the answer is the
  empty name, the target of one of its transitions.
\<close>

definition handler_answers :: "'s state_node \<Rightarrow> string set" where
  "handler_answers node = (case sn_handler node of None \<Rightarrow> {[]} | Some h \<Rightarrow> {n. \<exists>s. fst (h s) = Inr n})"

definition legal_move :: "'s state_machine \<Rightarrow> string \<Rightarrow> string \<Rightarrow> bool" where
  "legal_move sm a b \<longleftrightarrow> \<not> sm_finals sm a \<and> (\<exists>node. sm_states sm a = Some node \<and>
     (b \<noteq> [] \<and> b \<in> handler_answers node \<or> [] \<in> handler_answers node \<and> b \<in> tr_to ` set (sm_transitions sm a)))"

lemma call_handler_answer: "call_handler node r = Inr (n, r') \<Longrightarrow> n \<in> handler_answers node"
  unfolding call_handler_def handler_answers_def
  by (auto split: option.splits prod.splits sum.splits handler_error.splits intro: exI[of _ "run_data r"])

lemma visit_state_Inr: "visit_state ctx node r = Inr (n, r') \<Longrightarrow> same_place r r' \<and> n \<in> handler_answers node"
  unfolding visit_state_def bind_res_Inr
  by (meson same_place_trans check_ctx_place call_hook_place call_handler_place call_handler_answer)

lemma leave_state_Inr:
  assumes "leave_state sm ctx node n r = Inr r'"
  shows "run_steps r' = run_steps r \<and>
    (if n = [] then current r' \<in> tr_to ` set (sm_transitions sm (current r)) else current r' = n)"
proof -
  obtain r1 r2 r3 n' r4 where st: "check_ctx ctx r = Inr r1"
    "call_hook (on_exit node) (OnExitError (current r1)) r1 = Inr r2" "check_ctx ctx r2 = Inr r3" and
    f: "(if n = [] then find_next_state sm ctx r3 else Inr (n, r3)) = Inr (n', r4)" and
    r': "r' = r4\<lparr>current := n'\<rparr>"
    using assms by (auto simp: leave_state_def bind_res_Inr)
  have "same_place r r3" using st by (meson same_place_trans check_ctx_place call_hook_place)
  then show ?thesis
    using f r' find_next_state_place[of sm ctx r3 n' r4] by (auto simp: same_place_def split: if_splits)
qed

lemma sm_iter_Inr:
  assumes "sm_iter sm ctx r = Inr r'"
  shows "run_steps r < sm_max_steps sm" "run_steps r' = run_steps r + 1"
    "legal_move sm (current r) (current r')" "ctx (polls r) = None"
proof -
  obtain r1 where r1: "check_ctx ctx r = Inr r1" using assms by (auto simp: sm_iter_def bind_res_Inr)
  note p1 = check_ctx_place[OF r1, unfolded same_place_def]
  show steps: "run_steps r < sm_max_steps sm"
    using assms r1 p1 by (auto simp: sm_iter_def split: if_splits)
  show "ctx (polls r) = None" using r1 by (simp add: check_ctx_Inr)
  define s1 where "s1 = r1\<lparr>run_steps := run_steps r1 + 1\<rparr>"
  have s1: "current s1 = current r" "run_steps s1 = run_steps r + 1" using p1 by (simp_all add: s1_def)
  obtain node where node: "sm_states sm (current r) = Some node" and fin: "\<not> sm_finals sm (current r)"
    using assms r1 p1 by (auto simp: sm_iter_def Let_def split: if_splits option.splits)
  obtain n r2 where v: "visit_state ctx node s1 = Inr (n, r2)" and l: "leave_state sm ctx node n r2 = Inr r'"
    using assms r1 p1 node fin steps by (auto simp: sm_iter_def Let_def s1_def bind_res_Inr)
  have "current r2 = current r" "run_steps r2 = run_steps r + 1" "n \<in> handler_answers node"
    using visit_state_Inr[OF v] s1 by (simp_all add: same_place_def)
  then show "run_steps r' = run_steps r + 1" "legal_move sm (current r) (current r')"
    using leave_state_Inr[OF l] node fin by (auto simp: legal_move_def split: if_splits)
qed

function run_loop :: "'s state_machine \<Rightarrow> ctx_polls \<Rightarrow> 's run \<Rightarrow> 's outcome" where
  "run_loop sm ctx r = (case sm_iter sm ctx r of Inl res \<Rightarrow> res | Inr r' \<Rightarrow> run_loop sm ctx r')"
  by pat_completeness auto
termination
  by (relation "measure (\<lambda>(sm, ctx, r). nat (sm_max_steps sm - run_steps r))")
     (auto dest: sm_iter_Inr(1,2))

declare run_loop.simps [simp del]

definition initial_run :: "'s state_machine \<Rightarrow> 's \<Rightarrow> 's run" where
  "initial_run sm s = \<lparr>current = sm_initial sm, run_data = s, run_steps = 0, polls = 0\<rparr>"

definition run_with_thread_id :: "'s state_machine \<Rightarrow> ctx_polls \<Rightarrow> 's \<Rightarrow> 's outcome" where
  "run_with_thread_id sm ctx s =
     (if sm_initial sm = [] then (Some ErrNoInitialState, s) else run_loop sm ctx (initial_run sm s))"

record trace_step =
  ts_state :: string
  ts_next_state :: string
  ts_duration :: int
  ts_error :: "sm_error option"

definition run_with_trace :: "'s state_machine \<Rightarrow> ctx_polls \<Rightarrow> 's \<Rightarrow> 's \<times> trace_step list \<times> sm_error option" where
  "run_with_trace sm ctx s = (case run_with_thread_id sm ctx s of (err, s') \<Rightarrow> (s', [], err))"

subsection \<open>Passes of the loop\<close>

fun passes :: "'s state_machine \<Rightarrow> ctx_polls \<Rightarrow> nat \<Rightarrow> 's run \<Rightarrow> 's run option" where
  "passes sm ctx 0 r = Some r"
| "passes sm ctx (Suc k) r = (case sm_iter sm ctx r of Inl _ \<Rightarrow> None | Inr r' \<Rightarrow> passes sm ctx k r')"

lemma passes_run_loop: "passes sm ctx k r = Some r' \<Longrightarrow> run_loop sm ctx r = run_loop sm ctx r'"
  by (induction k arbitrary: r) (auto simp: run_loop.simps[of sm ctx r] split: sum.splits,
      simp add: run_loop.simps)

lemma run_loop_last_pass: "\<exists>k r'. passes sm ctx k r = Some r' \<and> sm_iter sm ctx r' = Inl (run_loop sm ctx r)"
proof (induction sm ctx r rule: run_loop.induct)
  case (1 sm ctx r)
  show ?case
  proof (cases "sm_iter sm ctx r")
    case (Inl res)
    then show ?thesis by (intro exI[of _ 0] exI[of _ r]) (simp add: run_loop.simps)
  next
    case (Inr r')
    from 1[OF Inr] obtain k r'' where "passes sm ctx k r' = Some r''" "sm_iter sm ctx r'' = Inl (run_loop sm ctx r')"
      by blast
    then show ?thesis using Inr by (intro exI[of _ "Suc k"] exI[of _ r'']) (simp add: run_loop.simps[of sm ctx r])
  qed
qed

text \<open>Every pass uses one step and makes one legal move.\<close>

lemma passes_path:
  assumes "passes sm ctx k r = Some r'"
  shows "run_steps r' = run_steps r + int k \<and>
    (current r, current r') \<in> {(a, b). legal_move sm a b} ^^ k \<and>
    (k \<noteq> 0 \<longrightarrow> run_steps r' \<le> sm_max_steps sm)"
  using assms
proof (induction k arbitrary: r)
  case (Suc k)
  then obtain r1 where r1: "sm_iter sm ctx r = Inr r1" "passes sm ctx k r1 = Some r'"
    by (auto split: sum.splits)
  note it = sm_iter_Inr[OF r1(1)]
  have ih: "run_steps r' = run_steps r1 + int k"
    "(current r1, current r') \<in> {(a, b). legal_move sm a b} ^^ k"
    "k \<noteq> 0 \<longrightarrow> run_steps r' \<le> sm_max_steps sm" using Suc.IH[OF r1(2)] by auto
  have "(current r, current r') \<in> {(a, b). legal_move sm a b} ^^ Suc k"
    by (rule relpow_Suc_I2[OF _ ih(2)]) (simp add: it(3))
  then show ?case using ih it(1,2) by (cases k) auto
qed simp

subsection \<open>How a pass may end the run\<close>

definition ends_with :: "'s state_machine \<Rightarrow> ctx_polls \<Rightarrow> 's run \<Rightarrow> sm_error option \<Rightarrow> bool" where
  "ends_with sm ctx r e = (case e of
     None \<Rightarrow> run_steps r < sm_max_steps sm \<and> sm_finals sm (current r)
   | Some ErrMaxStepsExceeded \<Rightarrow> sm_max_steps sm \<le> run_steps r
   | Some (ErrStateNotFound n) \<Rightarrow> n = current r \<and> \<not> sm_finals sm n \<and> sm_states sm n = None
   | Some (ErrNoTransition n) \<Rightarrow> n = current r \<and> \<not> sm_finals sm n \<and> sm_transitions sm n = [] \<and>
       (\<exists>node. sm_states sm n = Some node \<and> [] \<in> handler_answers node)
   | Some (ErrNoConditionMatched n) \<Rightarrow> n = current r \<and> \<not> sm_finals sm n \<and>
       (\<exists>node. sm_states sm n = Some node \<and> [] \<in> handler_answers node) \<and>
       (\<forall>t \<in> set (sm_transitions sm n). tr_condition t \<noteq> None)
   | Some ErrNoInitialState \<Rightarrow> False
   | Some _ \<Rightarrow> True)"

definition harmless :: "sm_error option \<Rightarrow> bool" where
  "harmless e \<longleftrightarrow> (case e of Some (ContextError _) \<Rightarrow> True | Some (OnEnterError _ _) \<Rightarrow> True
     | Some InterruptError \<Rightarrow> True | Some (HandlerError _ _) \<Rightarrow> True | Some (OnExitError _ _) \<Rightarrow> True | _ \<Rightarrow> False)"

lemma harmless_ends: "harmless e \<Longrightarrow> ends_with sm ctx r e"
  by (cases "the e"; cases e) (simp_all add: harmless_def ends_with_def)

lemma check_ctx_Inl: "check_ctx ctx r = Inl (e, s) \<Longrightarrow> (\<exists>c. e = Some (ContextError c)) \<and> harmless e"
  by (auto simp: check_ctx_def harmless_def split: option.splits)

lemma call_hook_Inl:
  "call_hook h (OnEnterError n) r = Inl (e, s) \<Longrightarrow> harmless e"
  "call_hook h (OnExitError n) r = Inl (e, s) \<Longrightarrow> harmless e"
  by (auto simp: call_hook_def harmless_def split: option.splits prod.splits)

lemma call_handler_Inl: "call_handler node r = Inl (e, s) \<Longrightarrow> harmless e"
  by (auto simp: call_handler_def harmless_def split: option.splits prod.splits sum.splits handler_error.splits)

lemma find_next_Inl:
  "find_next ctx cur ts r = Inl (e, s) \<Longrightarrow> harmless e \<or>
     e = Some (ErrNoConditionMatched cur) \<and> (\<forall>t \<in> set ts. tr_condition t \<noteq> None)"
proof (induction ts arbitrary: r)
  case (Cons t ts)
  show ?case
  proof (cases "check_ctx ctx r")
    case (Inl a)
    then show ?thesis using Cons.prems check_ctx_Inl[of ctx r e s] by auto
  next
    case (Inr r1)
    then show ?thesis using Cons by (auto simp: Let_def split: option.splits prod.splits if_splits)
  qed
qed simp

lemma visit_state_Inl: "visit_state ctx node r = Inl (e, s) \<Longrightarrow> harmless e"
  unfolding visit_state_def bind_res_Inl by (elim disjE exE conjE) (blast dest: check_ctx_Inl call_hook_Inl call_handler_Inl)+

lemma leave_state_Inl:
  assumes "leave_state sm ctx node n r = Inl (e, s)"
  shows "harmless e \<or> n = [] \<and>
    (e = Some (ErrNoTransition (current r)) \<and> sm_transitions sm (current r) = [] \<or>
     e = Some (ErrNoConditionMatched (current r)) \<and>
       (\<forall>t \<in> set (sm_transitions sm (current r)). tr_condition t \<noteq> None))"
proof (rule ccontr)
  assume no: "\<not> ?thesis"
  then have nh: "\<not> harmless e" by blast
  obtain r1 where r1: "check_ctx ctx r = Inr r1"
    and l1: "bind_res (call_hook (on_exit node) (OnExitError (current r1)) r1) (\<lambda>r.
     bind_res (check_ctx ctx r) (\<lambda>r.
     bind_res (if n = [] then find_next_state sm ctx r else Inr (n, r)) (\<lambda>(next, r).
     Inr (r\<lparr>current := next\<rparr>)))) = Inl (e, s)"
    using assms nh check_ctx_Inl[of ctx r e s] unfolding leave_state_def bind_res_Inl[of "check_ctx ctx r"] by blast
  obtain r2 where r2: "call_hook (on_exit node) (OnExitError (current r1)) r1 = Inr r2"
    and l2: "bind_res (check_ctx ctx r2) (\<lambda>r.
     bind_res (if n = [] then find_next_state sm ctx r else Inr (n, r)) (\<lambda>(next, r).
     Inr (r\<lparr>current := next\<rparr>))) = Inl (e, s)"
    using l1 nh call_hook_Inl(2)[of _ _ r1 e s] unfolding bind_res_Inl[of "call_hook _ _ _"] by blast
  obtain r3 where r3: "check_ctx ctx r2 = Inr r3"
    and l3: "bind_res (if n = [] then find_next_state sm ctx r3 else Inr (n, r3)) (\<lambda>(next, r).
     Inr (r\<lparr>current := next\<rparr>)) = Inl (e, s)"
    using l2 nh check_ctx_Inl[of ctx r2 e s] unfolding bind_res_Inl[of "check_ctx ctx r2"] by blast
  have "same_place r r3" using r1 r2 r3 by (meson same_place_trans check_ctx_place call_hook_place)
  then have c: "current r3 = current r" by (simp add: same_place_def)
  have "n = []" "find_next_state sm ctx r3 = Inl (e, s)"
    using l3 by (auto simp: bind_res_def split: if_splits sum.splits)
  then show False
    using no nh c find_next_Inl[of ctx "current r" "sm_transitions sm (current r)" r3 e s] by (auto simp: find_next_state_def split: if_splits)
qed

lemma sm_iter_Inl:
  assumes "sm_iter sm ctx r = Inl (e, s)"
  shows "(\<exists>c. e = Some (ContextError c)) \<or> ctx (polls r) = None \<and> ends_with sm ctx r e"
proof (cases "check_ctx ctx r")
  case (Inl a)
  then show ?thesis using assms check_ctx_Inl[of ctx r e s] by (auto simp: sm_iter_def)
next
  case (Inr r1)
  then have c0: "ctx (polls r) = None" and p1: "current r1 = current r" "run_steps r1 = run_steps r"
    using check_ctx_place[OF Inr] by (simp_all add: check_ctx_Inr same_place_def)
  show ?thesis
  proof (cases "run_steps r < sm_max_steps sm \<and> \<not> sm_finals sm (current r) \<and> sm_states sm (current r) \<noteq> None")
    case True
    then obtain node where n: "run_steps r < sm_max_steps sm" "\<not> sm_finals sm (current r)"
      "sm_states sm (current r) = Some node" by auto
    define s1 where "s1 = r1\<lparr>run_steps := run_steps r1 + 1\<rparr>"
    have "bind_res (visit_state ctx node s1) (\<lambda>(next, r). leave_state sm ctx node next r) = Inl (e, s)"
      using assms Inr p1 n by (simp add: sm_iter_def Let_def s1_def)
    then consider "visit_state ctx node s1 = Inl (e, s)"
      | m r2 where "visit_state ctx node s1 = Inr (m, r2)" "leave_state sm ctx node m r2 = Inl (e, s)"
      by (auto simp: bind_res_Inl)
    then show ?thesis
    proof cases
      case 1
      show ?thesis by (intro disjI2 conjI c0 harmless_ends visit_state_Inl[OF 1])
    next
      case (2 m r2)
      have m: "current r2 = current r" "m \<in> handler_answers node"
        using visit_state_Inr[OF 2(1)] p1 by (simp_all add: same_place_def s1_def)
      from leave_state_Inl[OF 2(2)] show ?thesis
      proof (elim disjE conjE)
        assume "harmless e"
        then show ?thesis by (intro disjI2 conjI c0 harmless_ends)
      qed (use m n c0 in \<open>simp_all add: ends_with_def\<close>)
    qed
  qed (use assms Inr c0 p1 in \<open>auto simp: sm_iter_def Let_def ends_with_def split: if_splits option.splits\<close>)
qed


subsection \<open>Properties\<close>

lemma run_ends:
  assumes "sm_initial sm \<noteq> []" "run_with_thread_id sm ctx s = (e, s')"
  obtains k r where "passes sm ctx k (initial_run sm s) = Some r" "sm_iter sm ctx r = Inl (e, s')"
  using run_loop_last_pass[of sm ctx "initial_run sm s"] assms by (auto simp: run_with_thread_id_def)

lemma run_after_passes:
  "sm_initial sm \<noteq> [] \<Longrightarrow> passes sm ctx k (initial_run sm s) = Some r \<Longrightarrow> sm_iter sm ctx r = Inl res \<Longrightarrow>
     run_with_thread_id sm ctx s = res"
  using passes_run_loop[of sm ctx k "initial_run sm s" r] by (simp add: run_with_thread_id_def run_loop.simps)

lemma sm_iter_final:
  "run_steps r < sm_max_steps sm \<Longrightarrow> sm_finals sm (current r) \<Longrightarrow> ctx (polls r) = None \<Longrightarrow>
     sm_iter sm ctx r = Inl (None, run_data r)"
  "sm_max_steps sm \<le> run_steps r \<Longrightarrow> ctx (polls r) = None \<Longrightarrow>
     sm_iter sm ctx r = Inl (Some ErrMaxStepsExceeded, run_data r)"
  by (simp_all add: sm_iter_def check_ctx_def)

text \<open>
  C30: A run returns without error exactly when some number of passes smaller than the step limit
  leads to a final state with the context not cancelled; the result is the data at that point, and
  the states visited on the way form a path of legal moves (through non-final states only) from the
  initial state. In particular every run comes back, whatever the callbacks answer.
\<close>

theorem run_succeeds_iff:
  assumes "sm_initial sm \<noteq> []"
  shows "run_with_thread_id sm ctx s = (None, s') \<longleftrightarrow>
    (\<exists>k r. passes sm ctx k (initial_run sm s) = Some r \<and> int k < sm_max_steps sm \<and>
      (sm_initial sm, current r) \<in> {(a, b). legal_move sm a b} ^^ k \<and>
      sm_finals sm (current r) \<and> ctx (polls r) = None \<and> s' = run_data r)"
proof
  assume run: "run_with_thread_id sm ctx s = (None, s')"
  obtain k r where kr: "passes sm ctx k (initial_run sm s) = Some r" "sm_iter sm ctx r = Inl (None, s')"
    using run_ends[OF assms run] .
  note path = passes_path[OF kr(1)]
  have "ctx (polls r) = None" "run_steps r < sm_max_steps sm" "sm_finals sm (current r)"
    using sm_iter_Inl[OF kr(2)] by (simp_all add: ends_with_def)
  moreover from this kr(2) have "s' = run_data r" by (simp add: sm_iter_final)
  ultimately show "\<exists>k r. passes sm ctx k (initial_run sm s) = Some r \<and> int k < sm_max_steps sm \<and>
      (sm_initial sm, current r) \<in> {(a, b). legal_move sm a b} ^^ k \<and>
      sm_finals sm (current r) \<and> ctx (polls r) = None \<and> s' = run_data r"
    using kr(1) path by (intro exI[of _ k] exI[of _ r]) (simp add: initial_run_def)
next
  assume "\<exists>k r. passes sm ctx k (initial_run sm s) = Some r \<and> int k < sm_max_steps sm \<and>
      (sm_initial sm, current r) \<in> {(a, b). legal_move sm a b} ^^ k \<and>
      sm_finals sm (current r) \<and> ctx (polls r) = None \<and> s' = run_data r"
  then obtain k r where kr: "passes sm ctx k (initial_run sm s) = Some r" "int k < sm_max_steps sm"
    "sm_finals sm (current r)" "ctx (polls r) = None" "s' = run_data r" by blast
  have "run_steps r = int k" using passes_path[OF kr(1)] by (simp add: initial_run_def)
  then show "run_with_thread_id sm ctx s = (None, s')"
    using run_after_passes[OF assms kr(1)] sm_iter_final(1)[of r sm ctx] kr by simp
qed

definition counter_machine :: "int \<Rightarrow> nat state_machine" where
  "counter_machine n = set_max_steps n (add_final [''done''] (set_initial ''work''
     (add_transition ''work'' ''done'' (Some (when_cond (\<lambda>s. 2 \<le> s))) (add_transition_with_priority ''work'' ''work''
        (Some (when_cond (\<lambda>s. s < 2))) 9 (add_state ''work'' (Some (\<lambda>s. (Inr [], Suc s))) (new_state_machine ''m''))))))"

lemmas counter_machine_simps = counter_machine_def set_max_steps_def add_final_def set_initial_def add_transition_def
  add_transition_with_priority_def add_state_def new_state_machine_def when_cond_def

theorem run_succeeds_iff_witness:
  "run_with_thread_id (counter_machine 3) (\<lambda>_. None) 0 = (None, 2)"
proof -
  have i: "sm_initial (counter_machine 3) \<noteq> []" by (simp add: counter_machine_simps)
  define r where "r = \<lparr>current = ''done'', run_data = 2 :: nat, run_steps = 2, polls = 13\<rparr>"
  have p: "passes (counter_machine 3) (\<lambda>_. None) 2 (initial_run (counter_machine 3) 0) = Some r"
    unfolding r_def by code_simp
  show ?thesis
    using p passes_path[OF p] unfolding run_succeeds_iff[OF i]
    by (intro exI[of _ 2] exI[of _ r]) (auto simp: r_def initial_run_def counter_machine_simps)
qed

text \<open>
  The step limit error is returned exactly when as many passes as the limit allows all asked for
  another one: the machine runs at most \<open>maxSteps\<close> handlers, and because the check for a final
  state itself uses up a step, a run that needs exactly \<open>maxSteps\<close> handlers to reach a final state
  is also refused.
\<close>

lemma run_exceeds_iff:
  assumes "sm_initial sm \<noteq> []"
  shows "run_with_thread_id sm ctx s = (Some ErrMaxStepsExceeded, s') \<longleftrightarrow>
    (\<exists>r. passes sm ctx (nat (sm_max_steps sm)) (initial_run sm s) = Some r \<and> ctx (polls r) = None \<and>
      s' = run_data r)"
proof
  assume run: "run_with_thread_id sm ctx s = (Some ErrMaxStepsExceeded, s')"
  obtain k r where kr: "passes sm ctx k (initial_run sm s) = Some r"
    "sm_iter sm ctx r = Inl (Some ErrMaxStepsExceeded, s')" using run_ends[OF assms run] .
  have e: "ctx (polls r) = None" "sm_max_steps sm \<le> run_steps r"
    using sm_iter_Inl[OF kr(2)] by (simp_all add: ends_with_def)
  have "k = nat (sm_max_steps sm)"
    using passes_path[OF kr(1)] e(2) by (cases "k = 0") (auto simp: initial_run_def)
  then show "\<exists>r. passes sm ctx (nat (sm_max_steps sm)) (initial_run sm s) = Some r \<and> ctx (polls r) = None \<and>
      s' = run_data r"
    using kr e sm_iter_final(2)[of sm r ctx] by (intro exI[of _ r]) simp
next
  assume "\<exists>r. passes sm ctx (nat (sm_max_steps sm)) (initial_run sm s) = Some r \<and> ctx (polls r) = None \<and>
      s' = run_data r"
  then obtain r where r: "passes sm ctx (nat (sm_max_steps sm)) (initial_run sm s) = Some r"
    "ctx (polls r) = None" "s' = run_data r" by blast
  have "sm_max_steps sm \<le> run_steps r" using passes_path[OF r(1)] by (simp add: initial_run_def)
  then show "run_with_thread_id sm ctx s = (Some ErrMaxStepsExceeded, s')"
    using run_after_passes[OF assms r(1)] sm_iter_final(2)[of sm r ctx] r by simp
qed

lemma run_exceeds_iff_example:
  "run_with_thread_id (counter_machine 2) (\<lambda>_. None) 0 = (Some ErrMaxStepsExceeded, 2)"
proof -
  have i: "sm_initial (counter_machine 2) \<noteq> []" by (simp add: counter_machine_simps)
  have m: "nat (sm_max_steps (counter_machine 2)) = 2" by (simp add: counter_machine_simps)
  have "passes (counter_machine 2) (\<lambda>_. None) 2 (initial_run (counter_machine 2) 0) =
      Some \<lparr>current = ''done'', run_data = 2, run_steps = 2, polls = 13\<rparr>" by code_simp
  then show ?thesis unfolding run_exceeds_iff[OF i] m by simp
qed

text \<open>Changing the priorities of the transitions.\<close>

definition set_priorities :: "('s transition \<Rightarrow> int) \<Rightarrow> 's state_machine \<Rightarrow> 's state_machine" where
  "set_priorities f sm = sm\<lparr>sm_transitions := (\<lambda>a. map (\<lambda>t. t\<lparr>tr_priority := f t\<rparr>) (sm_transitions sm a))\<rparr>"

lemma find_next_priority: "find_next ctx cur (map (\<lambda>t. t\<lparr>tr_priority := f t\<rparr>) ts) r = find_next ctx cur ts r"
  by (induction ts arbitrary: r) (auto simp: fun_eq_iff Let_def bind_res_def split: sum.splits option.splits prod.splits)

lemma sm_iter_priority: "sm_iter (set_priorities f sm) ctx r = sm_iter sm ctx r"
proof -
  have f: "find_next_state (set_priorities f sm) ctx = find_next_state sm ctx"
    by (rule ext) (simp add: find_next_state_def set_priorities_def find_next_priority)
  have l: "leave_state (set_priorities f sm) ctx = leave_state sm ctx"
    unfolding leave_state_def f ..
  have s: "sm_finals (set_priorities f sm) = sm_finals sm" "sm_states (set_priorities f sm) = sm_states sm"
    "sm_max_steps (set_priorities f sm) = sm_max_steps sm" by (simp_all add: set_priorities_def)
  show ?thesis unfolding sm_iter_def l s ..
qed

lemma run_loop_priority: "run_loop (set_priorities f sm) ctx r = run_loop sm ctx r"
  by (induction sm ctx r rule: run_loop.induct)
     (subst (1 2) run_loop.simps, simp add: sm_iter_priority split: sum.split)

text \<open>
  The priority of a transition has no effect on any run: transitions are tried in the order they
  were added, whatever their priorities, although \<open>Priority\<close> is documented as "smaller values are
  checked first" and \<open>findNextState\<close> says the list was sorted when the transitions were added.
\<close>

lemma priorities_ignored:
  "run_with_thread_id (set_priorities f sm) ctx s = run_with_thread_id sm ctx s \<and>
   run_with_thread_id (add_transition_with_priority from to c p sm) ctx s =
   run_with_thread_id (add_transition_with_priority from to c q sm) ctx s"
proof -
  have run: "run_with_thread_id (set_priorities f sm) ctx s = run_with_thread_id sm ctx s" for f sm
    by (simp add: run_with_thread_id_def run_loop_priority initial_run_def) (simp add: set_priorities_def)
  have "set_priorities (\<lambda>_. 0) (add_transition_with_priority from to c p sm) =
      set_priorities (\<lambda>_. 0) (add_transition_with_priority from to c q sm)"
    by (simp add: set_priorities_def add_transition_with_priority_def)
      (simp add: fun_eq_iff)
  then show ?thesis using run by metis
qed


subsection \<open>Closed machines\<close>

text \<open>
  A machine is closed when its initial state and everywhere a move may lead is declared or final, and
  complete when a state whose handler may leave the choice to the transitions has an unconditional
  one.
\<close>

definition known :: "'s state_machine \<Rightarrow> string \<Rightarrow> bool" where
  "known sm a \<longleftrightarrow> sm_finals sm a \<or> sm_states sm a \<noteq> None"

definition closed_machine :: "'s state_machine \<Rightarrow> bool" where
  "closed_machine sm \<longleftrightarrow> sm_initial sm \<noteq> [] \<and> known sm (sm_initial sm) \<and>
     (\<forall>a b. legal_move sm a b \<longrightarrow> known sm b) \<and>
     (\<forall>a node. sm_states sm a = Some node \<and> \<not> sm_finals sm a \<and> [] \<in> handler_answers node \<longrightarrow>
        (\<exists>t \<in> set (sm_transitions sm a). tr_condition t = None))"

lemma path_known:
  assumes "closed_machine sm" "(sm_initial sm, b) \<in> {(a, b). legal_move sm a b} ^^ k"
  shows "known sm b"
  using assms(2)
proof (cases k)
  case (Suc j)
  then obtain a where "legal_move sm a b" using assms(2) by auto
  then show ?thesis using assms(1) unfolding closed_machine_def by blast
qed (use assms in \<open>simp add: closed_machine_def\<close>)

text \<open>
  A closed machine never fails on its own account: a run ends without error, at the step limit,
  with the context's error, or with an error one of the callbacks returned, and never with an
  unknown state, a missing transition or a missing initial state.
\<close>

lemma closed_machine_safe:
  assumes "closed_machine sm" and "run_with_thread_id sm ctx s = (e, s')"
  shows "e = None \<or> e = Some ErrMaxStepsExceeded \<or> e = Some InterruptError \<or>
    (\<exists>c. e = Some (ContextError c)) \<or> (\<exists>n c. e = Some (HandlerError n c)) \<or>
    (\<exists>n c. e = Some (OnEnterError n c)) \<or> (\<exists>n c. e = Some (OnExitError n c))"
proof -
  have i: "sm_initial sm \<noteq> []" using assms(1) by (simp add: closed_machine_def)
  obtain k r where kr: "passes sm ctx k (initial_run sm s) = Some r" "sm_iter sm ctx r = Inl (e, s')"
    using run_ends[OF i assms(2)] .
  have kn: "known sm (current r)"
    using passes_path[OF kr(1)] by (intro path_known[OF assms(1), of _ k]) (simp add: initial_run_def)
  have un: "\<exists>t \<in> set (sm_transitions sm a). tr_condition t = None"
    if "sm_states sm a = Some node" "\<not> sm_finals sm a" "[] \<in> handler_answers node" for a node
    using assms(1) that unfolding closed_machine_def by blast
  from sm_iter_Inl[OF kr(2)] show ?thesis
  proof
    assume "ctx (polls r) = None \<and> ends_with sm ctx r e"
    then have e: "ends_with sm ctx r e" ..
    show ?thesis
    proof (cases e)
      case (Some x)
      then show ?thesis using e kn un by (cases x) (force simp: ends_with_def known_def)+
    qed simp
  qed blast
qed

lemma closed_machine_safe_example:
  "\<exists>e s'. run_with_thread_id (set_initial ''a'' (add_final [''b''] (add_transition ''a'' ''b'' None
     (add_state ''a'' (Some pass_through) (new_state_machine ''m''))))) (\<lambda>_. None) (7 :: nat) = (e, s') \<and>
     (\<forall>n. e \<noteq> Some (ErrStateNotFound n))"
proof -
  let ?sm = "set_initial ''a'' (add_final [''b''] (add_transition ''a'' ''b'' None
     (add_state ''a'' (Some pass_through) (new_state_machine ''m'')))) :: nat state_machine"
  have "handler_answers \<lparr>sn_name = ''a'', on_enter = None, on_exit = None, sn_handler = Some (pass_through :: nat handler)\<rparr> = {[]}"
    by (simp add: handler_answers_def pass_through_def)
  then have "closed_machine ?sm"
    by (auto simp: closed_machine_def known_def legal_move_def set_initial_def add_final_def add_transition_def
        add_transition_with_priority_def add_state_def new_state_machine_def split: if_splits)
  then show ?thesis using closed_machine_safe[of ?sm "\<lambda>_. None" 7]
    by (cases "run_with_thread_id ?sm (\<lambda>_. None) 7") blast
qed

end
