(* ===== verification/RunCommit.thy ===== *)
theory RunCommit
  imports GoBase "HOL-Library.AList"
begin

section \<open>Durable runs: the commit kernel (runtime/commit.go, task.go, operation.go, spec.go)\<close>

text \<open>
  The persistent data of a run and \<open>ApplyCommit\<close>, the pure function every store calls under the row
  lock. A map field is a partial function; \<open>Inputs\<close>, the one map the code ranges over, is an
  association list read with \<open>map_of\<close>. Copying a record through JSON is the identity on these values.
  JSON encoding followed by SHA-256 is the parameter \<open>dg\<close>: \<open>None\<close> when the request cannot be encoded,
  otherwise the hexadecimal digest. Each loop of \<open>ApplyCommit\<close> is \<open>fold_res\<close> over a step of its own.
\<close>

subsection \<open>Data\<close>

datatype run_status = RunUnset | RunQueued | RunRunning | RunWaiting | RunSucceeded | RunFailed
  | RunCancelled | RunOther string

definition terminal :: "run_status \<Rightarrow> bool" where
  "terminal s \<longleftrightarrow> s = RunSucceeded \<or> s = RunFailed \<or> s = RunCancelled"

datatype task_status = TaskUnset | TaskSucceeded | TaskFailed | TaskCancelled | TaskSkipped | TaskOther string

datatype operation_status = OperationUnset | OperationIntent | OperationDispatched | OperationUnknown
  | OperationSucceeded | OperationFailed | OperationOther string

datatype artifact_status = ArtifactUnset | ArtifactBytesStored | ArtifactRegistered | ArtifactDelivered
  | ArtifactOther string

record execution_authority =
  owner :: string
  attempt :: string
  fence :: uint64

record content_reference =
  cref_kind :: string
  cref_id :: string
  cref_revision :: string
  cref_digest :: string
  cref_content :: json
  cref_object_key :: string

record run_spec =
  spec_version :: string
  spec_run_id :: string
  spec_ingress_digest :: string
  spec_parent_run_id :: string
  spec_request :: json
  spec_strategy :: string
  spec_strategy_reference :: content_reference
  spec_codec_type :: string
  spec_codec_version :: string
  spec_resources :: "content_reference list"
  spec_selected_provider :: "(string \<times> string) option"

record task_activation =
  ta_task :: string
  ta_activation :: string
  ta_attempt :: string
  ta_input_revision :: uint64

record task_result =
  tr_task :: string
  tr_activation :: string
  tr_attempt :: string
  tr_input_revision :: uint64
  tr_status :: task_status
  tr_result :: json
  tr_writes :: json
  tr_error :: string
  tr_adopted :: uint64

definition without_adoption :: "task_result \<Rightarrow> task_result" where
  "without_adoption r = r\<lparr>tr_adopted := 0\<rparr>"

record inbound_input =
  in_id :: string
  in_digest :: string
  in_target :: string
  in_payload :: json
  in_consumed :: uint64

record operation =
  op_id :: string
  op_input_digest :: string
  op_provider :: string
  op_key :: string
  op_provider_task :: string
  op_status :: operation_status
  op_result :: json

record artifact_reference =
  ar_id :: string
  ar_task :: string
  ar_operation :: string
  ar_object_key :: string
  ar_digest :: string
  ar_version :: int
  ar_status :: artifact_status

record stored_event =
  ev_scope :: string
  ev_run_id :: string
  ev_id :: string
  ev_commit_id :: string
  ev_sequence :: int
  ev_revision :: uint64
  ev_version :: string
  ev_type :: string
  ev_timestamp :: gotime
  ev_payload :: json

record run_record =
  run_scope :: string
  run_id :: string
  run_spec :: run_spec
  revision :: uint64
  status :: run_status
  authority :: execution_authority
  lease_until :: gotime
  wake_at :: gotime
  snapshot :: "string option"
  tasks :: "string \<rightharpoonup> task_result"
  task_activations :: "string \<rightharpoonup> task_activation"
  inputs :: "(string \<times> inbound_input) list"
  operations :: "string \<rightharpoonup> operation"
  artifacts :: "string \<rightharpoonup> artifact_reference"
  events :: "stored_event list"
  next_sequence :: int
  cancel_reason :: string
  waiting_targets :: "string list option"

record commit_request =
  cr_scope :: string
  cr_run_id :: string
  cr_commit_id :: string
  cr_digest :: string
  cr_expected_revision :: uint64
  cr_authority :: execution_authority
  cr_snapshot :: "string option"
  cr_status :: run_status
  cr_wake_at :: "gotime option"
  cr_pending_results :: "task_result list"
  cr_activate_tasks :: "task_activation list"
  cr_adopt :: "string list"
  cr_consume :: "string list"
  cr_operations :: "operation list"
  cr_artifacts :: "artifact_reference list"
  cr_events :: "stored_event list"
  cr_waiting_targets :: "string list option"

record commit_receipt =
  rc_scope :: string
  rc_run_id :: string
  rc_commit_id :: string
  rc_digest :: string
  rc_revision :: uint64
  rc_first_sequence :: int
  rc_last_sequence :: int
  rc_committed_at :: gotime

datatype runtime_error =
    ErrCommitConflict | ErrRevisionConflict | ErrExecutionLost | ErrCommitUnknown | ErrRunNotFound
  | ErrRunTerminal | ErrOperationUnresolved | ErrEventCursor | ErrResumeTargetUnavailable
  | ErrUnrecoverableSpec
  | EncodeError | MissingIdentity | InvalidActivation | CompletedReactivated | InvalidPendingResult
  | ActivationMismatch | NotAdoptable string | AlreadyAdopted string | InputUnavailable string
  | InvalidOperation | OperationRegress | InvalidArtifact | ArtifactRegress | InvalidRunStatus
  | EventIdentity | InvalidInput | InvalidLease | AcceptedMissing | DatabaseError string

type_synonym digest_fn = "commit_request \<Rightarrow> string option"

subsection \<open>Validation\<close>

definition seal_commit :: "digest_fn \<Rightarrow> commit_request \<Rightarrow> runtime_error + commit_request" where
  "seal_commit dg req = (case dg (req\<lparr>cr_digest := []\<rparr>) of
     None \<Rightarrow> Inl EncodeError | Some d \<Rightarrow> Inr (req\<lparr>cr_digest := d\<rparr>))"

definition validate_commit :: "digest_fn \<Rightarrow> commit_request \<Rightarrow> runtime_error option" where
  "validate_commit dg req =
     (if cr_scope req = [] \<or> cr_run_id req = [] \<or> cr_commit_id req = [] \<or> cr_digest req = []
      then Some MissingIdentity
      else case seal_commit dg req of
        Inl e \<Rightarrow> Some e
      | Inr frozen \<Rightarrow> if cr_digest frozen \<noteq> cr_digest req then Some ErrCommitConflict else None)"

definition validate_operation :: "operation \<Rightarrow> runtime_error option" where
  "validate_operation x =
     (if op_id x = [] \<or> op_input_digest x = [] \<or> op_provider x = [] \<or> op_key x = [] then Some InvalidOperation
      else if op_status x \<in> {OperationIntent, OperationDispatched, OperationUnknown, OperationSucceeded, OperationFailed}
      then None else Some InvalidOperation)"

definition validate_artifact :: "artifact_reference \<Rightarrow> runtime_error option" where
  "validate_artifact a =
     (if ar_id a = [] \<or> ar_object_key a = [] \<or> ar_digest a = [] \<or> ar_version a < 1 then Some InvalidArtifact
      else if ar_status a \<in> {ArtifactBytesStored, ArtifactRegistered, ArtifactDelivered}
      then None else Some InvalidArtifact)"

definition artifact_status_order :: "artifact_status \<Rightarrow> int" where
  "artifact_status_order s = (case s of ArtifactBytesStored \<Rightarrow> 1 | ArtifactRegistered \<Rightarrow> 2
     | ArtifactDelivered \<Rightarrow> 3 | _ \<Rightarrow> 0)"

definition validate_reference :: "(json \<Rightarrow> string option) \<Rightarrow> content_reference \<Rightarrow> bool" where
  "validate_reference content_digest c \<longleftrightarrow>
     \<not> (cref_kind c = [] \<or> cref_id c = [] \<or> cref_revision c = [] \<or> cref_digest c = [] \<or>
        (cref_content c = [] \<and> cref_object_key c = [])) \<and>
     (cref_content c \<noteq> [] \<longrightarrow> content_digest (cref_content c) = Some (cref_digest c))"

definition validate_spec :: "(json \<Rightarrow> bool) \<Rightarrow> (json \<Rightarrow> string option) \<Rightarrow> run_spec \<Rightarrow> runtime_error option" where
  "validate_spec json_valid content_digest s =
     (if spec_version s \<noteq> ''runtime.runspec.v1'' \<or> spec_run_id s = [] \<or> spec_codec_type s = [] \<or>
         spec_codec_version s = [] \<or> spec_request s = [] \<or> \<not> json_valid (spec_request s) \<or> spec_strategy s = []
      then Some ErrUnrecoverableSpec
      else if cref_kind (spec_strategy_reference s) \<noteq> ''strategy'' \<or>
         cref_id (spec_strategy_reference s) \<noteq> spec_strategy s then Some ErrUnrecoverableSpec
      else if list_all (validate_reference content_digest) (spec_strategy_reference s # spec_resources s)
      then None else Some ErrUnrecoverableSpec)"

subsection \<open>The steps of a commit\<close>

definition activate_task :: "uint64 \<Rightarrow> task_activation \<Rightarrow> run_record \<Rightarrow> runtime_error + run_record" where
  "activate_task rv a r =
     (if ta_task a = [] \<or> ta_activation a = [] \<or> ta_attempt a = [] \<or> rv < ta_input_revision a
      then Inl InvalidActivation
      else let ok = Inr (r\<lparr>task_activations := (task_activations r)(ta_task a \<mapsto> a)\<rparr>) in
      case task_activations r (ta_task a) of
        None \<Rightarrow> ok
      | Some p \<Rightarrow>
          if ta_activation p \<noteq> ta_activation a \<or> ta_input_revision p \<noteq> ta_input_revision a
          then Inl ErrCommitConflict
          else if tasks r (ta_task a) \<noteq> None \<and> ta_attempt p \<noteq> ta_attempt a then Inl CompletedReactivated
          else ok)"

definition pending_result :: "task_result \<Rightarrow> run_record \<Rightarrow> runtime_error + run_record" where
  "pending_result t r =
     (if tr_task t = [] \<or> tr_attempt t = [] \<or> tr_activation t = [] \<or> tr_status t = TaskUnset \<or> tr_adopted t \<noteq> 0
      then Inl InvalidPendingResult
      else case task_activations r (tr_task t) of
        None \<Rightarrow> Inl ActivationMismatch
      | Some a \<Rightarrow>
          if ta_activation a \<noteq> tr_activation t \<or> ta_attempt a \<noteq> tr_attempt t \<or>
             ta_input_revision a \<noteq> tr_input_revision t then Inl ActivationMismatch
          else case tasks r (tr_task t) of
            Some p \<Rightarrow> if without_adoption p \<noteq> without_adoption t then Inl ErrCommitConflict else Inr r
          | None \<Rightarrow> Inr (r\<lparr>tasks := (tasks r)(tr_task t \<mapsto> t)\<rparr>))"

definition adopt_task :: "uint64 \<Rightarrow> string \<Rightarrow> run_record \<Rightarrow> runtime_error + run_record" where
  "adopt_task rv tid r = (case tasks r tid of
     None \<Rightarrow> Inl (NotAdoptable tid)
   | Some t \<Rightarrow>
       if tr_status t \<noteq> TaskSucceeded then Inl (NotAdoptable tid)
       else if tr_adopted t \<noteq> 0 then Inl (AlreadyAdopted tid)
       else Inr (r\<lparr>tasks := (tasks r)(tid \<mapsto> t\<lparr>tr_adopted := rv\<rparr>)\<rparr>))"

definition consume_input :: "uint64 \<Rightarrow> string \<Rightarrow> run_record \<Rightarrow> runtime_error + run_record" where
  "consume_input rv iid r = (case map_of (inputs r) iid of
     None \<Rightarrow> Inl (InputUnavailable iid)
   | Some i \<Rightarrow>
       if in_consumed i \<noteq> 0 then Inl (InputUnavailable iid)
       else Inr (r\<lparr>inputs := AList.update iid (i\<lparr>in_consumed := rv\<rparr>) (inputs r)\<rparr>))"

definition record_operation :: "operation \<Rightarrow> run_record \<Rightarrow> runtime_error + run_record" where
  "record_operation x r = (case validate_operation x of
     Some e \<Rightarrow> Inl e
   | None \<Rightarrow>
       let ok = Inr (r\<lparr>operations := (operations r)(op_id x \<mapsto> x)\<rparr>) in
       case operations r (op_id x) of
         None \<Rightarrow> ok
       | Some old \<Rightarrow>
           if op_input_digest old \<noteq> op_input_digest x \<or> op_provider old \<noteq> op_provider x \<or> op_key old \<noteq> op_key x
           then Inl ErrCommitConflict
           else if op_status old = OperationSucceeded \<and> op_status x \<noteq> OperationSucceeded then Inl OperationRegress
           else if op_status old = OperationSucceeded \<and> old \<noteq> x then Inl ErrCommitConflict
           else ok)"

definition record_artifact :: "artifact_reference \<Rightarrow> run_record \<Rightarrow> runtime_error + run_record" where
  "record_artifact a r = (case validate_artifact a of
     Some e \<Rightarrow> Inl e
   | None \<Rightarrow>
       let ok = Inr (r\<lparr>artifacts := (artifacts r)(ar_id a \<mapsto> a)\<rparr>) in
       case artifacts r (ar_id a) of
         None \<Rightarrow> ok
       | Some old \<Rightarrow>
           if ar_digest old \<noteq> ar_digest a \<or> ar_object_key old \<noteq> ar_object_key a \<or> ar_version old \<noteq> ar_version a \<or>
              ar_operation old \<noteq> ar_operation a \<or> ar_task old \<noteq> ar_task a then Inl ErrCommitConflict
           else if artifact_status_order (ar_status a) < artifact_status_order (ar_status old)
           then Inl ArtifactRegress
           else ok)"

definition set_status :: "run_status \<Rightarrow> run_record \<Rightarrow> runtime_error + run_record" where
  "set_status s r = (case s of
     RunUnset \<Rightarrow> Inr r
   | RunOther _ \<Rightarrow> Inl InvalidRunStatus
   | _ \<Rightarrow> Inr (r\<lparr>status := s\<rparr>))"

definition is_waiting_target :: "run_record \<Rightarrow> string \<Rightarrow> bool" where
  "is_waiting_target r t = (case waiting_targets r of None \<Rightarrow> False | Some ts \<Rightarrow> t \<in> set ts)"

text \<open>An unconsumed input for a target the run is waiting for.\<close>

definition input_wakes :: "run_record \<Rightarrow> inbound_input \<Rightarrow> bool" where
  "input_wakes r i \<longleftrightarrow> in_target i \<noteq> [] \<and> in_consumed i = 0 \<and> is_waiting_target r (in_target i)"

definition requeue_waiting :: "run_record \<Rightarrow> run_record" where
  "requeue_waiting r =
     (if status r = RunWaiting \<and>
         (\<exists>k \<in> set (map fst (inputs r)). case map_of (inputs r) k of None \<Rightarrow> False | Some i \<Rightarrow> input_wakes r i)
      then r\<lparr>status := RunQueued\<rparr> else r)"

definition apply_plan :: "commit_request \<Rightarrow> run_record \<Rightarrow> run_record" where
  "apply_plan req r =
     (let r = (case cr_waiting_targets req of None \<Rightarrow> r | Some ts \<Rightarrow> r\<lparr>waiting_targets := Some ts\<rparr>);
          r = requeue_waiting r
      in case cr_wake_at req of None \<Rightarrow> r | Some t \<Rightarrow> r\<lparr>wake_at := t\<rparr>)"

text \<open>The identity and position the store gives an event; the caller must have left them empty.\<close>

definition allocate_event :: "string \<Rightarrow> uint64 \<Rightarrow> gotime \<Rightarrow> run_record \<Rightarrow> int \<Rightarrow> stored_event \<Rightarrow> stored_event" where
  "allocate_event cid rv now r sq e =
     e\<lparr>ev_scope := run_scope r, ev_run_id := run_id r, ev_commit_id := cid, ev_sequence := sq,
       ev_revision := rv, ev_timestamp := now, ev_id := run_id r @ ''/'' @ itoa sq,
       ev_version := (if ev_version e = [] then ''runtime.event.v1'' else ev_version e)\<rparr>"

definition append_event :: "string \<Rightarrow> uint64 \<Rightarrow> gotime \<Rightarrow> stored_event \<Rightarrow> run_record \<times> commit_receipt
    \<Rightarrow> runtime_error + run_record \<times> commit_receipt" where
  "append_event cid rv now e = (\<lambda>(r, rc).
     if ev_type e = [] \<or> ev_id e \<noteq> [] \<or> ev_sequence e \<noteq> 0 then Inl EventIdentity
     else let sq = wrap64 (next_sequence r + 1) in
       Inr (r\<lparr>next_sequence := sq, events := events r @ [allocate_event cid rv now r sq e]\<rparr>,
            rc\<lparr>rc_first_sequence := (if rc_first_sequence rc = 0 then sq else rc_first_sequence rc),
               rc_last_sequence := sq\<rparr>))"

definition commit_guard :: "digest_fn \<Rightarrow> run_record \<Rightarrow> commit_request \<Rightarrow> gotime \<Rightarrow> runtime_error option" where
  "commit_guard dg cur req now = (case validate_commit dg req of
     Some e \<Rightarrow> Some e
   | None \<Rightarrow>
       if run_scope cur \<noteq> cr_scope req \<or> run_id cur \<noteq> cr_run_id req then Some ErrRunNotFound
       else if revision cur \<noteq> cr_expected_revision req then Some ErrRevisionConflict
       else if terminal (status cur) then Some ErrRunTerminal
       else if authority cur \<noteq> cr_authority req \<or> owner (cr_authority req) = [] \<or>
          attempt (cr_authority req) = [] \<or> \<not> now < lease_until cur then Some ErrExecutionLost
       else None)"

definition commit_facts :: "commit_request \<Rightarrow> run_record \<Rightarrow> runtime_error + run_record" where
  "commit_facts req cur =
     (let rv = revision cur + 1 in
      bind_res (fold_res (activate_task (revision cur)) (cr_activate_tasks req) cur) (\<lambda>r.
      bind_res (fold_res pending_result (cr_pending_results req) r) (\<lambda>r.
      bind_res (fold_res (adopt_task rv) (cr_adopt req) r) (\<lambda>r.
      bind_res (fold_res (consume_input rv) (cr_consume req) r) (\<lambda>r.
      bind_res (fold_res record_operation (cr_operations req) r) (\<lambda>r.
      fold_res record_artifact (cr_artifacts req) r))))))"

definition apply_commit :: "digest_fn \<Rightarrow> run_record \<Rightarrow> commit_request \<Rightarrow> gotime
    \<Rightarrow> runtime_error + run_record \<times> commit_receipt" where
  "apply_commit dg cur req now = (case commit_guard dg cur req now of
     Some e \<Rightarrow> Inl e
   | None \<Rightarrow>
      bind_res (commit_facts req cur) (\<lambda>r.
      let r = (case cr_snapshot req of None \<Rightarrow> r | Some s \<Rightarrow> r\<lparr>snapshot := Some s\<rparr>) in
      bind_res (set_status (cr_status req) r) (\<lambda>r.
      let r = apply_plan req r;
          rv = revision cur + 1;
          rc = \<lparr>rc_scope = cr_scope req, rc_run_id = cr_run_id req, rc_commit_id = cr_commit_id req,
                rc_digest = cr_digest req, rc_revision = rv, rc_first_sequence = 0,
                rc_last_sequence = 0, rc_committed_at = now\<rparr> in
      bind_res (fold_res (append_event (cr_commit_id req) rv now) (cr_events req) (r, rc)) (\<lambda>(r, rc).
      Inr (r\<lparr>revision := rv\<rparr>, rc)))))"

text \<open>\<open>ResolveOperation\<close>; \<open>lookup\<close> is the reconciler (\<open>None\<close>: not given), answering \<open>(found, ok)\<close> or an error.\<close>

definition resolve_operation :: "operation \<Rightarrow> (operation \<Rightarrow> string + operation \<times> bool) option
    \<Rightarrow> operation \<times> runtime_error option" where
  "resolve_operation x lookup = (case validate_operation x of
     Some e \<Rightarrow> (x, Some e)
   | None \<Rightarrow>
       if op_status x = OperationSucceeded \<or> op_status x = OperationFailed then (x, None)
       else case lookup of
         None \<Rightarrow> (x, Some ErrOperationUnresolved)
       | Some f \<Rightarrow> (case f x of
           Inl _ \<Rightarrow> (x, Some ErrOperationUnresolved)
         | Inr (found, ok) \<Rightarrow>
             if \<not> ok then (x, Some ErrOperationUnresolved)
             else if op_id found \<noteq> op_id x \<or> op_input_digest found \<noteq> op_input_digest x \<or>
                op_provider found \<noteq> op_provider x \<or> op_key found \<noteq> op_key x then (x, Some ErrCommitConflict)
             else if op_provider_task x \<noteq> [] \<and> op_provider_task found \<noteq> op_provider_task x
             then (x, Some ErrCommitConflict)
             else if op_status found \<noteq> OperationSucceeded \<and> op_status found \<noteq> OperationFailed
             then (found, Some ErrOperationUnresolved)
             else (found, None)))"


subsection \<open>What each step does\<close>

lemma activate_task_Inr:
  "activate_task rv a r = Inr r' \<Longrightarrow> r' = r\<lparr>task_activations := (task_activations r)(ta_task a \<mapsto> a)\<rparr> \<and>
     ta_input_revision a \<le> rv \<and>
     (\<forall>p. task_activations r (ta_task a) = Some p \<longrightarrow> ta_activation p = ta_activation a \<and>
        (tasks r (ta_task a) \<noteq> None \<longrightarrow> ta_attempt p = ta_attempt a))"
  by (auto simp: activate_task_def Let_def split: if_splits option.splits)

lemma pending_result_Inr:
  "pending_result t r = Inr r' \<Longrightarrow>
     (\<exists>a. task_activations r (tr_task t) = Some a \<and> ta_activation a = tr_activation t \<and>
        ta_attempt a = tr_attempt t \<and> ta_input_revision a = tr_input_revision t) \<and> tr_adopted t = 0 \<and>
     (r' = r \<and> (\<exists>p. tasks r (tr_task t) = Some p \<and> without_adoption p = without_adoption t) \<or>
      tasks r (tr_task t) = None \<and> r' = r\<lparr>tasks := (tasks r)(tr_task t \<mapsto> t)\<rparr>)"
  by (auto simp: pending_result_def split: if_splits option.splits)

lemma adopt_task_Inr:
  "adopt_task rv i r = Inr r' \<Longrightarrow> \<exists>t. tasks r i = Some t \<and> tr_status t = TaskSucceeded \<and> tr_adopted t = 0 \<and>
     r' = r\<lparr>tasks := (tasks r)(i \<mapsto> t\<lparr>tr_adopted := rv\<rparr>)\<rparr>"
  by (auto simp: adopt_task_def split: if_splits option.splits)

lemma consume_input_Inr:
  "consume_input rv i r = Inr r' \<Longrightarrow> \<exists>x. map_of (inputs r) i = Some x \<and> in_consumed x = 0 \<and>
     r' = r\<lparr>inputs := AList.update i (x\<lparr>in_consumed := rv\<rparr>) (inputs r)\<rparr>"
  by (auto simp: consume_input_def split: if_splits option.splits)

lemma record_operation_Inr:
  "record_operation x r = Inr r' \<Longrightarrow> r' = r\<lparr>operations := (operations r)(op_id x \<mapsto> x)\<rparr> \<and>
     (\<forall>old. operations r (op_id x) = Some old \<longrightarrow> op_input_digest old = op_input_digest x \<and>
        op_provider old = op_provider x \<and> op_key old = op_key x \<and> (op_status old = OperationSucceeded \<longrightarrow> old = x))"
  unfolding record_operation_def Let_def
  by (cases "validate_operation x"; cases "operations r (op_id x)") (simp_all split: if_splits)

lemma record_artifact_Inr:
  "record_artifact a r = Inr r' \<Longrightarrow> r' = r\<lparr>artifacts := (artifacts r)(ar_id a \<mapsto> a)\<rparr> \<and>
     (\<forall>old. artifacts r (ar_id a) = Some old \<longrightarrow> ar_digest old = ar_digest a \<and> ar_object_key old = ar_object_key a \<and>
        ar_version old = ar_version a \<and> artifact_status_order (ar_status old) \<le> artifact_status_order (ar_status a))"
  unfolding record_artifact_def Let_def
  by (cases "validate_artifact a"; cases "artifacts r (ar_id a)") (simp_all split: if_splits)

subsection \<open>Facts are only added to\<close>

text \<open>
  The order in which commits move the facts of a run: results keep their content and, once adopted,
  everything; inputs once consumed, operations once succeeded likewise; artifacts do not regress.
\<close>

definition task_kept :: "task_result \<Rightarrow> task_result \<Rightarrow> bool" where
  "task_kept t t' \<longleftrightarrow> without_adoption t' = without_adoption t \<and> (tr_adopted t \<noteq> 0 \<longrightarrow> t' = t)"

definition input_kept :: "inbound_input \<Rightarrow> inbound_input \<Rightarrow> bool" where
  "input_kept x x' \<longleftrightarrow> x'\<lparr>in_consumed := 0\<rparr> = x\<lparr>in_consumed := 0\<rparr> \<and> (in_consumed x \<noteq> 0 \<longrightarrow> x' = x)"

definition operation_kept :: "operation \<Rightarrow> operation \<Rightarrow> bool" where
  "operation_kept x x' \<longleftrightarrow> op_input_digest x' = op_input_digest x \<and> op_provider x' = op_provider x \<and>
     op_key x' = op_key x \<and> (op_status x = OperationSucceeded \<longrightarrow> x' = x)"

definition artifact_kept :: "artifact_reference \<Rightarrow> artifact_reference \<Rightarrow> bool" where
  "artifact_kept x x' \<longleftrightarrow> ar_digest x' = ar_digest x \<and> ar_object_key x' = ar_object_key x \<and>
     ar_version x' = ar_version x \<and> artifact_status_order (ar_status x) \<le> artifact_status_order (ar_status x')"

lemma kept_refl [simp]: "task_kept t t" "input_kept i i" "operation_kept x x" "artifact_kept a a"
  by (simp_all add: task_kept_def input_kept_def operation_kept_def artifact_kept_def)

lemma kept_trans:
  "task_kept t u \<Longrightarrow> task_kept u v \<Longrightarrow> task_kept t v"
  "input_kept i j \<Longrightarrow> input_kept j k \<Longrightarrow> input_kept i k"
  "operation_kept x y \<Longrightarrow> operation_kept y z \<Longrightarrow> operation_kept x z"
  "artifact_kept a b \<Longrightarrow> artifact_kept b c \<Longrightarrow> artifact_kept a c"
  by (auto simp: task_kept_def input_kept_def operation_kept_def artifact_kept_def)

definition facts_le :: "run_record \<Rightarrow> run_record \<Rightarrow> bool" where
  "facts_le r r' \<longleftrightarrow> map_grows task_kept (tasks r) (tasks r') \<and>
     map_grows input_kept (map_of (inputs r)) (map_of (inputs r')) \<and>
     map_grows operation_kept (operations r) (operations r') \<and>
     map_grows artifact_kept (artifacts r) (artifacts r')"

text \<open>The fields the fact steps do not touch.\<close>

definition same_core :: "run_record \<Rightarrow> run_record \<Rightarrow> bool" where
  "same_core r r' \<longleftrightarrow> run_scope r' = run_scope r \<and> run_id r' = run_id r \<and> run_spec r' = run_spec r \<and>
     revision r' = revision r \<and> status r' = status r \<and> authority r' = authority r \<and> lease_until r' = lease_until r \<and>
     wake_at r' = wake_at r \<and> events r' = events r \<and> next_sequence r' = next_sequence r \<and>
     waiting_targets r' = waiting_targets r \<and> cancel_reason r' = cancel_reason r \<and> snapshot r' = snapshot r"

lemma le_refl [simp]: "facts_le r r" "same_core r r"
  by (simp_all add: facts_le_def same_core_def map_grows_refl)

lemma facts_le_trans: "facts_le r s \<Longrightarrow> facts_le s t \<Longrightarrow> facts_le r t"
  unfolding facts_le_def by (blast intro: map_grows_trans kept_trans)

lemma same_core_trans: "same_core r s \<Longrightarrow> same_core s t \<Longrightarrow> same_core r t"
  by (simp add: same_core_def)

definition facts_step :: "run_record \<Rightarrow> run_record \<Rightarrow> bool" where
  "facts_step r r' \<longleftrightarrow> facts_le r r' \<and> same_core r r'"

lemma facts_step_refl [simp]: "facts_step r r"
  by (simp add: facts_step_def)

lemma facts_step_trans: "facts_step r s \<Longrightarrow> facts_step s t \<Longrightarrow> facts_step r t"
  unfolding facts_step_def using facts_le_trans same_core_trans by blast

named_theorems fact_steps \<open>the steps of a commit only add facts\<close>

lemma activate_task_step [fact_steps]: "activate_task rv a r = Inr r' \<Longrightarrow> facts_step r r'"
  by (drule activate_task_Inr) (simp add: facts_step_def facts_le_def same_core_def map_grows_refl)

lemma pending_result_step [fact_steps]: "pending_result t r = Inr r' \<Longrightarrow> facts_step r r'"
  by (drule pending_result_Inr)
    (auto simp: facts_step_def facts_le_def same_core_def map_grows_refl intro!: map_grows_upd)

lemma adopt_task_step [fact_steps]: "adopt_task rv i r = Inr r' \<Longrightarrow> facts_step r r'"
  by (drule adopt_task_Inr) (auto simp: facts_step_def facts_le_def same_core_def map_grows_refl task_kept_def
      without_adoption_def intro!: map_grows_upd)

lemma consume_input_step [fact_steps]: "consume_input rv i r = Inr r' \<Longrightarrow> facts_step r r'"
  by (drule consume_input_Inr) (auto simp: facts_step_def facts_le_def same_core_def map_grows_refl input_kept_def
      update_conv' intro!: map_grows_upd)

lemma record_operation_step [fact_steps]: "record_operation x r = Inr r' \<Longrightarrow> facts_step r r'"
  by (drule record_operation_Inr) (auto simp: facts_step_def facts_le_def same_core_def map_grows_refl
      operation_kept_def intro!: map_grows_upd)

lemma record_artifact_step [fact_steps]: "record_artifact a r = Inr r' \<Longrightarrow> facts_step r r'"
  by (drule record_artifact_Inr) (auto simp: facts_step_def facts_le_def same_core_def map_grows_refl
      artifact_kept_def intro!: map_grows_upd)

lemma fold_facts_step:
  assumes "fold_res f xs r = Inr r'" and "\<And>x c d. f x c = Inr d \<Longrightarrow> facts_step c d"
  shows "facts_step r r'"
  by (rule fold_res_rel[OF assms(1)]) (use facts_step_trans assms(2) in auto)

lemma commit_facts_phases:
  assumes "commit_facts req cur = Inr r'"
  obtains r1 r2 r3 r4 r5 where
    "fold_res (activate_task (revision cur)) (cr_activate_tasks req) cur = Inr r1"
    "fold_res pending_result (cr_pending_results req) r1 = Inr r2"
    "fold_res (adopt_task (revision cur + 1)) (cr_adopt req) r2 = Inr r3"
    "fold_res (consume_input (revision cur + 1)) (cr_consume req) r3 = Inr r4"
    "fold_res record_operation (cr_operations req) r4 = Inr r5"
    "fold_res record_artifact (cr_artifacts req) r5 = Inr r'"
    "facts_step cur r1" "facts_step r1 r2" "facts_step r2 r3" "facts_step r3 r4" "facts_step r4 r5" "facts_step r5 r'"
proof -
  obtain r1 r2 r3 r4 r5 where st:
    "fold_res (activate_task (revision cur)) (cr_activate_tasks req) cur = Inr r1"
    "fold_res pending_result (cr_pending_results req) r1 = Inr r2"
    "fold_res (adopt_task (revision cur + 1)) (cr_adopt req) r2 = Inr r3"
    "fold_res (consume_input (revision cur + 1)) (cr_consume req) r3 = Inr r4"
    "fold_res record_operation (cr_operations req) r4 = Inr r5"
    "fold_res record_artifact (cr_artifacts req) r5 = Inr r'"
    using assms by (auto simp: commit_facts_def Let_def bind_res_Inr)
  show thesis
    by (rule that[OF st fold_facts_step[OF st(1) activate_task_step] fold_facts_step[OF st(2) pending_result_step]
          fold_facts_step[OF st(3) adopt_task_step] fold_facts_step[OF st(4) consume_input_step]
          fold_facts_step[OF st(5) record_operation_step] fold_facts_step[OF st(6) record_artifact_step]])
qed

lemma commit_facts_step:
  assumes "commit_facts req cur = Inr r'"
  shows "facts_step cur r'"
proof (rule commit_facts_phases[OF assms])
  fix r1 r2 r3 r4 r5
  assume s: "facts_step cur r1" "facts_step r1 r2" "facts_step r2 r3" "facts_step r3 r4" "facts_step r4 r5"
    "facts_step r5 r'"
  have "facts_step cur r3" using facts_step_trans[OF s(1) facts_step_trans[OF s(2,3)]] .
  moreover have "facts_step r3 r'" using facts_step_trans[OF s(4) facts_step_trans[OF s(5,6)]] .
  ultimately show ?thesis by (rule facts_step_trans)
qed

subsection \<open>Stamping facts once\<close>

text \<open>
  Adoption and consumption share a contract: a step finds an entry whose stamp is zero and sets it.
  Under it the loop over a list of identifiers succeeds only when they are distinct and all
  unstamped, and it changes nothing else of the map.
\<close>

locale stamping =
  fixes get :: "run_record \<Rightarrow> string \<Rightarrow> 'x option"
    and stamp_of :: "'x \<Rightarrow> uint64"
    and mark :: "uint64 \<Rightarrow> 'x \<Rightarrow> 'x"
    and eligible :: "'x \<Rightarrow> bool"
    and stamp_step :: "uint64 \<Rightarrow> string \<Rightarrow> run_record \<Rightarrow> runtime_error + run_record"
  assumes stamp_mark: "stamp_of (mark rv x) = rv"
    and stamp_step_Inr: "stamp_step rv i r = Inr r' \<Longrightarrow>
      \<exists>x. get r i = Some x \<and> eligible x \<and> stamp_of x = 0 \<and> get r' = (get r)(i \<mapsto> mark rv x)"
begin

lemma stamp_all:
  assumes "fold_res (stamp_step rv) ids r = Inr r'" and "rv \<noteq> 0"
  shows "distinct ids \<and>
    (\<forall>i. if i \<in> set ids then \<exists>x. get r i = Some x \<and> eligible x \<and> stamp_of x = 0 \<and> get r' i = Some (mark rv x)
         else get r' i = get r i)"
  using assms(1)
proof (induction ids arbitrary: r)
  case (Cons i ids)
  then obtain r1 where r1: "stamp_step rv i r = Inr r1" "fold_res (stamp_step rv) ids r1 = Inr r'"
    by (auto simp: bind_res_Inr)
  obtain x where x: "get r i = Some x" "eligible x" "stamp_of x = 0" "get r1 = (get r)(i \<mapsto> mark rv x)"
    using stamp_step_Inr[OF r1(1)] by blast
  note ih = Cons.IH[OF r1(2)]
  have "i \<notin> set ids"
  proof
    assume "i \<in> set ids"
    then obtain y where "get r1 i = Some y" "stamp_of y = 0" using ih by metis
    then show False using x(4) assms(2) stamp_mark[of rv x] by simp
  qed
  then show ?case using ih x by (auto split: if_splits)
qed simp

end

interpretation adoption: stamping tasks tr_adopted "\<lambda>rv t. t\<lparr>tr_adopted := rv\<rparr>"
  "\<lambda>t. tr_status t = TaskSucceeded" adopt_task
  by unfold_locales (auto dest: adopt_task_Inr)

interpretation consumption: stamping "\<lambda>r. map_of (inputs r)" in_consumed "\<lambda>rv x. x\<lparr>in_consumed := rv\<rparr>"
  "\<lambda>_. True" consume_input
  by unfold_locales (auto simp: update_conv' dest: consume_input_Inr)

lemma fold_keeps_tasks:
  assumes "fold_res f xs r = Inr r'" "\<And>x c d. f x c = Inr d \<Longrightarrow> tasks d = tasks c"
  shows "tasks r' = tasks r"
  by (rule fold_res_rel[OF assms(1), where R = "\<lambda>a b. tasks b = tasks a"]) (use assms(2) in auto)

lemma fold_keeps_inputs:
  assumes "fold_res f xs r = Inr r'" "\<And>x c d. f x c = Inr d \<Longrightarrow> inputs d = inputs c"
  shows "inputs r' = inputs r"
  by (rule fold_res_rel[OF assms(1), where R = "\<lambda>a b. inputs b = inputs a"]) (use assms(2) in auto)

text \<open>What a commit does to tasks and inputs.\<close>

lemma commit_facts_stamps:
  assumes "commit_facts req cur = Inr r'" and nz: "revision cur + 1 \<noteq> 0"
  shows "distinct (cr_adopt req) \<and> (\<forall>i \<in> set (cr_adopt req).
      (\<forall>t. tasks cur i = Some t \<longrightarrow> tr_adopted t = 0) \<and>
      (\<exists>t. tasks r' i = Some t \<and> tr_status t = TaskSucceeded \<and> tr_adopted t = revision cur + 1))"
    and "distinct (cr_consume req) \<and> (\<forall>i \<in> set (cr_consume req).
      \<exists>x. map_of (inputs cur) i = Some x \<and> in_consumed x = 0 \<and>
        map_of (inputs r') i = Some (x\<lparr>in_consumed := revision cur + 1\<rparr>))"
proof -
  obtain r1 r2 r3 r4 r5 where p:
    "fold_res (activate_task (revision cur)) (cr_activate_tasks req) cur = Inr r1"
    "fold_res pending_result (cr_pending_results req) r1 = Inr r2"
    "fold_res (adopt_task (revision cur + 1)) (cr_adopt req) r2 = Inr r3"
    "fold_res (consume_input (revision cur + 1)) (cr_consume req) r3 = Inr r4"
    "fold_res record_operation (cr_operations req) r4 = Inr r5"
    "fold_res record_artifact (cr_artifacts req) r5 = Inr r'"
    "facts_step cur r1" "facts_step r1 r2"
    by (rule commit_facts_phases[OF assms(1)])
  have t: "tasks r4 = tasks r3" "tasks r5 = tasks r4" "tasks r' = tasks r5"
    using p(4-6) by (auto elim!: fold_keeps_tasks dest: consume_input_Inr record_operation_Inr record_artifact_Inr)
  have i: "inputs r1 = inputs cur" "inputs r2 = inputs r1" "inputs r3 = inputs r2"
      "inputs r5 = inputs r4" "inputs r' = inputs r5"
    using p by (auto elim!: fold_keeps_inputs dest: activate_task_Inr pending_result_Inr adopt_task_Inr
        record_operation_Inr record_artifact_Inr)
  have le: "map_grows task_kept (tasks cur) (tasks r2)"
    using facts_step_trans[OF p(7,8)] by (simp add: facts_step_def facts_le_def)
  have unadopted: "tr_adopted t = 0" if "tasks cur j = Some t" "tasks r2 j = Some u" "tr_adopted u = 0" for j t u
    using map_growsD[OF le that(1)] that(2,3) by (auto simp: task_kept_def)
  note a = adoption.stamp_all[OF p(3) nz]
  note c = consumption.stamp_all[OF p(4) nz]
  show "distinct (cr_adopt req) \<and> (\<forall>i \<in> set (cr_adopt req).
      (\<forall>t. tasks cur i = Some t \<longrightarrow> tr_adopted t = 0) \<and>
      (\<exists>t. tasks r' i = Some t \<and> tr_status t = TaskSucceeded \<and> tr_adopted t = revision cur + 1))"
  proof (intro conjI ballI)
    fix j
    assume "j \<in> set (cr_adopt req)"
    then obtain u where u: "tasks r2 j = Some u" "tr_status u = TaskSucceeded" "tr_adopted u = 0"
      "tasks r3 j = Some (u\<lparr>tr_adopted := revision cur + 1\<rparr>)" using a by metis
    show "\<forall>t. tasks cur j = Some t \<longrightarrow> tr_adopted t = 0" using unadopted u(1,3) by blast
    show "\<exists>t. tasks r' j = Some t \<and> tr_status t = TaskSucceeded \<and> tr_adopted t = revision cur + 1"
      using u t by simp
  qed (use a in blast)
  show "distinct (cr_consume req) \<and> (\<forall>i \<in> set (cr_consume req).
      \<exists>x. map_of (inputs cur) i = Some x \<and> in_consumed x = 0 \<and>
        map_of (inputs r') i = Some (x\<lparr>in_consumed := revision cur + 1\<rparr>))"
    using c i by (metis (no_types, lifting))
qed


subsection \<open>Events\<close>

text \<open>
  The events of a run carry consecutive sequence numbers ending at \<open>NextSequence\<close>, and the identity
  \<open>run/sequence\<close>.
\<close>

definition events_wf :: "run_record \<Rightarrow> bool" where
  "events_wf r \<longleftrightarrow> int (length (events r)) \<le> next_sequence r \<and>
     map ev_sequence (events r) = [next_sequence r - int (length (events r)) + 1..next_sequence r] \<and>
     (\<forall>e \<in> set (events r). ev_scope e = run_scope r \<and> ev_run_id e = run_id r \<and>
        ev_id e = run_id r @ ''/'' @ itoa (ev_sequence e))"

definition push_event :: "stored_event \<Rightarrow> run_record \<Rightarrow> run_record" where
  "push_event e r = r\<lparr>next_sequence := ev_sequence e, events := events r @ [e]\<rparr>"

lemma events_wf_push:
  assumes "events_wf r" "ev_sequence e = next_sequence r + 1" "ev_scope e = run_scope r" "ev_run_id e = run_id r"
    "ev_id e = run_id r @ ''/'' @ itoa (ev_sequence e)"
  shows "events_wf (push_event e r)"
proof -
  let ?k = "next_sequence r - int (length (events r)) + 1"
  have "[?k..next_sequence r + 1] = [?k..next_sequence r] @ [next_sequence r + 1]"
    using assms(1) by (subst upto_rec2) (auto simp: events_wf_def)
  then show ?thesis using assms by (auto simp: events_wf_def push_event_def)
qed

lemma append_event_Inr:
  assumes "append_event cid rv now e (r, rc) = Inr (r', rc')" "next_sequence r < max_int64" "0 \<le> next_sequence r"
  shows "\<exists>e'. r' = push_event e' r \<and> ev_sequence e' = next_sequence r + 1 \<and> ev_scope e' = run_scope r \<and>
      ev_run_id e' = run_id r \<and> ev_id e' = run_id r @ ''/'' @ itoa (ev_sequence e') \<and> ev_revision e' = rv \<and>
      ev_commit_id e' = cid \<and> ev_type e' = ev_type e \<and> ev_payload e' = ev_payload e \<and>
      rc' = rc\<lparr>rc_first_sequence := (if rc_first_sequence rc = 0 then next_sequence r + 1 else rc_first_sequence rc),
               rc_last_sequence := next_sequence r + 1\<rparr>"
proof -
  have w: "wrap64 (next_sequence r + 1) = next_sequence r + 1" using assms(2,3) by (intro wrap64_id) auto
  have "r' = push_event (allocate_event cid rv now r (next_sequence r + 1) e) r \<and>
      rc' = rc\<lparr>rc_first_sequence := (if rc_first_sequence rc = 0 then next_sequence r + 1 else rc_first_sequence rc),
               rc_last_sequence := next_sequence r + 1\<rparr>"
    using assms(1) by (simp add: append_event_def push_event_def allocate_event_def w Let_def split: if_splits)
  then show ?thesis
    by (intro exI[of _ "allocate_event cid rv now r (next_sequence r + 1) e"]) (simp add: allocate_event_def)
qed

lemma append_events:
  assumes "fold_res (append_event cid rv now) es (r, rc) = Inr (r', rc')" "events_wf r"
    "next_sequence r + int (length es) \<le> max_int64"
  shows "\<exists>new. r' = r\<lparr>next_sequence := next_sequence r + int (length es), events := events r @ new\<rparr> \<and> events_wf r' \<and>
      map ev_type new = map ev_type es \<and> map ev_payload new = map ev_payload es \<and>
      (\<forall>e \<in> set new. ev_revision e = rv \<and> ev_commit_id e = cid) \<and>
      rc' = (if es = [] then rc else rc\<lparr>rc_first_sequence :=
          (if rc_first_sequence rc = 0 then next_sequence r + 1 else rc_first_sequence rc),
          rc_last_sequence := next_sequence r + int (length es)\<rparr>)"
  using assms
proof (induction es arbitrary: r rc)
  case (Cons e es)
  then obtain r1 rc1 where s: "append_event cid rv now e (r, rc) = Inr (r1, rc1)"
    "fold_res (append_event cid rv now) es (r1, rc1) = Inr (r', rc')"
    by (auto simp: bind_res_Inr)
  have nn: "0 \<le> next_sequence r" "next_sequence r < max_int64"
    using Cons.prems(2,3) by (auto simp: events_wf_def)
  obtain e' where e': "r1 = push_event e' r" "ev_sequence e' = next_sequence r + 1" "ev_scope e' = run_scope r"
    "ev_run_id e' = run_id r" "ev_id e' = run_id r @ ''/'' @ itoa (ev_sequence e')" "ev_revision e' = rv"
    "ev_commit_id e' = cid" "ev_type e' = ev_type e" "ev_payload e' = ev_payload e"
    "rc1 = rc\<lparr>rc_first_sequence := (if rc_first_sequence rc = 0 then next_sequence r + 1 else rc_first_sequence rc),
               rc_last_sequence := next_sequence r + 1\<rparr>"
    using append_event_Inr[OF s(1) nn(2,1)] by blast
  have wf: "events_wf r1" unfolding e'(1) using Cons.prems(2) e'(2-5) by (rule events_wf_push)
  have nx: "next_sequence r1 = next_sequence r + 1" "events r1 = events r @ [e']"
    by (simp_all add: e'(1,2) push_event_def)
  obtain new where new: "r' = r1\<lparr>next_sequence := next_sequence r1 + int (length es), events := events r1 @ new\<rparr>"
    "events_wf r'" "map ev_type new = map ev_type es" "map ev_payload new = map ev_payload es"
    "\<forall>e \<in> set new. ev_revision e = rv \<and> ev_commit_id e = cid"
    "rc' = (if es = [] then rc1 else rc1\<lparr>rc_first_sequence :=
          (if rc_first_sequence rc1 = 0 then next_sequence r1 + 1 else rc_first_sequence rc1),
          rc_last_sequence := next_sequence r1 + int (length es)\<rparr>)"
    using Cons.IH[OF s(2) wf] Cons.prems(3) nx by auto
  have "r' = r\<lparr>next_sequence := next_sequence r + int (length (e # es)), events := events r @ (e' # new)\<rparr>"
    unfolding new(1) by (simp add: e'(1,2) push_event_def)
  moreover have "rc' = rc\<lparr>rc_first_sequence :=
          (if rc_first_sequence rc = 0 then next_sequence r + 1 else rc_first_sequence rc),
          rc_last_sequence := next_sequence r + int (length (e # es))\<rparr>"
    unfolding new(6) nx using nn(1) by (simp add: e'(10))
  ultimately show ?case using new(2-5) e'(6-9) by (intro exI[of _ "e' # new"]) simp
qed simp

lemma append_events_core:
  assumes "fold_res (append_event cid rv now) es (r, rc) = Inr (r', rc')"
  shows "(\<exists>n ev. r' = r\<lparr>next_sequence := n, events := ev\<rparr>) \<and>
    (\<exists>f l. rc' = rc\<lparr>rc_first_sequence := f, rc_last_sequence := l\<rparr>)"
proof -
  let ?R = "\<lambda>c d. (fst d)\<lparr>next_sequence := 0, events := []\<rparr> = (fst c :: run_record)\<lparr>next_sequence := 0, events := []\<rparr> \<and>
    (snd d)\<lparr>rc_first_sequence := 0, rc_last_sequence := 0\<rparr> =
    (snd c :: commit_receipt)\<lparr>rc_first_sequence := 0, rc_last_sequence := 0\<rparr>"
  have step: "?R c d" if "append_event cid rv now e c = Inr d" for e c d
    using that by (cases c; cases d) (simp add: append_event_def Let_def split: if_splits)
  have "?R (r, rc) (r', rc')"
    by (rule fold_res_rel[OF assms, where R = ?R]) (use step in simp_all)
  then have "r' = r\<lparr>next_sequence := next_sequence r', events := events r'\<rparr>"
    "rc' = rc\<lparr>rc_first_sequence := rc_first_sequence rc', rc_last_sequence := rc_last_sequence rc'\<rparr>"
    by (cases r; cases r'; cases rc; cases rc'; simp)+
  then show ?thesis by blast
qed

subsection \<open>A commit as a whole\<close>

definition chosen_status :: "commit_request \<Rightarrow> run_record \<Rightarrow> run_status" where
  "chosen_status req cur = (if cr_status req = RunUnset then status cur else cr_status req)"

definition chosen_targets :: "commit_request \<Rightarrow> run_record \<Rightarrow> string list option" where
  "chosen_targets req cur = (case cr_waiting_targets req of None \<Rightarrow> waiting_targets cur | Some ts \<Rightarrow> Some ts)"

lemma set_status_Inr:
  "set_status s r = Inr r' \<Longrightarrow> r' = r\<lparr>status := (if s = RunUnset then status r else s)\<rparr>"
  by (cases s) (auto simp: set_status_def)

lemma apply_plan_fields:
  "apply_plan req r = r\<lparr>waiting_targets := waiting_targets (apply_plan req r), status := status (apply_plan req r),
     wake_at := wake_at (apply_plan req r)\<rparr>"
  by (auto simp: apply_plan_def requeue_waiting_def Let_def split: option.splits)

lemma apply_plan_targets: "waiting_targets (apply_plan req r) = chosen_targets req r"
  by (auto simp: apply_plan_def requeue_waiting_def Let_def chosen_targets_def split: option.splits)

lemma apply_plan_wakes:
  "status (apply_plan req r) = RunWaiting \<Longrightarrow> map_of (inputs r) k = Some i \<Longrightarrow>
     \<not> input_wakes (apply_plan req r) i"
proof
  assume w: "status (apply_plan req r) = RunWaiting" and i: "map_of (inputs r) k = Some i"
    and wk: "input_wakes (apply_plan req r) i"
  define r1 where "r1 = (case cr_waiting_targets req of None \<Rightarrow> r | Some ts \<Rightarrow> r\<lparr>waiting_targets := Some ts\<rparr>)"
  have s: "status (apply_plan req r) = status (requeue_waiting r1)"
    "waiting_targets (apply_plan req r) = waiting_targets r1" "inputs r1 = inputs r"
    by (auto simp: apply_plan_def Let_def r1_def requeue_waiting_def split: option.splits)
  have "input_wakes r1 i" using wk s(2) by (simp add: input_wakes_def is_waiting_target_def)
  moreover have "k \<in> set (map fst (inputs r1))" using i s(3) by (metis map_of_eq_None_iff option.distinct(1) set_map)
  ultimately have "status (requeue_waiting r1) \<noteq> RunWaiting"
    using i s(3) by (auto simp: requeue_waiting_def intro!: bexI[of _ k])
  then show False using w s(1) by simp
qed

lemma apply_commit_phases:
  assumes "apply_commit dg cur req now = Inr (nxt, rc)"
  obtains r1 r2 sn where "commit_guard dg cur req now = None" "commit_facts req cur = Inr r1"
    "r2 = apply_plan req (r1\<lparr>snapshot := sn, status := chosen_status req cur\<rparr>)"
    "fold_res (append_event (cr_commit_id req) (revision cur + 1) now) (cr_events req)
       (r2, \<lparr>rc_scope = cr_scope req, rc_run_id = cr_run_id req, rc_commit_id = cr_commit_id req,
             rc_digest = cr_digest req, rc_revision = revision cur + 1, rc_first_sequence = 0,
             rc_last_sequence = 0, rc_committed_at = now\<rparr>) = Inr (nxt\<lparr>revision := revision cur\<rparr>, rc)"
    "revision nxt = revision cur + 1"
proof -
  have g: "commit_guard dg cur req now = None" using assms by (auto simp: apply_commit_def split: option.splits)
  obtain r1 where r1: "commit_facts req cur = Inr r1"
    using assms g by (auto simp: apply_commit_def bind_res_Inr)
  define rs where "rs = (case cr_snapshot req of None \<Rightarrow> r1 | Some s \<Rightarrow> r1\<lparr>snapshot := Some s\<rparr>)"
  have core: "status r1 = status cur" "revision r1 = revision cur"
    using commit_facts_step[OF r1] by (simp_all add: facts_step_def same_core_def)
  obtain rt where rt: "set_status (cr_status req) rs = Inr rt"
    using assms g r1 by (auto simp: apply_commit_def bind_res_Inr rs_def Let_def)
  have rt': "rt = r1\<lparr>snapshot := snapshot rs, status := chosen_status req cur\<rparr>"
    using set_status_Inr[OF rt] core(1) by (auto simp: rs_def chosen_status_def split: option.splits)
  define r2 where "r2 = apply_plan req rt"
  obtain r4 where r4: "fold_res (append_event (cr_commit_id req) (revision cur + 1) now) (cr_events req)
       (r2, \<lparr>rc_scope = cr_scope req, rc_run_id = cr_run_id req, rc_commit_id = cr_commit_id req,
             rc_digest = cr_digest req, rc_revision = revision cur + 1, rc_first_sequence = 0,
             rc_last_sequence = 0, rc_committed_at = now\<rparr>) = Inr (r4, rc)" "nxt = r4\<lparr>revision := revision cur + 1\<rparr>"
    using assms g r1 rt by (auto simp: apply_commit_def bind_res_Inr rs_def[symmetric] r2_def Let_def)
  have "revision r4 = revision r2" using append_events_core[OF r4(1)] by auto
  moreover have "revision r2 = revision cur"
    unfolding r2_def by (subst apply_plan_fields) (simp add: rt' core)
  ultimately have "r4 = nxt\<lparr>revision := revision cur\<rparr>" using r4(2) by simp
  then show thesis using that[OF g r1, of r2 "snapshot rs"] r4 by (simp add: r2_def rt')
qed


text \<open>Everything the properties need of a successful commit, field by field.\<close>

lemma apply_commit_effect:
  assumes "apply_commit dg cur req now = Inr (nxt, rc)"
  shows "facts_le cur nxt"
    and "run_scope nxt = run_scope cur" "run_id nxt = run_id cur" "run_spec nxt = run_spec cur"
    and "authority nxt = authority cur" "lease_until nxt = lease_until cur" "cancel_reason nxt = cancel_reason cur"
    and "revision nxt = revision cur + 1"
    and "waiting_targets nxt = chosen_targets req cur"
    and "status nxt = RunWaiting \<Longrightarrow> map_of (inputs nxt) k = Some i \<Longrightarrow> \<not> input_wakes nxt i"
    and "status nxt = chosen_status req cur \<or> chosen_status req cur = RunWaiting \<and> status nxt = RunQueued"
    and "\<exists>r1. commit_facts req cur = Inr r1 \<and> tasks nxt = tasks r1 \<and> inputs nxt = inputs r1 \<and>
      operations nxt = operations r1 \<and> artifacts nxt = artifacts r1"
    and "rc_scope rc = cr_scope req" "rc_run_id rc = cr_run_id req" "rc_commit_id rc = cr_commit_id req"
      "rc_digest rc = cr_digest req" "rc_revision rc = revision nxt" "rc_committed_at rc = now"
proof -
  obtain r1 r2 sn where ph: "commit_facts req cur = Inr r1"
    "r2 = apply_plan req (r1\<lparr>snapshot := sn, status := chosen_status req cur\<rparr>)"
    "fold_res (append_event (cr_commit_id req) (revision cur + 1) now) (cr_events req)
       (r2, \<lparr>rc_scope = cr_scope req, rc_run_id = cr_run_id req, rc_commit_id = cr_commit_id req,
             rc_digest = cr_digest req, rc_revision = revision cur + 1, rc_first_sequence = 0,
             rc_last_sequence = 0, rc_committed_at = now\<rparr>) = Inr (nxt\<lparr>revision := revision cur\<rparr>, rc)"
    and rv: "revision nxt = revision cur + 1"
    by (rule apply_commit_phases[OF assms])
  let ?rs = "r1\<lparr>snapshot := sn, status := chosen_status req cur\<rparr>"
  obtain n ev f l where nx: "nxt\<lparr>revision := revision cur\<rparr> = r2\<lparr>next_sequence := n, events := ev\<rparr>"
    and rc: "rc = \<lparr>rc_scope = cr_scope req, rc_run_id = cr_run_id req, rc_commit_id = cr_commit_id req,
             rc_digest = cr_digest req, rc_revision = revision cur + 1, rc_first_sequence = f,
             rc_last_sequence = l, rc_committed_at = now\<rparr>"
    using append_events_core[OF ph(3)] by auto
  have step: "facts_le cur r1" "same_core cur r1" using commit_facts_step[OF ph(1)] by (simp_all add: facts_step_def)
  have fld: "g nxt = g r2" if "\<And>r v. g (r\<lparr>revision := v\<rparr>) = g r" "\<And>r n ev. g (r\<lparr>next_sequence := n, events := ev\<rparr>) = g r"
    for g :: "run_record \<Rightarrow> 'z" using nx that by metis
  note n2 = fld[of tasks] fld[of inputs] fld[of operations] fld[of artifacts] fld[of run_scope] fld[of run_id]
    fld[of run_spec] fld[of authority] fld[of lease_until] fld[of cancel_reason] fld[of waiting_targets] fld[of status]
  have r2: "tasks r2 = tasks r1" "inputs r2 = inputs r1" "operations r2 = operations r1" "artifacts r2 = artifacts r1"
    "run_scope r2 = run_scope r1" "run_id r2 = run_id r1" "run_spec r2 = run_spec r1" "authority r2 = authority r1"
    "lease_until r2 = lease_until r1" "cancel_reason r2 = cancel_reason r1"
    unfolding ph(2) by (subst apply_plan_fields, simp)+
  have fields: "tasks nxt = tasks r1" "inputs nxt = inputs r1" "operations nxt = operations r1"
    "artifacts nxt = artifacts r1" using n2 r2 by simp_all
  show "facts_le cur nxt" using step(1) fields by (simp add: facts_le_def)
  show "run_scope nxt = run_scope cur" "run_id nxt = run_id cur" "run_spec nxt = run_spec cur"
    "authority nxt = authority cur" "lease_until nxt = lease_until cur" "cancel_reason nxt = cancel_reason cur"
    using n2 r2 step(2) by (simp_all add: same_core_def)
  show "revision nxt = revision cur + 1" by (rule rv)
  have wt: "waiting_targets nxt = waiting_targets r2" "status nxt = status r2" using n2 by simp_all
  show "waiting_targets nxt = chosen_targets req cur"
    using wt step(2) by (simp add: ph(2) apply_plan_targets chosen_targets_def same_core_def split: option.split)
  show "\<exists>r1. commit_facts req cur = Inr r1 \<and> tasks nxt = tasks r1 \<and> inputs nxt = inputs r1 \<and>
      operations nxt = operations r1 \<and> artifacts nxt = artifacts r1" using ph(1) fields by blast
  show "status nxt = chosen_status req cur \<or> chosen_status req cur = RunWaiting \<and> status nxt = RunQueued"
    unfolding wt(2) ph(2) by (auto simp: apply_plan_def requeue_waiting_def Let_def split: option.splits)
  show "\<not> input_wakes nxt i" if "status nxt = RunWaiting" "map_of (inputs nxt) k = Some i"
  proof -
    have "\<not> input_wakes r2 i"
      unfolding ph(2) by (rule apply_plan_wakes[where k = k]) (use that fields wt in \<open>simp_all add: ph(2)\<close>)
    then show ?thesis using wt(1) by (simp add: input_wakes_def is_waiting_target_def)
  qed
  show "rc_scope rc = cr_scope req" "rc_run_id rc = cr_run_id req" "rc_commit_id rc = cr_commit_id req"
      "rc_digest rc = cr_digest req" "rc_revision rc = revision nxt" "rc_committed_at rc = now"
    using rc rv by simp_all
qed

text \<open>
  The history of a run: its events are only appended to; a task stays activated, by the same
  activation at the same input revision, and by the same attempt once it has a result.
\<close>

definition history_le :: "run_record \<Rightarrow> run_record \<Rightarrow> bool" where
  "history_le r r' \<longleftrightarrow> (\<exists>new. events r' = events r @ new) \<and>
     (\<forall>k a. task_activations r k = Some a \<longrightarrow>
        (\<exists>a'. task_activations r' k = Some a' \<and> ta_activation a' = ta_activation a \<and>
           ta_input_revision a' = ta_input_revision a \<and> (tasks r k \<noteq> None \<longrightarrow> ta_attempt a' = ta_attempt a)))"

lemma history_le_same:
  "events r' = events r @ new \<Longrightarrow> task_activations r' = task_activations r \<Longrightarrow> history_le r r'"
  by (auto simp: history_le_def)

lemma history_le_refl [simp]: "history_le r r"
  by (rule history_le_same[where new = "[]"]) simp_all

lemma history_le_trans:
  assumes "history_le r s" "history_le s t" "facts_le r s"
  shows "history_le r t"
proof -
  have grows: "tasks r k \<noteq> None \<Longrightarrow> tasks s k \<noteq> None" for k
    using assms(3) unfolding facts_le_def map_grows_def by blast
  have "\<exists>c. task_activations t k = Some c \<and> ta_activation c = ta_activation a \<and>
      ta_input_revision c = ta_input_revision a \<and> (tasks r k \<noteq> None \<longrightarrow> ta_attempt c = ta_attempt a)"
    if a: "task_activations r k = Some a" for k a
  proof -
    obtain b where b: "task_activations s k = Some b" "ta_activation b = ta_activation a"
      "ta_input_revision b = ta_input_revision a" "tasks r k \<noteq> None \<longrightarrow> ta_attempt b = ta_attempt a"
      using assms(1) a unfolding history_le_def by blast
    obtain c where c: "task_activations t k = Some c" "ta_activation c = ta_activation b"
      "ta_input_revision c = ta_input_revision b" "tasks s k \<noteq> None \<longrightarrow> ta_attempt c = ta_attempt b"
      using assms(2) b(1) unfolding history_le_def by blast
    show ?thesis using b c grows[of k] by (intro exI[of _ c]) auto
  qed
  moreover have "\<exists>new. events t = events r @ new"
    using assms(1,2) unfolding history_le_def by auto
  ultimately show ?thesis unfolding history_le_def by blast
qed

lemma activate_task_history:
  assumes "activate_task rv a r = Inr r'"
  shows "history_le r r' \<and> tasks r' = tasks r"
proof -
  note i = activate_task_Inr[OF assms]
  have "ta_input_revision p = ta_input_revision a" if "task_activations r (ta_task a) = Some p" for p
    using assms that by (auto simp: activate_task_def Let_def split: if_splits)
  then show ?thesis using i by (auto simp: history_le_def)
qed

lemma fold_keeps_activations:
  assumes "fold_res f xs r = Inr r'" "\<And>x c d. f x c = Inr d \<Longrightarrow> task_activations d = task_activations c"
  shows "task_activations r' = task_activations r"
  by (rule fold_res_rel[OF assms(1), where R = "\<lambda>a b. task_activations b = task_activations a"]) (use assms(2) in auto)

lemma commit_facts_history:
  assumes "commit_facts req cur = Inr r'"
  shows "history_le cur r'"
proof -
  obtain r1 r2 r3 r4 r5 where p:
    "fold_res (activate_task (revision cur)) (cr_activate_tasks req) cur = Inr r1"
    "fold_res pending_result (cr_pending_results req) r1 = Inr r2"
    "fold_res (adopt_task (revision cur + 1)) (cr_adopt req) r2 = Inr r3"
    "fold_res (consume_input (revision cur + 1)) (cr_consume req) r3 = Inr r4"
    "fold_res record_operation (cr_operations req) r4 = Inr r5"
    "fold_res record_artifact (cr_artifacts req) r5 = Inr r'"
    by (rule commit_facts_phases[OF assms])
  have "history_le cur r1 \<and> facts_le cur r1"
    by (rule fold_res_rel[OF p(1), where R = "\<lambda>c d. history_le c d \<and> facts_le c d"])
      (auto intro: history_le_trans facts_le_trans
        dest: activate_task_history activate_task_step simp: facts_step_def)
  moreover have "task_activations r2 = task_activations r1" "task_activations r3 = task_activations r2"
      "task_activations r4 = task_activations r3" "task_activations r5 = task_activations r4"
      "task_activations r' = task_activations r5"
    using p(2-6) by (auto elim!: fold_keeps_activations dest: pending_result_Inr adopt_task_Inr
        consume_input_Inr record_operation_Inr record_artifact_Inr)
  moreover have "events r' = events cur" "events r1 = events cur"
    using commit_facts_step[OF assms] fold_facts_step[OF p(1) activate_task_step]
    by (simp_all add: facts_step_def same_core_def)
  ultimately show ?thesis by (simp add: history_le_def)
qed

lemma append_events_prefix:
  assumes "fold_res (append_event cid rv now) es (r, rc) = Inr (r', rc')"
  shows "\<exists>new. events r' = events r @ new"
proof -
  have "\<exists>new. events (fst (r', rc')) = events (fst (r, rc)) @ new"
    by (rule fold_res_rel[OF assms, where R = "\<lambda>c d. \<exists>new. events (fst d) = events (fst c) @ new"])
      (auto simp: append_event_def Let_def split: if_splits)
  then show ?thesis by simp
qed

lemma apply_commit_history:
  assumes "apply_commit dg cur req now = Inr (nxt, rc)"
  shows "history_le cur nxt"
proof -
  obtain r1 r2 sn where ph: "commit_facts req cur = Inr r1"
    "r2 = apply_plan req (r1\<lparr>snapshot := sn, status := chosen_status req cur\<rparr>)"
    "fold_res (append_event (cr_commit_id req) (revision cur + 1) now) (cr_events req)
       (r2, \<lparr>rc_scope = cr_scope req, rc_run_id = cr_run_id req, rc_commit_id = cr_commit_id req,
             rc_digest = cr_digest req, rc_revision = revision cur + 1, rc_first_sequence = 0,
             rc_last_sequence = 0, rc_committed_at = now\<rparr>) = Inr (nxt\<lparr>revision := revision cur\<rparr>, rc)"
    by (rule apply_commit_phases[OF assms])
  have same: "history_le cur r1" by (rule commit_facts_history[OF ph(1)])
  have r2: "events r2 = events r1" "task_activations r2 = task_activations r1"
    unfolding ph(2) by (subst apply_plan_fields, simp)+
  obtain n ev where "nxt\<lparr>revision := revision cur\<rparr> = r2\<lparr>next_sequence := n, events := ev\<rparr>"
    using append_events_core[OF ph(3)] by auto
  then have "task_activations nxt = task_activations r2"
    by (metis run_record.select_convs(11) run_record.surjective run_record.update_convs(4) run_record.update_convs(15)
        run_record.update_convs(16))
  moreover obtain new where "events nxt = events r2 @ new" using append_events_prefix[OF ph(3)] by auto
  ultimately show ?thesis using same r2 by (auto simp: history_le_def)
qed

lemma apply_commit_guard:
  assumes "apply_commit dg cur req now = Inr (nxt, rc)"
  shows "run_scope cur = cr_scope req" "run_id cur = cr_run_id req" "revision cur = cr_expected_revision req"
    "\<not> terminal (status cur)" "authority cur = cr_authority req" "owner (authority cur) \<noteq> []"
    "attempt (authority cur) \<noteq> []" "now < lease_until cur" "dg (req\<lparr>cr_digest := []\<rparr>) = Some (cr_digest req)"
proof -
  have "commit_guard dg cur req now = None" using assms by (auto simp: apply_commit_def split: option.splits)
  then show "run_scope cur = cr_scope req" "run_id cur = cr_run_id req" "revision cur = cr_expected_revision req"
    "\<not> terminal (status cur)" "authority cur = cr_authority req" "owner (authority cur) \<noteq> []"
    "attempt (authority cur) \<noteq> []" "now < lease_until cur" "dg (req\<lparr>cr_digest := []\<rparr>) = Some (cr_digest req)"
    by (simp_all add: commit_guard_def validate_commit_def seal_commit_def split: option.splits if_splits sum.splits)
qed

lemma apply_commit_events:
  assumes "apply_commit dg cur req now = Inr (nxt, rc)" "events_wf cur"
    "next_sequence cur + int (length (cr_events req)) \<le> max_int64"
  shows "events_wf nxt" "next_sequence nxt = next_sequence cur + int (length (cr_events req))"
    "\<exists>new. events nxt = events cur @ new \<and> map ev_type new = map ev_type (cr_events req) \<and>
       map ev_payload new = map ev_payload (cr_events req) \<and>
       (\<forall>e \<in> set new. ev_revision e = revision nxt \<and> ev_commit_id e = cr_commit_id req)"
    "cr_events req \<noteq> [] \<Longrightarrow> rc_first_sequence rc = next_sequence cur + 1 \<and> rc_last_sequence rc = next_sequence nxt"
proof -
  obtain r1 r2 sn where ph: "commit_facts req cur = Inr r1"
    "r2 = apply_plan req (r1\<lparr>snapshot := sn, status := chosen_status req cur\<rparr>)"
    "fold_res (append_event (cr_commit_id req) (revision cur + 1) now) (cr_events req)
       (r2, \<lparr>rc_scope = cr_scope req, rc_run_id = cr_run_id req, rc_commit_id = cr_commit_id req,
             rc_digest = cr_digest req, rc_revision = revision cur + 1, rc_first_sequence = 0,
             rc_last_sequence = 0, rc_committed_at = now\<rparr>) = Inr (nxt\<lparr>revision := revision cur\<rparr>, rc)"
    and rv: "revision nxt = revision cur + 1"
    by (rule apply_commit_phases[OF assms(1)])
  have step: "same_core cur r1" using commit_facts_step[OF ph(1)] by (simp add: facts_step_def)
  have r2: "events r2 = events cur" "next_sequence r2 = next_sequence cur" "run_scope r2 = run_scope cur"
    "run_id r2 = run_id cur"
    unfolding ph(2) by (subst apply_plan_fields, use step in \<open>simp add: same_core_def\<close>)+
  define rc0 where "rc0 = \<lparr>rc_scope = cr_scope req, rc_run_id = cr_run_id req, rc_commit_id = cr_commit_id req,
             rc_digest = cr_digest req, rc_revision = revision cur + 1, rc_first_sequence = 0,
             rc_last_sequence = 0, rc_committed_at = now\<rparr>"
  have wf: "events_wf r2" using assms(2) r2 by (simp add: events_wf_def)
  have mx: "next_sequence r2 + int (length (cr_events req)) \<le> max_int64" using assms(3) r2(2) by simp
  obtain new where new: "nxt\<lparr>revision := revision cur\<rparr> =
      r2\<lparr>next_sequence := next_sequence r2 + int (length (cr_events req)), events := events r2 @ new\<rparr>"
    "events_wf (nxt\<lparr>revision := revision cur\<rparr>)" "map ev_type new = map ev_type (cr_events req)"
    "map ev_payload new = map ev_payload (cr_events req)"
    "\<forall>e \<in> set new. ev_revision e = revision cur + 1 \<and> ev_commit_id e = cr_commit_id req"
    "rc = (if cr_events req = [] then rc0 else rc0\<lparr>rc_first_sequence :=
          (if rc_first_sequence rc0 = 0 then next_sequence r2 + 1 else rc_first_sequence rc0),
          rc_last_sequence := next_sequence r2 + int (length (cr_events req))\<rparr>)"
    using append_events[OF ph(3)[folded rc0_def] wf mx] by blast
  have nx: "events nxt = events cur @ new" "next_sequence nxt = next_sequence cur + int (length (cr_events req))"
    using arg_cong[OF new(1), of events] arg_cong[OF new(1), of next_sequence] r2 by simp_all
  show "events_wf nxt" using new(2) by (simp add: events_wf_def)
  show "next_sequence nxt = next_sequence cur + int (length (cr_events req))" by (rule nx(2))
  show "\<exists>new. events nxt = events cur @ new \<and> map ev_type new = map ev_type (cr_events req) \<and>
       map ev_payload new = map ev_payload (cr_events req) \<and>
       (\<forall>e \<in> set new. ev_revision e = revision nxt \<and> ev_commit_id e = cr_commit_id req)"
    using nx(1) new(3-5) rv by (intro exI[of _ new]) simp
  show "cr_events req \<noteq> [] \<Longrightarrow> rc_first_sequence rc = next_sequence cur + 1 \<and> rc_last_sequence rc = next_sequence nxt"
    unfolding new(6) using nx(2) r2(2) by (simp add: rc0_def)
qed


subsection \<open>A concrete run for the witnesses\<close>

definition sample_digest :: digest_fn where
  "sample_digest req = Some (''d'' @ cr_commit_id req)"

definition sample_authority :: execution_authority where
  "sample_authority = \<lparr>owner = ''w'', attempt = ''a1'', fence = 3\<rparr>"

definition sample_reference :: content_reference where
  "sample_reference = \<lparr>cref_kind = ''strategy'', cref_id = ''noop'', cref_revision = ''1'', cref_digest = ''x'',
     cref_content = [], cref_object_key = ''k''\<rparr>"

definition sample_spec :: run_spec where
  "sample_spec = \<lparr>spec_version = ''runtime.runspec.v1'', spec_run_id = ''r'', spec_ingress_digest = [],
     spec_parent_run_id = [], spec_request = ''{}'', spec_strategy = ''noop'',
     spec_strategy_reference = sample_reference, spec_codec_type = ''t'', spec_codec_version = ''1'',
     spec_resources = [], spec_selected_provider = None\<rparr>"

definition sample_activation :: task_activation where
  "sample_activation = \<lparr>ta_task = ''t1'', ta_activation = ''act'', ta_attempt = ''p1'', ta_input_revision = 7\<rparr>"

definition sample_result :: task_result where
  "sample_result = \<lparr>tr_task = ''t1'', tr_activation = ''act'', tr_attempt = ''p1'', tr_input_revision = 7,
     tr_status = TaskSucceeded, tr_result = ''1'', tr_writes = [], tr_error = [], tr_adopted = 0\<rparr>"

definition sample_input :: inbound_input where
  "sample_input = \<lparr>in_id = ''i1'', in_digest = ''x'', in_target = [], in_payload = ''{}'', in_consumed = 0\<rparr>"

definition sample_run :: run_record where
  "sample_run = \<lparr>run_scope = ''s'', run_id = ''r'', run_spec = sample_spec, revision = 7, status = RunRunning,
     authority = sample_authority, lease_until = 100, wake_at = 0, snapshot = None, tasks = Map.empty,
     task_activations = Map.empty, inputs = [(''i1'', sample_input)], operations = Map.empty,
     artifacts = Map.empty, events = [], next_sequence = 0, cancel_reason = [], waiting_targets = None\<rparr>"

definition sample_event :: stored_event where
  "sample_event = \<lparr>ev_scope = [], ev_run_id = [], ev_id = [], ev_commit_id = [], ev_sequence = 0,
     ev_revision = 0, ev_version = [], ev_type = ''step'', ev_timestamp = 0, ev_payload = []\<rparr>"

definition sample_request :: commit_request where
  "sample_request = \<lparr>cr_scope = ''s'', cr_run_id = ''r'', cr_commit_id = ''c1'', cr_digest = ''dc1'',
     cr_expected_revision = 7, cr_authority = sample_authority, cr_snapshot = Some ''{}'', cr_status = RunWaiting,
     cr_wake_at = None, cr_pending_results = [sample_result], cr_activate_tasks = [sample_activation],
     cr_adopt = [''t1''], cr_consume = [''i1''], cr_operations = [], cr_artifacts = [], cr_events = [sample_event],
     cr_waiting_targets = Some [''approval'']\<rparr>"

lemma sample_commit:
  obtains nxt rc where "apply_commit sample_digest sample_run sample_request 5 = Inr (nxt, rc)"
    "revision nxt = 8" "status nxt = RunWaiting" "next_sequence nxt = 1"
proof -
  have "case apply_commit sample_digest sample_run sample_request 5 of
      Inl _ \<Rightarrow> False | Inr (nxt, rc) \<Rightarrow> revision nxt = 8 \<and> status nxt = RunWaiting \<and> next_sequence nxt = 1"
    by code_simp
  then show thesis using that by (auto split: sum.splits prod.splits)
qed

subsection \<open>Properties\<close>

text \<open>
  C8: Fencing. A commit is applied only to the run it names, at exactly the revision it expects, when
  the run is not terminal and the caller is the current authority (owner, attempt and fence) within
  its lease, and when the request is byte for byte the one that was sealed. It moves the revision on
  by one, leaves identity, specification, authority and lease alone, and its receipt records the
  commit and the new revision.
\<close>

theorem commit_fenced:
  assumes "apply_commit dg cur req now = Inr (nxt, rc)"
  shows "run_scope cur = cr_scope req \<and> run_id cur = cr_run_id req \<and> revision cur = cr_expected_revision req \<and>
    \<not> terminal (status cur) \<and> authority cur = cr_authority req \<and> owner (authority cur) \<noteq> [] \<and>
    attempt (authority cur) \<noteq> [] \<and> now < lease_until cur \<and> dg (req\<lparr>cr_digest := []\<rparr>) = Some (cr_digest req) \<and>
    revision nxt = revision cur + 1 \<and> run_scope nxt = run_scope cur \<and> run_id nxt = run_id cur \<and>
    run_spec nxt = run_spec cur \<and> authority nxt = authority cur \<and> lease_until nxt = lease_until cur \<and>
    rc_commit_id rc = cr_commit_id req \<and> rc_digest rc = cr_digest req \<and> rc_revision rc = revision nxt"
  using apply_commit_guard[OF assms] apply_commit_effect(2-6,8,15-17)[OF assms] by blast

theorem commit_fenced_witness:
  "\<exists>nxt rc. apply_commit sample_digest sample_run sample_request 5 = Inr (nxt, rc) \<and>
     revision nxt = revision sample_run + 1 \<and> authority nxt = sample_authority"
proof (rule sample_commit)
  fix nxt rc
  assume a: "apply_commit sample_digest sample_run sample_request 5 = Inr (nxt, rc)"
  show ?thesis using a commit_fenced[OF a] by (simp add: sample_run_def)
qed

text \<open>
  Committed facts are immutable. A commit keeps every task result (its content never changes, and
  once adopted nothing of it does), every input, every operation's identity (and all of an operation
  that succeeded), and every artifact's identity, whose registration status never goes back.
\<close>

lemma commit_keeps_facts:
  assumes "apply_commit dg cur req now = Inr (nxt, rc)"
  shows "map_grows task_kept (tasks cur) (tasks nxt) \<and>
    map_grows input_kept (map_of (inputs cur)) (map_of (inputs nxt)) \<and>
    map_grows operation_kept (operations cur) (operations nxt) \<and>
    map_grows artifact_kept (artifacts cur) (artifacts nxt)"
  using apply_commit_effect(1)[OF assms] by (simp add: facts_le_def)

lemma commit_keeps_facts_example:
  "\<exists>nxt rc. apply_commit sample_digest sample_run sample_request 5 = Inr (nxt, rc) \<and>
     (\<exists>i. map_of (inputs nxt) ''i1'' = Some i \<and> in_payload i = ''{}'')"
proof (rule sample_commit)
  fix nxt rc
  assume a: "apply_commit sample_digest sample_run sample_request 5 = Inr (nxt, rc)"
  have "map_of (inputs sample_run) ''i1'' = Some sample_input" by (simp add: sample_run_def)
  then obtain i where i: "map_of (inputs nxt) ''i1'' = Some i" "input_kept sample_input i"
    using map_growsD[of input_kept "map_of (inputs sample_run)" "map_of (inputs nxt)"] commit_keeps_facts[OF a]
    by metis
  have "in_payload (i\<lparr>in_consumed := 0\<rparr>) = in_payload (sample_input\<lparr>in_consumed := 0\<rparr>)"
    using i(2) by (simp add: input_kept_def)
  then show ?thesis using a i(1) by (simp add: sample_input_def)
qed

text \<open>
  C7: Adoption and consumption happen once. As long as the revision counter does not wrap, a commit
  names each task to adopt once; the task had not been adopted before, has succeeded, and is marked
  with the new revision. Each input it consumes was present and unconsumed, is named once, and is
  marked likewise. Facts marked earlier are untouched, so no later commit can adopt or consume them.
\<close>

theorem commit_exactly_once:
  assumes "apply_commit dg cur req now = Inr (nxt, rc)" and "revision nxt \<noteq> 0"
  shows "distinct (cr_adopt req) \<and> distinct (cr_consume req) \<and>
    (\<forall>i \<in> set (cr_adopt req). (\<forall>t. tasks cur i = Some t \<longrightarrow> tr_adopted t = 0) \<and>
      (\<exists>t. tasks nxt i = Some t \<and> tr_status t = TaskSucceeded \<and> tr_adopted t = revision nxt)) \<and>
    (\<forall>i \<in> set (cr_consume req). \<exists>x. map_of (inputs cur) i = Some x \<and> in_consumed x = 0 \<and>
      map_of (inputs nxt) i = Some (x\<lparr>in_consumed := revision nxt\<rparr>))"
proof -
  obtain r1 where r1: "commit_facts req cur = Inr r1" "tasks nxt = tasks r1" "inputs nxt = inputs r1"
    using apply_commit_effect(12)[OF assms(1)] by blast
  have rv: "revision nxt = revision cur + 1" by (rule apply_commit_effect(8)[OF assms(1)])
  have nz: "revision cur + 1 \<noteq> 0" using assms(2) rv by simp
  show ?thesis using commit_facts_stamps[OF r1(1) nz] by (simp only: r1(2,3) rv) blast
qed

theorem commit_exactly_once_witness:
  "\<exists>nxt rc. apply_commit sample_digest sample_run sample_request 5 = Inr (nxt, rc) \<and>
     (\<exists>t. tasks nxt ''t1'' = Some t \<and> tr_adopted t = 8) \<and>
     (\<exists>x. map_of (inputs nxt) ''i1'' = Some x \<and> in_consumed x = 8)"
proof (rule sample_commit)
  fix nxt rc
  assume a: "apply_commit sample_digest sample_run sample_request 5 = Inr (nxt, rc)" and r: "revision nxt = 8"
  have nz: "revision nxt \<noteq> 0" using r by simp
  have "''t1'' \<in> set (cr_adopt sample_request)" "''i1'' \<in> set (cr_consume sample_request)"
    by (simp_all add: sample_request_def)
  then show ?thesis using a commit_exactly_once[OF a nz] r by force
qed

text \<open>
  Events are gap-free. When the events of a run carry consecutive sequence numbers up to
  \<open>NextSequence\<close> and there is room below the largest \<open>int64\<close>, a commit appends its events in order
  with the following numbers, stamped with the new revision and the commit's identity, leaves the
  earlier ones alone, and reports the first and last number in its receipt.
\<close>

lemma commit_events_contiguous:
  assumes "apply_commit dg cur req now = Inr (nxt, rc)" and "events_wf cur"
    and "next_sequence cur + int (length (cr_events req)) \<le> max_int64"
  shows "events_wf nxt \<and> next_sequence nxt = next_sequence cur + int (length (cr_events req)) \<and>
    (\<exists>new. events nxt = events cur @ new \<and> map ev_type new = map ev_type (cr_events req) \<and>
       map ev_payload new = map ev_payload (cr_events req) \<and>
       (\<forall>e \<in> set new. ev_revision e = revision nxt \<and> ev_commit_id e = cr_commit_id req)) \<and>
    (cr_events req \<noteq> [] \<longrightarrow> rc_first_sequence rc = next_sequence cur + 1 \<and> rc_last_sequence rc = next_sequence nxt)"
  using apply_commit_events[OF assms] by blast

lemma commit_events_contiguous_example:
  "\<exists>nxt rc. apply_commit sample_digest sample_run sample_request 5 = Inr (nxt, rc) \<and> events_wf nxt \<and>
     rc_first_sequence rc = 1 \<and> rc_last_sequence rc = 1"
proof (rule sample_commit)
  fix nxt rc
  assume a: "apply_commit sample_digest sample_run sample_request 5 = Inr (nxt, rc)"
  have "events_wf sample_run" "next_sequence sample_run + int (length (cr_events sample_request)) \<le> max_int64"
    "cr_events sample_request \<noteq> []" "next_sequence sample_run = 0" "length (cr_events sample_request) = 1"
    by (simp_all add: events_wf_def sample_run_def sample_request_def max_int64_def)
  then show ?thesis using a commit_events_contiguous[OF a] by auto
qed

text \<open>
  No commit parks a run on an input that has already arrived: if the run is waiting after a
  commit, no unconsumed input is addressed to a target it is waiting for. A commit that asked for the
  waiting state while such an input is there leaves the run queued instead, and every other commit
  sets exactly the status it asks for.
\<close>

lemma commit_no_lost_wakeup:
  assumes "apply_commit dg cur req now = Inr (nxt, rc)"
  shows "(status nxt = RunWaiting \<longrightarrow> (\<forall>k i. map_of (inputs nxt) k = Some i \<longrightarrow> \<not> input_wakes nxt i)) \<and>
    (status nxt = chosen_status req cur \<or> chosen_status req cur = RunWaiting \<and> status nxt = RunQueued) \<and>
    waiting_targets nxt = chosen_targets req cur"
  using apply_commit_effect(9-11)[OF assms] by blast

lemma commit_no_lost_wakeup_witness:
  "\<exists>nxt rc. apply_commit sample_digest sample_run sample_request 5 = Inr (nxt, rc) \<and>
     status nxt = RunWaiting \<and> waiting_targets nxt = Some [''approval'']"
proof (rule sample_commit)
  fix nxt rc
  assume a: "apply_commit sample_digest sample_run sample_request 5 = Inr (nxt, rc)" "status nxt = RunWaiting"
  then show ?thesis using commit_no_lost_wakeup[OF a(1)]
    by (simp add: chosen_targets_def sample_request_def)
qed

text \<open>
  \<open>ResolveOperation\<close> returns without error only an operation with a definite outcome and the
  identity of the original, and one that already has an outcome is returned as it is without asking
  the reconciler; in every other case the caller gets an error, so an unknown outcome is never taken
  for a result.
\<close>

lemma resolve_operation_definite:
  "snd (resolve_operation x lk) = None \<longleftrightarrow>
     validate_operation x = None \<and>
     (op_status x \<in> {OperationSucceeded, OperationFailed} \<and> fst (resolve_operation x lk) = x \<or>
      op_status x \<notin> {OperationSucceeded, OperationFailed} \<and>
      (\<exists>f y. lk = Some f \<and> f x = Inr (y, True) \<and> fst (resolve_operation x lk) = y \<and>
         op_status y \<in> {OperationSucceeded, OperationFailed} \<and> op_id y = op_id x \<and>
         op_input_digest y = op_input_digest x \<and> op_provider y = op_provider x \<and> op_key y = op_key x \<and>
         (op_provider_task x = [] \<or> op_provider_task y = op_provider_task x)))"
proof (cases "validate_operation x = None \<and> op_status x \<notin> {OperationSucceeded, OperationFailed}")
  case True
  show ?thesis
  proof (cases lk)
    case (Some f)
    show ?thesis
    proof (cases "f x")
      case (Inr yb)
      then show ?thesis using True Some by (cases yb) (simp add: resolve_operation_def)
    qed (use True Some in \<open>simp add: resolve_operation_def\<close>)
  qed (use True in \<open>simp add: resolve_operation_def\<close>)
qed (auto simp: resolve_operation_def split: option.splits)

end
