(* ===== verification/RunStore.thy ===== *)
theory RunStore
  imports RunCommit
begin

section \<open>The transactional store (runtime/store/mysql/store.go, task.go, receipt.go)\<close>

text \<open>
  \<open>Store\<close> over its tables, each a partial function from the primary key. Every handler is written
  out with the faults a database call can have: a query fails, a transaction cannot begin, a write is
  refused, and \<open>tx.Commit\<close> reports an error although the transaction was applied, or will only be
  applied after the caller has looked, or because it was not applied at all. What other connections do between the reads of \<open>Commit\<close> is given by functions on the database.
  \<open>dg\<close> digests commits, \<open>ingress_digest\<close> and \<open>full_digest\<close> submissions, \<open>signal_digest\<close> signals and
  \<open>receipt_digest\<close> operation receipts; all are SHA-256 of a JSON encoding. Each handler performs at
  most one of the atomic transitions collected in the step relation \<open>db_step\<close>.
\<close>

record operation_receipt =
  or_scope :: string
  or_run_id :: string
  or_operation :: string
  or_receipt :: string
  or_digest :: string
  or_provider :: string
  or_provider_task :: string
  or_status :: operation_status
  or_payload :: json
  or_received_at :: gotime

record db =
  runs :: "string \<times> string \<rightharpoonup> run_record"
  commits :: "string \<times> string \<rightharpoonup> commit_receipt"
  accepted_inputs :: "string \<times> string \<rightharpoonup> string \<times> string"
  op_receipts :: "string \<times> string \<rightharpoonup> operation_receipt"

definition empty_db :: db where
  "empty_db = \<lparr>runs = Map.empty, commits = Map.empty, accepted_inputs = Map.empty, op_receipts = Map.empty\<rparr>"

datatype tx_end = TxApplied | TxLost | TxAppliedUnseen | TxDelayed

text \<open>
  The faults of one call, in the order of the code: \<open>fail_first\<close> the lookup outside the
  transaction, \<open>fail_begin\<close>, \<open>fail_lookup\<close> and \<open>fail_load\<close> the reads inside it, \<open>fail_now\<close> the clock,
  \<open>fail_write\<close> and \<open>fail_insert\<close> the writes, \<open>tx_result\<close> the commit, \<open>fail_recover\<close> the lookup after
  a failure; \<open>meanwhile1\<close>, \<open>meanwhile2\<close>, \<open>meanwhile3\<close> are the other connections before the
  transaction, before the row lock, and after the rollback.
\<close>

record environment =
  fail_first :: bool
  fail_begin :: bool
  fail_lookup :: bool
  fail_load :: bool
  fail_now :: bool
  clock :: gotime
  fail_write :: bool
  fail_insert :: bool
  tx_result :: tx_end
  fail_recover :: bool
  meanwhile1 :: "db \<Rightarrow> db"
  meanwhile2 :: "db \<Rightarrow> db"
  meanwhile3 :: "db \<Rightarrow> db"

subsection \<open>Commit\<close>

definition check_receipt :: "commit_receipt \<Rightarrow> commit_request \<Rightarrow> runtime_error + commit_receipt" where
  "check_receipt rc req =
     (if rc_run_id rc \<noteq> cr_run_id req \<or> rc_digest rc \<noteq> cr_digest req then Inl ErrCommitConflict else Inr rc)"

definition commit_key :: "commit_request \<Rightarrow> string \<times> string" where
  "commit_key req = (cr_scope req, cr_commit_id req)"

definition run_key :: "commit_request \<Rightarrow> string \<times> string" where
  "run_key req = (cr_scope req, cr_run_id req)"

definition recover_receipt :: "environment \<Rightarrow> db \<Rightarrow> commit_request \<Rightarrow> runtime_error \<Rightarrow> bool
    \<Rightarrow> db \<times> (runtime_error + commit_receipt)" where
  "recover_receipt env d req cause unknown =
     (let d = meanwhile3 env d in
      (d, if fail_recover env then Inl ErrCommitUnknown
          else case commits d (commit_key req) of
            Some rc \<Rightarrow> check_receipt rc req
          | None \<Rightarrow> Inl (if unknown then ErrCommitUnknown else cause)))"

definition load_run :: "db \<Rightarrow> string \<Rightarrow> string \<Rightarrow> runtime_error + run_record option" where
  "load_run d scope rid = (case runs d (scope, rid) of
     None \<Rightarrow> Inr None
   | Some r \<Rightarrow> if run_scope r \<noteq> scope \<or> run_id r \<noteq> rid then Inl (DatabaseError ''run identity mismatch'')
             else Inr (Some r))"

text \<open>\<open>writeRun\<close> with a revision: the update applies to a row of exactly that revision.\<close>

definition update_row :: "db \<Rightarrow> run_record \<Rightarrow> uint64 \<Rightarrow> runtime_error + db" where
  "update_row d r rv = (case runs d (run_scope r, run_id r) of
     None \<Rightarrow> Inl ErrRevisionConflict
   | Some old \<Rightarrow> if revision old \<noteq> rv then Inl ErrRevisionConflict
       else Inr (d\<lparr>runs := (runs d)((run_scope r, run_id r) \<mapsto> r)\<rparr>))"

text \<open>\<open>writeRun\<close> without one: the insert is refused when the key is taken.\<close>

definition insert_row :: "db \<Rightarrow> run_record \<Rightarrow> runtime_error + db" where
  "insert_row d r = (if runs d (run_scope r, run_id r) \<noteq> None then Inl (DatabaseError ''duplicate key'')
     else Inr (d\<lparr>runs := (runs d)((run_scope r, run_id r) \<mapsto> r)\<rparr>))"

definition insert_commit :: "db \<Rightarrow> string \<times> string \<Rightarrow> commit_receipt \<Rightarrow> runtime_error + db" where
  "insert_commit d k rc = (if commits d k \<noteq> None then Inl (DatabaseError ''duplicate key'')
     else Inr (d\<lparr>commits := (commits d)(k \<mapsto> rc)\<rparr>))"

definition write_commit :: "environment \<Rightarrow> db \<Rightarrow> commit_request \<Rightarrow> run_record \<Rightarrow> run_record \<Rightarrow> commit_receipt
    \<Rightarrow> db \<times> (runtime_error + commit_receipt)" where
  "write_commit env d req cur nxt rc =
     (case (if fail_write env then Inl (DatabaseError ''write'') else update_row d nxt (revision cur)) of
        Inl e \<Rightarrow> recover_receipt env d req e False
      | Inr d1 \<Rightarrow>
          (case (if fail_insert env then Inl (DatabaseError ''insert'') else insert_commit d1 (commit_key req) rc) of
             Inl e \<Rightarrow> recover_receipt env d req e False
           | Inr d2 \<Rightarrow>
               (case tx_result env of
                  TxApplied \<Rightarrow> (d2, Inr rc)
                | TxLost \<Rightarrow> recover_receipt env d req (DatabaseError ''commit'') True
                | TxAppliedUnseen \<Rightarrow> recover_receipt env d2 req (DatabaseError ''commit'') True
                | TxDelayed \<Rightarrow> (meanwhile3 env d2,
                    snd (recover_receipt (env\<lparr>meanwhile3 := (\<lambda>d. d)\<rparr>) d req (DatabaseError ''commit'') True)))))"

definition commit_locked :: "digest_fn \<Rightarrow> environment \<Rightarrow> db \<Rightarrow> commit_request
    \<Rightarrow> db \<times> (runtime_error + commit_receipt)" where
  "commit_locked dg env d req =
     (case (if fail_load env then Inl (DatabaseError ''load'') else load_run d (cr_scope req) (cr_run_id req)) of
        Inl e \<Rightarrow> recover_receipt env d req e True
      | Inr None \<Rightarrow> recover_receipt env d req ErrRunNotFound False
      | Inr (Some cur) \<Rightarrow>
          if fail_now env then recover_receipt env d req (DatabaseError ''clock'') True
          else (case apply_commit dg cur req (clock env) of
             Inl e \<Rightarrow>
               (let d = meanwhile3 env d in
                (d, if fail_recover env then Inl ErrCommitUnknown
                    else case commits d (commit_key req) of
                      Some rc \<Rightarrow> check_receipt rc req
                    | None \<Rightarrow> Inl e))
           | Inr (nxt, rc) \<Rightarrow> write_commit env d req cur nxt rc))"

definition commit_store :: "digest_fn \<Rightarrow> environment \<Rightarrow> db \<Rightarrow> commit_request
    \<Rightarrow> db \<times> (runtime_error + commit_receipt)" where
  "commit_store dg env d req = (case validate_commit dg req of
     Some e \<Rightarrow> (d, Inl e)
   | None \<Rightarrow>
       if fail_first env then (d, Inl ErrCommitUnknown)
       else case commits d (commit_key req) of
         Some rc \<Rightarrow> (d, check_receipt rc req)
       | None \<Rightarrow>
           let d = meanwhile1 env d in
           if fail_begin env then recover_receipt env d req (DatabaseError ''begin'') True
           else if fail_lookup env then (d, Inl ErrCommitUnknown)
           else case commits d (commit_key req) of
             Some rc \<Rightarrow> (d, check_receipt rc req)
           | None \<Rightarrow> commit_locked dg env (meanwhile2 env d) req)"

subsection \<open>Submission and signals\<close>

record submit_request =
  su_scope :: string
  su_input_id :: string
  su_run_id :: string
  su_spec :: run_spec
  su_input :: json

definition submission_digest :: "(string \<times> string \<times> string \<times> string \<Rightarrow> string) \<Rightarrow> (submit_request \<Rightarrow> string option)
    \<Rightarrow> submit_request \<Rightarrow> string option" where
  "submission_digest ingress_digest full_digest req =
     (if spec_ingress_digest (su_spec req) \<noteq> []
      then Some (ingress_digest (su_scope req, su_input_id req, su_run_id req, spec_ingress_digest (su_spec req)))
      else full_digest req)"

definition accepted :: "bool \<Rightarrow> db \<Rightarrow> string \<Rightarrow> string \<Rightarrow> string \<Rightarrow> runtime_error + run_record option" where
  "accepted fails d scope input_id want =
     (if fails then Inl (DatabaseError ''read'')
      else case accepted_inputs d (scope, input_id) of
        None \<Rightarrow> Inr None
      | Some (rid, dgst) \<Rightarrow>
          if dgst \<noteq> want then Inl ErrCommitConflict
          else case load_run d scope rid of
            Inl e \<Rightarrow> Inl e
          | Inr None \<Rightarrow> Inl AcceptedMissing
          | Inr (Some r) \<Rightarrow> Inr (Some r))"

definition insert_input :: "db \<Rightarrow> string \<times> string \<Rightarrow> string \<times> string \<Rightarrow> runtime_error + db" where
  "insert_input d k v = (if accepted_inputs d k \<noteq> None then Inl (DatabaseError ''duplicate key'')
     else Inr (d\<lparr>accepted_inputs := (accepted_inputs d)(k \<mapsto> v)\<rparr>))"

definition no_authority :: execution_authority where
  "no_authority = \<lparr>owner = [], attempt = [], fence = 0\<rparr>"

definition submitted_run :: "submit_request \<Rightarrow> string \<Rightarrow> run_record" where
  "submitted_run req dgst =
     \<lparr>run_scope = su_scope req, run_id = su_run_id req, run_spec = su_spec req, revision = 0, status = RunQueued,
      authority = no_authority, lease_until = 0, wake_at = 0, snapshot = None, tasks = Map.empty,
      task_activations = Map.empty,
      inputs = [(su_input_id req, \<lparr>in_id = su_input_id req, in_digest = dgst, in_target = [],
                   in_payload = su_input req, in_consumed = 0\<rparr>)],
      operations = Map.empty, artifacts = Map.empty, events = [], next_sequence = 0, cancel_reason = [],
      waiting_targets = None\<rparr>"

text \<open>The transaction of \<open>Submit\<close>: insert the run, then the accepted input.\<close>

definition submit_tx :: "environment \<Rightarrow> db \<Rightarrow> submit_request \<Rightarrow> string \<Rightarrow> runtime_error + db" where
  "submit_tx env d req dgst =
     bind_res (if fail_write env then Inl (DatabaseError ''write'') else insert_row d (submitted_run req dgst)) (\<lambda>d1.
     if fail_insert env then Inl (DatabaseError ''insert'')
     else insert_input d1 (su_scope req, su_input_id req) (su_run_id req, dgst))"

text \<open>After a failed transaction: look the input up again, and report an unknown outcome only when the commit itself failed.\<close>

definition settle_accepted :: "runtime_error + 'r option \<Rightarrow> bool \<Rightarrow> runtime_error \<Rightarrow> runtime_error + 'r" where
  "settle_accepted looked_up unknown e = (case looked_up of
     Inl x \<Rightarrow> Inl (if x = ErrCommitConflict then x else ErrCommitUnknown)
   | Inr (Some r) \<Rightarrow> Inr r
   | Inr None \<Rightarrow> Inl (if unknown then ErrCommitUnknown else e))"

definition submit :: "(json \<Rightarrow> bool) \<Rightarrow> (json \<Rightarrow> string option) \<Rightarrow> (submit_request \<Rightarrow> string option)
    \<Rightarrow> environment \<Rightarrow> db \<Rightarrow> submit_request \<Rightarrow> db \<times> (runtime_error + run_record)" where
  "submit json_valid content_digest sub_digest env d req =
     (if su_scope req = [] \<or> su_input_id req = [] \<or> su_run_id req = [] then (d, Inl MissingIdentity)
      else case validate_spec json_valid content_digest (su_spec req) of
        Some e \<Rightarrow> (d, Inl e)
      | None \<Rightarrow>
      if spec_run_id (su_spec req) \<noteq> su_run_id req then (d, Inl ErrUnrecoverableSpec)
      else case sub_digest req of None \<Rightarrow> (d, Inl EncodeError)
      | Some dgst \<Rightarrow>
      case accepted (fail_first env) d (su_scope req) (su_input_id req) dgst of
        Inl e \<Rightarrow> (d, Inl e)
      | Inr (Some r) \<Rightarrow> (d, Inr r)
      | Inr None \<Rightarrow>
      if fail_begin env then (d, Inl (DatabaseError ''begin''))
      else let d = meanwhile1 env d;
               look = (\<lambda>d. accepted (fail_recover env) d (su_scope req) (su_input_id req) dgst)
      in case submit_tx env d req dgst of
        Inl e \<Rightarrow> (let d = meanwhile3 env d in (d, settle_accepted (look d) False e))
      | Inr d' \<Rightarrow>
          (case tx_result env of
             TxApplied \<Rightarrow> (d', Inr (submitted_run req dgst))
           | TxLost \<Rightarrow> (let d = meanwhile3 env d in (d, settle_accepted (look d) True (DatabaseError ''commit'')))
           | TxAppliedUnseen \<Rightarrow>
               (let d = meanwhile3 env d' in (d, settle_accepted (look d) True (DatabaseError ''commit'')))
           | TxDelayed \<Rightarrow> (meanwhile3 env d', settle_accepted (look d) True (DatabaseError ''commit''))))"

definition signalled :: "run_record \<Rightarrow> inbound_input \<Rightarrow> run_record" where
  "signalled r input =
     (let r = r\<lparr>inputs := AList.update (in_id input) input (inputs r)\<rparr> in
      if status r = RunWaiting then r\<lparr>status := RunQueued, wake_at := 0\<rparr> else r)"

text \<open>The checks of \<open>Signal\<close> under the row lock: an answer, or the record to write.\<close>

definition signal_check :: "run_record \<Rightarrow> inbound_input \<Rightarrow> (runtime_error + inbound_input) + run_record" where
  "signal_check r input = (case map_of (inputs r) (in_id input) of
     Some old \<Rightarrow> Inl (if in_digest old \<noteq> in_digest input then Inl ErrCommitConflict else Inr old)
   | None \<Rightarrow>
       if terminal (status r) then Inl (Inl ErrRunTerminal)
       else if in_target input \<noteq> [] \<and> waiting_targets r \<noteq> None \<and> \<not> is_waiting_target r (in_target input)
       then Inl (Inl ErrResumeTargetUnavailable)
       else Inr (signalled r input))"

definition signal_lookup :: "bool \<Rightarrow> db \<Rightarrow> string \<Rightarrow> string \<Rightarrow> inbound_input \<Rightarrow> runtime_error + inbound_input option" where
  "signal_lookup fails d scope rid input =
     (case accepted fails d scope (in_id input) (in_digest input) of
        Inl e \<Rightarrow> Inl e
      | Inr None \<Rightarrow> Inr None
      | Inr (Some r) \<Rightarrow>
          if run_id r \<noteq> rid then Inl ErrCommitConflict
          else case map_of (inputs r) (in_id input) of
            None \<Rightarrow> Inl AcceptedMissing
          | Some old \<Rightarrow> Inr (Some old))"

definition signal_tx :: "environment \<Rightarrow> db \<Rightarrow> string \<Rightarrow> inbound_input \<Rightarrow> run_record \<Rightarrow> uint64 \<Rightarrow> runtime_error + db" where
  "signal_tx env d scope input r rv =
     bind_res (if fail_insert env then Inl (DatabaseError ''insert'')
               else insert_input d (scope, in_id input) (run_id r, in_digest input)) (\<lambda>d1.
     if fail_write env then Inl (DatabaseError ''write'') else update_row d1 r rv)"

definition signal_locked :: "environment \<Rightarrow> db \<Rightarrow> string \<Rightarrow> string \<Rightarrow> inbound_input
    \<Rightarrow> db \<times> (runtime_error + inbound_input)" where
  "signal_locked env d scope rid input =
     (case (if fail_load env then Inl (DatabaseError ''load'') else load_run d scope rid) of
        Inl e \<Rightarrow> (d, Inl e)
      | Inr None \<Rightarrow> (d, Inl ErrRunNotFound)
      | Inr (Some r) \<Rightarrow>
      case signal_check r input of
        Inl answer \<Rightarrow> (d, answer)
      | Inr r' \<Rightarrow>
      let look = (\<lambda>d. signal_lookup (fail_recover env) d scope rid input) in
      case signal_tx env d scope input r' (revision r) of
        Inl e \<Rightarrow> (let d = meanwhile3 env d in (d, settle_accepted (look d) False e))
      | Inr d' \<Rightarrow>
          (case tx_result env of
             TxApplied \<Rightarrow> (d', Inr input)
           | TxLost \<Rightarrow> (let d = meanwhile3 env d in (d, settle_accepted (look d) True (DatabaseError ''commit'')))
           | TxAppliedUnseen \<Rightarrow>
               (let d = meanwhile3 env d' in (d, settle_accepted (look d) True (DatabaseError ''commit'')))
           | TxDelayed \<Rightarrow> (meanwhile3 env d', settle_accepted (look d) True (DatabaseError ''commit''))))"

definition signal :: "(string \<Rightarrow> string \<Rightarrow> json \<Rightarrow> string option) \<Rightarrow> environment \<Rightarrow> db \<Rightarrow> string \<Rightarrow> string
    \<Rightarrow> inbound_input \<Rightarrow> db \<times> (runtime_error + inbound_input)" where
  "signal signal_digest env d scope rid input =
     (if in_id input = [] \<or> in_consumed input \<noteq> 0 then (d, Inl InvalidInput)
      else case signal_digest rid (in_target input) (in_payload input) of
        None \<Rightarrow> (d, Inl EncodeError)
      | Some want \<Rightarrow>
      if in_digest input \<noteq> [] \<and> in_digest input \<noteq> want then (d, Inl ErrCommitConflict)
      else let input = input\<lparr>in_digest := want\<rparr> in
      case signal_lookup (fail_first env) d scope rid input of
        Inl e \<Rightarrow> (d, Inl e)
      | Inr (Some old) \<Rightarrow> (d, Inr old)
      | Inr None \<Rightarrow>
          if fail_begin env then (d, Inl (DatabaseError ''begin''))
          else signal_locked env (meanwhile1 env d) scope rid input)"

subsection \<open>Scheduling: claim, renew, release, cancel\<close>

text \<open>
  \<open>updateRun\<close> writes the record only when the update changed it; comparing the two JSON encodings is
  comparing the records.
\<close>

definition update_run :: "environment \<Rightarrow> db \<Rightarrow> string \<Rightarrow> string \<Rightarrow> (gotime \<Rightarrow> run_record \<Rightarrow> runtime_error + run_record)
    \<Rightarrow> db \<times> (runtime_error + run_record)" where
  "update_run env d scope rid upd =
     (if fail_begin env then (d, Inl (DatabaseError ''begin''))
      else let d = meanwhile1 env d in
      case (if fail_load env then Inl (DatabaseError ''load'') else load_run d scope rid) of
        Inl e \<Rightarrow> (d, Inl e)
      | Inr None \<Rightarrow> (d, Inl ErrRunNotFound)
      | Inr (Some r) \<Rightarrow>
      if fail_now env then (d, Inl (DatabaseError ''clock''))
      else case upd (clock env) r of
        Inl e \<Rightarrow> (d, Inl e)
      | Inr r' \<Rightarrow>
          (case (if r' = r then Inr d
                 else if fail_write env then Inl (DatabaseError ''write'')
                 else update_row d r' (revision r)) of
             Inl e \<Rightarrow> (d, Inl e)
           | Inr d' \<Rightarrow>
               (case tx_result env of
                  TxApplied \<Rightarrow> (d', Inr r')
                | TxLost \<Rightarrow> (d, Inl ErrCommitUnknown)
                | TxAppliedUnseen \<Rightarrow> (d', Inl ErrCommitUnknown)
                | TxDelayed \<Rightarrow> (d', Inl ErrCommitUnknown))))"

definition claim_update :: "execution_authority \<Rightarrow> nat \<Rightarrow> gotime \<Rightarrow> run_record \<Rightarrow> runtime_error + run_record" where
  "claim_update a ttl now r =
     (if terminal (status r) then Inl ErrRunTerminal
      else if (status r = RunWaiting \<and> wake_at r = 0) \<or> now < wake_at r \<or>
          (owner (authority r) \<noteq> [] \<and> now < lease_until r) then Inl ErrExecutionLost
      else Inr (r\<lparr>authority := a\<lparr>fence := fence (authority r) + 1\<rparr>, lease_until := now + ttl,
                  status := RunRunning, wake_at := 0\<rparr>))"

definition claim :: "environment \<Rightarrow> db \<Rightarrow> string \<Rightarrow> string \<Rightarrow> execution_authority \<Rightarrow> nat
    \<Rightarrow> db \<times> (runtime_error + run_record option)" where
  "claim env d scope rid a ttl =
     (if owner a = [] \<or> attempt a = [] \<or> ttl = 0 then (d, Inl InvalidLease)
      else case update_run env d scope rid (claim_update a ttl) of
        (d', Inr r) \<Rightarrow> (d', Inr (Some r))
      | (d', Inl e) \<Rightarrow> (d', if e = ErrExecutionLost \<or> e = ErrRunTerminal then Inr None else Inl e))"

definition renew_update :: "execution_authority \<Rightarrow> nat \<Rightarrow> gotime \<Rightarrow> run_record \<Rightarrow> runtime_error + run_record" where
  "renew_update a ttl now r =
     (if terminal (status r) \<or> authority r \<noteq> a \<or> \<not> now < lease_until r then Inl ErrExecutionLost
      else Inr (r\<lparr>lease_until := now + ttl\<rparr>))"

definition renew :: "environment \<Rightarrow> db \<Rightarrow> string \<Rightarrow> string \<Rightarrow> execution_authority \<Rightarrow> nat
    \<Rightarrow> db \<times> (runtime_error + run_record)" where
  "renew env d scope rid a ttl =
     (if ttl = 0 then (d, Inl InvalidLease) else update_run env d scope rid (renew_update a ttl))"

definition release_update :: "execution_authority \<Rightarrow> gotime \<Rightarrow> run_record \<Rightarrow> runtime_error + run_record" where
  "release_update a now r =
     (if authority r \<noteq> a then Inl ErrExecutionLost
      else Inr (r\<lparr>lease_until := 0, status := (if status r = RunRunning then RunQueued else status r)\<rparr>))"

definition release :: "environment \<Rightarrow> db \<Rightarrow> string \<Rightarrow> string \<Rightarrow> execution_authority
    \<Rightarrow> db \<times> (runtime_error + run_record)" where
  "release env d scope rid a = update_run env d scope rid (release_update a)"

definition cancel_event :: "string \<Rightarrow> string \<Rightarrow> int \<Rightarrow> uint64 \<Rightarrow> gotime \<Rightarrow> stored_event" where
  "cancel_event scope rid sq rv now =
     \<lparr>ev_scope = scope, ev_run_id = rid, ev_id = rid @ ''/'' @ itoa sq, ev_commit_id = [], ev_sequence = sq,
      ev_revision = rv, ev_version = ''runtime.event.v1'', ev_type = ''run_cancelled'', ev_timestamp = now,
      ev_payload = []\<rparr>"

definition cancel_update :: "string \<Rightarrow> string \<Rightarrow> string \<Rightarrow> gotime \<Rightarrow> run_record \<Rightarrow> runtime_error + run_record" where
  "cancel_update scope rid reason now r =
     (if terminal (status r) then Inr r
      else let rv = revision r + 1; sq = wrap64 (next_sequence r + 1) in
        Inr (r\<lparr>status := RunCancelled, cancel_reason := reason, lease_until := 0,
               authority := (authority r)\<lparr>fence := fence (authority r) + 1\<rparr>, revision := rv,
               next_sequence := sq, events := events r @ [cancel_event scope rid sq rv now]\<rparr>))"

definition cancel :: "environment \<Rightarrow> db \<Rightarrow> string \<Rightarrow> string \<Rightarrow> string \<Rightarrow> db \<times> (runtime_error + run_record)" where
  "cancel env d scope rid reason = update_run env d scope rid (cancel_update scope rid reason)"

text \<open>
  \<open>Runnable\<close>: the query's condition on a row, and its result over an enumeration \<open>ids\<close> of the run
  identifiers of the scope. A zero time is stored as \<open>NULL\<close>.
\<close>

definition row_runnable :: "gotime \<Rightarrow> run_record \<Rightarrow> bool" where
  "row_runnable now r \<longleftrightarrow>
     (status r = RunQueued \<or> status r = RunRunning \<or> status r = RunWaiting \<and> wake_at r \<noteq> 0) \<and>
     (lease_until r = 0 \<or> lease_until r \<le> now) \<and> (wake_at r = 0 \<or> wake_at r \<le> now)"

definition runnable :: "db \<Rightarrow> gotime \<Rightarrow> string list \<Rightarrow> string \<Rightarrow> int \<Rightarrow> string list" where
  "runnable d now ids scope limit =
     take (nat (if limit \<le> 0 then 100 else limit))
       (sort (filter (\<lambda>i. case runs d (scope, i) of None \<Rightarrow> False | Some r \<Rightarrow> row_runnable now r) ids))"

subsection \<open>Operation receipts and event reads\<close>

definition get_receipt :: "bool \<Rightarrow> db \<Rightarrow> string \<Rightarrow> string \<Rightarrow> runtime_error + operation_receipt option" where
  "get_receipt fails d scope i = (if fails then Inl (DatabaseError ''read'') else Inr (op_receipts d (scope, i)))"

definition same_receipt :: "operation_receipt \<Rightarrow> string \<Rightarrow> runtime_error + operation_receipt" where
  "same_receipt old want = (if or_digest old \<noteq> want then Inl ErrCommitConflict else Inr old)"

definition archive_receipt :: "(operation_receipt \<Rightarrow> string option) \<Rightarrow> environment \<Rightarrow> db \<Rightarrow> operation_receipt
    \<Rightarrow> db \<times> (runtime_error + operation_receipt)" where
  "archive_receipt receipt_digest env d rc =
     (if or_scope rc = [] \<or> or_run_id rc = [] \<or> or_operation rc = [] \<or> or_receipt rc = [] \<or> or_provider rc = [] \<or>
         or_status rc = OperationUnset then (d, Inl MissingIdentity)
      else case receipt_digest (rc\<lparr>or_digest := [], or_received_at := 0\<rparr>) of
        None \<Rightarrow> (d, Inl EncodeError)
      | Some want \<Rightarrow>
      if or_digest rc \<noteq> [] \<and> or_digest rc \<noteq> want then (d, Inl ErrCommitConflict)
      else case get_receipt (fail_first env) d (or_scope rc) (or_receipt rc) of
        Inl e \<Rightarrow> (d, Inl e)
      | Inr (Some old) \<Rightarrow> (d, same_receipt old want)
      | Inr None \<Rightarrow>
      let rc = rc\<lparr>or_digest := want, or_received_at := (if or_received_at rc = 0 then clock env else or_received_at rc)\<rparr>;
          k = (or_scope rc, or_receipt rc);
          d = meanwhile1 env d
      in if fail_insert env \<or> op_receipts d k \<noteq> None then
           (let d = meanwhile3 env d in
            (d, case get_receipt (fail_recover env) d (or_scope rc) (or_receipt rc) of
                  Inl e \<Rightarrow> Inl ErrCommitUnknown
                | Inr (Some old) \<Rightarrow> same_receipt old want
                | Inr None \<Rightarrow> Inl ErrCommitUnknown))
         else (d\<lparr>op_receipts := (op_receipts d)(k \<mapsto> rc)\<rparr>, Inr rc))"

text \<open>The filter loop of \<open>ReadEvents\<close>: events after the cursor, cut at a positive limit.\<close>

fun events_after :: "stored_event list \<Rightarrow> int \<Rightarrow> int \<Rightarrow> stored_event list \<Rightarrow> stored_event list" where
  "events_after [] aft limit acc = acc"
| "events_after (e # es) aft limit acc =
     (if ev_sequence e \<le> aft then events_after es aft limit acc
      else let acc = acc @ [e] in
        if 0 < limit \<and> limit \<le> int (length acc) then acc else events_after es aft limit acc)"

definition read_events :: "db \<Rightarrow> string \<Rightarrow> string \<Rightarrow> int \<Rightarrow> int \<Rightarrow> runtime_error + stored_event list" where
  "read_events d scope rid aft limit =
     (case load_run d scope rid of
        Inl e \<Rightarrow> Inl e
      | Inr None \<Rightarrow> Inl ErrRunNotFound
      | Inr (Some r) \<Rightarrow>
          if aft < 0 \<or> next_sequence r < aft then Inl ErrEventCursor
          else if events r \<noteq> [] \<and> aft < ev_sequence (hd (events r)) - 1 then Inl ErrEventCursor
          else Inr (events_after (events r) aft limit []))"

subsection \<open>The atomic transitions\<close>

text \<open>What one transaction can do to the database.\<close>

inductive db_step :: "digest_fn \<Rightarrow> db \<Rightarrow> db \<Rightarrow> bool" for dg :: digest_fn where
  step_commit: "\<lbrakk>runs d (run_key req) = Some cur; commits d (commit_key req) = None;
     apply_commit dg cur req now = Inr (nxt, rc);
     d' = d\<lparr>runs := (runs d)(run_key req \<mapsto> nxt), commits := (commits d)(commit_key req \<mapsto> rc)\<rparr>\<rbrakk>
   \<Longrightarrow> db_step dg d d'"
| step_submit: "\<lbrakk>runs d (su_scope req, su_run_id req) = None; accepted_inputs d (su_scope req, su_input_id req) = None;
     d' = d\<lparr>runs := (runs d)((su_scope req, su_run_id req) \<mapsto> submitted_run req dgst),
            accepted_inputs := (accepted_inputs d)((su_scope req, su_input_id req) \<mapsto> (su_run_id req, dgst))\<rparr>\<rbrakk>
   \<Longrightarrow> db_step dg d d'"
| step_signal: "\<lbrakk>runs d (scope, rid) = Some r; run_scope r = scope; run_id r = rid;
     accepted_inputs d (scope, in_id input) = None; in_consumed input = 0; signal_check r input = Inr r';
     d' = d\<lparr>runs := (runs d)((scope, rid) \<mapsto> r'),
            accepted_inputs := (accepted_inputs d)((scope, in_id input) \<mapsto> (rid, in_digest input))\<rparr>\<rbrakk>
   \<Longrightarrow> db_step dg d d'"
| step_claim: "\<lbrakk>runs d (scope, rid) = Some r; owner a \<noteq> []; attempt a \<noteq> []; claim_update a ttl now r = Inr r';
     d' = d\<lparr>runs := (runs d)((scope, rid) \<mapsto> r')\<rparr>\<rbrakk> \<Longrightarrow> db_step dg d d'"
| step_renew: "\<lbrakk>runs d (scope, rid) = Some r; renew_update a ttl now r = Inr r';
     d' = d\<lparr>runs := (runs d)((scope, rid) \<mapsto> r')\<rparr>\<rbrakk> \<Longrightarrow> db_step dg d d'"
| step_release: "\<lbrakk>runs d (scope, rid) = Some r; release_update a now r = Inr r';
     d' = d\<lparr>runs := (runs d)((scope, rid) \<mapsto> r')\<rparr>\<rbrakk> \<Longrightarrow> db_step dg d d'"
| step_cancel: "\<lbrakk>runs d (scope, rid) = Some r; cancel_update scope rid reason now r = Inr r';
     d' = d\<lparr>runs := (runs d)((scope, rid) \<mapsto> r')\<rparr>\<rbrakk> \<Longrightarrow> db_step dg d d'"
| step_archive: "\<lbrakk>op_receipts d (or_scope rc, or_receipt rc) = None;
     d' = d\<lparr>op_receipts := (op_receipts d)((or_scope rc, or_receipt rc) \<mapsto> rc)\<rparr>\<rbrakk> \<Longrightarrow> db_step dg d d'"

abbreviation db_steps :: "digest_fn \<Rightarrow> db \<Rightarrow> db \<Rightarrow> bool" where
  "db_steps dg \<equiv> (db_step dg)\<^sup>*\<^sup>*"

text \<open>Other connections only run transactions.\<close>

definition fair_env :: "digest_fn \<Rightarrow> environment \<Rightarrow> bool" where
  "fair_env dg env \<longleftrightarrow> (\<forall>d. db_steps dg d (meanwhile1 env d) \<and> db_steps dg d (meanwhile2 env d) \<and>
     db_steps dg d (meanwhile3 env d))"

subsection \<open>Every handler is a sequence of transitions\<close>

lemma load_run_Some: "load_run d scope rid = Inr (Some r) \<longleftrightarrow> runs d (scope, rid) = Some r \<and> run_scope r = scope \<and> run_id r = rid"
  by (auto simp: load_run_def split: option.splits)

lemma update_row_Inr: "update_row d r rv = Inr d' \<Longrightarrow> d' = d\<lparr>runs := (runs d)((run_scope r, run_id r) \<mapsto> r)\<rparr>"
  by (auto simp: update_row_def split: option.splits if_splits)

lemma recover_receipt_db: "fst (recover_receipt env d req e u) = meanwhile3 env d"
  by (simp add: recover_receipt_def Let_def)

text \<open>The transaction of \<open>Commit\<close>, whatever fails in it.\<close>

lemma write_commit_steps:
  assumes f: "fair_env dg env" and cur: "runs d (run_key req) = Some cur"
    and ap: "apply_commit dg cur req now = Inr (nxt, rc)"
  shows "db_steps dg d (fst (write_commit env d req cur nxt rc))"
proof -
  have key: "(run_scope nxt, run_id nxt) = run_key req"
    using apply_commit_guard(1,2)[OF ap] apply_commit_effect(2,3)[OF ap] by (simp add: run_key_def)
  define d1 where "d1 = d\<lparr>runs := (runs d)(run_key req \<mapsto> nxt)\<rparr>"
  define d2 where "d2 = d\<lparr>runs := (runs d)(run_key req \<mapsto> nxt), commits := (commits d)(commit_key req \<mapsto> rc)\<rparr>"
  have m3: "db_steps dg e (meanwhile3 env e)" for e using f by (simp add: fair_env_def)
  have u: "update_row d nxt (revision cur) = Inr d1"
    using cur unfolding update_row_def key by (simp add: d1_def)
  show ?thesis
  proof (cases "commits d (commit_key req)")
    case None
    have one: "db_step dg d d2" using step_commit[OF cur None ap] by (simp add: d2_def)
    have two: "db_steps dg d (meanwhile3 env d2)"
      by (rule converse_rtranclp_into_rtranclp[of "db_step dg", OF one m3])
    have i: "insert_commit d1 (commit_key req) rc = Inr d2"
      using None by (simp add: insert_commit_def d1_def d2_def)
    show ?thesis
      using m3[of d] two one
      by (cases "tx_result env") (auto simp: write_commit_def u i recover_receipt_db)
  next
    case (Some x)
    then have "insert_commit d1 (commit_key req) rc = Inl (DatabaseError ''duplicate key'')"
      by (simp add: insert_commit_def d1_def)
    then show ?thesis using m3[of d] by (simp add: write_commit_def u recover_receipt_db)
  qed
qed

lemma commit_locked_steps:
  assumes f: "fair_env dg env"
  shows "db_steps dg d (fst (commit_locked dg env d req))"
proof -
  have m3: "db_steps dg e (meanwhile3 env e)" for e using f by (simp add: fair_env_def)
  show ?thesis
  proof (cases "if fail_load env then Inl (DatabaseError ''load'') else load_run d (cr_scope req) (cr_run_id req)")
    case (Inl e)
    then show ?thesis using m3[of d] by (simp add: commit_locked_def recover_receipt_db)
  next
    case (Inr o1)
    show ?thesis
    proof (cases o1)
      case None
      then show ?thesis using m3[of d] Inr by (simp add: commit_locked_def recover_receipt_db)
    next
      case (Some cur)
      then have cur: "runs d (run_key req) = Some cur"
        using Inr by (simp add: load_run_Some run_key_def split: if_splits)
      show ?thesis
      proof (cases "apply_commit dg cur req (clock env)")
        case (Inl e)
        then show ?thesis using m3[of d] Inr Some by (simp add: commit_locked_def recover_receipt_db Let_def)
      next
        case (Inr nr)
        obtain nxt rc where nr: "nr = (nxt, rc)" by fastforce
        show ?thesis
          using m3[of d] write_commit_steps[OF f cur Inr[unfolded nr]] \<open>_ = Inr o1\<close> Some Inr nr
          by (simp add: commit_locked_def recover_receipt_db)
      qed
    qed
  qed
qed

lemma commit_store_steps:
  assumes f: "fair_env dg env"
  shows "db_steps dg d (fst (commit_store dg env d req))"
proof -
  have m: "db_steps dg e (meanwhile1 env e)" "db_steps dg e (meanwhile2 env e)" "db_steps dg e (meanwhile3 env e)" for e
    using f by (simp_all add: fair_env_def)
  have m13: "db_steps dg d (meanwhile3 env (meanwhile1 env d))" by (rule rtranclp_trans[OF m(1) m(3)])
  have lk: "db_steps dg d (fst (commit_locked dg env (meanwhile2 env (meanwhile1 env d)) req))"
    by (rule rtranclp_trans[OF rtranclp_trans[OF m(1) m(2)] commit_locked_steps[OF f]])
  show ?thesis
    using m(1)[of d] m13 lk
    by (auto simp: commit_store_def recover_receipt_db Let_def split: option.splits)
qed

lemma insert_input_Inr:
  "insert_input d k v = Inr d' \<Longrightarrow> accepted_inputs d k = None \<and> d' = d\<lparr>accepted_inputs := (accepted_inputs d)(k \<mapsto> v)\<rparr>"
  by (cases "accepted_inputs d k") (simp_all add: insert_input_def)

lemma insert_row_Inr:
  "insert_row d r = Inr d' \<Longrightarrow> runs d (run_scope r, run_id r) = None \<and>
     d' = d\<lparr>runs := (runs d)((run_scope r, run_id r) \<mapsto> r)\<rparr>"
  by (cases "runs d (run_scope r, run_id r)") (simp_all add: insert_row_def)

lemma submit_tx_step:
  assumes "submit_tx env d req dgst = Inr d'"
  shows "db_step dg d d'"
proof -
  have k: "run_scope (submitted_run req dgst) = su_scope req" "run_id (submitted_run req dgst) = su_run_id req"
    by (simp_all add: submitted_run_def)
  obtain d1 where d1: "insert_row d (submitted_run req dgst) = Inr d1"
    "insert_input d1 (su_scope req, su_input_id req) (su_run_id req, dgst) = Inr d'"
    using assms by (auto simp: submit_tx_def bind_res_Inr split: if_splits)
  show ?thesis
    using insert_row_Inr[OF d1(1)] insert_input_Inr[OF d1(2)] unfolding k by (intro step_submit) auto
qed

lemma submit_steps:
  assumes f: "fair_env dg env"
  shows "db_steps dg d (fst (submit jv cd sd env d req))"
proof -
  have m: "db_steps dg e (meanwhile1 env e)" "db_steps dg e (meanwhile3 env e)" for e
    using f by (simp_all add: fair_env_def)
  have m13: "db_steps dg d (meanwhile3 env (meanwhile1 env d))" by (rule rtranclp_trans[OF m(1) m(2)])
  have tx: "db_steps dg d d'" "db_steps dg d (meanwhile3 env d')"
    if "submit_tx env (meanwhile1 env d) req dgst = Inr d'" for d' dgst
  proof -
    show s: "db_steps dg d d'" by (rule rtranclp.rtrancl_into_rtrancl[OF m(1) submit_tx_step[OF that]])
    show "db_steps dg d (meanwhile3 env d')" by (rule rtranclp_trans[OF s m(2)])
  qed
  show ?thesis
    using m13 tx by (auto simp: submit_def Let_def split: option.splits sum.splits tx_end.splits)
qed

lemma signal_check_fields:
  assumes "signal_check r input = Inr r'"
  shows "run_scope r' = run_scope r" "run_id r' = run_id r" "revision r' = revision r" "authority r' = authority r"
    "map_of (inputs r) (in_id input) = None" "\<not> terminal (status r)"
    "map_of (inputs r') = (map_of (inputs r))(in_id input \<mapsto> input)" "r' = signalled r input"
  using assms
  by (auto simp: signal_check_def signalled_def Let_def update_conv' split: option.splits if_splits)

lemma signal_locked_steps:
  assumes f: "fair_env dg env" and c: "in_consumed input = 0"
  shows "db_steps dg d (fst (signal_locked env d scope rid input))"
proof -
  have m3: "db_steps dg e (meanwhile3 env e)" for e using f by (simp add: fair_env_def)
  have tx: "db_step dg d d'"
    if l: "runs d (scope, rid) = Some r" "run_scope r = scope" "run_id r = rid"
      and ck: "signal_check r input = Inr r'" and tx: "signal_tx env d scope input r' (revision r) = Inr d'" for r r' d'
  proof (rule step_signal[OF l _ c ck])
    note sf = signal_check_fields[OF ck]
    obtain d1 where d1: "insert_input d (scope, in_id input) (run_id r', in_digest input) = Inr d1"
      "update_row d1 r' (revision r) = Inr d'"
      using tx by (auto simp: signal_tx_def bind_res_Inr split: if_splits)
    show "accepted_inputs d (scope, in_id input) = None" using insert_input_Inr[OF d1(1)] ..
    show "d' = d\<lparr>runs := (runs d)((scope, rid) \<mapsto> r'),
        accepted_inputs := (accepted_inputs d)((scope, in_id input) \<mapsto> (rid, in_digest input))\<rparr>"
      using update_row_Inr[OF d1(2)] insert_input_Inr[OF d1(1)] sf l by simp
  qed
  show ?thesis
  proof (cases "if fail_load env then Inl (DatabaseError ''load'') else load_run d scope rid")
    case (Inr o1)
    show ?thesis
    proof (cases o1)
      case (Some r)
      then have r: "runs d (scope, rid) = Some r" "run_scope r = scope" "run_id r = rid"
        using Inr by (simp_all add: load_run_Some split: if_splits)
      show ?thesis
      proof (cases "signal_check r input")
        case ck: (Inr r')
        show ?thesis
        proof (cases "signal_tx env d scope input r' (revision r)")
          case (Inl e)
          then show ?thesis using m3[of d] Some ck \<open>_ = Inr o1\<close> by (simp add: signal_locked_def Let_def)
        next
          case (Inr d')
          have s: "db_steps dg d d'" using tx[OF r ck Inr] by blast
          have s3: "db_steps dg d (meanwhile3 env d')" by (rule rtranclp_trans[OF s m3])
          show ?thesis
            using m3[of d] s s3 Some ck Inr \<open>_ = Inr o1\<close>
            by (cases "tx_result env") (simp_all add: signal_locked_def Let_def)
        qed
      qed (use Some \<open>_ = Inr o1\<close> in \<open>simp add: signal_locked_def\<close>)
    qed (use Inr in \<open>simp add: signal_locked_def\<close>)
  qed (simp add: signal_locked_def)
qed

lemma signal_steps:
  assumes f: "fair_env dg env"
  shows "db_steps dg d (fst (signal sd env d scope rid input))"
proof -
  have m: "db_steps dg d (meanwhile1 env d)" using f by (simp add: fair_env_def)
  have "db_steps dg d (fst (signal_locked env (meanwhile1 env d) scope rid (input\<lparr>in_digest := w\<rparr>)))"
    if "in_consumed input = 0" for w
    by (rule rtranclp_trans[OF m signal_locked_steps[OF f]]) (simp add: that)
  then show ?thesis by (auto simp: signal_def Let_def split: option.splits sum.splits)
qed

lemma update_run_steps:
  assumes f: "fair_env dg env"
    and st: "\<And>e r r'. runs e (scope, rid) = Some r \<Longrightarrow> upd (clock env) r = Inr r' \<Longrightarrow>
      db_step dg e (e\<lparr>runs := (runs e)((scope, rid) \<mapsto> r')\<rparr>) \<and> run_scope r' = run_scope r \<and> run_id r' = run_id r"
  shows "db_steps dg d (fst (update_run env d scope rid upd))"
proof -
  define e where "e = meanwhile1 env d"
  have m: "db_steps dg d e" using f by (simp add: fair_env_def e_def)
  have tx: "db_steps dg d d'"
    if l: "runs e (scope, rid) = Some r" "run_scope r = scope" "run_id r = rid" and u: "upd (clock env) r = Inr r'"
      and w: "update_row e r' (revision r) = Inr d'" for r r' d'
  proof -
    have "d' = e\<lparr>runs := (runs e)((scope, rid) \<mapsto> r')\<rparr>" using update_row_Inr[OF w] st[OF l(1) u] l by simp
    then show ?thesis using st[OF l(1) u] m by (metis rtranclp.rtrancl_into_rtrancl)
  qed
  show ?thesis
  proof (cases "fail_begin env")
    case False
    show ?thesis
    proof (cases "if fail_load env then Inl (DatabaseError ''load'') else load_run e scope rid")
      case (Inr o1)
      show ?thesis
      proof (cases o1)
        case (Some r)
        then have r: "runs e (scope, rid) = Some r" "run_scope r = scope" "run_id r = rid"
          using Inr by (simp_all add: load_run_Some split: if_splits)
        show ?thesis
          using False Inr Some m tx[OF r]
          by (auto simp: update_run_def Let_def e_def[symmetric] split: sum.splits tx_end.splits)
      qed (use False Inr m in \<open>simp add: update_run_def Let_def e_def[symmetric]\<close>)
    qed (use False m in \<open>simp add: update_run_def Let_def e_def[symmetric]\<close>)
  qed (simp add: update_run_def)
qed

lemma claim_steps:
  assumes f: "fair_env dg env"
  shows "db_steps dg d (fst (claim env d scope rid a ttl))"
proof (cases "owner a = [] \<or> attempt a = [] \<or> ttl = 0")
  case False
  have "db_steps dg d (fst (update_run env d scope rid (claim_update a ttl)))"
    by (rule update_run_steps[OF f])
      (use False in \<open>auto simp: claim_update_def split: if_splits intro!: step_claim\<close>)
  then show ?thesis
    using False by (auto simp: claim_def split: prod.splits sum.splits)
qed (simp add: claim_def)

lemma renew_steps: "fair_env dg env \<Longrightarrow> db_steps dg d (fst (renew env d scope rid a ttl))"
  by (auto simp: renew_def renew_update_def split: if_splits intro!: update_run_steps step_renew)

lemma release_steps: "fair_env dg env \<Longrightarrow> db_steps dg d (fst (release env d scope rid a))"
  by (auto simp: release_def release_update_def split: if_splits intro!: update_run_steps step_release)

lemma cancel_steps: "fair_env dg env \<Longrightarrow> db_steps dg d (fst (cancel env d scope rid reason))"
  by (auto simp: cancel_def cancel_update_def Let_def split: if_splits intro!: update_run_steps step_cancel)

lemma archive_steps:
  assumes f: "fair_env dg env"
  shows "db_steps dg d (fst (archive_receipt rd env d rc))"
proof -
  have m: "db_steps dg e (meanwhile1 env e)" "db_steps dg e (meanwhile3 env e)" for e
    using f by (simp_all add: fair_env_def)
  have m13: "db_steps dg d (meanwhile3 env (meanwhile1 env d))" by (rule rtranclp_trans[OF m(1) m(2)])
  have ins: "db_steps dg d ((meanwhile1 env d)\<lparr>op_receipts := (op_receipts (meanwhile1 env d))((or_scope rc, or_receipt rc) \<mapsto> x)\<rparr>)"
    if "or_scope x = or_scope rc" "or_receipt x = or_receipt rc"
      "op_receipts (meanwhile1 env d) (or_scope rc, or_receipt rc) = None" for x
    using rtranclp.rtrancl_into_rtrancl[OF m(1)[of d] step_archive[of "meanwhile1 env d" x, OF _ refl]] that by simp
  show ?thesis
    using m13
    by (auto intro!: ins simp: archive_receipt_def Let_def get_receipt_def split: option.splits sum.splits if_splits)
qed


subsection \<open>What a transition keeps\<close>

text \<open>
  Between two states of a run: the facts grow, events are only appended, tasks stay activated,
  identity and specification stay, a terminal run changes in nothing but its lease, and the fence either stays with its authority or moves on by one.
\<close>

definition run_le :: "run_record \<Rightarrow> run_record \<Rightarrow> bool" where
  "run_le r r' \<longleftrightarrow> facts_le r r' \<and> history_le r r' \<and> run_scope r' = run_scope r \<and> run_id r' = run_id r \<and> run_spec r' = run_spec r \<and>
     (terminal (status r) \<longrightarrow> r'\<lparr>lease_until := 0\<rparr> = r\<lparr>lease_until := 0\<rparr>)"

definition fence_step :: "run_record \<Rightarrow> run_record \<Rightarrow> bool" where
  "fence_step r r' \<longleftrightarrow> authority r' = authority r \<or> fence (authority r') = fence (authority r) + 1"

lemma run_le_refl [simp]: "run_le r r"
  by (simp add: run_le_def)

lemma run_le_trans:
  assumes "run_le r s" "run_le s t"
  shows "run_le r t"
proof -
  have tm: "t\<lparr>lease_until := 0\<rparr> = r\<lparr>lease_until := 0\<rparr>" if "terminal (status r)"
  proof -
    have e: "s\<lparr>lease_until := 0\<rparr> = r\<lparr>lease_until := 0\<rparr>" using assms(1) that by (simp add: run_le_def)
    then have "status s = status r" by (cases s; cases r) simp
    then show ?thesis using assms(2) e that by (simp add: run_le_def)
  qed
  have "facts_le r t" "history_le r t"
    using assms facts_le_trans history_le_trans by (auto simp: run_le_def)
  then show ?thesis using assms tm by (simp add: run_le_def)
qed

definition db_le :: "db \<Rightarrow> db \<Rightarrow> bool" where
  "db_le d d' \<longleftrightarrow> map_grows run_le (runs d) (runs d') \<and> map_grows (=) (commits d) (commits d') \<and>
     map_grows (=) (accepted_inputs d) (accepted_inputs d') \<and> map_grows (=) (op_receipts d) (op_receipts d')"

lemma db_le_refl [simp]: "db_le d d"
  by (simp add: db_le_def map_grows_refl)

lemma db_le_trans: "db_le d e \<Longrightarrow> db_le e f \<Longrightarrow> db_le d f"
  unfolding db_le_def by (blast intro: map_grows_trans run_le_trans)

lemma facts_le_same:
  "tasks r' = tasks r \<Longrightarrow> inputs r' = inputs r \<Longrightarrow> operations r' = operations r \<Longrightarrow> artifacts r' = artifacts r \<Longrightarrow>
     facts_le r r'"
  by (simp add: facts_le_def map_grows_refl)

lemma signal_run_le:
  assumes "signal_check r input = Inr r'"
  shows "run_le r r' \<and> authority r' = authority r \<and> (status r' = RunWaiting \<longrightarrow> False)"
proof -
  note sf = signal_check_fields[OF assms]
  have "map_grows input_kept (map_of (inputs r)) (map_of (inputs r'))"
    unfolding sf(7) by (rule map_grows_upd) (use sf(5) in auto)
  then show ?thesis
    using sf by (auto simp: run_le_def facts_le_def signalled_def Let_def map_grows_refl
        intro: history_le_same[where new = "[]"])
qed

lemma schedule_run_le:
  "claim_update a ttl now r = Inr r' \<Longrightarrow> run_le r r' \<and> fence_step r r' \<and> status r' = RunRunning"
  "renew_update a ttl now r = Inr r' \<Longrightarrow> run_le r r' \<and> authority r' = authority r"
  "release_update a now r = Inr r' \<Longrightarrow> run_le r r' \<and> authority r' = authority r"
  "cancel_update scope rid reason now r = Inr r' \<Longrightarrow> run_le r r' \<and> fence_step r r' \<and> terminal (status r')"
  by (auto simp: claim_update_def renew_update_def release_update_def cancel_update_def run_le_def fence_step_def
      Let_def terminal_def facts_le_same split: if_splits intro: history_le_same)

lemma commit_run_le:
  assumes "apply_commit dg cur req now = Inr (nxt, rc)"
  shows "run_le cur nxt \<and> authority nxt = authority cur"
  using apply_commit_effect(1-5)[OF assms] apply_commit_guard(4)[OF assms] apply_commit_history[OF assms]
  by (simp add: run_le_def)

text \<open>A transition writes at most one run, and that in one of these ways.\<close>

lemma db_step_run:
  assumes "db_step dg d d'" "runs d' k = Some r'"
  shows "runs d k = Some r' \<or>
    (\<exists>r. runs d k = Some r \<and> run_le r r' \<and> fence_step r r') \<or>
    runs d k = None \<and> (\<exists>req dgst. k = (su_scope req, su_run_id req) \<and> r' = submitted_run req dgst)"
  using assms
proof (cases rule: db_step.cases)
  case (step_commit req cur now nxt rc)
  then show ?thesis using assms(2) commit_run_le[OF step_commit(3)] by (auto simp: fence_step_def split: if_splits)
next
  case (step_submit req dgst)
  then show ?thesis using assms(2) by (auto split: if_splits)
next
  case (step_signal scope rid r input r')
  then show ?thesis using assms(2) signal_run_le[OF step_signal(6)] by (auto simp: fence_step_def split: if_splits)
next
  case (step_claim scope rid r a ttl now r')
  then show ?thesis using assms(2) schedule_run_le(1)[OF step_claim(4)] by (auto split: if_splits)
next
  case (step_renew scope rid r a ttl now r')
  then show ?thesis using assms(2) schedule_run_le(2)[OF step_renew(2)] by (auto simp: fence_step_def split: if_splits)
next
  case (step_release scope rid r a now r')
  then show ?thesis using assms(2) schedule_run_le(3)[OF step_release(2)] by (auto simp: fence_step_def split: if_splits)
next
  case (step_cancel scope rid r reason now r')
  then show ?thesis using assms(2) schedule_run_le(4)[OF step_cancel(2)] by (auto split: if_splits)
next
  case (step_archive rc)
  then show ?thesis using assms(2) by simp
qed

lemma db_step_forward:
  assumes "db_step dg d d'" "runs d k = Some r"
  shows "\<exists>r'. runs d' k = Some r' \<and> run_le r r' \<and> fence_step r r'"
proof -
  have "runs d' k \<noteq> None" using assms by (cases rule: db_step.cases) auto
  then obtain r' where r': "runs d' k = Some r'" by blast
  show ?thesis
    using db_step_run[OF assms(1) r'] assms(2) r' by (auto simp: fence_step_def)
qed

lemma db_step_le:
  assumes "db_step dg d d'"
  shows "db_le d d'"
proof -
  have "map_grows run_le (runs d) (runs d')"
    unfolding map_grows_def using db_step_forward[OF assms] by blast
  moreover have "map_grows (=) (commits d) (commits d') \<and> map_grows (=) (accepted_inputs d) (accepted_inputs d') \<and>
      map_grows (=) (op_receipts d) (op_receipts d')"
    using assms by (cases rule: db_step.cases) (auto simp: map_grows_def)
  ultimately show ?thesis by (simp add: db_le_def)
qed

lemma db_steps_le: "db_steps dg d d' \<Longrightarrow> db_le d d'"
  by (induction rule: rtranclp_induct) (auto intro: db_le_trans db_step_le)

lemma db_steps_run: "db_steps dg d d' \<Longrightarrow> runs d k = Some r \<Longrightarrow> \<exists>r'. runs d' k = Some r' \<and> run_le r r'"
  using db_steps_le[of dg d d'] map_growsD[of run_le "runs d" "runs d'" k r] by (simp add: db_le_def)

text \<open>The fence counts the changes of authority.\<close>

lemma fence_count:
  assumes "(db_step dg ^^ n) d d'" "runs d k = Some r" "runs d' k = Some r'"
  shows "\<exists>c \<le> n. fence (authority r') = fence (authority r) + of_nat c \<and> (c = 0 \<longrightarrow> authority r' = authority r)"
  using assms(1,3)
proof (induction n arbitrary: d' r')
  case 0
  then show ?case using assms(2) by simp
next
  case (Suc n)
  then obtain e where e: "(db_step dg ^^ n) d e" "db_step dg e d'" by auto
  obtain s where s: "runs e k = Some s"
    using db_steps_run[OF _ assms(2)] relpowp_imp_rtranclp[OF e(1)] by blast
  obtain c where c: "c \<le> n" "fence (authority s) = fence (authority r) + of_nat c"
    "c = 0 \<longrightarrow> authority s = authority r" using Suc.IH[OF e(1) s] by blast
  obtain r2 where r2: "runs d' k = Some r2" "fence_step s r2" using db_step_forward[OF e(2) s] by blast
  then have st: "fence_step s r'" using Suc.prems(2) by simp
  show ?case
  proof (cases "authority r' = authority s")
    case True
    then show ?thesis using c by (intro exI[of _ c]) auto
  next
    case False
    then have "fence (authority r') = fence (authority r) + of_nat (Suc c)"
      using st c(2) by (simp add: fence_step_def)
    then show ?thesis using c(1) by (intro exI[of _ "Suc c"]) simp
  qed
qed

text \<open>The invariant of reachable databases.\<close>

definition store_inv :: "db \<Rightarrow> bool" where
  "store_inv d \<longleftrightarrow> (\<forall>k r. runs d k = Some r \<longrightarrow> k = (run_scope r, run_id r) \<and>
     (status r = RunWaiting \<longrightarrow> (\<forall>i x. map_of (inputs r) i = Some x \<longrightarrow> \<not> input_wakes r x)))"

definition run_ok :: "run_record \<Rightarrow> bool" where
  "run_ok r \<longleftrightarrow> (status r = RunWaiting \<longrightarrow> (\<forall>i x. map_of (inputs r) i = Some x \<longrightarrow> \<not> input_wakes r x))"

lemma store_inv_run: "store_inv d \<longleftrightarrow> (\<forall>k r. runs d k = Some r \<longrightarrow> k = (run_scope r, run_id r) \<and> run_ok r)"
  by (simp add: store_inv_def run_ok_def)

lemma store_inv_upd:
  assumes "store_inv d" "k = (run_scope r, run_id r)" "run_ok r" "runs d' = (runs d)(k \<mapsto> r)"
  shows "store_inv d'"
  unfolding store_inv_run
proof (intro allI impI)
  fix k' r'
  assume r': "runs d' k' = Some r'"
  show "k' = (run_scope r', run_id r') \<and> run_ok r'"
  proof (cases "k' = k")
    case True
    then have "r' = r" using r' assms(4) by simp
    then show ?thesis using True assms(2,3) by simp
  next
    case False
    then have "runs d k' = Some r'" using r' assms(4) by simp
    then show ?thesis using assms(1) unfolding store_inv_run by blast
  qed
qed

lemma run_ok_same:
  "status r' = status r \<Longrightarrow> inputs r' = inputs r \<Longrightarrow> waiting_targets r' = waiting_targets r \<Longrightarrow> run_ok r \<Longrightarrow> run_ok r'"
  by (simp add: run_ok_def input_wakes_def is_waiting_target_def)

lemma run_ok_schedule:
  "claim_update a ttl now r = Inr r' \<Longrightarrow> run_ok r'"
  "renew_update a ttl now r = Inr r' \<Longrightarrow> run_ok r \<Longrightarrow> run_ok r'"
  "release_update a now r = Inr r' \<Longrightarrow> run_ok r \<Longrightarrow> run_ok r'"
  "cancel_update scope rid reason now r = Inr r' \<Longrightarrow> run_ok r'"
proof -
  show "claim_update a ttl now r = Inr r' \<Longrightarrow> run_ok r'"
    by (auto simp: claim_update_def run_ok_def split: if_splits)
  show "renew_update a ttl now r = Inr r' \<Longrightarrow> run_ok r \<Longrightarrow> run_ok r'"
    by (rule run_ok_same) (auto simp: renew_update_def split: if_splits)
  show "run_ok r'" if u: "release_update a now r = Inr r'" and ok: "run_ok r"
  proof (cases "status r = RunRunning")
    case True
    then show ?thesis using u by (auto simp: release_update_def run_ok_def split: if_splits)
  next
    case False
    show ?thesis by (rule run_ok_same[OF _ _ _ ok]) (use u False in \<open>auto simp: release_update_def split: if_splits\<close>)
  qed
  show "cancel_update scope rid reason now r = Inr r' \<Longrightarrow> run_ok r'"
    by (auto simp: cancel_update_def run_ok_def Let_def terminal_def split: if_splits)
qed

lemma store_inv_step:
  assumes "db_step dg d d'" and inv: "store_inv d"
  shows "store_inv d'"
  using assms(1)
proof (cases rule: db_step.cases)
  case (step_commit req cur now nxt rc)
  have key: "run_key req = (run_scope nxt, run_id nxt)"
    using apply_commit_guard(1,2)[OF step_commit(3)] apply_commit_effect(2,3)[OF step_commit(3)]
    by (simp add: run_key_def)
  have "run_ok nxt" using apply_commit_effect(10)[OF step_commit(3)] by (simp add: run_ok_def)
  then show ?thesis using step_commit(4) by (intro store_inv_upd[OF inv key]) simp_all
next
  case (step_submit req dgst)
  have "run_ok (submitted_run req dgst)" by (simp add: run_ok_def submitted_run_def)
  then show ?thesis using step_submit(3)
    by (intro store_inv_upd[OF inv, where k = "(su_scope req, su_run_id req)"]) (simp_all add: submitted_run_def)
next
  case (step_signal scope rid r input r')
  have "run_ok r'" using signal_run_le[OF step_signal(6)] by (simp add: run_ok_def)
  then show ?thesis using step_signal signal_check_fields(1,2)[OF step_signal(6)]
    by (intro store_inv_upd[OF inv, where k = "(scope, rid)" and r = r']) simp_all
next
  case (step_claim scope rid r a ttl now r')
  have "run_ok r'" by (rule run_ok_schedule(1)[OF step_claim(4)])
  then show ?thesis using step_claim inv schedule_run_le(1)[OF step_claim(4)]
    by (intro store_inv_upd[OF inv, where k = "(scope, rid)" and r = r']) (auto simp: store_inv_run run_le_def)
next
  case (step_renew scope rid r a ttl now r')
  have "run_ok r'" using run_ok_schedule(2)[OF step_renew(2)] inv step_renew(1) by (auto simp: store_inv_run)
  then show ?thesis using step_renew inv schedule_run_le(2)[OF step_renew(2)]
    by (intro store_inv_upd[OF inv, where k = "(scope, rid)" and r = r']) (auto simp: store_inv_run run_le_def)
next
  case (step_release scope rid r a now r')
  have "run_ok r'" using run_ok_schedule(3)[OF step_release(2)] inv step_release(1) by (auto simp: store_inv_run)
  then show ?thesis using step_release inv schedule_run_le(3)[OF step_release(2)]
    by (intro store_inv_upd[OF inv, where k = "(scope, rid)" and r = r']) (auto simp: store_inv_run run_le_def)
next
  case (step_cancel scope rid r reason now r')
  have "run_ok r'" by (rule run_ok_schedule(4)[OF step_cancel(2)])
  then show ?thesis using step_cancel inv schedule_run_le(4)[OF step_cancel(2)]
    by (intro store_inv_upd[OF inv, where k = "(scope, rid)" and r = r']) (auto simp: store_inv_run run_le_def)
next
  case (step_archive rc)
  then show ?thesis using inv by (simp add: store_inv_run)
qed

lemma store_inv_reachable: "db_steps dg empty_db d \<Longrightarrow> store_inv d"
proof (induction rule: rtranclp_induct)
  case base
  then show ?case by (simp add: store_inv_def empty_db_def)
next
  case (step d e)
  then show ?case using store_inv_step by blast
qed


subsection \<open>Outcomes of a commit call\<close>

lemma recover_receipt_result:
  assumes "recover_receipt env d req e u = (d', res)"
  shows "d' = meanwhile3 env d \<and>
    (case res of
       Inr rc \<Rightarrow> commits d' (commit_key req) = Some rc \<and> rc_digest rc = cr_digest req \<and> rc_run_id rc = cr_run_id req
     | Inl x \<Rightarrow> x = ErrCommitUnknown \<or>
         (\<forall>rc. commits d' (commit_key req) = Some rc \<longrightarrow> rc_digest rc \<noteq> cr_digest req \<or> rc_run_id rc \<noteq> cr_run_id req))"
proof (cases "fail_recover env")
  case True
  then show ?thesis using assms by (auto simp: recover_receipt_def Let_def)
next
  case False
  show ?thesis
  proof (cases "commits (meanwhile3 env d) (commit_key req)")
    case None
    then show ?thesis using assms False by (auto simp: recover_receipt_def Let_def)
  next
    case (Some rc)
    then show ?thesis using assms False
      by (cases "rc_run_id rc \<noteq> cr_run_id req \<or> rc_digest rc \<noteq> cr_digest req")
        (auto simp: recover_receipt_def check_receipt_def Let_def)
  qed
qed

text \<open>What a call may answer, given the database it leaves.\<close>

definition outcome_sound :: "db \<Rightarrow> commit_request \<Rightarrow> runtime_error + commit_receipt \<Rightarrow> bool" where
  "outcome_sound d req res \<longleftrightarrow> (case res of
     Inr rc \<Rightarrow> commits d (commit_key req) = Some rc \<and> rc_digest rc = cr_digest req \<and> rc_run_id rc = cr_run_id req
   | Inl e \<Rightarrow> e = ErrCommitUnknown \<or>
       (\<forall>rc. commits d (commit_key req) = Some rc \<longrightarrow> rc_digest rc \<noteq> cr_digest req \<or> rc_run_id rc \<noteq> cr_run_id req))"

lemma recover_sound: "recover_receipt env d req e u = (d', res) \<Longrightarrow> outcome_sound d' req res"
  using recover_receipt_result unfolding outcome_sound_def by blast

lemma check_sound: "commits d (commit_key req) = Some rc \<Longrightarrow> outcome_sound d req (check_receipt rc req)"
  by (auto simp: outcome_sound_def check_receipt_def)

lemma write_commit_sound:
  assumes ap: "apply_commit dg cur req now = Inr (nxt, rc)" and w: "write_commit env d req cur nxt rc = (d', res)"
  shows "outcome_sound d' req res"
proof (cases "if fail_write env then Inl (DatabaseError ''write'') else update_row d nxt (revision cur)")
  case (Inl e)
  then show ?thesis using w by (auto simp: write_commit_def intro: recover_sound)
next
  case r1: (Inr d1)
  show ?thesis
  proof (cases "if fail_insert env then Inl (DatabaseError ''insert'') else insert_commit d1 (commit_key req) rc")
    case (Inl e)
    then show ?thesis using w r1 by (auto simp: write_commit_def intro: recover_sound)
  next
    case r2: (Inr d2)
    have c: "commits d2 (commit_key req) = Some rc"
      using r2 by (auto simp: insert_commit_def split: if_splits)
    have ids: "rc_digest rc = cr_digest req" "rc_run_id rc = cr_run_id req"
      using apply_commit_effect(14,16)[OF ap] by simp_all
    show ?thesis
    proof (cases "tx_result env")
      case TxApplied
      then show ?thesis using w r1 r2 c ids by (auto simp: write_commit_def outcome_sound_def)
    next
      case TxLost
      then show ?thesis using w r1 r2 by (auto simp: write_commit_def intro: recover_sound)
    next
      case TxAppliedUnseen
      then show ?thesis using w r1 r2 by (auto simp: write_commit_def intro: recover_sound)
    next
      case TxDelayed
      have "commits d1 = commits d" using r1 update_row_Inr[of d nxt "revision cur" d1] by (auto split: if_splits)
      then have "commits d (commit_key req) = None" using r2 by (auto simp: insert_commit_def split: if_splits)
      then show ?thesis using w r1 r2 TxDelayed
        by (auto simp: write_commit_def recover_receipt_def outcome_sound_def)
    qed
  qed
qed

lemma commit_locked_sound:
  assumes "commit_locked dg env d req = (d', res)"
  shows "outcome_sound d' req res"
proof (cases "if fail_load env then Inl (DatabaseError ''load'') else load_run d (cr_scope req) (cr_run_id req)")
  case (Inl e)
  then show ?thesis using assms by (auto simp: commit_locked_def intro: recover_sound)
next
  case o1: (Inr o1)
  show ?thesis
  proof (cases o1)
    case None
    then show ?thesis using assms o1 by (auto simp: commit_locked_def intro: recover_sound)
  next
    case cur: (Some cur)
    show ?thesis
    proof (cases "fail_now env")
      case True
      then show ?thesis using assms o1 cur by (auto simp: commit_locked_def intro: recover_sound)
    next
      case now: False
      show ?thesis
      proof (cases "apply_commit dg cur req (clock env)")
        case (Inl e)
        show ?thesis
        proof (cases "commits (meanwhile3 env d) (commit_key req)")
          case None
          then show ?thesis using assms o1 cur now Inl
            by (auto simp: commit_locked_def Let_def outcome_sound_def)
        next
          case (Some rc)
          then show ?thesis using assms o1 cur now Inl check_sound[OF Some]
            by (cases "fail_recover env") (auto simp: commit_locked_def Let_def outcome_sound_def)
        qed
      next
        case (Inr nr)
        then obtain nxt rc where nr: "apply_commit dg cur req (clock env) = Inr (nxt, rc)" by (cases nr) auto
        then show ?thesis using assms o1 cur now write_commit_sound[OF nr, of env d d' res]
          by (simp add: commit_locked_def)
      qed
    qed
  qed
qed

lemma commit_store_sound:
  assumes "validate_commit dg req = None" "commit_store dg env d req = (d', res)"
  shows "outcome_sound d' req res"
proof (cases "fail_first env")
  case True
  then show ?thesis using assms by (auto simp: commit_store_def outcome_sound_def)
next
  case f: False
  show ?thesis
  proof (cases "commits d (commit_key req)")
    case (Some rc)
    then show ?thesis using assms f check_sound[OF Some] by (auto simp: commit_store_def)
  next
    case n: None
    show ?thesis
    proof (cases "fail_begin env")
      case True
      then show ?thesis using assms f n by (auto simp: commit_store_def Let_def intro: recover_sound)
    next
      case b: False
      show ?thesis
      proof (cases "fail_lookup env")
        case True
        then show ?thesis using assms f n b by (auto simp: commit_store_def Let_def outcome_sound_def)
      next
        case l: False
        show ?thesis
        proof (cases "commits (meanwhile1 env d) (commit_key req)")
          case None
          then have "commit_locked dg env (meanwhile2 env (meanwhile1 env d)) req = (d', res)"
            using assms f n b l by (simp add: commit_store_def Let_def)
          then show ?thesis by (rule commit_locked_sound)
        next
          case (Some rc)
          then show ?thesis using assms f n b l check_sound[OF Some] by (auto simp: commit_store_def Let_def)
        qed
      qed
    qed
  qed
qed

subsection \<open>Reading events\<close>

lemma events_after_acc:
  assumes "limit \<le> 0 \<or> int (length acc) < limit"
  shows "events_after es aft limit acc =
    acc @ (let rest = filter (\<lambda>e. aft < ev_sequence e) es
           in if 0 < limit then take (nat limit - length acc) rest else rest)"
  using assms
proof (induction es arbitrary: acc)
  case (Cons e es)
  show ?case
  proof (cases "ev_sequence e \<le> aft")
    case True
    then show ?thesis using Cons by simp
  next
    case False
    show ?thesis
    proof (cases "0 < limit \<and> limit \<le> int (length (acc @ [e]))")
      case True
      then have "nat limit - length acc = 1" using Cons.prems by simp
      then show ?thesis using False True by simp
    next
      case nl: False
      then have "limit \<le> 0 \<or> int (length (acc @ [e])) < limit" by auto
      note ih = Cons.IH[OF this]
      have "nat limit - length acc = Suc (nat limit - length (acc @ [e]))" if "0 < limit" using nl that by auto
      then show ?thesis using False nl ih by (auto simp: Let_def)
    qed
  qed
qed simp

lemma filter_sequences:
  "map f xs = [k + 1..n] \<Longrightarrow> k \<le> aft \<Longrightarrow> aft \<le> n \<Longrightarrow>
     map f (filter (\<lambda>e. aft < f e) xs) = [aft + 1..(n :: int)]"
proof (induction xs arbitrary: k)
  case (Cons x xs)
  then have kn: "k + 1 \<le> n" by (metis list.distinct(1) list.simps(9) not_le upto_empty)
  then have "[k + 1..n] = (k + 1) # [k + 1 + 1..n]" by (simp add: upto_rec1)
  then have x: "f x = k + 1" "map f xs = [k + 1 + 1..n]" using Cons.prems(1) by (metis list.inject list.simps(9))+
  show ?case
  proof (cases "aft = k")
    case True
    have "\<forall>e \<in> set xs. aft < f e"
    proof
      fix e
      assume "e \<in> set xs"
      then have "f e \<in> set [k + 1 + 1..n]" using x(2) by (metis image_eqI set_map)
      then show "aft < f e" using True by simp
    qed
    then have "filter (\<lambda>e. aft < f e) (x # xs) = x # xs" using x(1) True by (simp add: filter_id_conv)
    then show ?thesis using Cons.prems(1) True by simp
  next
    case False
    then have "k + 1 \<le> aft" using Cons.prems(2) by simp
    then show ?thesis using Cons.IH[OF x(2)] Cons.prems(3) x(1) by simp
  qed
qed simp

lemma take_upto: "take m [i..j] = [i..min j (i + int m - 1)]"
proof (induction m arbitrary: i)
  case (Suc m)
  show ?case
  proof (cases "i \<le> j")
    case True
    then have "take (Suc m) [i..j] = i # [i + 1..min j (i + 1 + int m - 1)]" using Suc by (simp add: upto_rec1)
    moreover have "[i..min j (i + int (Suc m) - 1)] = i # [i + 1..min j (i + int (Suc m) - 1)]"
      using True by (subst upto_rec1) auto
    ultimately show ?thesis by (simp add: algebra_simps)
  qed simp
qed simp


subsection \<open>A quiet environment for the witnesses\<close>

definition quiet_env :: "gotime \<Rightarrow> environment" where
  "quiet_env now = \<lparr>fail_first = False, fail_begin = False, fail_lookup = False, fail_load = False,
     fail_now = False, clock = now, fail_write = False, fail_insert = False, tx_result = TxApplied,
     fail_recover = False, meanwhile1 = (\<lambda>d. d), meanwhile2 = (\<lambda>d. d), meanwhile3 = (\<lambda>d. d)\<rparr>"

lemma quiet_fair: "fair_env dg (quiet_env now)"
  by (simp add: fair_env_def quiet_env_def)

definition sample_db :: db where
  "sample_db = empty_db\<lparr>runs := [(''s'', ''r'') \<mapsto> sample_run]\<rparr>"

lemma sample_valid: "validate_commit sample_digest sample_request = None"
  by code_simp

lemma sample_step:
  obtains nxt rc d where "apply_commit sample_digest sample_run sample_request 5 = Inr (nxt, rc)"
    "revision nxt = 8" "status nxt = RunWaiting" "db_step sample_digest sample_db d"
    "runs d (''s'', ''r'') = Some nxt" "commits d (''s'', ''c1'') = Some rc"
proof (rule sample_commit)
  fix nxt rc
  assume a: "apply_commit sample_digest sample_run sample_request 5 = Inr (nxt, rc)" "revision nxt = 8"
    "status nxt = RunWaiting"
  define d where "d = sample_db\<lparr>runs := (runs sample_db)(run_key sample_request \<mapsto> nxt),
     commits := (commits sample_db)(commit_key sample_request \<mapsto> rc)\<rparr>"
  have k: "run_key sample_request = (''s'', ''r'')" "commit_key sample_request = (''s'', ''c1'')"
    by (simp_all add: run_key_def commit_key_def sample_request_def)
  have "db_step sample_digest sample_db d"
    by (rule step_commit[where cur = sample_run, OF _ _ a(1)])
      (simp_all add: d_def k sample_db_def empty_db_def)
  then show thesis using that[OF a] k by (simp add: d_def)
qed

subsection \<open>Properties\<close>

text \<open>
  C1: Refinement. Whatever queries, writes and commits fail in a call, and whatever other connections
  do meanwhile through transactions of their own, each handler of the store takes the database along
  a sequence of the atomic transitions of \<open>db_step\<close>: no partial write of a run, a commit or an
  accepted input is ever visible.
\<close>

theorem handlers_refine_steps:
  assumes "fair_env dg env"
  shows "db_steps dg d (fst (commit_store dg env d req)) \<and>
    db_steps dg d (fst (submit json_valid content_digest sub_digest env d sub)) \<and>
    db_steps dg d (fst (signal signal_digest env d scope rid input)) \<and>
    db_steps dg d (fst (claim env d scope rid a ttl)) \<and>
    db_steps dg d (fst (renew env d scope rid a ttl)) \<and>
    db_steps dg d (fst (release env d scope rid a)) \<and>
    db_steps dg d (fst (cancel env d scope rid reason)) \<and>
    db_steps dg d (fst (archive_receipt receipt_digest env d rc))"
  using assms
  by (intro conjI commit_store_steps submit_steps signal_steps claim_steps renew_steps release_steps cancel_steps
      archive_steps)

theorem handlers_refine_steps_witness:
  "db_steps sample_digest sample_db (fst (commit_store sample_digest (quiet_env 5) sample_db sample_request))"
  using handlers_refine_steps[OF quiet_fair] by blast

text \<open>
  C11: What a commit call may answer. For a sealed request, in every environment: a receipt is
  returned only when the database holds it under the commit's identity and it is this request's (same
  run and digest); an error other than the unknown-outcome error means that the database holds no
  receipt of this request; so a caller that gets a definite error can decide, and one that gets
  the unknown-outcome error must ask again.
\<close>

theorem commit_answers_sound:
  assumes "validate_commit dg req = None" and "commit_store dg env d req = (d', res)"
  shows "case res of
      Inr rc \<Rightarrow> commits d' (commit_key req) = Some rc \<and> rc_digest rc = cr_digest req \<and> rc_run_id rc = cr_run_id req
    | Inl e \<Rightarrow> e = ErrCommitUnknown \<or>
        (\<forall>rc. commits d' (commit_key req) = Some rc \<longrightarrow> rc_digest rc \<noteq> cr_digest req \<or> rc_run_id rc \<noteq> cr_run_id req)"
  using commit_store_sound[OF assms] by (simp add: outcome_sound_def)

theorem commit_answers_sound_witness:
  "\<exists>d' rc. commit_store sample_digest (quiet_env 5) sample_db sample_request = (d', Inr rc) \<and>
     commits d' (''s'', ''c1'') = Some rc \<and> rc_revision rc = 8"
proof -
  have "case commit_store sample_digest (quiet_env 5) sample_db sample_request of
      (d', Inr rc) \<Rightarrow> rc_revision rc = 8 | (d', Inl e) \<Rightarrow> False" by code_simp
  then obtain d' rc where r: "commit_store sample_digest (quiet_env 5) sample_db sample_request = (d', Inr rc)"
    "rc_revision rc = 8" by (auto split: prod.splits sum.splits)
  show ?thesis using commit_answers_sound[OF sample_valid r(1)] r
    by (simp add: commit_key_def sample_request_def)
qed

text \<open>
  Commits are idempotent. Once a receipt is stored under a commit's identity, calling \<open>Commit\<close>
  with that identity changes nothing, now or after any further transitions (cancellation, a new
  claim, other commits), and unless the lookup fails it answers with the stored receipt, or with the
  conflict error when the request is a different one.
\<close>

lemma commit_idempotent:
  assumes "commits d (commit_key req) = Some rc" and "db_steps dg d d'" and "validate_commit dg req = None"
  shows "fst (commit_store dg env d' req) = d' \<and>
    (\<not> fail_first env \<longrightarrow> snd (commit_store dg env d' req) =
      (if rc_run_id rc = cr_run_id req \<and> rc_digest rc = cr_digest req then Inr rc else Inl ErrCommitConflict))"
proof -
  have "map_grows (=) (commits d) (commits d')" using db_steps_le[OF assms(2)] by (simp add: db_le_def)
  from map_growsD[OF this assms(1)] have "commits d' (commit_key req) = Some rc" by simp
  then show ?thesis using assms(3) by (auto simp: commit_store_def check_receipt_def)
qed

lemma commit_idempotent_example:
  "\<exists>d rc. db_step sample_digest sample_db d \<and> commit_store sample_digest (quiet_env 500) d sample_request = (d, Inr rc)"
proof (rule sample_step)
  fix nxt rc d
  assume s: "apply_commit sample_digest sample_run sample_request 5 = Inr (nxt, rc)"
    "db_step sample_digest sample_db d" "commits d (''s'', ''c1'') = Some rc"
  have c: "commits d (commit_key sample_request) = Some rc"
    using s(3) by (simp add: commit_key_def sample_request_def)
  have ids: "rc_run_id rc = cr_run_id sample_request" "rc_digest rc = cr_digest sample_request"
    using apply_commit_effect(14,16)[OF s(1)] by simp_all
  show ?thesis
    using commit_idempotent[OF c _ sample_valid, of d "quiet_env 500"] ids s(2)
    by (intro exI[of _ d] exI[of _ rc]) (simp add: quiet_env_def prod_eq_iff)
qed

text \<open>
  C12: History is kept. Along any sequence of transitions no run, receipt, accepted input or archived
  receipt disappears; receipts, accepted inputs and archived receipts never change. Of each run
  (\<open>run_le\<close>): identity and specification stay; events are only appended to; an activated task stays
  activated, by the same activation at the same input revision, and by the same attempt once it has
  a result; a task's result stays, and stays adopted once adopted; an input stays, and stays
  consumed once consumed; an operation keeps its identity, input digest, provider and key, and
  everything once it succeeded (until then its status and result may be replaced); an artifact
  keeps its digest, object key and version and does not regress; and a terminal run changes in nothing but its lease.
\<close>

theorem store_keeps_history:
  assumes "db_steps dg d d'"
  shows "map_grows run_le (runs d) (runs d') \<and> map_grows (=) (commits d) (commits d') \<and>
    map_grows (=) (accepted_inputs d) (accepted_inputs d') \<and> map_grows (=) (op_receipts d) (op_receipts d')"
  using db_steps_le[OF assms] by (simp add: db_le_def)

theorem store_keeps_history_witness:
  "\<exists>d r. db_step sample_digest sample_db d \<and> runs d (''s'', ''r'') = Some r \<and> run_le sample_run r"
proof (rule sample_step)
  fix nxt rc d
  assume s: "db_step sample_digest sample_db d"
  have "map_grows run_le (runs sample_db) (runs d)" using store_keeps_history[OF r_into_rtranclp[of "db_step sample_digest", OF s]] by blast
  then have "\<exists>r. runs d (''s'', ''r'') = Some r \<and> run_le sample_run r"
    by (rule map_growsD) (simp add: sample_db_def)
  then show ?thesis using s by blast
qed

text \<open>
  C2: A superseded worker can never write again. If the authority of a run changed between two states
  of the database, then in every later state fewer than 2^64 transitions on it is different from what
  it was at first (the fence counts the changes), so a commit that still carries the old authority
  is refused.
\<close>

theorem stale_authority_refused:
  assumes "(db_step dg ^^ m) d0 d1" and "(db_step dg ^^ n) d1 d2" and "m + n < 2 ^ 64"
    and "runs d0 k = Some r0" and "runs d1 k = Some r1" and "runs d2 k = Some r2"
    and "authority r1 \<noteq> authority r0" and "cr_authority req = authority r0"
  shows "authority r2 \<noteq> authority r0 \<and> (\<exists>e. apply_commit dg r2 req now = Inl e)"
proof -
  obtain c1 where c1: "c1 \<le> m" "fence (authority r1) = fence (authority r0) + of_nat c1"
    "c1 = 0 \<longrightarrow> authority r1 = authority r0" using fence_count[OF assms(1,4,5)] by blast
  obtain c2 where c2: "c2 \<le> n" "fence (authority r2) = fence (authority r1) + of_nat c2"
    using fence_count[OF assms(2,5,6)] by blast
  have "0 < c1 + c2" "c1 + c2 < 2 ^ 64" using c1 c2(1) assms(3,7) by auto
  then have "(of_nat (c1 + c2) :: uint64) \<noteq> 0"
    unfolding word_of_nat_eq_0_iff by (intro nat_dvd_not_less) simp_all
  then have ne: "authority r2 \<noteq> authority r0" using c1(2) c2(2) by (auto simp: add.assoc)
  have "\<not> (\<exists>x. apply_commit dg r2 req now = Inr x)"
    using apply_commit_guard(5)[of dg r2 req now] ne assms(8) by fastforce
  then show ?thesis using ne by (meson sum.exhaust)
qed

theorem stale_authority_refused_witness:
  "\<exists>d r. (db_step sample_digest ^^ 1) sample_db d \<and> runs d (''s'', ''r'') = Some r \<and>
     (\<exists>e. apply_commit sample_digest r sample_request 5 = Inl e)"
proof -
  have cu: "\<exists>r. cancel_update ''s'' ''r'' ''stop'' 5 sample_run = Inr r \<and> authority r \<noteq> sample_authority"
    by (simp add: cancel_update_def sample_run_def sample_authority_def terminal_def Let_def)
  then obtain r where r: "cancel_update ''s'' ''r'' ''stop'' 5 sample_run = Inr r" "authority r \<noteq> sample_authority"
    by blast
  define d where "d = sample_db\<lparr>runs := (runs sample_db)((''s'', ''r'') \<mapsto> r)\<rparr>"
  have r0: "runs sample_db (''s'', ''r'') = Some sample_run" by (simp add: sample_db_def)
  have s: "(db_step sample_digest ^^ 1) sample_db d"
    unfolding d_def relpowp_1 by (rule step_cancel[OF r0 r(1) refl])
  have r1: "runs d (''s'', ''r'') = Some r" by (simp add: d_def)
  have "authority r \<noteq> authority sample_run" "cr_authority sample_request = authority sample_run"
    using r(2) by (simp_all add: sample_run_def sample_request_def)
  from stale_authority_refused[where m = 1 and n = 0 and dg = sample_digest, OF s _ _ r0 r1 r1 this, of 5]
  have "\<exists>e. apply_commit sample_digest r sample_request 5 = Inl e" by simp
  then show ?thesis using s r1 by blast
qed

text \<open>
  C6: Exactly once, across the life of a run. When a commit that adopts tasks and consumes inputs has
  been applied (its revision not being zero), no commit applied to the run in any later state adopts
  one of those tasks or consumes one of those inputs again.
\<close>

theorem exactly_once_forever:
  assumes "apply_commit dg r0 req0 t0 = Inr (r1, rc1)" and "revision r1 \<noteq> 0" and "runs d1 k = Some r1"
    and "db_steps dg d1 d2" and "runs d2 k = Some r2" and "apply_commit dg r2 req2 t2 = Inr (r3, rc3)"
    and "revision r3 \<noteq> 0"
  shows "set (cr_adopt req0) \<inter> set (cr_adopt req2) = {} \<and> set (cr_consume req0) \<inter> set (cr_consume req2) = {}"
proof -
  have le: "facts_le r1 r2" using db_steps_run[OF assms(4,3)] assms(5) by (auto simp: run_le_def)
  obtain ra where ra: "commit_facts req0 r0 = Inr ra" "tasks r1 = tasks ra" "inputs r1 = inputs ra"
    using apply_commit_effect(12)[OF assms(1)] by blast
  obtain rb where rb: "commit_facts req2 r2 = Inr rb" using apply_commit_effect(12)[OF assms(6)] by blast
  have nz: "revision r0 + 1 \<noteq> 0" "revision r2 + 1 \<noteq> 0"
    using assms(2,7) apply_commit_effect(8)[OF assms(1)] apply_commit_effect(8)[OF assms(6)] by simp_all
  note s0 = commit_facts_stamps[OF ra(1) nz(1)] and s2 = commit_facts_stamps[OF rb nz(2)]
  have "i \<notin> set (cr_adopt req2)" if i: "i \<in> set (cr_adopt req0)" for i
  proof
    assume j: "i \<in> set (cr_adopt req2)"
    obtain t where t: "tasks r1 i = Some t" "tr_adopted t = revision r0 + 1" using s0(1) i ra(2) by fastforce
    have "map_grows task_kept (tasks r1) (tasks r2)" using le by (simp add: facts_le_def)
    from map_growsD[OF this t(1)] have "tasks r2 i = Some t" using t(2) nz(1) by (auto simp: task_kept_def)
    then show False using s2(1) j t(2) nz(1) by auto
  qed
  moreover have "i \<notin> set (cr_consume req2)" if i: "i \<in> set (cr_consume req0)" for i
  proof
    assume j: "i \<in> set (cr_consume req2)"
    obtain x where x: "map_of (inputs r1) i = Some x" "in_consumed x = revision r0 + 1"
      using s0(2) i ra(3) by fastforce
    have "map_grows input_kept (map_of (inputs r1)) (map_of (inputs r2))" using le by (simp add: facts_le_def)
    from map_growsD[OF this x(1)] have "map_of (inputs r2) i = Some x" using x(2) nz(1) by (auto simp: input_kept_def)
    then show False using s2(2) j x(2) nz(1) by auto
  qed
  ultimately show ?thesis by blast
qed


definition second_request :: commit_request where
  "second_request = sample_request\<lparr>cr_commit_id := ''c2'', cr_digest := ''dc2'', cr_expected_revision := 8,
     cr_status := RunSucceeded, cr_pending_results := [], cr_activate_tasks := [], cr_adopt := [], cr_consume := []\<rparr>"

lemma two_commits:
  obtains n1 rc1 n2 rc2 where "apply_commit sample_digest sample_run sample_request 5 = Inr (n1, rc1)"
    "revision n1 = 8" "apply_commit sample_digest n1 second_request 6 = Inr (n2, rc2)" "revision n2 = 9"
proof -
  have "case apply_commit sample_digest sample_run sample_request 5 of
      Inl _ \<Rightarrow> False
    | Inr (n1, rc1) \<Rightarrow> revision n1 = 8 \<and> (case apply_commit sample_digest n1 second_request 6 of
        Inl _ \<Rightarrow> False | Inr (n2, rc2) \<Rightarrow> revision n2 = 9)"
    by code_simp
  then show thesis using that by (auto split: sum.splits prod.splits)
qed

theorem exactly_once_forever_witness:
  "\<exists>n1 rc1 n2 rc2. apply_commit sample_digest sample_run sample_request 5 = Inr (n1, rc1) \<and>
     apply_commit sample_digest n1 second_request 6 = Inr (n2, rc2) \<and>
     ''t1'' \<in> set (cr_adopt sample_request) \<and> ''t1'' \<notin> set (cr_adopt second_request)"
proof (rule two_commits)
  fix n1 rc1 n2 rc2
  assume c: "apply_commit sample_digest sample_run sample_request 5 = Inr (n1, rc1)" "revision n1 = 8"
    "apply_commit sample_digest n1 second_request 6 = Inr (n2, rc2)" "revision n2 = 9"
  define d where "d = empty_db\<lparr>runs := [(''s'', ''r'') \<mapsto> n1]\<rparr>"
  have r: "runs d (''s'', ''r'') = Some n1" by (simp add: d_def)
  have t: "''t1'' \<in> set (cr_adopt sample_request)" by (simp add: sample_request_def)
  have nz: "revision n1 \<noteq> 0" "revision n2 \<noteq> 0" using c(2,4) by simp_all
  have "set (cr_adopt sample_request) \<inter> set (cr_adopt second_request) = {}"
    using exactly_once_forever[OF c(1) nz(1) r rtranclp.rtrancl_refl r c(3) nz(2)] by blast
  then show ?thesis using c(1,3) t by blast
qed

text \<open>
  C9: No lost wake-up. In every database reachable from the empty one, a run that waits has no
  unconsumed input addressed to a target it waits for, however signals, commits, claims and releases
  are interleaved; and every run is stored under its own identity.
\<close>

theorem no_lost_wakeup_reachable:
  assumes "db_steps dg empty_db d"
  shows "store_inv d"
  by (rule store_inv_reachable[OF assms])

definition sample_submission :: submit_request where
  "sample_submission = \<lparr>su_scope = ''s'', su_input_id = ''i0'', su_run_id = ''r'', su_spec = sample_spec, su_input = ''{}''\<rparr>"

theorem no_lost_wakeup_reachable_witness:
  "\<exists>d. db_step sample_digest empty_db d \<and> runs d (''s'', ''r'') \<noteq> None \<and> store_inv d"
proof -
  define d where "d = empty_db\<lparr>runs := (runs empty_db)((''s'', ''r'') \<mapsto> submitted_run sample_submission ''x''),
    accepted_inputs := (accepted_inputs empty_db)((''s'', ''i0'') \<mapsto> (''r'', ''x''))\<rparr>"
  have s: "db_step sample_digest empty_db d"
    by (rule step_submit[where req = sample_submission and dgst = "''x''"])
      (simp_all add: d_def sample_submission_def empty_db_def)
  have "runs d (''s'', ''r'') \<noteq> None" by (simp add: d_def)
  then show ?thesis using s no_lost_wakeup_reachable[OF r_into_rtranclp[of "db_step sample_digest", OF s]] by blast
qed

lemma cancel_effect:
  assumes "cancel env d scope rid reason = (d', Inr r)"
  shows "runs d' (scope, rid) = Some r \<and> terminal (status r)"
proof -
  obtain r0 where r0: "load_run (meanwhile1 env d) scope rid = Inr (Some r0)"
    "cancel_update scope rid reason (clock env) r0 = Inr r"
    using assms by (auto simp: cancel_def update_run_def Let_def split: if_splits sum.splits option.splits tx_end.splits)
  have t: "terminal (status r)" using schedule_run_le(4)[OF r0(2)] by blast
  have id: "run_scope r = scope" "run_id r = rid" "runs (meanwhile1 env d) (scope, rid) = Some r0"
    using schedule_run_le(4)[OF r0(2)] r0(1) by (auto simp: run_le_def load_run_Some)
  have "d' = meanwhile1 env d \<and> r = r0 \<or> update_row (meanwhile1 env d) r (revision r0) = Inr d'"
    using assms r0 by (auto simp: cancel_def update_run_def Let_def split: if_splits sum.splits tx_end.splits)
  then have "runs d' (scope, rid) = Some r" using id update_row_Inr[of "meanwhile1 env d" r "revision r0" d'] by auto
  then show ?thesis using t by simp
qed

text \<open>
  C13: Cancellation is final. After a cancel call that succeeds, in every later state of the database
  the run is terminal, its events are the ones the call left, and no commit can be applied to it.
\<close>

theorem cancel_is_final:
  assumes "cancel env d scope rid reason = (d', Inr r)" and "db_steps dg d' d2"
  shows "\<exists>r2. runs d2 (scope, rid) = Some r2 \<and> terminal (status r2) \<and> events r2 = events r \<and>
    (\<forall>req now. \<exists>e. apply_commit dg r2 req now = Inl e)"
proof -
  have r: "runs d' (scope, rid) = Some r" "terminal (status r)" using cancel_effect[OF assms(1)] by simp_all
  obtain r2 where r2: "runs d2 (scope, rid) = Some r2" "run_le r r2" using db_steps_run[OF assms(2) r(1)] by blast
  have eq: "r2\<lparr>lease_until := 0\<rparr> = r\<lparr>lease_until := 0\<rparr>" using r2(2) r(2) by (simp add: run_le_def)
  have st: "status r2 = status r" "events r2 = events r" using eq by (cases r; cases r2; simp)+
  have "\<exists>e. apply_commit dg r2 req now = Inl e" for req now
    using apply_commit_guard(4)[of dg r2 req now] st(1) r(2) by (cases "apply_commit dg r2 req now") fastforce+
  then show ?thesis using r2(1) st r(2) by auto
qed

theorem cancel_is_final_witness:
  "\<exists>d r. cancel (quiet_env 5) sample_db ''s'' ''r'' ''stop'' = (d, Inr r) \<and>
     (\<exists>e. apply_commit sample_digest r sample_request 5 = Inl e)"
proof -
  have "case cancel (quiet_env 5) sample_db ''s'' ''r'' ''stop'' of (d, Inr r) \<Rightarrow> revision r = 8 | (d, Inl e) \<Rightarrow> False"
    by (simp add: cancel_def update_run_def quiet_env_def load_run_def sample_db_def sample_run_def empty_db_def
        cancel_update_def terminal_def update_row_def Let_def)
  then obtain d r where c: "cancel (quiet_env 5) sample_db ''s'' ''r'' ''stop'' = (d, Inr r)"
    by (auto split: prod.splits sum.splits)
  have "runs d (''s'', ''r'') = Some r" using cancel_effect[OF c] by simp
  then show ?thesis using cancel_is_final[OF c rtranclp.rtrancl_refl, of sample_digest] c by auto
qed

text \<open>
  What \<open>Runnable\<close> lists can be claimed: a worker that claims a listed run at the same instant, with a
  fresh owner and attempt and a positive lease, obtains it, in the running state with a new fence and
  a lease that has not expired.
\<close>

lemma runnable_is_claimable:
  assumes "i \<in> set (runnable d now ids scope limit)" and "store_inv d"
    and "owner a \<noteq> []" and "attempt a \<noteq> []" and "0 < ttl"
  shows "\<exists>d' r r'. runs d (scope, i) = Some r \<and> claim (quiet_env now) d scope i a ttl = (d', Inr (Some r')) \<and>
    runs d' (scope, i) = Some r' \<and> status r' = RunRunning \<and> owner (authority r') = owner a \<and>
    fence (authority r') = fence (authority r) + 1 \<and> now < lease_until r'"
proof -
  have "i \<in> set (sort (filter (\<lambda>i. case runs d (scope, i) of None \<Rightarrow> False | Some r \<Rightarrow> row_runnable now r) ids))"
    using assms(1) unfolding runnable_def by (rule in_set_takeD)
  then obtain r where r: "runs d (scope, i) = Some r" "row_runnable now r" by (auto split: option.splits)
  have key: "run_scope r = scope" "run_id r = i" using assms(2) r(1) by (auto simp: store_inv_def)
  define r' where "r' = r\<lparr>authority := a\<lparr>fence := fence (authority r) + 1\<rparr>, lease_until := now + ttl,
    status := RunRunning, wake_at := 0\<rparr>"
  have u: "claim_update a ttl now r = Inr r'"
    using r(2) by (auto simp: claim_update_def row_runnable_def terminal_def r'_def)
  have "fence (authority r') = fence (authority r) + 1" by (simp add: r'_def)
  then have "r' \<noteq> r" by auto
  then have "claim (quiet_env now) d scope i a ttl = (d\<lparr>runs := (runs d)((scope, i) \<mapsto> r')\<rparr>, Inr (Some r'))"
    using r(1) key u assms(3-5)
    by (simp add: claim_def update_run_def quiet_env_def load_run_def Let_def update_row_def r'_def)
  then show ?thesis using r(1) assms(5) by (simp add: r'_def)
qed

text \<open>
  C14: \<open>ReadEvents\<close> neither skips nor repeats. On a run whose event log is gap-free (and not empty
  unless no event was ever appended), a read with a cursor
  in range returns exactly the events with the next sequence numbers after the cursor, in order, up
  to the limit; a cursor outside the log is an error.
\<close>

theorem read_events_exact:
  assumes "runs d (scope, rid) = Some r" and "run_scope r = scope" and "run_id r = rid" and "events_wf r"
    and "next_sequence r = 0 \<or> events r \<noteq> []"
  shows "case read_events d scope rid aft limit of
      Inl e \<Rightarrow> e = ErrEventCursor \<and> (aft < 0 \<or> next_sequence r < aft \<or> aft < next_sequence r - int (length (events r)))
    | Inr es \<Rightarrow> (\<forall>e \<in> set es. e \<in> set (events r)) \<and>
        map ev_sequence es = [aft + 1..(if 0 < limit then min (next_sequence r) (aft + limit) else next_sequence r)]"
proof -
  let ?k = "next_sequence r - int (length (events r))"
  have seqs: "map ev_sequence (events r) = [?k + 1..next_sequence r]" using assms(4) by (simp add: events_wf_def)
  have hd: "ev_sequence (hd (events r)) = ?k + 1" if "events r \<noteq> []"
  proof -
    have "?k + 1 \<le> next_sequence r" using that by (cases "events r") simp_all
    then have "[?k + 1..next_sequence r] = (?k + 1) # [?k + 1 + 1..next_sequence r]" by (rule upto_rec1)
    then show ?thesis using that seqs by (metis hd_map list.sel(1))
  qed
  have l: "load_run d scope rid = Inr (Some r)" using assms(1-3) by (simp add: load_run_Some)
  show ?thesis
  proof (cases "aft < 0 \<or> next_sequence r < aft \<or> events r \<noteq> [] \<and> aft < ?k")
    case True
    then show ?thesis using l hd by (auto simp: read_events_def)
  next
    case False
    have k: "?k \<le> aft"
      using False assms(5) by (cases "events r = []") auto
    have res: "read_events d scope rid aft limit = Inr (events_after (events r) aft limit [])"
      using False l hd by (auto simp: read_events_def)
    have fs: "map ev_sequence (filter (\<lambda>e. aft < ev_sequence e) (events r)) = [aft + 1..next_sequence r]"
      by (rule filter_sequences[OF seqs k]) (use False in simp)
    have "events_after (events r) aft limit [] =
        (let rest = filter (\<lambda>e. aft < ev_sequence e) (events r) in if 0 < limit then take (nat limit) rest else rest)"
      by (subst events_after_acc) (auto simp: Let_def)
    then show ?thesis
      unfolding res using fs
      by (auto simp: Let_def take_map[symmetric] take_upto dest: in_set_takeD)
  qed
qed


definition logged_event :: "int \<Rightarrow> stored_event" where
  "logged_event n = sample_event\<lparr>ev_scope := ''s'', ev_run_id := ''r'', ev_id := ''r'' @ ''/'' @ itoa n, ev_sequence := n\<rparr>"

theorem read_events_exact_witness:
  "\<exists>es. read_events (empty_db\<lparr>runs := [(''s'', ''r'') \<mapsto> sample_run\<lparr>events := [logged_event 1, logged_event 2, logged_event 3],
     next_sequence := 3\<rparr>]\<rparr>) ''s'' ''r'' 1 1 = Inr es \<and> map ev_sequence es = [2]"
proof -
  define r where "r = sample_run\<lparr>events := [logged_event 1, logged_event 2, logged_event 3], next_sequence := 3\<rparr>"
  define d where "d = empty_db\<lparr>runs := [(''s'', ''r'') \<mapsto> r]\<rparr>"
  have u: "[1..3] = [1, 2, 3 :: int]" "[2..2] = [2 :: int]" by (simp_all add: upto.simps)
  have r: "runs d (''s'', ''r'') = Some r" "run_scope r = ''s''" "run_id r = ''r''" "next_sequence r = 0 \<or> events r \<noteq> []"
    "next_sequence r = 3" "length (events r) = 3"
    by (simp_all add: d_def r_def sample_run_def)
  have wf: "events_wf r" by (simp add: events_wf_def r_def sample_run_def logged_event_def u)
  from read_events_exact[OF r(1-3) wf r(4), of 1 1] r(5,6) show ?thesis
    unfolding d_def[symmetric] r_def[symmetric] by (auto simp: u split: sum.splits)
qed

lemma runnable_is_claimable_example:
  "''r'' \<in> set (runnable sample_db 200 [''r''] ''s'' 10) \<and>
   (\<exists>d' r'. claim (quiet_env 200) sample_db ''s'' ''r'' sample_authority 60 = (d', Inr (Some r')) \<and> 200 < lease_until r')"
proof -
  have i: "''r'' \<in> set (runnable sample_db 200 [''r''] ''s'' 10)"
    by (simp add: runnable_def sample_db_def empty_db_def row_runnable_def sample_run_def)
  have inv: "store_inv sample_db"
    by (simp add: store_inv_def sample_db_def empty_db_def sample_run_def)
  have "owner sample_authority \<noteq> []" "attempt sample_authority \<noteq> []" "0 < (60 :: nat)"
    by (simp_all add: sample_authority_def)
  from runnable_is_claimable[OF i inv this] i show ?thesis by blast
qed

end
