(* ===== verification/Rbac.thy ===== *)
theory Rbac
  imports GoBase
begin

section \<open>Role-based access control (security/rbac/rbac.go)\<close>

text \<open>
  The RBAC tables, the authorisation decision and the memory store. Roles, users and policies are
  kept by pointer, so the model has a heap: \<open>ref\<close> is the address of an object, the tables of
  \<open>RBAC\<close> and of \<open>MemoryRBACStore\<close> map keys to addresses, and a method that writes a field of its
  argument writes the heap. Callers pass non-nil pointers.
  \<^item> the iteration order of the maps the code ranges over is the record \<open>ranges\<close>;
  \<^item> a panic (comparing two values of the same uncomparable dynamic type) is \<open>None\<close>;
  \<^item> the \<open>regexp\<close> engine is the record \<open>regexps\<close>: what a pattern compiles to, and whether a match
    answers within the 100 ms the code waits for;
  \<^item> the persistent \<open>RBACStore\<close> is the record \<open>store_ops\<close>, whose calls may fail.
\<close>

subsection \<open>Dynamic values and the comparison of interfaces\<close>

text \<open>
  The dynamic values of an \<open>any\<close>. \<open>VOther t v\<close> is a value of another comparable type; slices and
  maps are the uncomparable ones.
\<close>

datatype any = VNil | VBool bool | VInt int | VString string | VOther nat nat
  | VList "any list" | VMap "(string \<times> any) list"

fun any_eq :: "any \<Rightarrow> any \<Rightarrow> bool option" where
  "any_eq (VList _) (VList _) = None"
| "any_eq (VMap _) (VMap _) = None"
| "any_eq a b = Some (a = b)"

fun comparable :: "any \<Rightarrow> bool" where
  "comparable (VList _) = False"
| "comparable (VMap _) = False"
| "comparable _ = True"

lemma any_eq_comparable [simp]: "comparable a \<Longrightarrow> any_eq a b = Some (a = b)"
  by (cases a; cases b) auto

text \<open>\<open>slices.Contains\<close> on a \<open>[]any\<close>: it compares from the left and stops at a match.\<close>

fun any_contains :: "any list \<Rightarrow> any \<Rightarrow> bool option" where
  "any_contains [] v = Some False"
| "any_contains (x # xs) v =
     (case any_eq v x of None \<Rightarrow> None | Some b \<Rightarrow> if b then Some True else any_contains xs v)"

lemma any_contains_comparable [simp]: "comparable v \<Longrightarrow> any_contains xs v = Some (v \<in> set xs)"
  by (induction xs) auto

subsection \<open>The data\<close>

type_synonym ref = nat

record permission =
  resource :: string
  action :: string
  conditions :: "string \<rightharpoonup> any"

record role =
  role_name :: string
  display_name :: string
  role_description :: string
  permissions :: "permission list"
  role_metadata :: "string \<rightharpoonup> any"
  role_created_at :: gotime
  role_updated_at :: gotime

record user =
  user_id :: string
  user_name :: string
  user_roles :: "string list"
  attributes :: "string \<rightharpoonup> any"
  enabled :: bool
  user_created_at :: gotime
  last_active_at :: gotime

datatype policy_effect = EffectAllow | EffectDeny | OtherEffect string

datatype condition_operator = OpEquals | OpNotEquals | OpContains | OpStartsWith | OpEndsWith
  | OpMatches | OpIn | OpNotIn | OpGreaterThan | OpLessThan | OtherOperator string

record policy_condition =
  cond_key :: string
  operator :: condition_operator
  cond_value :: any

record policy =
  policy_id :: string
  policy_name :: string
  policy_description :: string
  effect :: policy_effect
  subjects :: "string list"
  resources :: "string list"
  actions :: "string list"
  policy_conditions :: "policy_condition list"
  policy_priority :: int
  policy_enabled :: bool
  policy_created_at :: gotime

record access_request =
  subject :: string
  req_resource :: string
  req_action :: string
  req_context :: "string \<rightharpoonup> any"

record access_result =
  allowed :: bool
  reason :: string
  matched_policy :: string
  matched_permission :: "permission option"

record 're rbac =
  roles :: "string \<rightharpoonup> ref"
  users :: "string \<rightharpoonup> ref"
  policies :: "string \<rightharpoonup> ref"
  role_hierarchy :: "string \<rightharpoonup> string list"
  regex_cache :: "string \<rightharpoonup> 're"

record objects =
  role_at :: "ref \<Rightarrow> role"
  user_at :: "ref \<Rightarrow> user"
  policy_at :: "ref \<Rightarrow> policy"

record 're regexps =
  rx_compile :: "string \<Rightarrow> 're option"
  rx_match :: "'re \<Rightarrow> string \<Rightarrow> bool option"

record ranges =
  range_roles :: "(string \<rightharpoonup> bool) \<Rightarrow> (string \<times> bool) list"
  range_conditions :: "(string \<rightharpoonup> any) \<Rightarrow> (string \<times> any) list"
  range_policies :: "(string \<rightharpoonup> ref) \<Rightarrow> (string \<times> ref) list"

definition enumerates :: "('k \<times> 'v) list \<Rightarrow> ('k \<rightharpoonup> 'v) \<Rightarrow> bool" where
  "enumerates l m \<longleftrightarrow> map_of l = m \<and> distinct (map fst l)"

lemma enumerates_set: "enumerates l m \<Longrightarrow> (k, v) \<in> set l \<longleftrightarrow> m k = Some v"
  unfolding enumerates_def by (metis map_of_eq_Some_iff)

lemma enumerates_fst: "enumerates l m \<Longrightarrow> fst ` set l = dom m"
  unfolding enumerates_def by (metis dom_map_of_conv_image_fst)

subsection \<open>Wildcards and permissions\<close>

definition match_wildcard :: "string \<Rightarrow> string \<Rightarrow> bool" where
  "match_wildcard pattern value =
     (if pattern = ''*'' then True
      else if 1 < length pattern \<and> pattern ! (length pattern - 1) = CHR ''*''
      then has_prefix value (take (length pattern - 1) pattern)
      else pattern = value)"

lemma match_wildcard_star: "match_wildcard (p @ ''*'') v \<longleftrightarrow> (\<exists>s. v = p @ s)"
  by (cases p) (auto simp: match_wildcard_def nth_append has_prefix_iff)

lemma match_wildcard_literal: "p = [] \<or> last p \<noteq> CHR ''*'' \<Longrightarrow> match_wildcard p v \<longleftrightarrow> p = v"
  by (cases "p = []") (auto simp: match_wildcard_def last_conv_nth)

fun conditions_hold :: "(string \<rightharpoonup> any) \<Rightarrow> (string \<times> any) list \<Rightarrow> bool option" where
  "conditions_hold ctx [] = Some True"
| "conditions_hold ctx ((k, v) # rest) =
     (case ctx k of
        None \<Rightarrow> Some False
      | Some rv \<Rightarrow> (case any_eq rv v of
          None \<Rightarrow> None
        | Some same \<Rightarrow> if same then conditions_hold ctx rest else Some False))"

definition match_permission :: "ranges \<Rightarrow> permission \<Rightarrow> access_request \<Rightarrow> bool option" where
  "match_permission rg perm req =
     (if \<not> match_wildcard (resource perm) (req_resource req) then Some False
      else if \<not> match_wildcard (action perm) (req_action req) then Some False
      else conditions_hold (req_context req) (range_conditions rg (conditions perm)))"

subsection \<open>Inherited roles\<close>

text \<open>
  \<open>collectInheritedRoles\<close> with its loop over the children: \<open>collect h ns vis\<close> is the loop over \<open>ns\<close>,
  the \<open>visited\<close> map threaded through the recursive calls. Nothing in the code bounds the recursion
  but that map, so the model is a partial function; \<open>collect_returns\<close> shows that it returns.
\<close>

partial_function (option) collect :: "(string \<rightharpoonup> string list) \<Rightarrow> string list \<Rightarrow> (string \<Rightarrow> bool)
    \<Rightarrow> (string list \<times> (string \<Rightarrow> bool)) option" where
  "collect h ns vis =
     (case ns of
        [] \<Rightarrow> Some ([], vis)
      | n # rest \<Rightarrow>
          Option.bind
            (if vis n then Some ([], vis)
             else Option.bind (collect h (case h n of None \<Rightarrow> [] | Some cs \<Rightarrow> cs) (vis(n := True)))
                    (\<lambda>(r, v). Some (n # r, v)))
            (\<lambda>(r, v). Option.bind (collect h rest v) (\<lambda>(r', v'). Some (r @ r', v'))))"

definition get_inherited_roles :: "(string \<rightharpoonup> string list) \<Rightarrow> string \<Rightarrow> string list option" where
  "get_inherited_roles h n = map_option fst (collect h [n] (\<lambda>_. False))"

definition children_of :: "(string \<rightharpoonup> string list) \<Rightarrow> string \<Rightarrow> string list" where
  "children_of h n = (case h n of None \<Rightarrow> [] | Some cs \<Rightarrow> cs)"

definition inherits :: "(string \<rightharpoonup> string list) \<Rightarrow> (string \<times> string) set" where
  "inherits h = {(n, m). m \<in> set (children_of h n)}"

lemma collect_simps:
  "collect h [] vis = Some ([], vis)"
  "vis n \<Longrightarrow> collect h (n # ns) vis = collect h ns vis"
  "\<not> vis n \<Longrightarrow> collect h (n # ns) vis =
     Option.bind (collect h (children_of h n) (vis(n := True)))
       (\<lambda>(r, v). Option.bind (collect h ns v) (\<lambda>(r', v'). Some (n # r @ r', v')))"
  by (subst collect.simps; cases "collect h (children_of h n) (vis(n := True))";
      auto simp: children_of_def split: option.splits prod.splits)+

text \<open>What a call establishes: it returns, listing once the names it newly visited, each of them
  below one of the starting names, and every child of a new name is visited at the end.\<close>

definition collected :: "(string \<rightharpoonup> string list) \<Rightarrow> string list \<Rightarrow> (string \<Rightarrow> bool)
    \<Rightarrow> string list \<Rightarrow> (string \<Rightarrow> bool) \<Rightarrow> bool" where
  "collected h ns vis r v \<longleftrightarrow> distinct r \<and> (\<forall>x. v x \<longleftrightarrow> vis x \<or> x \<in> set r) \<and> (\<forall>x \<in> set r. \<not> vis x)
     \<and> (\<forall>x \<in> set ns. v x) \<and> (\<forall>x \<in> set r. \<forall>y \<in> set (children_of h x). v y)
     \<and> (\<forall>x \<in> set r. \<exists>n \<in> set ns. (n, x) \<in> (inherits h)\<^sup>*)"

lemma collected_Nil: "collected h [] vis [] vis"
  by (simp add: collected_def)

lemma collected_skip: "vis n \<Longrightarrow> collected h ns vis r v \<Longrightarrow> collected h (n # ns) vis r v"
  unfolding collected_def by auto

lemma collected_visit:
  assumes "\<not> vis n" and c1: "collected h (children_of h n) (vis(n := True)) r v"
    and c2: "collected h ns v r' v'"
  shows "collected h (n # ns) vis (n # r @ r') v'"
proof -
  have below: "(n, x) \<in> (inherits h)\<^sup>*" if "x \<in> set r" for x
  proof -
    obtain c where "c \<in> set (children_of h n)" "(c, x) \<in> (inherits h)\<^sup>*"
      using c1 \<open>x \<in> set r\<close> unfolding collected_def by blast
    then show ?thesis by (auto simp: inherits_def intro: converse_rtrancl_into_rtrancl)
  qed
  have a: "distinct (n # r @ r')" "\<forall>x. v' x \<longleftrightarrow> vis x \<or> x \<in> set (n # r @ r')"
    "\<forall>x \<in> set (n # r @ r'). \<not> vis x"
    using c1 c2 assms(1) unfolding collected_def by (auto split: if_splits)
  have b: "\<forall>x \<in> set (n # ns). v' x" using c1 c2 unfolding collected_def by auto
  have mono: "v y \<Longrightarrow> v' y" for y using c2 unfolding collected_def by blast
  have "\<forall>x \<in> set r. \<forall>y \<in> set (children_of h x). v y" "\<forall>y \<in> set (children_of h n). v y"
    using c1 unfolding collected_def by blast+
  moreover have "\<forall>x \<in> set r'. \<forall>y \<in> set (children_of h x). v' y"
    using c2 unfolding collected_def by blast
  ultimately have c: "\<forall>x \<in> set (n # r @ r'). \<forall>y \<in> set (children_of h x). v' y"
    using mono by auto
  have d: "\<forall>x \<in> set (n # r @ r'). \<exists>m \<in> set (n # ns). (m, x) \<in> (inherits h)\<^sup>*"
    using c2 below unfolding collected_def by auto
  show ?thesis unfolding collected_def using a b c d by blast
qed

lemma collect_returns:
  assumes fin: "finite U" and cl: "\<And>n. n \<in> U \<Longrightarrow> set (children_of h n) \<subseteq> U" and ns: "set ns \<subseteq> U"
  shows "\<exists>r v. collect h ns vis = Some (r, v) \<and> collected h ns vis r v"
  using ns
proof (induction "card {x \<in> U. \<not> vis x}" arbitrary: ns vis rule: less_induct)
  case less
  show ?case
    using less(2)
  proof (induction ns)
    case Nil
    then show ?case by (simp add: collect_simps collected_Nil)
  next
    case (Cons n rest)
    have n: "n \<in> U" and rest: "set rest \<subseteq> U" using Cons(2) by auto
    show ?case
    proof (cases "vis n")
      case True
      then show ?thesis using Cons(1)[OF rest] collected_skip[of vis n, OF True]
        by (auto simp: collect_simps)
    next
      case False
      define vis1 where "vis1 = vis(n := True)"
      have "{x \<in> U. \<not> vis1 x} \<subset> {x \<in> U. \<not> vis x}" using n False by (auto simp: vis1_def)
      then have down: "card {x \<in> U. \<not> vis1 x} < card {x \<in> U. \<not> vis x}"
        using fin by (intro psubset_card_mono) auto
      obtain r v where r: "collect h (children_of h n) vis1 = Some (r, v)"
        "collected h (children_of h n) vis1 r v"
        using less(1)[OF down cl[OF n]] by blast
      have "{x \<in> U. \<not> v x} \<subseteq> {x \<in> U. \<not> vis1 x}"
        using r(2) by (auto simp: collected_def)
      then have "card {x \<in> U. \<not> v x} \<le> card {x \<in> U. \<not> vis1 x}"
        using fin by (intro card_mono) auto
      then obtain r' v' where r': "collect h rest v = Some (r', v')" "collected h rest v r' v'"
        using less(1)[of v rest] down rest by auto
      have "collected h (n # rest) vis (n # r @ r') v'"
        using collected_visit[of vis n h r v, OF False r(2)[unfolded vis1_def] r'(2)] .
      moreover have "collect h (n # rest) vis = Some (n # r @ r', v')"
        using r(1) r'(1) by (simp add: collect_simps(3)[of vis n, OF False] vis1_def)
      ultimately show ?thesis by blast
    qed
  qed
qed

definition role_universe :: "(string \<rightharpoonup> string list) \<Rightarrow> string set" where
  "role_universe h = dom h \<union> (\<Union>n \<in> dom h. set (children_of h n))"

lemma finite_role_universe: "finite (dom h) \<Longrightarrow> finite (role_universe h)"
  by (simp add: role_universe_def)

lemma children_in_universe: "set (children_of h n) \<subseteq> role_universe h"
  by (cases "h n") (auto simp: role_universe_def children_of_def)

lemma get_inherited_roles_spec:
  assumes "finite (dom h)"
  shows "\<exists>rs. get_inherited_roles h n = Some rs \<and> distinct rs \<and> set rs = {m. (n, m) \<in> (inherits h)\<^sup>*}"
proof -
  let ?U = "insert n (role_universe h)"
  obtain r v where r: "collect h [n] (\<lambda>_. False) = Some (r, v)" "collected h [n] (\<lambda>_. False) r v"
    using collect_returns[of ?U h "[n]" "\<lambda>_. False"] assms children_in_universe[of h]
    by (auto simp: finite_role_universe)
  have v: "v x \<longleftrightarrow> x \<in> set r" for x using r(2) by (simp add: collected_def)
  have sub: "(n, x) \<in> (inherits h)\<^sup>*" if "x \<in> set r" for x
    using r(2) that by (auto simp: collected_def)
  have "x \<in> set r" if "(n, x) \<in> (inherits h)\<^sup>*" for x
    using that
  proof (induction rule: rtrancl_induct)
    case base
    then show ?case using r(2) v[of n] unfolding collected_def by simp
  next
    case (step y z)
    then show ?case using r(2) unfolding collected_def inherits_def v by auto
  qed
  then show ?thesis using r sub by (auto simp: get_inherited_roles_def collected_def)
qed

definition mark_roles :: "string list \<Rightarrow> (string \<rightharpoonup> bool) \<Rightarrow> (string \<rightharpoonup> bool)" where
  "mark_roles ns m = fold (\<lambda>n m. m(n \<mapsto> True)) ns m"

fun all_roles :: "(string \<rightharpoonup> string list) \<Rightarrow> string list \<Rightarrow> (string \<rightharpoonup> bool) \<Rightarrow> (string \<rightharpoonup> bool) option" where
  "all_roles h [] m = Some m"
| "all_roles h (n # ns) m =
     (case get_inherited_roles h n of None \<Rightarrow> None | Some rs \<Rightarrow> all_roles h ns (mark_roles rs m))"

definition get_user_roles :: "ranges \<Rightarrow> 're rbac \<Rightarrow> objects \<Rightarrow> string \<Rightarrow> string list option" where
  "get_user_roles rg r os uid =
     (case users r uid of
        None \<Rightarrow> Some []
      | Some u \<Rightarrow> map_option (\<lambda>m. map fst (range_roles rg m))
                    (all_roles (role_hierarchy r) (user_roles (user_at os u)) Map.empty))"

lemma mark_roles_eq: "mark_roles ns m = (\<lambda>x. if x \<in> set ns then Some True else m x)"
  by (induction ns arbitrary: m) (auto simp: mark_roles_def fun_eq_iff)

lemma all_roles_spec:
  "finite (dom h) \<Longrightarrow> all_roles h ns m =
     Some (\<lambda>x. if \<exists>n \<in> set ns. (n, x) \<in> (inherits h)\<^sup>* then Some True else m x)"
proof (induction ns arbitrary: m)
  case Nil
  then show ?case by (simp add: fun_eq_iff)
next
  case (Cons n ns)
  obtain rs where rs: "get_inherited_roles h n = Some rs" "set rs = {m. (n, m) \<in> (inherits h)\<^sup>*}"
    using get_inherited_roles_spec[OF Cons.prems] by blast
  show ?case
    by (simp add: rs(1) Cons.IH[OF Cons.prems] mark_roles_eq rs(2)) (auto simp: fun_eq_iff)
qed

definition held_roles :: "'re rbac \<Rightarrow> user \<Rightarrow> string set" where
  "held_roles r u = {m. \<exists>n \<in> set (user_roles u). (n, m) \<in> (inherits (role_hierarchy r))\<^sup>*}"

definition role_marks :: "string set \<Rightarrow> string \<rightharpoonup> bool" where
  "role_marks S = (\<lambda>x. if x \<in> S then Some True else None)"

lemma get_user_roles_spec:
  assumes "finite (dom (role_hierarchy r))" "users r uid = Some u"
    and "enumerates (range_roles rg (role_marks (held_roles r (user_at os u)))) (role_marks (held_roles r (user_at os u)))"
  shows "\<exists>ns. get_user_roles rg r os uid = Some ns \<and> set ns = held_roles r (user_at os u) \<and> distinct ns"
proof -
  let ?m = "role_marks (held_roles r (user_at os u))"
  have m: "all_roles (role_hierarchy r) (user_roles (user_at os u)) Map.empty = Some ?m"
    using all_roles_spec[OF assms(1), of "user_roles (user_at os u)" Map.empty]
    by (simp add: role_marks_def held_roles_def)
  have "set (map fst (range_roles rg ?m)) = held_roles r (user_at os u)"
    using enumerates_fst[OF assms(3)] by (auto simp: role_marks_def split: if_splits)
  then show ?thesis using assms(2,3) m by (simp add: get_user_roles_def enumerates_def)
qed

subsection \<open>Policies\<close>

text \<open>\<open>getOrCompileRegex\<close>: the cache is the \<open>sync.Map\<close> from a pattern to what it compiled to.\<close>

definition get_or_compile_regex :: "'re regexps \<Rightarrow> string \<Rightarrow> (string \<rightharpoonup> 're) \<Rightarrow> 're option \<times> (string \<rightharpoonup> 're)" where
  "get_or_compile_regex rx pattern cache =
     (case cache pattern of
        Some re \<Rightarrow> (Some re, cache)
      | None \<Rightarrow> (case rx_compile rx pattern of
          None \<Rightarrow> (None, cache)
        | Some re \<Rightarrow> (Some re, cache(pattern \<mapsto> re))))"

text \<open>A match that does not answer in time counts as no match.\<close>

definition timed_match :: "'re regexps \<Rightarrow> 're \<Rightarrow> string \<Rightarrow> bool" where
  "timed_match rx re s = (case rx_match rx re s of Some b \<Rightarrow> b | None \<Rightarrow> False)"

definition evaluate_condition :: "'re regexps \<Rightarrow> policy_condition \<Rightarrow> (string \<rightharpoonup> any) \<Rightarrow> (string \<rightharpoonup> 're)
    \<Rightarrow> (bool \<times> (string \<rightharpoonup> 're)) option" where
  "evaluate_condition rx cond ctx cache =
     (case ctx (cond_key cond) of
        None \<Rightarrow> Some (False, cache)
      | Some value \<Rightarrow>
          (case operator cond of
             OpEquals \<Rightarrow> map_option (\<lambda>b. (b, cache)) (any_eq value (cond_value cond))
           | OpNotEquals \<Rightarrow> map_option (\<lambda>b. (\<not> b, cache)) (any_eq value (cond_value cond))
           | OpContains \<Rightarrow> (case (value, cond_value cond) of
               (VString str, VString c) \<Rightarrow> Some (str_contains str c, cache) | _ \<Rightarrow> Some (False, cache))
           | OpStartsWith \<Rightarrow> (case (value, cond_value cond) of
               (VString str, VString c) \<Rightarrow> Some (has_prefix str c, cache) | _ \<Rightarrow> Some (False, cache))
           | OpEndsWith \<Rightarrow> (case (value, cond_value cond) of
               (VString str, VString c) \<Rightarrow> Some (has_suffix str c, cache) | _ \<Rightarrow> Some (False, cache))
           | OpMatches \<Rightarrow> (case (value, cond_value cond) of
               (VString str, VString pattern) \<Rightarrow>
                 if 10000 < length str then Some (False, cache)
                 else if 1000 < length pattern then Some (False, cache)
                 else (case get_or_compile_regex rx pattern cache of
                         (None, cache') \<Rightarrow> Some (False, cache')
                       | (Some re, cache') \<Rightarrow> Some (timed_match rx re str, cache'))
             | _ \<Rightarrow> Some (False, cache))
           | OpIn \<Rightarrow> (case cond_value cond of
               VList l \<Rightarrow> map_option (\<lambda>b. (b, cache)) (any_contains l value) | _ \<Rightarrow> Some (False, cache))
           | OpNotIn \<Rightarrow> (case cond_value cond of
               VList l \<Rightarrow> map_option (\<lambda>b. (\<not> b, cache)) (any_contains l value) | _ \<Rightarrow> Some (False, cache))
           | _ \<Rightarrow> Some (False, cache)))"

fun evaluate_conditions :: "'re regexps \<Rightarrow> policy_condition list \<Rightarrow> (string \<rightharpoonup> any) \<Rightarrow> (string \<rightharpoonup> 're)
    \<Rightarrow> (bool \<times> (string \<rightharpoonup> 're)) option" where
  "evaluate_conditions rx [] ctx cache = Some (True, cache)"
| "evaluate_conditions rx (c # cs) ctx cache =
     (case evaluate_condition rx c ctx cache of
        None \<Rightarrow> None
      | Some (b, cache') \<Rightarrow> if b then evaluate_conditions rx cs ctx cache' else Some (False, cache'))"

definition matches_any :: "string list \<Rightarrow> string \<Rightarrow> bool" where
  "matches_any patterns value = list_ex (\<lambda>p. match_wildcard p value) patterns"

definition match_policy :: "'re regexps \<Rightarrow> policy \<Rightarrow> access_request \<Rightarrow> (string \<rightharpoonup> 're)
    \<Rightarrow> (bool \<times> (string \<rightharpoonup> 're)) option" where
  "match_policy rx p req cache =
     (if \<not> matches_any (subjects p) (subject req) then Some (False, cache)
      else if \<not> matches_any (resources p) (req_resource req) then Some (False, cache)
      else if \<not> matches_any (actions p) (req_action req) then Some (False, cache)
      else evaluate_conditions rx (policy_conditions p) (req_context req) cache)"

subsection \<open>The decision\<close>

fun match_permissions :: "ranges \<Rightarrow> permission list \<Rightarrow> access_request \<Rightarrow> permission option option" where
  "match_permissions rg [] req = Some None"
| "match_permissions rg (perm # ps) req =
     (case match_permission rg perm req of
        None \<Rightarrow> None
      | Some b \<Rightarrow> if b then Some (Some perm) else match_permissions rg ps req)"

fun match_roles :: "ranges \<Rightarrow> 're rbac \<Rightarrow> objects \<Rightarrow> string list \<Rightarrow> access_request
    \<Rightarrow> (string \<times> permission) option option" where
  "match_roles rg r os [] req = Some None"
| "match_roles rg r os (n # ns) req =
     (case roles r n of
        None \<Rightarrow> match_roles rg r os ns req
      | Some p \<Rightarrow>
          (case match_permissions rg (permissions (role_at os p)) req of
             None \<Rightarrow> None
           | Some (Some perm) \<Rightarrow> Some (Some (n, perm))
           | Some None \<Rightarrow> match_roles rg r os ns req))"

fun match_policies :: "'re regexps \<Rightarrow> objects \<Rightarrow> ref list \<Rightarrow> access_request \<Rightarrow> (string \<rightharpoonup> 're)
    \<Rightarrow> (policy option \<times> (string \<rightharpoonup> 're)) option" where
  "match_policies rx os [] req cache = Some (None, cache)"
| "match_policies rx os (i # is) req cache =
     (if \<not> policy_enabled (policy_at os i) then match_policies rx os is req cache
      else (case match_policy rx (policy_at os i) req cache of
              None \<Rightarrow> None
            | Some (b, cache') \<Rightarrow>
                if b then Some (Some (policy_at os i), cache') else match_policies rx os is req cache'))"

definition denied :: "string \<Rightarrow> access_result" where
  "denied why = \<lparr>allowed = False, reason = why, matched_policy = [], matched_permission = None\<rparr>"

definition authorize :: "ranges \<Rightarrow> 're regexps \<Rightarrow> 're rbac \<Rightarrow> objects \<Rightarrow> access_request
    \<Rightarrow> (access_result \<times> 're rbac) option" where
  "authorize rg rx r os req =
     (case users r (subject req) of
        None \<Rightarrow> Some (denied ''user not found'', r)
      | Some u \<Rightarrow>
          if \<not> enabled (user_at os u) then Some (denied ''user disabled'', r)
          else (case get_user_roles rg r os (subject req) of
             None \<Rightarrow> None
           | Some names \<Rightarrow>
               (case match_roles rg r os names req of
                  None \<Rightarrow> None
                | Some (Some (n, perm)) \<Rightarrow>
                    Some (\<lparr>allowed = True, reason = ''permitted by role '' @ n, matched_policy = [],
                           matched_permission = Some perm\<rparr>, r)
                | Some None \<Rightarrow>
                    (case match_policies rx os (map snd (range_policies rg (policies r))) req
                            (regex_cache r) of
                       None \<Rightarrow> None
                     | Some (None, cache') \<Rightarrow>
                         Some (denied ''no matching permission'', r\<lparr>regex_cache := cache'\<rparr>)
                     | Some (Some p, cache') \<Rightarrow>
                         Some (\<lparr>allowed = (effect p = EffectAllow),
                                reason = ''matched policy '' @ policy_id p,
                                matched_policy = policy_id p, matched_permission = None\<rparr>,
                               r\<lparr>regex_cache := cache'\<rparr>)))))"

text \<open>
  A context is its chain of values, innermost first; only the package's own key carries a user.
\<close>

datatype ctx_value = CtxUser "ref option" | CtxOther nat

type_synonym go_context = "ctx_value list"

definition context_with_user :: "go_context \<Rightarrow> ref option \<Rightarrow> go_context" where
  "context_with_user ctx u = CtxUser u # ctx"

fun user_from_context :: "go_context \<Rightarrow> ref option" where
  "user_from_context [] = None"
| "user_from_context (CtxUser u # _) = u"
| "user_from_context (CtxOther _ # ctx) = user_from_context ctx"

definition authorize_from_context :: "ranges \<Rightarrow> 're regexps \<Rightarrow> 're rbac \<Rightarrow> objects \<Rightarrow> go_context
    \<Rightarrow> string \<Rightarrow> string \<Rightarrow> (access_result \<times> 're rbac) option" where
  "authorize_from_context rg rx r os ctx res act =
     (case user_from_context ctx of
        None \<Rightarrow> Some (denied ''no user in context'', r)
      | Some u \<Rightarrow> authorize rg rx r os \<lparr>subject = user_id (user_at os u), req_resource = res,
                    req_action = act, req_context = Map.empty\<rparr>)"

subsection \<open>What the decision means\<close>

text \<open>
  The reference reading of a request, without loops, iteration orders, caches or panics. It is what
  the code computes when the values of the request's context are comparable.
\<close>

definition comparable_ctx :: "(string \<rightharpoonup> any) \<Rightarrow> bool" where
  "comparable_ctx ctx \<longleftrightarrow> (\<forall>k v. ctx k = Some v \<longrightarrow> comparable v)"

definition permission_applies :: "permission \<Rightarrow> access_request \<Rightarrow> bool" where
  "permission_applies perm req \<longleftrightarrow> match_wildcard (resource perm) (req_resource req) \<and>
     match_wildcard (action perm) (req_action req) \<and>
     (\<forall>k v. conditions perm k = Some v \<longrightarrow> req_context req k = Some v)"

definition both_strings :: "(string \<Rightarrow> string \<Rightarrow> bool) \<Rightarrow> any \<Rightarrow> any \<Rightarrow> bool" where
  "both_strings P a b = (case (a, b) of (VString s, VString t) \<Rightarrow> P s t | _ \<Rightarrow> False)"

definition regex_applies :: "'re regexps \<Rightarrow> string \<Rightarrow> string \<Rightarrow> bool" where
  "regex_applies rx s pattern \<longleftrightarrow> length s \<le> 10000 \<and> length pattern \<le> 1000 \<and>
     (case rx_compile rx pattern of None \<Rightarrow> False | Some re \<Rightarrow> timed_match rx re s)"

definition condition_applies :: "'re regexps \<Rightarrow> (string \<rightharpoonup> any) \<Rightarrow> policy_condition \<Rightarrow> bool" where
  "condition_applies rx ctx c =
     (case ctx (cond_key c) of
        None \<Rightarrow> False
      | Some v \<Rightarrow>
          (case operator c of
             OpEquals \<Rightarrow> v = cond_value c
           | OpNotEquals \<Rightarrow> v \<noteq> cond_value c
           | OpContains \<Rightarrow> both_strings (\<lambda>s t. \<exists>a b. s = a @ t @ b) v (cond_value c)
           | OpStartsWith \<Rightarrow> both_strings (\<lambda>s t. \<exists>a. s = t @ a) v (cond_value c)
           | OpEndsWith \<Rightarrow> both_strings (\<lambda>s t. \<exists>a. s = a @ t) v (cond_value c)
           | OpMatches \<Rightarrow> both_strings (regex_applies rx) v (cond_value c)
           | OpIn \<Rightarrow> (case cond_value c of VList l \<Rightarrow> v \<in> set l | _ \<Rightarrow> False)
           | OpNotIn \<Rightarrow> (case cond_value c of VList l \<Rightarrow> v \<notin> set l | _ \<Rightarrow> False)
           | _ \<Rightarrow> False))"

definition policy_applies :: "'re regexps \<Rightarrow> access_request \<Rightarrow> policy \<Rightarrow> bool" where
  "policy_applies rx req p \<longleftrightarrow> policy_enabled p \<and> matches_any (subjects p) (subject req) \<and>
     matches_any (resources p) (req_resource req) \<and> matches_any (actions p) (req_action req) \<and>
     (\<forall>c \<in> set (policy_conditions p). condition_applies rx (req_context req) c)"

definition cache_ok :: "'re regexps \<Rightarrow> (string \<rightharpoonup> 're) \<Rightarrow> bool" where
  "cache_ok rx cache \<longleftrightarrow> (\<forall>p re. cache p = Some re \<longrightarrow> rx_compile rx p = Some re)"

lemma get_or_compile_regex_spec:
  "cache_ok rx cache \<Longrightarrow> \<exists>cache'. get_or_compile_regex rx p cache = (rx_compile rx p, cache') \<and> cache_ok rx cache'"
  by (cases "cache p"; cases "rx_compile rx p") (auto simp: get_or_compile_regex_def cache_ok_def)

lemma conditions_hold_spec:
  "comparable_ctx ctx \<Longrightarrow> conditions_hold ctx l = Some (\<forall>(k, v) \<in> set l. ctx k = Some v)"
proof (induction l)
  case (Cons kv l)
  obtain k v where kv: "kv = (k, v)" by force
  show ?case
  proof (cases "ctx k")
    case (Some rv)
    then have "comparable rv" using Cons.prems unfolding comparable_ctx_def by blast
    then show ?thesis using Cons Some kv by auto
  qed (simp add: kv)
qed simp

lemma match_permission_spec:
  assumes "comparable_ctx (req_context req)"
    and "enumerates (range_conditions rg (conditions perm)) (conditions perm)"
  shows "match_permission rg perm req = Some (permission_applies perm req)"
proof -
  have "(\<forall>(k, v) \<in> set (range_conditions rg (conditions perm)). req_context req k = Some v) \<longleftrightarrow>
      (\<forall>k v. conditions perm k = Some v \<longrightarrow> req_context req k = Some v)"
    using enumerates_set[OF assms(2)] by fastforce
  then show ?thesis
    by (simp add: match_permission_def permission_applies_def conditions_hold_spec[OF assms(1)])
qed

lemma evaluate_condition_spec:
  assumes cmp: "comparable_ctx ctx" and ok: "cache_ok rx cache"
  shows "\<exists>cache'. evaluate_condition rx c ctx cache = Some (condition_applies rx ctx c, cache') \<and> cache_ok rx cache'"
proof (cases "ctx (cond_key c)")
  case None
  then show ?thesis using ok by (simp add: evaluate_condition_def condition_applies_def)
next
  case (Some v)
  have v: "comparable v" using cmp Some unfolding comparable_ctx_def by blast
  show ?thesis
  proof (cases "operator c = OpMatches \<and> (\<exists>s p. v = VString s \<and> cond_value c = VString p)")
    case True
    then obtain s p where sp: "v = VString s" "cond_value c = VString p" by blast
    obtain cache' where "get_or_compile_regex rx p cache = (rx_compile rx p, cache')" "cache_ok rx cache'"
      using get_or_compile_regex_spec[OF ok] by blast
    then show ?thesis using True Some sp ok
      by (cases "rx_compile rx p")
        (auto simp: evaluate_condition_def condition_applies_def both_strings_def regex_applies_def)
  next
    case False
    then have "evaluate_condition rx c ctx cache = Some (condition_applies rx ctx c, cache)"
      using Some v
      by (cases "operator c"; cases v; cases "cond_value c")
        (simp_all add: evaluate_condition_def condition_applies_def both_strings_def
          str_contains_iff has_prefix_iff has_suffix_iff)
    then show ?thesis using ok by blast
  qed
qed

lemma evaluate_conditions_spec:
  assumes "comparable_ctx ctx" "cache_ok rx cache"
  shows "\<exists>cache'. evaluate_conditions rx cs ctx cache = Some (\<forall>c \<in> set cs. condition_applies rx ctx c, cache')
    \<and> cache_ok rx cache'"
  using assms(2)
proof (induction cs arbitrary: cache)
  case (Cons c cs)
  obtain cache' where c: "evaluate_condition rx c ctx cache = Some (condition_applies rx ctx c, cache')"
    "cache_ok rx cache'" using evaluate_condition_spec[OF assms(1) Cons.prems] by blast
  then show ?case using Cons.IH[OF c(2)] by (auto simp: c(1))
qed simp

lemma match_policy_spec:
  assumes "comparable_ctx (req_context req)" "cache_ok rx cache" "policy_enabled p"
  shows "\<exists>cache'. match_policy rx p req cache = Some (policy_applies rx req p, cache') \<and> cache_ok rx cache'"
  using evaluate_conditions_spec[OF assms(1,2), of "policy_conditions p"] assms(2,3)
  by (auto simp: match_policy_def policy_applies_def)

lemma match_policies_spec:
  assumes "comparable_ctx (req_context req)" "cache_ok rx cache"
  shows "\<exists>cache'. match_policies rx os is req cache = Some (find (policy_applies rx req) (map (policy_at os) is), cache')
    \<and> cache_ok rx cache'"
  using assms(2)
proof (induction "is" arbitrary: cache)
  case (Cons i "is")
  show ?case
  proof (cases "policy_enabled (policy_at os i)")
    case True
    then show ?thesis using match_policy_spec[OF assms(1) Cons.prems True] Cons.IH by fastforce
  next
    case False
    then show ?thesis using Cons.IH[OF Cons.prems] by (auto simp: policy_applies_def)
  qed
qed simp

lemma match_permissions_spec:
  assumes "comparable_ctx (req_context req)"
    and "\<And>perm. perm \<in> set ps \<Longrightarrow> enumerates (range_conditions rg (conditions perm)) (conditions perm)"
  shows "match_permissions rg ps req = Some (find (\<lambda>perm. permission_applies perm req) ps)"
  using assms(2) by (induction ps) (auto simp: match_permission_spec[OF assms(1)])

definition role_permits :: "'re rbac \<Rightarrow> objects \<Rightarrow> access_request \<Rightarrow> string \<Rightarrow> bool" where
  "role_permits r os req n \<longleftrightarrow>
     (\<exists>p. roles r n = Some p \<and> (\<exists>perm \<in> set (permissions (role_at os p)). permission_applies perm req))"

text \<open>Every map the decision ranges over is enumerated by \<open>rg\<close>.\<close>

definition ranges_ok :: "ranges \<Rightarrow> 're rbac \<Rightarrow> objects \<Rightarrow> access_request \<Rightarrow> bool" where
  "ranges_ok rg r os req \<longleftrightarrow> enumerates (range_policies rg (policies r)) (policies r) \<and>
     (\<forall>n p perm. roles r n = Some p \<longrightarrow> perm \<in> set (permissions (role_at os p)) \<longrightarrow>
        enumerates (range_conditions rg (conditions perm)) (conditions perm)) \<and>
     (\<forall>u. users r (subject req) = Some u \<longrightarrow>
        enumerates (range_roles rg (role_marks (held_roles r (user_at os u))))
          (role_marks (held_roles r (user_at os u))))"

lemma match_roles_spec:
  assumes "comparable_ctx (req_context req)" "ranges_ok rg r os req"
  shows "\<exists>m. match_roles rg r os ns req = Some m \<and> (m = None \<longleftrightarrow> \<not> (\<exists>n \<in> set ns. role_permits r os req n)) \<and>
    (\<forall>n perm. m = Some (n, perm) \<longrightarrow> n \<in> set ns \<and> permission_applies perm req)"
proof (induction ns)
  case (Cons n ns)
  show ?case
  proof (cases "roles r n")
    case None
    then show ?thesis using Cons by (auto simp: role_permits_def)
  next
    case (Some p)
    have perms: "match_permissions rg (permissions (role_at os p)) req =
        Some (find (\<lambda>perm. permission_applies perm req) (permissions (role_at os p)))"
      using assms Some by (intro match_permissions_spec) (auto simp: ranges_ok_def)
    show ?thesis
    proof (cases "find (\<lambda>perm. permission_applies perm req) (permissions (role_at os p))")
      case None
      then have "\<not> role_permits r os req n" using Some by (auto simp: role_permits_def find_None_iff)
      then show ?thesis using Cons Some perms None by auto
    next
      case (Some perm)
      then have "perm \<in> set (permissions (role_at os p))" "permission_applies perm req"
        by (auto simp: find_Some_iff)
      then show ?thesis using \<open>roles r n = Some p\<close> perms Some by (auto simp: role_permits_def)
    qed
  qed
qed simp

subsection \<open>The store interface and the operations\<close>

datatype 'e rbac_error = RoleExists string | RoleNotFound string | UserExists string
  | UserNotFound string | PolicyNotFound string | StoreError 'e

text \<open>The calls of \<open>RBACStore\<close> that \<open>RBAC\<close> makes: an error or \<open>None\<close>, and the store after the call.\<close>

record ('e, 's) store_ops =
  save_role :: "objects \<Rightarrow> ref \<Rightarrow> 's \<Rightarrow> 'e option \<times> 's"
  remove_role :: "string \<Rightarrow> 's \<Rightarrow> 'e option \<times> 's"
  save_user :: "objects \<Rightarrow> ref \<Rightarrow> 's \<Rightarrow> 'e option \<times> 's"
  remove_user :: "string \<Rightarrow> 's \<Rightarrow> 'e option \<times> 's"
  save_policy :: "objects \<Rightarrow> ref \<Rightarrow> 's \<Rightarrow> 'e option \<times> 's"
  remove_policy :: "string \<Rightarrow> 's \<Rightarrow> 'e option \<times> 's"

record ('s, 're) rbac_sys =
  rb :: "'re rbac"
  objs :: objects
  disk :: 's

definition with_store :: "('e, 's) store_ops option \<Rightarrow> (('e, 's) store_ops \<Rightarrow> 's \<Rightarrow> 'e option \<times> 's)
    \<Rightarrow> ('s, 're) rbac_sys \<Rightarrow> 'e rbac_error option \<times> ('s, 're) rbac_sys" where
  "with_store st call s =
     (case st of
        None \<Rightarrow> (None, s)
      | Some ops \<Rightarrow> (case call ops (disk s) of (e, d) \<Rightarrow> (map_option StoreError e, s\<lparr>disk := d\<rparr>)))"

text \<open>
  The role operations release the lock before the store call, so each is its locked section, the
  call, and the section that takes the lock again to roll back.
\<close>

definition set_role :: "ref \<Rightarrow> role \<Rightarrow> objects \<Rightarrow> objects" where
  "set_role p x os = os\<lparr>role_at := (role_at os)(p := x)\<rparr>"

definition add_role_locked :: "gotime \<Rightarrow> ref \<Rightarrow> ('s, 're) rbac_sys \<Rightarrow> 'e rbac_error option \<times> ('s, 're) rbac_sys" where
  "add_role_locked now p s =
     (let x = role_at (objs s) p in
      if roles (rb s) (role_name x) \<noteq> None then (Some (RoleExists (role_name x)), s)
      else (None, s\<lparr>objs := set_role p (x\<lparr>role_created_at := now, role_updated_at := now\<rparr>) (objs s),
                    rb := (rb s)\<lparr>roles := (roles (rb s))(role_name x \<mapsto> p)\<rparr>\<rparr>))"

definition add_role_undo :: "ref \<Rightarrow> ('s, 're) rbac_sys \<Rightarrow> ('s, 're) rbac_sys" where
  "add_role_undo p s = s\<lparr>rb := (rb s)\<lparr>roles := (roles (rb s))(role_name (role_at (objs s) p) := None)\<rparr>\<rparr>"

definition add_role :: "('e, 's) store_ops option \<Rightarrow> gotime \<Rightarrow> ref \<Rightarrow> ('s, 're) rbac_sys
    \<Rightarrow> 'e rbac_error option \<times> ('s, 're) rbac_sys" where
  "add_role st now p s =
     (case add_role_locked now p s of
        (Some e, s1) \<Rightarrow> (Some e, s1)
      | (None, s1) \<Rightarrow>
          (case with_store st (\<lambda>c. save_role c (objs s1) p) s1 of
             (None, s2) \<Rightarrow> (None, s2)
           | (Some e, s2) \<Rightarrow> (Some e, add_role_undo p s2)))"

definition update_role_locked :: "gotime \<Rightarrow> ref \<Rightarrow> ('s, 're) rbac_sys \<Rightarrow> ('e rbac_error + ref) \<times> ('s, 're) rbac_sys" where
  "update_role_locked now p s =
     (let x = role_at (objs s) p in
      case roles (rb s) (role_name x) of
        None \<Rightarrow> (Inl (RoleNotFound (role_name x)), s)
      | Some old \<Rightarrow> (Inr old, s\<lparr>objs := set_role p (x\<lparr>role_updated_at := now\<rparr>) (objs s),
                              rb := (rb s)\<lparr>roles := (roles (rb s))(role_name x \<mapsto> p)\<rparr>\<rparr>))"

definition update_role_undo :: "ref \<Rightarrow> ref \<Rightarrow> ('s, 're) rbac_sys \<Rightarrow> ('s, 're) rbac_sys" where
  "update_role_undo p old s =
     s\<lparr>rb := (rb s)\<lparr>roles := (roles (rb s))(role_name (role_at (objs s) p) \<mapsto> old)\<rparr>\<rparr>"

definition update_role :: "('e, 's) store_ops option \<Rightarrow> gotime \<Rightarrow> ref \<Rightarrow> ('s, 're) rbac_sys
    \<Rightarrow> 'e rbac_error option \<times> ('s, 're) rbac_sys" where
  "update_role st now p s =
     (case update_role_locked now p s of
        (Inl e, s1) \<Rightarrow> (Some e, s1)
      | (Inr old, s1) \<Rightarrow>
          (case with_store st (\<lambda>c. save_role c (objs s1) p) s1 of
             (None, s2) \<Rightarrow> (None, s2)
           | (Some e, s2) \<Rightarrow> (Some e, update_role_undo p old s2)))"

definition delete_role_locked :: "string \<Rightarrow> ('s, 're) rbac_sys
    \<Rightarrow> ('e rbac_error + ref \<times> string list option) \<times> ('s, 're) rbac_sys" where
  "delete_role_locked n s =
     (case roles (rb s) n of
        None \<Rightarrow> (Inl (RoleNotFound n), s)
      | Some old \<Rightarrow> (Inr (old, role_hierarchy (rb s) n),
          s\<lparr>rb := (rb s)\<lparr>roles := (roles (rb s))(n := None),
                         role_hierarchy := (role_hierarchy (rb s))(n := None)\<rparr>\<rparr>))"

definition delete_role_undo :: "string \<Rightarrow> ref \<Rightarrow> string list option \<Rightarrow> ('s, 're) rbac_sys \<Rightarrow> ('s, 're) rbac_sys" where
  "delete_role_undo n old old_hierarchy s =
     s\<lparr>rb := (rb s)\<lparr>roles := (roles (rb s))(n \<mapsto> old),
        role_hierarchy := (case old_hierarchy of
           None \<Rightarrow> role_hierarchy (rb s)
         | Some cs \<Rightarrow> (role_hierarchy (rb s))(n \<mapsto> cs))\<rparr>\<rparr>"

definition delete_role :: "('e, 's) store_ops option \<Rightarrow> string \<Rightarrow> ('s, 're) rbac_sys
    \<Rightarrow> 'e rbac_error option \<times> ('s, 're) rbac_sys" where
  "delete_role st n s =
     (case delete_role_locked n s of
        (Inl e, s1) \<Rightarrow> (Some e, s1)
      | (Inr (old, old_hierarchy), s1) \<Rightarrow>
          (case with_store st (\<lambda>c. remove_role c n) s1 of
             (None, s2) \<Rightarrow> (None, s2)
           | (Some e, s2) \<Rightarrow> (Some e, delete_role_undo n old old_hierarchy s2)))"

definition get_role :: "'re rbac \<Rightarrow> string \<Rightarrow> ref option" where
  "get_role r n = roles r n"

definition list_roles :: "((string \<rightharpoonup> ref) \<Rightarrow> (string \<times> ref) list) \<Rightarrow> 're rbac \<Rightarrow> ref list" where
  "list_roles order r = map snd (order (roles r))"

text \<open>The children are a non-nil slice; a nil one reads like no entry everywhere.\<close>

definition set_role_hierarchy :: "string \<Rightarrow> string list \<Rightarrow> ('s, 're) rbac_sys \<Rightarrow> ('s, 're) rbac_sys" where
  "set_role_hierarchy parent children s =
     s\<lparr>rb := (rb s)\<lparr>role_hierarchy := (role_hierarchy (rb s))(parent \<mapsto> children)\<rparr>\<rparr>"

definition set_user :: "ref \<Rightarrow> user \<Rightarrow> objects \<Rightarrow> objects" where
  "set_user p x os = os\<lparr>user_at := (user_at os)(p := x)\<rparr>"

text \<open>\<open>GenerateID\<close> puts a prefix and a dash before the short id it is given.\<close>

definition generate_id :: "string \<Rightarrow> string \<Rightarrow> string" where
  "generate_id prefix short = prefix @ ''-'' @ short"

definition add_user :: "('e, 's) store_ops option \<Rightarrow> string \<Rightarrow> gotime \<Rightarrow> ref \<Rightarrow> ('s, 're) rbac_sys
    \<Rightarrow> 'e rbac_error option \<times> ('s, 're) rbac_sys" where
  "add_user st short now p s =
     (let x = user_at (objs s) p;
          i = (if user_id x = [] then generate_id ''user'' short else user_id x);
          x = x\<lparr>user_id := i\<rparr>; s = s\<lparr>objs := set_user p x (objs s)\<rparr> in
      if users (rb s) i \<noteq> None then (Some (UserExists i), s)
      else
        (let s1 = s\<lparr>objs := set_user p (x\<lparr>user_created_at := now, enabled := True\<rparr>) (objs s),
                    rb := (rb s)\<lparr>users := (users (rb s))(i \<mapsto> p)\<rparr>\<rparr> in
         case with_store st (\<lambda>c. save_user c (objs s1) p) s1 of
           (None, s2) \<Rightarrow> (None, s2)
         | (Some e, s2) \<Rightarrow> (Some e, s2\<lparr>rb := (rb s2)\<lparr>users := (users (rb s2))(i := None)\<rparr>\<rparr>)))"

definition update_user :: "('e, 's) store_ops option \<Rightarrow> ref \<Rightarrow> ('s, 're) rbac_sys
    \<Rightarrow> 'e rbac_error option \<times> ('s, 're) rbac_sys" where
  "update_user st p s =
     (let i = user_id (user_at (objs s) p) in
      if users (rb s) i = None then (Some (UserNotFound i), s)
      else (let s1 = s\<lparr>rb := (rb s)\<lparr>users := (users (rb s))(i \<mapsto> p)\<rparr>\<rparr> in
            with_store st (\<lambda>c. save_user c (objs s1) p) s1))"

definition delete_user :: "('e, 's) store_ops option \<Rightarrow> string \<Rightarrow> ('s, 're) rbac_sys
    \<Rightarrow> 'e rbac_error option \<times> ('s, 're) rbac_sys" where
  "delete_user st i s =
     (if users (rb s) i = None then (Some (UserNotFound i), s)
      else (let s1 = s\<lparr>rb := (rb s)\<lparr>users := (users (rb s))(i := None)\<rparr>\<rparr> in
            with_store st (\<lambda>c. remove_user c i) s1))"

definition get_user :: "'re rbac \<Rightarrow> string \<Rightarrow> ref option" where
  "get_user r i = users r i"

definition assign_role :: "('e, 's) store_ops option \<Rightarrow> string \<Rightarrow> string \<Rightarrow> ('s, 're) rbac_sys
    \<Rightarrow> 'e rbac_error option \<times> ('s, 're) rbac_sys" where
  "assign_role st uid n s =
     (case users (rb s) uid of
        None \<Rightarrow> (Some (UserNotFound uid), s)
      | Some p \<Rightarrow>
          if roles (rb s) n = None then (Some (RoleNotFound n), s)
          else if n \<in> set (user_roles (user_at (objs s) p)) then (None, s)
          else
            (let u = user_at (objs s) p;
                 s1 = s\<lparr>objs := set_user p (u\<lparr>user_roles := user_roles u @ [n]\<rparr>) (objs s)\<rparr> in
             with_store st (\<lambda>c. save_user c (objs s1) p) s1))"

definition revoke_role :: "('e, 's) store_ops option \<Rightarrow> string \<Rightarrow> string \<Rightarrow> ('s, 're) rbac_sys
    \<Rightarrow> 'e rbac_error option \<times> ('s, 're) rbac_sys" where
  "revoke_role st uid n s =
     (case users (rb s) uid of
        None \<Rightarrow> (Some (UserNotFound uid), s)
      | Some p \<Rightarrow>
          (let u = user_at (objs s) p;
               s1 = s\<lparr>objs := set_user p (u\<lparr>user_roles := filter (\<lambda>x. x \<noteq> n) (user_roles u)\<rparr>) (objs s)\<rparr> in
           with_store st (\<lambda>c. save_user c (objs s1) p) s1))"

definition set_policy :: "ref \<Rightarrow> policy \<Rightarrow> objects \<Rightarrow> objects" where
  "set_policy p x os = os\<lparr>policy_at := (policy_at os)(p := x)\<rparr>"

definition add_policy :: "('e, 's) store_ops option \<Rightarrow> string \<Rightarrow> gotime \<Rightarrow> ref \<Rightarrow> ('s, 're) rbac_sys
    \<Rightarrow> 'e rbac_error option \<times> ('s, 're) rbac_sys" where
  "add_policy st short now p s =
     (let x = policy_at (objs s) p;
          i = (if policy_id x = [] then generate_id ''policy'' short else policy_id x);
          s1 = s\<lparr>objs := set_policy p (x\<lparr>policy_id := i, policy_created_at := now, policy_enabled := True\<rparr>) (objs s),
                 rb := (rb s)\<lparr>policies := (policies (rb s))(i \<mapsto> p)\<rparr>\<rparr> in
      with_store st (\<lambda>c. save_policy c (objs s1) p) s1)"

definition update_policy :: "('e, 's) store_ops option \<Rightarrow> ref \<Rightarrow> ('s, 're) rbac_sys
    \<Rightarrow> 'e rbac_error option \<times> ('s, 're) rbac_sys" where
  "update_policy st p s =
     (let i = policy_id (policy_at (objs s) p) in
      if policies (rb s) i = None then (Some (PolicyNotFound i), s)
      else (let s1 = s\<lparr>rb := (rb s)\<lparr>policies := (policies (rb s))(i \<mapsto> p)\<rparr>\<rparr> in
            with_store st (\<lambda>c. save_policy c (objs s1) p) s1))"

definition delete_policy :: "('e, 's) store_ops option \<Rightarrow> string \<Rightarrow> ('s, 're) rbac_sys
    \<Rightarrow> 'e rbac_error option \<times> ('s, 're) rbac_sys" where
  "delete_policy st i s =
     (if policies (rb s) i = None then (Some (PolicyNotFound i), s)
      else (let s1 = s\<lparr>rb := (rb s)\<lparr>policies := (policies (rb s))(i := None)\<rparr>\<rparr> in
            with_store st (\<lambda>c. remove_policy c i) s1))"

definition get_policy :: "'re rbac \<Rightarrow> string \<Rightarrow> ref option" where
  "get_policy r i = policies r i"

definition list_policies :: "((string \<rightharpoonup> ref) \<Rightarrow> (string \<times> ref) list) \<Rightarrow> 're rbac \<Rightarrow> ref list" where
  "list_policies order r = map snd (order (policies r))"

text \<open>\<open>NewRBAC\<close>: empty tables, then the default roles at four fresh addresses, added without a store.\<close>

definition grant :: "string \<Rightarrow> string \<Rightarrow> permission" where
  "grant res act = \<lparr>resource = res, action = act, conditions = Map.empty\<rparr>"

definition default_role :: "string \<Rightarrow> string \<Rightarrow> string \<Rightarrow> permission list \<Rightarrow> role" where
  "default_role n d t ps = \<lparr>role_name = n, display_name = d, role_description = t, permissions = ps,
     role_metadata = Map.empty, role_created_at = 0, role_updated_at = 0\<rparr>"

definition default_roles :: "role list" where
  "default_roles =
     [default_role ''admin'' ''Administrator'' ''Full system access'' [grant ''*'' ''*''],
      default_role ''user'' ''User'' ''Standard user access''
        [grant ''agent'' ''run'', grant ''agent'' ''read'', grant ''tool'' ''execute'',
         grant ''memory'' ''read'', grant ''memory'' ''write''],
      default_role ''guest'' ''Guest'' ''Read-only access''
        [grant ''agent'' ''read'', grant ''tool'' ''read''],
      default_role ''agent'' ''AI Agent'' ''Agent execution permissions''
        [grant ''llm'' ''call'', grant ''tool'' ''execute'', grant ''memory'' ''read'',
         grant ''memory'' ''write'']]"

fun add_defaults :: "gotime \<Rightarrow> ref \<Rightarrow> role list \<Rightarrow> ('s, 're) rbac_sys \<Rightarrow> ('s, 're) rbac_sys" where
  "add_defaults now p [] s = s"
| "add_defaults now p (x # xs) s =
     add_defaults now (Suc p) xs (snd (add_role (None :: (unit, 's) store_ops option) now p (s\<lparr>objs := set_role p x (objs s)\<rparr>)))"

definition init_default_roles :: "gotime \<Rightarrow> ref \<Rightarrow> ('s, 're) rbac_sys \<Rightarrow> ('s, 're) rbac_sys" where
  "init_default_roles now p s =
     set_role_hierarchy ''user'' [''guest'']
       (set_role_hierarchy ''admin'' [''user'', ''guest'', ''agent''] (add_defaults now p default_roles s))"

definition empty_rbac :: "'re rbac" where
  "empty_rbac = \<lparr>roles = Map.empty, users = Map.empty, policies = Map.empty,
     role_hierarchy = Map.empty, regex_cache = Map.empty\<rparr>"

definition new_rbac :: "gotime \<Rightarrow> ref \<Rightarrow> objects \<Rightarrow> 's \<Rightarrow> ('s, 're) rbac_sys" where
  "new_rbac now p os d = init_default_roles now p \<lparr>rb = empty_rbac, objs = os, disk = d\<rparr>"

subsection \<open>The memory store\<close>

record mem_rbac =
  mem_roles :: "string \<rightharpoonup> ref"
  mem_users :: "string \<rightharpoonup> ref"
  mem_policies :: "string \<rightharpoonup> ref"

definition new_memory_store :: mem_rbac where
  "new_memory_store = \<lparr>mem_roles = Map.empty, mem_users = Map.empty, mem_policies = Map.empty\<rparr>"

definition mem_save_role :: "objects \<Rightarrow> ref \<Rightarrow> mem_rbac \<Rightarrow> 'e option \<times> mem_rbac" where
  "mem_save_role os p m = (None, m\<lparr>mem_roles := (mem_roles m)(role_name (role_at os p) \<mapsto> p)\<rparr>)"

definition mem_delete_role :: "string \<Rightarrow> mem_rbac \<Rightarrow> 'e option \<times> mem_rbac" where
  "mem_delete_role n m = (None, m\<lparr>mem_roles := (mem_roles m)(n := None)\<rparr>)"

definition mem_save_user :: "objects \<Rightarrow> ref \<Rightarrow> mem_rbac \<Rightarrow> 'e option \<times> mem_rbac" where
  "mem_save_user os p m = (None, m\<lparr>mem_users := (mem_users m)(user_id (user_at os p) \<mapsto> p)\<rparr>)"

definition mem_delete_user :: "string \<Rightarrow> mem_rbac \<Rightarrow> 'e option \<times> mem_rbac" where
  "mem_delete_user i m = (None, m\<lparr>mem_users := (mem_users m)(i := None)\<rparr>)"

definition mem_save_policy :: "objects \<Rightarrow> ref \<Rightarrow> mem_rbac \<Rightarrow> 'e option \<times> mem_rbac" where
  "mem_save_policy os p m = (None, m\<lparr>mem_policies := (mem_policies m)(policy_id (policy_at os p) \<mapsto> p)\<rparr>)"

definition mem_delete_policy :: "string \<Rightarrow> mem_rbac \<Rightarrow> 'e option \<times> mem_rbac" where
  "mem_delete_policy i m = (None, m\<lparr>mem_policies := (mem_policies m)(i := None)\<rparr>)"

definition mem_get_role :: "string \<Rightarrow> mem_rbac \<Rightarrow> 'e rbac_error + ref" where
  "mem_get_role n m = (case mem_roles m n of Some p \<Rightarrow> Inr p | None \<Rightarrow> Inl (RoleNotFound n))"

definition mem_get_user :: "string \<Rightarrow> mem_rbac \<Rightarrow> 'e rbac_error + ref" where
  "mem_get_user i m = (case mem_users m i of Some p \<Rightarrow> Inr p | None \<Rightarrow> Inl (UserNotFound i))"

definition mem_get_policy :: "string \<Rightarrow> mem_rbac \<Rightarrow> 'e rbac_error + ref" where
  "mem_get_policy i m = (case mem_policies m i of Some p \<Rightarrow> Inr p | None \<Rightarrow> Inl (PolicyNotFound i))"

definition mem_list_roles :: "((string \<rightharpoonup> ref) \<Rightarrow> (string \<times> ref) list) \<Rightarrow> mem_rbac \<Rightarrow> ref list" where
  "mem_list_roles order m = map snd (order (mem_roles m))"

definition mem_list_policies :: "((string \<rightharpoonup> ref) \<Rightarrow> (string \<times> ref) list) \<Rightarrow> mem_rbac \<Rightarrow> ref list" where
  "mem_list_policies order m = map snd (order (mem_policies m))"

definition memory_store :: "('e, mem_rbac) store_ops" where
  "memory_store = \<lparr>save_role = mem_save_role, remove_role = mem_delete_role, save_user = mem_save_user,
     remove_user = mem_delete_user, save_policy = mem_save_policy, remove_policy = mem_delete_policy\<rparr>"

text \<open>Histories of operations.\<close>

datatype rbac_op = AddRole gotime ref | UpdateRole gotime ref | DeleteRole string
  | SetRoleHierarchy string "string list" | AddUser string gotime ref | UpdateUser ref | DeleteUser string
  | AssignRole string string | RevokeRole string string
  | AddPolicy string gotime ref | UpdatePolicy ref | DeletePolicy string

fun run_op :: "('e, 's) store_ops option \<Rightarrow> rbac_op \<Rightarrow> ('s, 're) rbac_sys
    \<Rightarrow> 'e rbac_error option \<times> ('s, 're) rbac_sys" where
  "run_op st (AddRole now p) s = add_role st now p s"
| "run_op st (UpdateRole now p) s = update_role st now p s"
| "run_op st (DeleteRole n) s = delete_role st n s"
| "run_op st (SetRoleHierarchy n cs) s = (None, set_role_hierarchy n cs s)"
| "run_op st (AddUser short now p) s = add_user st short now p s"
| "run_op st (UpdateUser p) s = update_user st p s"
| "run_op st (DeleteUser i) s = delete_user st i s"
| "run_op st (AssignRole i n) s = assign_role st i n s"
| "run_op st (RevokeRole i n) s = revoke_role st i n s"
| "run_op st (AddPolicy short now p) s = add_policy st short now p s"
| "run_op st (UpdatePolicy p) s = update_policy st p s"
| "run_op st (DeletePolicy i) s = delete_policy st i s"

fun run_ops :: "('e, 's) store_ops option \<Rightarrow> rbac_op list \<Rightarrow> ('s, 're) rbac_sys
    \<Rightarrow> 'e rbac_error option list \<times> ('s, 're) rbac_sys" where
  "run_ops st [] s = ([], s)"
| "run_ops st (x # xs) s =
     (case run_op st x s of (e, s1) \<Rightarrow> (case run_ops st xs s1 of (es, s2) \<Rightarrow> (e # es, s2)))"

subsection \<open>Keys and the store\<close>

text \<open>Every entry of a table is filed under the key its object carries.\<close>

definition well_keyed :: "('s, 're) rbac_sys \<Rightarrow> bool" where
  "well_keyed s \<longleftrightarrow>
     (\<forall>n p. roles (rb s) n = Some p \<longrightarrow> role_name (role_at (objs s) p) = n) \<and>
     (\<forall>i p. users (rb s) i = Some p \<longrightarrow> user_id (user_at (objs s) p) = i \<and> i \<noteq> []) \<and>
     (\<forall>i p. policies (rb s) i = Some p \<longrightarrow> policy_id (policy_at (objs s) p) = i \<and> i \<noteq> [])"

lemma generate_id_nonempty [simp]: "generate_id prefix short \<noteq> []"
  by (simp add: generate_id_def)

lemmas object_defs = set_role_def set_user_def set_policy_def

lemmas role_op_defs = add_role_def add_role_locked_def add_role_undo_def update_role_def update_role_locked_def
  update_role_undo_def delete_role_def delete_role_locked_def delete_role_undo_def

lemmas op_defs = role_op_defs
  set_role_hierarchy_def add_user_def update_user_def delete_user_def assign_role_def revoke_role_def
  add_policy_def update_policy_def delete_policy_def

lemma with_store_cases:
  obtains e d where "with_store st call s = (e, s\<lparr>disk := d\<rparr>)"
proof (cases st)
  case None
  then have "with_store st call s = (None, s\<lparr>disk := disk s\<rparr>)" by (simp add: with_store_def)
  then show ?thesis using that by blast
next
  case (Some ops)
  then show ?thesis using that by (cases "call ops (disk s)") (simp add: with_store_def)
qed

lemma well_keyed_disk [simp]: "well_keyed (s\<lparr>disk := d\<rparr>) = well_keyed s"
  by (simp add: well_keyed_def)

lemma with_store_keyed:
  "(\<And>e d. well_keyed (snd (f e (s\<lparr>disk := d\<rparr>)))) \<Longrightarrow>
     well_keyed (snd (case with_store st call s of (e, s') \<Rightarrow> f e s'))"
  by (rule with_store_cases[of st call s]) simp

lemma with_store_keyed_last: "well_keyed s \<Longrightarrow> well_keyed (snd (with_store st call s))"
  by (rule with_store_cases[of st call s]) simp

text \<open>An error of the store call is a \<open>StoreError\<close>.\<close>

lemma with_store_error: "with_store st call s = (Some e, s') \<Longrightarrow> \<exists>x d. e = StoreError x \<and> s' = s\<lparr>disk := d\<rparr>"
  by (auto simp: with_store_def split: option.splits prod.splits)

named_theorems op_keyed \<open>operations keep the tables well keyed\<close>

lemma add_role_keyed [op_keyed]: "well_keyed s \<Longrightarrow> well_keyed (snd (add_role st now p s))"
  by (auto simp: add_role_def add_role_locked_def add_role_undo_def Let_def intro!: with_store_keyed split: option.split)
    (auto simp: well_keyed_def set_role_def)

lemma update_role_keyed [op_keyed]: "well_keyed s \<Longrightarrow> well_keyed (snd (update_role st now p s))"
  by (auto simp: update_role_def update_role_locked_def update_role_undo_def Let_def intro!: with_store_keyed split: option.split)
    (auto simp: well_keyed_def set_role_def)

lemma delete_role_keyed [op_keyed]: "well_keyed s \<Longrightarrow> well_keyed (snd (delete_role st n s))"
  by (auto simp: delete_role_def delete_role_locked_def delete_role_undo_def Let_def intro!: with_store_keyed split: option.split)
    (auto simp: well_keyed_def)

lemma add_user_keyed [op_keyed]: "well_keyed s \<Longrightarrow> well_keyed (snd (add_user st short now p s))"
  by (auto simp: add_user_def Let_def intro!: with_store_keyed split: option.split)
    (auto simp: well_keyed_def set_user_def)

lemma update_user_keyed [op_keyed]: "well_keyed s \<Longrightarrow> well_keyed (snd (update_user st p s))"
  by (auto simp: update_user_def Let_def intro!: with_store_keyed_last) (auto simp: well_keyed_def)

lemma delete_user_keyed [op_keyed]: "well_keyed s \<Longrightarrow> well_keyed (snd (delete_user st i s))"
  by (auto simp: delete_user_def Let_def intro!: with_store_keyed_last) (auto simp: well_keyed_def)

lemma assign_role_keyed [op_keyed]: "well_keyed s \<Longrightarrow> well_keyed (snd (assign_role st i n s))"
  by (auto simp: assign_role_def Let_def intro!: with_store_keyed_last split: option.split)
    (auto simp: well_keyed_def set_user_def)

lemma revoke_role_keyed [op_keyed]: "well_keyed s \<Longrightarrow> well_keyed (snd (revoke_role st i n s))"
  by (auto simp: revoke_role_def Let_def intro!: with_store_keyed_last split: option.split)
    (auto simp: well_keyed_def set_user_def)

lemma add_policy_keyed [op_keyed]: "well_keyed s \<Longrightarrow> well_keyed (snd (add_policy st short now p s))"
  by (auto simp: add_policy_def Let_def intro!: with_store_keyed_last)
    (auto simp: well_keyed_def set_policy_def)

lemma update_policy_keyed [op_keyed]: "well_keyed s \<Longrightarrow> well_keyed (snd (update_policy st p s))"
  by (auto simp: update_policy_def Let_def intro!: with_store_keyed_last) (auto simp: well_keyed_def)

lemma delete_policy_keyed [op_keyed]: "well_keyed s \<Longrightarrow> well_keyed (snd (delete_policy st i s))"
  by (auto simp: delete_policy_def Let_def intro!: with_store_keyed_last) (auto simp: well_keyed_def)

lemma set_hierarchy_keyed [op_keyed]: "well_keyed s \<Longrightarrow> well_keyed (set_role_hierarchy n cs s)"
  by (auto simp: well_keyed_def set_role_hierarchy_def)

lemma run_op_keyed: "well_keyed s \<Longrightarrow> well_keyed (snd (run_op st x s))"
  by (cases x) (simp_all add: op_keyed)

lemma run_ops_keyed: "well_keyed s \<Longrightarrow> well_keyed (snd (run_ops st xs s))"
proof (induction xs arbitrary: s)
  case (Cons x xs)
  then show ?case using run_op_keyed[of s st x]
    by (simp add: case_prod_beta)
qed simp

lemma set_role_keyed:
  "well_keyed s \<Longrightarrow> (\<And>n. roles (rb s) n \<noteq> Some p) \<Longrightarrow> well_keyed (s\<lparr>objs := set_role p x (objs s)\<rparr>)"
  by (auto simp: well_keyed_def set_role_def)

lemma add_defaults_keyed:
  "well_keyed s \<Longrightarrow> (\<And>n q. roles (rb s) n = Some q \<Longrightarrow> q < p) \<Longrightarrow> well_keyed (add_defaults now p xs s)"
proof (induction xs arbitrary: p s)
  case (Cons x xs)
  let ?s = "s\<lparr>objs := set_role p x (objs s)\<rparr>"
  let ?t = "snd (add_role (None :: (unit, 'a) store_ops option) now p ?s)"
  have "well_keyed ?t" using Cons.prems by (intro add_role_keyed set_role_keyed) auto
  moreover have "roles (rb ?t) n = Some q \<Longrightarrow> q < Suc p" for n q
    using Cons.prems(2)[of n q]
    by (auto simp: add_role_def add_role_locked_def with_store_def Let_def split: if_splits)
  ultimately show ?case using Cons.IH[of ?t "Suc p"] by simp
qed simp

lemma new_rbac_keyed: "well_keyed (new_rbac now p os d)"
  unfolding new_rbac_def init_default_roles_def
  by (intro set_hierarchy_keyed add_defaults_keyed) (auto simp: well_keyed_def empty_rbac_def)

text \<open>
  What a persistent store promises, in terms of the names it holds: a call that succeeds has its
  effect on them. Of a call that fails nothing is said.
\<close>

locale rbac_store =
  fixes ops :: "('e, 's) store_ops" and view :: "'s \<Rightarrow> string set \<times> string set \<times> string set"
  assumes save_role_view: "\<And>os p d d'. save_role ops os p d = (None, d') \<Longrightarrow>
      view d' = apfst (insert (role_name (role_at os p))) (view d)"
    and remove_role_view: "\<And>n d d'. remove_role ops n d = (None, d') \<Longrightarrow> view d' = apfst (\<lambda>R. R - {n}) (view d)"
    and save_user_view: "\<And>os p d d'. save_user ops os p d = (None, d') \<Longrightarrow>
      view d' = apsnd (apfst (insert (user_id (user_at os p)))) (view d)"
    and remove_user_view: "\<And>i d d'. remove_user ops i d = (None, d') \<Longrightarrow> view d' = apsnd (apfst (\<lambda>U. U - {i})) (view d)"
    and save_policy_view: "\<And>os p d d'. save_policy ops os p d = (None, d') \<Longrightarrow>
      view d' = apsnd (apsnd (insert (policy_id (policy_at os p)))) (view d)"
    and remove_policy_view: "\<And>i d d'. remove_policy ops i d = (None, d') \<Longrightarrow>
      view d' = apsnd (apsnd (\<lambda>P. P - {i})) (view d)"
begin

lemma with_store_view:
  assumes "with_store (Some ops) call s = (None, s')"
    and "\<And>d. call ops (disk s) = (None, d) \<Longrightarrow> view d = f (view (disk s))"
  shows "\<exists>d. s' = s\<lparr>disk := d\<rparr> \<and> view d = f (view (disk s))"
  using assms by (auto simp: with_store_def split: prod.splits)

lemma save_role_call: "with_store (Some ops) (\<lambda>c. save_role c os p) s = (None, s') \<Longrightarrow>
    \<exists>d. s' = s\<lparr>disk := d\<rparr> \<and> view d = apfst (insert (role_name (role_at os p))) (view (disk s))"
  by (erule with_store_view) (rule save_role_view)

lemma remove_role_call: "with_store (Some ops) (\<lambda>c. remove_role c n) s = (None, s') \<Longrightarrow>
    \<exists>d. s' = s\<lparr>disk := d\<rparr> \<and> view d = apfst (\<lambda>R. R - {n}) (view (disk s))"
  by (erule with_store_view) (rule remove_role_view)

lemma save_user_call: "with_store (Some ops) (\<lambda>c. save_user c os p) s = (None, s') \<Longrightarrow>
    \<exists>d. s' = s\<lparr>disk := d\<rparr> \<and> view d = apsnd (apfst (insert (user_id (user_at os p)))) (view (disk s))"
  by (erule with_store_view) (rule save_user_view)

lemma remove_user_call: "with_store (Some ops) (\<lambda>c. remove_user c i) s = (None, s') \<Longrightarrow>
    \<exists>d. s' = s\<lparr>disk := d\<rparr> \<and> view d = apsnd (apfst (\<lambda>U. U - {i})) (view (disk s))"
  by (erule with_store_view) (rule remove_user_view)

lemma save_policy_call: "with_store (Some ops) (\<lambda>c. save_policy c os p) s = (None, s') \<Longrightarrow>
    \<exists>d. s' = s\<lparr>disk := d\<rparr> \<and> view d = apsnd (apsnd (insert (policy_id (policy_at os p)))) (view (disk s))"
  by (erule with_store_view) (rule save_policy_view)

lemma remove_policy_call: "with_store (Some ops) (\<lambda>c. remove_policy c i) s = (None, s') \<Longrightarrow>
    \<exists>d. s' = s\<lparr>disk := d\<rparr> \<and> view d = apsnd (apsnd (\<lambda>P. P - {i})) (view (disk s))"
  by (erule with_store_view) (rule remove_policy_view)

lemmas call_views = save_role_call remove_role_call save_user_call remove_user_call
  save_policy_call remove_policy_call

definition roles_mirrored :: "('s, 're) rbac_sys \<Rightarrow> bool" where
  "roles_mirrored s \<longleftrightarrow> fst (view (disk s)) \<subseteq> dom (roles (rb s))"

definition users_mirrored :: "('s, 're) rbac_sys \<Rightarrow> bool" where
  "users_mirrored s \<longleftrightarrow> fst (snd (view (disk s))) = dom (users (rb s)) \<and>
     snd (snd (view (disk s))) = dom (policies (rb s))"

text \<open>An operation that ends without an error keeps the store a mirror of the tables.\<close>

lemma run_op_roles_mirrored:
  assumes "run_op (Some ops) x s = (e, s')" "well_keyed s" "roles_mirrored s" "\<And>y. e \<noteq> Some (StoreError y)"
  shows "roles_mirrored s'"
proof (cases e)
  case None
  then show ?thesis using assms(1-3)
    by (cases x)
      (auto simp: op_defs object_defs roles_mirrored_def Let_def
        split: if_splits option.splits prod.splits sum.splits dest!: call_views)
next
  case (Some y)
  then show ?thesis using assms
    by (cases x)
      (auto simp: op_defs object_defs roles_mirrored_def Let_def
        split: if_splits option.splits prod.splits sum.splits dest!: with_store_error)
qed

lemma run_op_users_mirrored:
  assumes "run_op (Some ops) x s = (e, s')" "well_keyed s" "users_mirrored s" "\<And>y. e \<noteq> Some (StoreError y)"
  shows "users_mirrored s'"
proof (cases e)
  case None
  then show ?thesis using assms(1-3)
    by (cases x)
      (auto simp: op_defs object_defs users_mirrored_def Let_def well_keyed_def
        split: if_splits option.splits prod.splits sum.splits dest!: call_views)
next
  case (Some y)
  then show ?thesis using assms
    by (cases x)
      (auto simp: op_defs object_defs users_mirrored_def Let_def
        split: if_splits option.splits prod.splits sum.splits dest!: with_store_error)
qed

end

text \<open>A store whose calls never fail keeps the tables mirrored.\<close>

locale reliable_store = rbac_store +
  assumes save_role_reliable: "fst (save_role ops os p d) = None"
    and remove_role_reliable: "fst (remove_role ops n d) = None"
    and save_user_reliable: "fst (save_user ops os p d) = None"
    and remove_user_reliable: "fst (remove_user ops n d) = None"
    and save_policy_reliable: "fst (save_policy ops os p d) = None"
    and remove_policy_reliable: "fst (remove_policy ops n d) = None"
begin

lemma with_store_reliable:
  assumes "with_store (Some ops) call s = (e, s')" and "fst (call ops (disk s)) = None"
  shows "e = None"
  using assms by (cases "call ops (disk s)") (simp add: with_store_def)

lemma save_role_none: "with_store (Some ops) (\<lambda>c. save_role c os p) s = (e, s') \<Longrightarrow> e = None"
  by (erule with_store_reliable) (rule save_role_reliable)
lemma remove_role_none: "with_store (Some ops) (\<lambda>c. remove_role c n) s = (e, s') \<Longrightarrow> e = None"
  by (erule with_store_reliable) (rule remove_role_reliable)
lemma save_user_none: "with_store (Some ops) (\<lambda>c. save_user c os p) s = (e, s') \<Longrightarrow> e = None"
  by (erule with_store_reliable) (rule save_user_reliable)
lemma remove_user_none: "with_store (Some ops) (\<lambda>c. remove_user c n) s = (e, s') \<Longrightarrow> e = None"
  by (erule with_store_reliable) (rule remove_user_reliable)
lemma save_policy_none: "with_store (Some ops) (\<lambda>c. save_policy c os p) s = (e, s') \<Longrightarrow> e = None"
  by (erule with_store_reliable) (rule save_policy_reliable)
lemma remove_policy_none: "with_store (Some ops) (\<lambda>c. remove_policy c n) s = (e, s') \<Longrightarrow> e = None"
  by (erule with_store_reliable) (rule remove_policy_reliable)

lemmas reliable_calls = save_role_none remove_role_none save_user_none remove_user_none
  save_policy_none remove_policy_none

lemma run_op_reliable: "run_op (Some ops) x s = (e, s') \<Longrightarrow> e \<noteq> Some (StoreError y)"
  by (cases x)
    (auto simp: op_defs Let_def split: if_splits option.splits prod.splits sum.splits dest!: reliable_calls)

lemma run_ops_roles_mirrored:
  "well_keyed s \<Longrightarrow> roles_mirrored s \<Longrightarrow> roles_mirrored (snd (run_ops (Some ops) xs s))"
proof (induction xs arbitrary: s)
  case (Cons x xs)
  obtain e s1 where x: "run_op (Some ops) x s = (e, s1)" by force
  have "well_keyed s1" using run_op_keyed[OF Cons.prems(1), of "Some ops" x] x by simp
  moreover have "roles_mirrored s1"
    by (rule run_op_roles_mirrored[OF x Cons.prems]) (rule run_op_reliable[OF x])
  ultimately show ?case using Cons.IH[of s1] by (simp add: x case_prod_beta)
qed simp

lemma run_ops_users_mirrored:
  "well_keyed s \<Longrightarrow> users_mirrored s \<Longrightarrow> users_mirrored (snd (run_ops (Some ops) xs s))"
proof (induction xs arbitrary: s)
  case (Cons x xs)
  obtain e s1 where x: "run_op (Some ops) x s = (e, s1)" by force
  have "well_keyed s1" using run_op_keyed[OF Cons.prems(1), of "Some ops" x] x by simp
  moreover have "users_mirrored s1"
    by (rule run_op_users_mirrored[OF x Cons.prems]) (rule run_op_reliable[OF x])
  ultimately show ?case using Cons.IH[of s1] by (simp add: x case_prod_beta)
qed simp

end

definition mem_view :: "mem_rbac \<Rightarrow> string set \<times> string set \<times> string set" where
  "mem_view m = (dom (mem_roles m), dom (mem_users m), dom (mem_policies m))"

interpretation mem_store: reliable_store memory_store mem_view
  by unfold_locales
    (auto simp: memory_store_def mem_view_def mem_save_role_def mem_delete_role_def mem_save_user_def
      mem_delete_user_def mem_save_policy_def mem_delete_policy_def)

subsection \<open>Properties\<close>

text \<open>
  C32: the decision. For a finite role hierarchy and a request whose context values are comparable,
  authorisation never panics, whatever order the maps are ranged over, and it allows the request
  exactly when the user exists and is enabled and either some role it holds, directly or by
  inheritance, exists and has an applicable permission, or else the first enabled policy of the
  enumeration that applies has effect allow. The regex cache keeps caching what patterns compile to.
\<close>

theorem authorize_decides:
  assumes "finite (dom (role_hierarchy r))" and "ranges_ok rg r os req"
    and "comparable_ctx (req_context req)" and "cache_ok rx (regex_cache r)"
  shows "\<exists>res cache. authorize rg rx r os req = Some (res, r\<lparr>regex_cache := cache\<rparr>) \<and> cache_ok rx cache \<and>
    (allowed res \<longleftrightarrow> (\<exists>u. users r (subject req) = Some u \<and> enabled (user_at os u) \<and>
       ((\<exists>n \<in> held_roles r (user_at os u). role_permits r os req n) \<or>
        (\<exists>p. find (policy_applies rx req)
               (map (\<lambda>kv. policy_at os (snd kv)) (range_policies rg (policies r))) = Some p \<and>
             effect p = EffectAllow))))"
proof (cases "users r (subject req)")
  case None
  then show ?thesis using assms(4)
    by (intro exI[of _ "denied ''user not found''"] exI[of _ "regex_cache r"])
      (simp add: authorize_def denied_def)
next
  case (Some u)
  show ?thesis
  proof (cases "enabled (user_at os u)")
    case False
    then show ?thesis using Some assms(4)
      by (intro exI[of _ "denied ''user disabled''"] exI[of _ "regex_cache r"])
        (simp add: authorize_def denied_def)
  next
    case True
    obtain ns where ns: "get_user_roles rg r os (subject req) = Some ns" "set ns = held_roles r (user_at os u)"
      using get_user_roles_spec[OF assms(1) Some] assms(2) Some unfolding ranges_ok_def by blast
    obtain m where m: "match_roles rg r os ns req = Some m"
      "m = None \<longleftrightarrow> \<not> (\<exists>n \<in> held_roles r (user_at os u). role_permits r os req n)"
      using match_roles_spec[OF assms(3,2), of ns] ns(2) by auto
    obtain cache where c: "match_policies rx os (map snd (range_policies rg (policies r))) req (regex_cache r) =
        Some (find (policy_applies rx req) (map (\<lambda>kv. policy_at os (snd kv)) (range_policies rg (policies r))), cache)"
      "cache_ok rx cache"
      using match_policies_spec[OF assms(3,4), of os "map snd (range_policies rg (policies r))"]
      by (auto simp: comp_def)
    have dec: "authorize rg rx r os req = (case m of
        Some (n, perm) \<Rightarrow> Some (\<lparr>allowed = True, reason = ''permitted by role '' @ n, matched_policy = [],
                           matched_permission = Some perm\<rparr>, r)
      | None \<Rightarrow> (case find (policy_applies rx req) (map (\<lambda>kv. policy_at os (snd kv)) (range_policies rg (policies r))) of
          None \<Rightarrow> Some (denied ''no matching permission'', r\<lparr>regex_cache := cache\<rparr>)
        | Some p \<Rightarrow> Some (\<lparr>allowed = (effect p = EffectAllow), reason = ''matched policy '' @ policy_id p,
                                matched_policy = policy_id p, matched_permission = None\<rparr>, r\<lparr>regex_cache := cache\<rparr>)))"
      using Some True ns(1) m(1) c(1) by (simp add: authorize_def split: option.splits)
    show ?thesis
    proof (cases m)
      case None
      then show ?thesis unfolding dec using m(2) c(2) Some True
        by (cases "find (policy_applies rx req) (map (\<lambda>kv. policy_at os (snd kv)) (range_policies rg (policies r)))")
          (auto simp: denied_def)
    next
      case (Some np)
      obtain n perm where np: "np = (n, perm)" by force
      have "\<exists>n \<in> held_roles r (user_at os u). role_permits r os req n" using m(2) Some by simp
      then show ?thesis unfolding dec using Some np True \<open>users r (subject req) = Some u\<close> assms(4)
        by (intro exI[of _ "\<lparr>allowed = True, reason = ''permitted by role '' @ n, matched_policy = [],
              matched_permission = Some perm\<rparr>"] exI[of _ "regex_cache r"]) simp
    qed
  qed
qed

definition sample_ranges :: ranges where
  "sample_ranges = \<lparr>range_roles = (\<lambda>m. [(''guest'', True), (''user'', True)]), range_conditions = (\<lambda>m. []),
     range_policies = (\<lambda>m. [(''p'', 0)])\<rparr>"

definition sample_user :: user where
  "sample_user = \<lparr>user_id = ''u'', user_name = ''U'', user_roles = [''user''], attributes = Map.empty,
     enabled = True, user_created_at = 0, last_active_at = 0\<rparr>"

definition sample_policy :: "policy_effect \<Rightarrow> policy" where
  "sample_policy e = \<lparr>policy_id = ''p'', policy_name = ''P'', policy_description = [], effect = e,
     subjects = [''*''], resources = [''doc:*''], actions = [''*''],
     policy_conditions = [\<lparr>cond_key = ''team'', operator = OpIn, cond_value = VList [VString ''x'']\<rparr>],
     policy_priority = 1, policy_enabled = True, policy_created_at = 0\<rparr>"

definition sample_objects :: objects where
  "sample_objects = \<lparr>role_at = (\<lambda>p. default_roles ! p), user_at = (\<lambda>_. sample_user),
     policy_at = (\<lambda>p. sample_policy (if p = 0 then EffectAllow else EffectDeny))\<rparr>"

definition sample_rbac :: "nat rbac" where
  "sample_rbac = \<lparr>roles = Map.empty(''user'' \<mapsto> 1, ''guest'' \<mapsto> 2), users = Map.empty(''u'' \<mapsto> 0),
     policies = Map.empty(''p'' \<mapsto> 0), role_hierarchy = Map.empty(''user'' \<mapsto> [''guest'']),
     regex_cache = Map.empty\<rparr>"

definition sample_request :: access_request where
  "sample_request = \<lparr>subject = ''u'', req_resource = ''doc:1'', req_action = ''edit'',
     req_context = Map.empty(''team'' \<mapsto> VString ''x'')\<rparr>"

definition sample_regexps :: "nat regexps" where
  "sample_regexps = \<lparr>rx_compile = (\<lambda>_. None), rx_match = (\<lambda>_ _. None)\<rparr>"

lemma sample_inherits: "(''user'', m) \<in> (inherits (role_hierarchy sample_rbac))\<^sup>* \<longleftrightarrow> m = ''user'' \<or> m = ''guest''"
proof -
  have rel: "inherits (role_hierarchy sample_rbac) = {(''user'', ''guest'')}"
    by (auto simp: inherits_def children_of_def sample_rbac_def split: if_splits)
  show ?thesis unfolding rel
  proof
    assume "(''user'', m) \<in> {(''user'', ''guest'')}\<^sup>*"
    then show "m = ''user'' \<or> m = ''guest''" by (induction rule: rtrancl_induct) auto
  qed auto
qed

lemma sample_ranges_ok: "ranges_ok sample_ranges sample_rbac sample_objects sample_request"
proof -
  have held: "held_roles sample_rbac sample_user = {''user'', ''guest''}"
    using sample_inherits by (auto simp: held_roles_def sample_user_def)
  have "enumerates [(''guest'', True), (''user'', True)] (role_marks {''user'', ''guest''})"
    by (auto simp: enumerates_def role_marks_def fun_eq_iff)
  then show ?thesis using held
    by (auto simp: ranges_ok_def sample_ranges_def sample_rbac_def sample_objects_def sample_request_def
        enumerates_def default_roles_def default_role_def grant_def split: if_splits)
qed

theorem authorize_decides_witness:
  "\<exists>res cache. authorize sample_ranges sample_regexps sample_rbac sample_objects sample_request =
     Some (res, sample_rbac\<lparr>regex_cache := cache\<rparr>) \<and> allowed res"
proof -
  have fin: "finite (dom (role_hierarchy sample_rbac))" by (simp add: sample_rbac_def)
  have cmp: "comparable_ctx (req_context sample_request)"
    by (simp add: comparable_ctx_def sample_request_def)
  have ok: "cache_ok sample_regexps (regex_cache sample_rbac)" by (simp add: cache_ok_def sample_rbac_def)
  have "policy_applies sample_regexps sample_request (sample_policy EffectAllow)"
    by (simp add: policy_applies_def sample_policy_def sample_request_def matches_any_def
        match_wildcard_def has_prefix_def condition_applies_def)
  then have "find (policy_applies sample_regexps sample_request)
      (map (\<lambda>kv. policy_at sample_objects (snd kv)) (range_policies sample_ranges (policies sample_rbac))) =
      Some (sample_policy EffectAllow)"
    by (simp add: sample_ranges_def sample_objects_def)
  then show ?thesis
    using authorize_decides[of sample_rbac sample_ranges sample_objects sample_request sample_regexps, OF fin sample_ranges_ok cmp ok]
    by (auto simp: sample_policy_def sample_rbac_def sample_request_def sample_objects_def sample_user_def)
qed

text \<open>
  C38: for a finite hierarchy, cyclic or not, the roles a role inherits are computed, each once, and
  they are exactly the roles reachable from it, itself included.
\<close>

theorem inherited_roles_correct:
  assumes "finite (dom h)"
  shows "\<exists>rs. get_inherited_roles h n = Some rs \<and> distinct rs \<and> set rs = {m. (n, m) \<in> (inherits h)\<^sup>*}"
  by (rule get_inherited_roles_spec[OF assms])

theorem inherited_roles_correct_witness:
  "\<exists>rs. get_inherited_roles (Map.empty(''a'' \<mapsto> [''b'', ''c''], ''b'' \<mapsto> [''a''])) ''a'' = Some rs \<and>
     distinct rs \<and> ''c'' \<in> set rs"
proof -
  let ?h = "Map.empty(''a'' \<mapsto> [''b'', ''c''], ''b'' \<mapsto> [''a''])"
  have "(''a'', ''c'') \<in> inherits ?h" by (simp add: inherits_def children_of_def)
  then show ?thesis using inherited_roles_correct[of ?h "''a''"] by auto
qed

subsection \<open>Role operations under way at the same time\<close>

text \<open>
  A role operation takes the lock twice: for its section, and, if the store then refuses, for its
  roll back. Between the two other operations run, and other role operations start and end. An
  event is the first section of a call (numbered), the end of its store call, accepted or refused,
  \<open>SetRoleHierarchy\<close>, or an operation on users and policies; the store is left by the end of a call
  in any state \<open>d\<close> whatever. A pending call carries what its roll back needs.
\<close>

datatype role_call = CallAdd gotime ref | CallUpdate gotime ref | CallDelete string

datatype role_undo = UndoAdd ref | UndoUpdate ref ref | UndoDelete string ref "string list option"


fun role_rollback :: "role_undo \<Rightarrow> ('s, 're) rbac_sys \<Rightarrow> ('s, 're) rbac_sys" where
  "role_rollback (UndoAdd p) s = add_role_undo p s"
| "role_rollback (UndoUpdate p old) s = update_role_undo p old s"
| "role_rollback (UndoDelete n old h) s = delete_role_undo n old h s"




datatype 's role_event = Begin nat role_call | Stored nat 's | Refused nat 's
  | Hierarchy string "string list" | Elsewhere rbac_op


type_synonym pending_calls = "(nat \<times> role_undo) list"





fun undo_name :: "objects \<Rightarrow> role_undo \<Rightarrow> string" where
  "undo_name os (UndoAdd p) = role_name (role_at os p)"
| "undo_name os (UndoUpdate p old) = role_name (role_at os p)"
| "undo_name os (UndoDelete n old h) = n"




text \<open>The run in which the calls the store refuses are never made.\<close>

definition begun :: "'s role_event list \<Rightarrow> nat list" where
  "begun es = List.map_filter (\<lambda>e. case e of Begin i x \<Rightarrow> Some i | _ \<Rightarrow> None) es"

definition refused :: "'s role_event list \<Rightarrow> nat list" where
  "refused es = List.map_filter (\<lambda>e. case e of Refused i d \<Rightarrow> Some i | _ \<Rightarrow> None) es"


lemma begun_simps [simp]:
  "begun [] = []" "begun (Begin i x # es) = i # begun es" "begun (Stored i d # es) = begun es"
  "begun (Refused i d # es) = begun es" "begun (Hierarchy n cs # es) = begun es" "begun (Elsewhere y # es) = begun es"
  by (simp_all add: begun_def map_filter_simps)

lemma refused_simps [simp]:
  "refused [] = []" "refused (Begin i x # es) = refused es" "refused (Stored i d # es) = refused es"
  "refused (Refused i d # es) = i # refused es" "refused (Hierarchy n cs # es) = refused es"
  "refused (Elsewhere y # es) = refused es"
  by (simp_all add: refused_def map_filter_simps)

text \<open>What the tables hold of one role.\<close>

definition entry :: "('s, 're) rbac_sys \<Rightarrow> string \<Rightarrow> ref option \<times> string list option" where
  "entry s n = (roles (rb s) n, role_hierarchy (rb s) n)"

lemma entry_disk [simp]: "entry (s\<lparr>disk := d\<rparr>) n = entry s n"
  by (simp add: entry_def)







lemma rollback_names [simp]: "objs (role_rollback u s) = objs s"
  by (cases u) (simp_all add: role_op_defs)









text \<open>
  The two runs side by side: a name is held when a call that the store will refuse is pending on it.
  Off the held names the tables agree, and on a held name the roll back of its call restores the
  entry of the other run.
\<close>

definition held :: "'s role_event list \<Rightarrow> objects \<Rightarrow> pending_calls \<Rightarrow> string set" where
  "held es os P = {undo_name os u |i u. (i, u) \<in> set P \<and> i \<in> set (refused es)}"

















text \<open>The memory store with every call failing.\<close>

definition failing_store :: "(string, mem_rbac) store_ops" where
  "failing_store = \<lparr>save_role = (\<lambda>os p m. (Some ''down'', m)), remove_role = (\<lambda>n m. (Some ''down'', m)),
     save_user = (\<lambda>os p m. (Some ''down'', m)), remove_user = (\<lambda>n m. (Some ''down'', m)),
     save_policy = (\<lambda>os p m. (Some ''down'', m)), remove_policy = (\<lambda>n m. (Some ''down'', m))\<rparr>"

definition sample_sys :: "(mem_rbac, nat) rbac_sys" where
  "sample_sys = \<lparr>rb = sample_rbac, objs = sample_objects,
     disk = \<lparr>mem_roles = Map.empty(''user'' \<mapsto> 1), mem_users = Map.empty(''u'' \<mapsto> 0), mem_policies = Map.empty\<rparr>\<rparr>"



text \<open>
  From \<open>NewRBAC\<close> with a \<open>MemoryRBACStore\<close> attached, after any sequence of operations, the store
  holds exactly the users and the policies of the tables, and no role the tables do not have.
\<close>

lemma memory_store_mirrors:
  "case run_ops (Some (memory_store :: (unit, mem_rbac) store_ops)) xs
      (new_rbac now p os new_memory_store :: (mem_rbac, 're) rbac_sys) of
     (es, s) \<Rightarrow> dom (mem_users (disk s)) = dom (users (rb s)) \<and>
       dom (mem_policies (disk s)) = dom (policies (rb s)) \<and>
       dom (mem_roles (disk s)) \<subseteq> dom (roles (rb s))"
proof -
  let ?s = "new_rbac now p os new_memory_store :: (mem_rbac, 're) rbac_sys"
  have keep: "disk (add_defaults t q ys s) = disk s \<and> users (rb (add_defaults t q ys s)) = users (rb s) \<and>
      policies (rb (add_defaults t q ys s)) = policies (rb s)" for t q ys and s :: "(mem_rbac, 're) rbac_sys"
    by (induction ys arbitrary: q s)
      (auto simp: add_role_def add_role_locked_def with_store_def Let_def)
  have start: "mem_store.users_mirrored ?s" "mem_store.roles_mirrored ?s"
    by (auto simp: mem_store.users_mirrored_def mem_store.roles_mirrored_def new_rbac_def
        init_default_roles_def set_role_hierarchy_def keep empty_rbac_def new_memory_store_def mem_view_def)
  have "mem_store.users_mirrored (snd (run_ops (Some (memory_store :: (unit, mem_rbac) store_ops)) xs ?s))"
    by (intro mem_store.run_ops_users_mirrored new_rbac_keyed start)
  moreover have "mem_store.roles_mirrored (snd (run_ops (Some (memory_store :: (unit, mem_rbac) store_ops)) xs ?s))"
    by (intro mem_store.run_ops_roles_mirrored new_rbac_keyed start)
  ultimately show ?thesis
    by (simp add: mem_store.users_mirrored_def mem_store.roles_mirrored_def mem_view_def case_prod_beta)
qed

subsection \<open>What modelling showed\<close>

text \<open>
  Unlike the role operations, the user operations do not roll back: a deletion the store refuses has
  already removed the user from the table, and the store keeps it.
\<close>

lemma failed_delete_user_diverges:
  "case delete_user (Some failing_store) ''u'' sample_sys of
     (e, s') \<Rightarrow> e = Some (StoreError ''down'') \<and> users (rb s') ''u'' = None \<and> mem_users (disk s') ''u'' = Some 0"
  by (simp add: delete_user_def with_store_def failing_store_def sample_sys_def sample_rbac_def)

text \<open>
  The roll back of \<open>AddRole\<close> deletes whatever role has the name by then: if the role was deleted and
  added again by others while the store call was pending, the newer role goes.
\<close>

lemma add_role_undo_clobbers:
  "roles (rb s) (role_name (role_at (objs s) p)) = Some q \<Longrightarrow>
     roles (rb (add_role_undo p s)) (role_name (role_at (objs s) p)) = None"
  by (simp add: add_role_undo_def)

text \<open>The first applicable policy of the map's iteration decides, whatever the priorities are.\<close>

lemma policy_order_decides:
  assumes "policy_applies rx req (policy_at os 0)" "policy_applies rx req (policy_at os 1)"
  shows "find (policy_applies rx req) (map (\<lambda>kv. policy_at os (snd kv)) [(p1, 0), (p2, 1)]) = Some (policy_at os 0)"
    and "find (policy_applies rx req) (map (\<lambda>kv. policy_at os (snd kv)) [(p2, 1), (p1, 0)]) = Some (policy_at os 1)"
  using assms by simp_all

text \<open>The ordering operators never hold.\<close>

lemma ordering_operators_never_hold:
  "operator c = OpGreaterThan \<or> operator c = OpLessThan \<Longrightarrow>
     evaluate_condition rx c ctx cache = Some (False, cache)"
  by (cases "ctx (cond_key c)") (auto simp: evaluate_condition_def)

text \<open>Comparing a slice of the request's context with a slice of a permission's conditions panics.\<close>

lemma uncomparable_condition_panics:
  "match_permission \<lparr>range_roles = \<lambda>m. [], range_conditions = \<lambda>m. [(''k'', VList [])], range_policies = \<lambda>m. []\<rparr>
     \<lparr>resource = ''*'', action = ''*'', conditions = Map.empty(''k'' \<mapsto> VList [])\<rparr>
     \<lparr>subject = ''u'', req_resource = ''r'', req_action = ''a'', req_context = Map.empty(''k'' \<mapsto> VList [])\<rparr> = None"
  by (simp add: match_permission_def match_wildcard_def)

end
