(* ===== verification/GoFloat.thy ===== *)
theory GoFloat
  imports GoBase Complex_Main
begin

section \<open>Go's float64\<close>

text \<open>
  A \<open>float64\<close> is not-a-number, an infinity (\<open>Inf True\<close> is the negative one) or a finite rational
  value; the two zeros are one value, which no operation the components use can tell apart. The
  arithmetic is IEEE 754 with round to nearest, ties to even: \<open>round64\<close> rounds an exact result to
  53 significant bits with the smallest exponent -1074, and overflows to an infinity from \<open>2 ^ 1024\<close>
  (which only a value of exponent 1023 or more can reach).
\<close>

datatype gofloat = NaN | Inf bool | Fin rat

fun bits :: "nat \<Rightarrow> nat" where
  "bits n = (if n = 0 then 0 else Suc (bits (n div 2)))"

declare bits.simps [simp del]

definition two_pow :: "int \<Rightarrow> rat" where
  "two_pow k = (if 0 \<le> k then 2 ^ nat k else 1 / 2 ^ nat (- k))"

definition round_even :: "rat \<Rightarrow> int" where
  "round_even x =
     (let f = \<lfloor>x\<rfloor>; r = x - of_int f in
      if r < 1 / 2 then f else if 1 / 2 < r then f + 1 else if even f then f else f + 1)"

text \<open>The exponent of a positive value: \<open>two_pow (exponent x) \<le> x < two_pow (exponent x + 1)\<close>.\<close>

definition exponent :: "rat \<Rightarrow> int" where
  "exponent x =
     (case quotient_of x of (n, d) \<Rightarrow>
        let k = int (bits (nat n)) - int (bits (nat d)) in if two_pow k \<le> x then k else k - 1)"

definition round64 :: "rat \<Rightarrow> gofloat" where
  "round64 x =
     (if x = 0 then Fin 0
      else let e = exponent \<bar>x\<bar>; u = two_pow (max e (- 1022) - 52);
               r = of_int (round_even (\<bar>x\<bar> / u)) * u in
           if 1023 \<le> e \<and> 2 ^ 1024 \<le> r then Inf (x < 0) else Fin (sgn x * r))"

lemma round64_code [code]:
  "round64 x =
     (if x = 0 then Fin 0
      else let e = exponent \<bar>x\<bar>; u = two_pow (max e (- 1022) - 52);
               r = of_int (round_even (\<bar>x\<bar> / u)) * u in
           if e < 1023 then Fin (sgn x * r) else if 2 ^ 1024 \<le> r then Inf (x < 0) else Fin (sgn x * r))"
  by (simp add: round64_def Let_def)

fun fadd :: "gofloat \<Rightarrow> gofloat \<Rightarrow> gofloat" where
  "fadd (Fin x) (Fin y) = round64 (x + y)"
| "fadd NaN _ = NaN"
| "fadd _ NaN = NaN"
| "fadd (Inf s) (Inf t) = (if s = t then Inf s else NaN)"
| "fadd (Inf s) (Fin _) = Inf s"
| "fadd (Fin _) (Inf s) = Inf s"

fun fneg :: "gofloat \<Rightarrow> gofloat" where
  "fneg NaN = NaN"
| "fneg (Inf s) = Inf (\<not> s)"
| "fneg (Fin x) = Fin (- x)"

definition fsub :: "gofloat \<Rightarrow> gofloat \<Rightarrow> gofloat" where
  "fsub a b = fadd a (fneg b)"

fun fmul :: "gofloat \<Rightarrow> gofloat \<Rightarrow> gofloat" where
  "fmul (Fin x) (Fin y) = round64 (x * y)"
| "fmul NaN _ = NaN"
| "fmul _ NaN = NaN"
| "fmul (Inf s) (Inf t) = Inf (s \<noteq> t)"
| "fmul (Inf s) (Fin y) = (if y = 0 then NaN else Inf (s \<noteq> (y < 0)))"
| "fmul (Fin x) (Inf t) = (if x = 0 then NaN else Inf ((x < 0) \<noteq> t))"

text \<open>Division by a non-zero constant, the only one the components use.\<close>

fun fdiv :: "gofloat \<Rightarrow> rat \<Rightarrow> gofloat" where
  "fdiv NaN _ = NaN"
| "fdiv (Inf s) c = Inf (s \<noteq> (c < 0))"
| "fdiv (Fin x) c = round64 (x / c)"

fun fless :: "gofloat \<Rightarrow> gofloat \<Rightarrow> bool" where
  "fless (Fin x) (Fin y) \<longleftrightarrow> x < y"
| "fless NaN _ \<longleftrightarrow> False"
| "fless _ NaN \<longleftrightarrow> False"
| "fless (Inf s) (Inf t) \<longleftrightarrow> s \<and> \<not> t"
| "fless (Inf s) (Fin _) \<longleftrightarrow> s"
| "fless (Fin _) (Inf t) \<longleftrightarrow> \<not> t"

fun fle :: "gofloat \<Rightarrow> gofloat \<Rightarrow> bool" where
  "fle (Fin x) (Fin y) \<longleftrightarrow> x \<le> y"
| "fle NaN _ \<longleftrightarrow> False"
| "fle _ NaN \<longleftrightarrow> False"
| "fle (Inf s) (Inf t) \<longleftrightarrow> s \<or> \<not> t"
| "fle (Inf s) (Fin _) \<longleftrightarrow> s"
| "fle (Fin _) (Inf t) \<longleftrightarrow> \<not> t"

definition fzero :: gofloat where
  "fzero = Fin 0"

definition is_nan :: "gofloat \<Rightarrow> bool" where
  "is_nan a \<longleftrightarrow> a = NaN"

definition is_inf :: "gofloat \<Rightarrow> bool" where
  "is_inf a \<longleftrightarrow> (\<exists>s. a = Inf s)"

lemma is_inf_simps [simp, code]: "is_inf (Inf s) = True" "is_inf NaN = False" "is_inf (Fin x) = False"
  by (simp_all add: is_inf_def)

text \<open>The conversion \<open>float64(i)\<close> and a decimal constant of the source.\<close>

definition float_of_int :: "int \<Rightarrow> gofloat" where
  "float_of_int i = round64 (of_int i)"

definition decimal :: "rat \<Rightarrow> gofloat" where
  "decimal = round64"

subsection \<open>Facts the components use\<close>

lemma round_even_nonneg: "0 \<le> x \<Longrightarrow> 0 \<le> round_even x"
  by (auto simp: round_even_def Let_def)

lemma two_pow_pos [simp]: "0 < two_pow k"
  by (simp add: two_pow_def)

text \<open>Rounding keeps the sign.\<close>

lemma rounded_nonneg: "0 \<le> x \<Longrightarrow> 0 \<le> of_int (round_even (x / two_pow k)) * two_pow k"
  using round_even_nonneg[of "x / two_pow k"] two_pow_pos[of k]
  by (intro mult_nonneg_nonneg) (simp_all add: divide_nonneg_pos less_imp_le)

lemma round64_nonneg: "0 \<le> x \<Longrightarrow> fle (Fin 0) (round64 x)"
  using rounded_nonneg[of x] by (simp add: round64_def Let_def sgn_if)

lemma round64_not_nan [simp]: "round64 x \<noteq> NaN"
  by (simp add: round64_def Let_def)

lemma fless_irrefl [simp]: "\<not> fless a a"
  by (cases a) auto

lemma not_fless: "a \<noteq> NaN \<Longrightarrow> b \<noteq> NaN \<Longrightarrow> \<not> fless a b \<longleftrightarrow> fle b a"
  by (cases a; cases b) auto

lemma fle_fless_trans: "fle a b \<Longrightarrow> fless b c \<Longrightarrow> fless a c"
  by (cases a; cases b; cases c) auto

text \<open>\<open>bits\<close> and \<open>exponent\<close> are the binary length and exponent, and amounts of ordinary size stay finite.\<close>

lemma bits_bounds: "0 < n \<Longrightarrow> 2 ^ (bits n - 1) \<le> n \<and> n < 2 ^ bits n \<and> 0 < bits n"
proof (induction n rule: bits.induct)
  case (1 n)
  show ?case
  proof (cases "n = 1")
    case True
    then show ?thesis by (simp add: bits.simps[of "Suc 0"] bits.simps[of 0])
  next
    case False
    then have half: "0 < n div 2" using 1(2) by simp
    have ih: "2 ^ (bits (n div 2) - 1) \<le> n div 2" "n div 2 < 2 ^ bits (n div 2)" "0 < bits (n div 2)"
      using 1(1)[OF _ half] 1(2) by auto
    have b: "bits n = Suc (bits (n div 2))" using 1(2) by (simp add: bits.simps[of n])
    have "2 ^ bits (n div 2) = 2 * (2::nat) ^ (bits (n div 2) - 1)" using ih(3) by (cases "bits (n div 2)") auto
    moreover have "n = 2 * (n div 2) \<or> n = 2 * (n div 2) + 1" by presburger
    ultimately show ?thesis using ih b by auto
  qed
qed

lemma two_pow_Suc: "two_pow (k + 1) = 2 * two_pow k"
proof (cases "0 \<le> k")
  case True
  then have "nat (k + 1) = Suc (nat k)" by simp
  then show ?thesis using True by (simp add: two_pow_def)
next
  case False
  then have "nat (- k) = Suc (nat (- (k + 1)))" by simp
  then show ?thesis using False by (auto simp: two_pow_def)
qed

lemma two_pow_diff: "two_pow (int a - int b) = 2 ^ a / 2 ^ b"
proof (cases "b \<le> a")
  case True
  then show ?thesis by (simp add: two_pow_def power_diff nat_diff_distrib)
next
  case False
  then have "nat (int b - int a) = b - a" "int a < int b" by simp_all
  then show ?thesis using False by (simp add: two_pow_def power_diff)
qed

lemma exponent_le:
  assumes "0 < x"
  shows "two_pow (exponent x) \<le> x"
proof -
  obtain n d where q: "quotient_of x = (n, d)" by force
  have d: "0 < d" using quotient_of_denom_pos[OF q] .
  have x: "x = of_int n / of_int d" using quotient_of_div[OF q] .
  then have n: "0 < n" using assms d by (simp add: zero_less_divide_iff)
  define a b where "a = bits (nat n)" and "b = bits (nat d)"
  have A: "(2::nat) ^ (a - 1) \<le> nat n" "0 < a" using bits_bounds[of "nat n"] n by (auto simp: a_def)
  have B: "nat d < 2 ^ b" using bits_bounds[of "nat d"] d by (auto simp: b_def)
  have "2 ^ (a - 1) \<le> n" using A(1) n by (metis nat_eq_iff2 of_nat_le_iff of_nat_numeral of_nat_power order_less_imp_le)
  then have A': "(2::rat) ^ (a - 1) \<le> of_int n" by (metis of_int_le_iff of_int_numeral of_int_power)
  have "d < 2 ^ b" using B d by (metis nat_eq_iff2 of_nat_less_iff of_nat_numeral of_nat_power order_less_imp_le)
  then have B': "of_int d < (2::rat) ^ b" by (metis of_int_less_iff of_int_numeral of_int_power)
  have "two_pow (int a - int b - 1) = 2 ^ (a - 1) / 2 ^ b"
    using two_pow_diff[of "a - 1" b] A(2) by (simp add: of_nat_diff algebra_simps)
  also have "\<dots> \<le> of_int n / of_int d"
    using A' B' d n by (intro frac_le) auto
  finally have "two_pow (int a - int b - 1) \<le> x" by (simp add: x)
  then show ?thesis by (simp add: exponent_def q a_def b_def Let_def)
qed

lemma round_even_le: "0 \<le> x \<Longrightarrow> of_int (round_even x) \<le> x + 1"
  by (auto simp: round_even_def Let_def) linarith+

lemma two_pow_mono: "i \<le> j \<Longrightarrow> two_pow i \<le> two_pow j"
proof (induction "nat (j - i)" arbitrary: j)
  case (Suc k)
  then have "two_pow i \<le> two_pow (j - 1)" by (intro Suc(1)) auto
  also have "two_pow (j - 1) \<le> two_pow j" using two_pow_Suc[of "j - 1"] two_pow_pos[of "j - 1"] by simp
  finally show ?case .
qed simp

lemma small_finite:
  assumes "0 \<le> x" "x \<le> 2 ^ 60"
  shows "\<exists>y. round64 x = Fin y \<and> 0 \<le> y"
proof (cases "x = 0")
  case False
  then have "two_pow (exponent x) \<le> two_pow 60" using exponent_le[of x] assms by (simp add: two_pow_def)
  have "exponent x < 1023"
  proof (rule ccontr)
    assume "\<not> ?thesis"
    then have "two_pow 61 \<le> two_pow (exponent x)" by (intro two_pow_mono) simp
    then show False using \<open>two_pow (exponent x) \<le> two_pow 60\<close> by (simp add: two_pow_def)
  qed
  then show ?thesis using False assms rounded_nonneg[OF assms(1)] by (simp add: round64_def Let_def sgn_if)
qed (simp add: round64_def)

end
