(* ===== verification/CostControl.thy ===== *)
theory CostControl
  imports GoFloat "HOL-Library.AList"
begin

section \<open>Cost control: the controller's ledger and the budget middleware\<close>

text \<open>
  \<open>security/cost/controller.go\<close>: the configuration and its validation, the request check, the
  atomic recording of usage, and the queries; \<open>runtime/middleware/budget.go\<close>, \<open>cost_control.go\<close> and
  \<open>budget_control.go\<close>: the per-run limits and the cross-run ledger enforced around model calls.
  \<^item> amounts are \<open>gofloat\<close>, counters \<open>int\<close> with the code's own overflow guards (and \<open>wrap64\<close> where the
    code adds);
  \<^item> a pricing table is an association list in the order the code ranges over it;
  \<^item> the sliding-window limiter of the toolkit is the record \<open>limiter_ops\<close>; a context is nil or says
    at which of the three places it is read it is already done;
  \<^item> a callback registered by the user is returned with the result, since the code calls it after
    it has released the lock; its registration is a flag.
\<close>

subsection \<open>Configuration\<close>

record model_pricing =
  prompt_price :: gofloat
  completion_price :: gofloat

type_synonym pricing_table = "(string \<times> model_pricing) list"

definition price :: "rat \<Rightarrow> rat \<Rightarrow> model_pricing" where
  "price p c = \<lparr>prompt_price = decimal p, completion_price = decimal c\<rparr>"

definition default_pricing :: pricing_table where
  "default_pricing =
     [(''gpt-4'', price (3/100) (6/100)),
      (''gpt-4-turbo'', price (1/100) (3/100)),
      (''gpt-4o'', price (5/1000) (15/1000)),
      (''gpt-4o-mini'', price (15/100000) (6/10000)),
      (''gpt-3.5-turbo'', price (5/10000) (15/10000)),
      (''claude-3-opus'', price (15/1000) (75/1000)),
      (''claude-3-sonnet'', price (3/1000) (15/1000)),
      (''claude-3-haiku'', price (25/100000) (125/100000)),
      (''deepseek-chat'', price (14/100000) (28/100000)),
      (''deepseek-reasoner'', price (55/100000) (219/100000)),
      (''default'', price (1/1000) (2/1000))]"

record controller_config =
  cfg_budget :: gofloat
  cfg_max_per_request :: int
  cfg_max_total :: int
  cfg_rpm :: int
  cfg_on_budget :: bool
  cfg_on_tokens :: bool
  cfg_on_rate :: bool
  cfg_pricing :: pricing_table

datatype cost_error = NilOption nat | InvalidBudget | InvalidMaxPerRequest | InvalidMaxTotal
  | InvalidRate int | NoDefaultPricing | InvalidPromptPrice string | InvalidCompletionPrice string
  | LimiterFailed | NilRequestContext | RequestContextDone | NegativeEstimate
  | RequestLimit int int | InvalidTokenLedger | TokenOverflow int int | TotalTokensExceeded int int int
  | RateExceeded int int | NegativePromptTokens | NegativeCompletionTokens | NegativeTotalTokens
  | TokenSumOverflow | TotalMismatch int int | CostNotFinite string | InvalidCostLedger
  | CostLedgerOverflow | CostBudgetExceeded gofloat gofloat gofloat

datatype controller_option = NilControllerOption | WithBudget gofloat | WithMaxTokensPerRequest int
  | WithMaxTokensTotal int | WithRequestsPerMinute int | WithPricing pricing_table
  | OnBudgetExceeded bool | OnTokensExceeded bool | OnRateExceeded bool

definition default_config :: controller_config where
  "default_config = \<lparr>cfg_budget = fzero, cfg_max_per_request = 8000, cfg_max_total = 1000000, cfg_rpm = 60,
     cfg_on_budget = False, cfg_on_tokens = False, cfg_on_rate = False, cfg_pricing = default_pricing\<rparr>"

fun apply_option :: "controller_option \<Rightarrow> controller_config \<Rightarrow> controller_config option" where
  "apply_option NilControllerOption c = None"
| "apply_option (WithBudget b) c = Some (c\<lparr>cfg_budget := b\<rparr>)"
| "apply_option (WithMaxTokensPerRequest n) c = Some (c\<lparr>cfg_max_per_request := n\<rparr>)"
| "apply_option (WithMaxTokensTotal n) c = Some (c\<lparr>cfg_max_total := n\<rparr>)"
| "apply_option (WithRequestsPerMinute n) c = Some (c\<lparr>cfg_rpm := n\<rparr>)"
| "apply_option (WithPricing t) c =
     Some (c\<lparr>cfg_pricing := fold (\<lambda>(k, v) p. AList.update k v p) t (cfg_pricing c)\<rparr>)"
| "apply_option (OnBudgetExceeded b) c = Some (c\<lparr>cfg_on_budget := b\<rparr>)"
| "apply_option (OnTokensExceeded b) c = Some (c\<lparr>cfg_on_tokens := b\<rparr>)"
| "apply_option (OnRateExceeded b) c = Some (c\<lparr>cfg_on_rate := b\<rparr>)"

fun apply_options :: "nat \<Rightarrow> controller_option list \<Rightarrow> controller_config \<Rightarrow> cost_error + controller_config" where
  "apply_options i [] c = Inr c"
| "apply_options i (x # xs) c =
     (case apply_option x c of None \<Rightarrow> Inl (NilOption i) | Some c' \<Rightarrow> apply_options (Suc i) xs c')"

text \<open>\<open>x < 0 || IsNaN(x) || IsInf(x, 0)\<close>, the guard of every amount of the configuration.\<close>

definition bad_amount :: "gofloat \<Rightarrow> bool" where
  "bad_amount x \<longleftrightarrow> fless x fzero \<or> is_nan x \<or> is_inf x"

fun validate_pricing :: "pricing_table \<Rightarrow> cost_error option" where
  "validate_pricing [] = None"
| "validate_pricing ((m, p) # rest) =
     (if bad_amount (prompt_price p) then Some (InvalidPromptPrice m)
      else if bad_amount (completion_price p) then Some (InvalidCompletionPrice m)
      else validate_pricing rest)"

definition validate_config :: "controller_config \<Rightarrow> cost_error option" where
  "validate_config c =
     (if bad_amount (cfg_budget c) then Some InvalidBudget
      else if cfg_max_per_request c < 0 then Some InvalidMaxPerRequest
      else if cfg_max_total c < 0 then Some InvalidMaxTotal
      else if cfg_rpm c \<le> 0 then Some (InvalidRate (cfg_rpm c))
      else if map_of (cfg_pricing c) ''default'' = None then Some NoDefaultPricing
      else validate_pricing (cfg_pricing c))"

record 'l limiter_ops =
  new_window :: "int \<Rightarrow> 'l option"
  try_allow :: "'l \<Rightarrow> (bool \<times> int) \<times> 'l"
  window_count :: "'l \<Rightarrow> int"
  reset_window :: "'l \<Rightarrow> 'l"

record 'l controller =
  budget :: gofloat
  used :: gofloat
  remaining :: gofloat
  max_tokens_per_request :: int
  max_tokens_total :: int
  used_tokens :: int
  requests_per_minute :: int
  rate_limiter :: 'l
  on_budget_exceeded :: bool
  on_tokens_exceeded :: bool
  on_rate_exceeded :: bool
  pricing :: pricing_table

definition new_controller :: "'l limiter_ops \<Rightarrow> controller_option list \<Rightarrow> cost_error + 'l controller" where
  "new_controller rl opts =
     (case apply_options 0 opts default_config of
        Inl e \<Rightarrow> Inl e
      | Inr cfg \<Rightarrow>
          (case validate_config cfg of
             Some e \<Rightarrow> Inl e
           | None \<Rightarrow>
               (case new_window rl (cfg_rpm cfg) of
                  None \<Rightarrow> Inl LimiterFailed
                | Some l \<Rightarrow>
                    Inr \<lparr>budget = cfg_budget cfg, used = fzero, remaining = cfg_budget cfg,
                         max_tokens_per_request = cfg_max_per_request cfg,
                         max_tokens_total = cfg_max_total cfg, used_tokens = 0,
                         requests_per_minute = cfg_rpm cfg, rate_limiter = l,
                         on_budget_exceeded = cfg_on_budget cfg, on_tokens_exceeded = cfg_on_tokens cfg,
                         on_rate_exceeded = cfg_on_rate cfg, pricing = cfg_pricing cfg\<rparr>)))"

subsection \<open>Usage and its cost\<close>

record token_usage =
  prompt_tokens :: int
  completion_tokens :: int
  total_tokens :: int

definition validate_usage :: "token_usage \<Rightarrow> cost_error + int" where
  "validate_usage u =
     (if prompt_tokens u < 0 then Inl NegativePromptTokens
      else if completion_tokens u < 0 then Inl NegativeCompletionTokens
      else if total_tokens u < 0 then Inl NegativeTotalTokens
      else if max_int64 - completion_tokens u < prompt_tokens u then Inl TokenSumOverflow
      else
        (let component_total = wrap64 (prompt_tokens u + completion_tokens u) in
         if component_total = 0 then Inr (total_tokens u)
         else if total_tokens u = 0 then Inr component_total
         else if total_tokens u \<noteq> component_total then Inl (TotalMismatch (total_tokens u) component_total)
         else Inr component_total))"

definition finite_non_negative :: "gofloat \<Rightarrow> bool" where
  "finite_non_negative x \<longleftrightarrow> fle fzero x \<and> \<not> is_nan x \<and> \<not> is_inf x"

definition checked_token_cost :: "int \<Rightarrow> gofloat \<Rightarrow> gofloat option" where
  "checked_token_cost tokens p =
     (if tokens < 0 \<or> \<not> finite_non_negative p then None
      else let cost = fmul (fdiv (float_of_int tokens) 1000) p in
           if finite_non_negative cost then Some cost else None)"

definition calculate_cost :: "model_pricing \<Rightarrow> int \<Rightarrow> int \<Rightarrow> cost_error + gofloat" where
  "calculate_cost p prompt completion =
     (case checked_token_cost prompt (prompt_price p) of
        None \<Rightarrow> Inl (CostNotFinite ''prompt'')
      | Some pc \<Rightarrow>
          (case checked_token_cost completion (completion_price p) of
             None \<Rightarrow> Inl (CostNotFinite ''completion'')
           | Some cc \<Rightarrow>
               (let t = fadd pc cc in
                if \<not> finite_non_negative t then Inl (CostNotFinite ''total'') else Inr t)))"

text \<open>The model's prices, or the default ones; a missing default is Go's zero value.\<close>

definition pricing_of :: "'l controller \<Rightarrow> string \<Rightarrow> model_pricing" where
  "pricing_of c m =
     (case map_of (pricing c) m of
        Some p \<Rightarrow> p
      | None \<Rightarrow> (case map_of (pricing c) ''default'' of
          Some p \<Rightarrow> p
        | None \<Rightarrow> \<lparr>prompt_price = fzero, completion_price = fzero\<rparr>))"

subsection \<open>Checking a request\<close>

datatype callback = BudgetCallback gofloat gofloat | TokensCallback int int | RateCallback int int

record request_ctx =
  done_at_entry :: bool
  done_locked :: bool
  done_before_rate :: bool

definition check_request_locked :: "'l limiter_ops \<Rightarrow> request_ctx \<Rightarrow> int \<Rightarrow> 'l controller
    \<Rightarrow> (callback option \<times> cost_error option) \<times> 'l controller" where
  "check_request_locked rl ctx n c =
     (if done_locked ctx then ((None, Some RequestContextDone), c)
      else if 0 < max_tokens_per_request c \<and> max_tokens_per_request c < n
      then ((None, Some (RequestLimit n (max_tokens_per_request c))), c)
      else if used_tokens c < 0 then ((None, Some InvalidTokenLedger), c)
      else if max_int64 - used_tokens c < n then ((None, Some (TokenOverflow (used_tokens c) n)), c)
      else if 0 < max_tokens_total c \<and> max_tokens_total c < wrap64 (used_tokens c + n)
      then ((if on_tokens_exceeded c then Some (TokensCallback (used_tokens c) (max_tokens_total c)) else None,
             Some (TotalTokensExceeded (used_tokens c) n (max_tokens_total c))), c)
      else if done_before_rate ctx then ((None, Some RequestContextDone), c)
      else
        (case try_allow rl (rate_limiter c) of
           ((ok, n_calls), l) \<Rightarrow>
             if \<not> ok
             then ((if on_rate_exceeded c then Some (RateCallback n_calls (requests_per_minute c)) else None,
                    Some (RateExceeded n_calls (requests_per_minute c))), c\<lparr>rate_limiter := l\<rparr>)
             else ((None, None), c\<lparr>rate_limiter := l\<rparr>)))"

definition check_request :: "'l limiter_ops \<Rightarrow> request_ctx option \<Rightarrow> int \<Rightarrow> 'l controller
    \<Rightarrow> (callback option \<times> cost_error option) \<times> 'l controller" where
  "check_request rl ctx n c =
     (case ctx of
        None \<Rightarrow> ((None, Some NilRequestContext), c)
      | Some x \<Rightarrow>
          if done_at_entry x then ((None, Some RequestContextDone), c)
          else if n < 0 then ((None, Some NegativeEstimate), c)
          else check_request_locked rl x n c)"

subsection \<open>Recording usage\<close>

definition record_usage_locked :: "string \<Rightarrow> token_usage \<Rightarrow> int \<Rightarrow> 'l controller
    \<Rightarrow> (callback option \<times> cost_error option) \<times> 'l controller" where
  "record_usage_locked model u tot c =
     (case calculate_cost (pricing_of c model) (prompt_tokens u) (completion_tokens u) of
        Inl e \<Rightarrow> ((None, Some e), c)
      | Inr cost \<Rightarrow>
          if used_tokens c < 0 then ((None, Some InvalidTokenLedger), c)
          else if max_int64 - used_tokens c < tot then ((None, Some (TokenOverflow (used_tokens c) tot)), c)
          else
            (let new_tokens = wrap64 (used_tokens c + tot) in
             if 0 < max_tokens_total c \<and> max_tokens_total c < new_tokens
             then ((if on_tokens_exceeded c then Some (TokensCallback (used_tokens c) (max_tokens_total c)) else None,
                    Some (TotalTokensExceeded (used_tokens c) tot (max_tokens_total c))), c)
             else if \<not> finite_non_negative (used c) then ((None, Some InvalidCostLedger), c)
             else
               (let new_used = fadd (used c) cost in
                if \<not> finite_non_negative new_used then ((None, Some CostLedgerOverflow), c)
                else if fless fzero (budget c) \<and> fless (budget c) new_used
                then ((if on_budget_exceeded c then Some (BudgetCallback new_used (budget c)) else None,
                       Some (CostBudgetExceeded (used c) cost (budget c))), c)
                else ((None, None),
                      c\<lparr>used_tokens := new_tokens, used := new_used, remaining := fsub (budget c) new_used\<rparr>))))"

definition record_usage :: "string \<Rightarrow> token_usage \<Rightarrow> 'l controller
    \<Rightarrow> (callback option \<times> cost_error option) \<times> 'l controller" where
  "record_usage model u c =
     (case validate_usage u of
        Inl e \<Rightarrow> ((None, Some e), c)
      | Inr tot \<Rightarrow> record_usage_locked model u tot c)"

definition reset_controller :: "'l limiter_ops \<Rightarrow> 'l controller \<Rightarrow> 'l controller" where
  "reset_controller rl c =
     c\<lparr>used := fzero, remaining := budget c, used_tokens := 0, rate_limiter := reset_window rl (rate_limiter c)\<rparr>"

subsection \<open>Queries\<close>

definition estimate_cost :: "string \<Rightarrow> int \<Rightarrow> int \<Rightarrow> 'l controller \<Rightarrow> gofloat" where
  "estimate_cost model p q c =
     (case calculate_cost (pricing_of c model) p q of Inl _ \<Rightarrow> Inf False | Inr cost \<Rightarrow> cost)"

record controller_stats =
  st_budget :: gofloat
  st_used :: gofloat
  st_remaining :: gofloat
  st_used_tokens :: int
  st_max_tokens_total :: int
  st_requests_last_min :: int
  st_requests_per_min :: int

definition controller_stats_of :: "'l limiter_ops \<Rightarrow> 'l controller \<Rightarrow> controller_stats" where
  "controller_stats_of rl c = \<lparr>st_budget = budget c, st_used = used c, st_remaining = remaining c,
     st_used_tokens = used_tokens c, st_max_tokens_total = max_tokens_total c,
     st_requests_last_min = window_count rl (rate_limiter c), st_requests_per_min = requests_per_minute c\<rparr>"

definition remaining_budget :: "'l controller \<Rightarrow> gofloat" where
  "remaining_budget c = remaining c"

definition remaining_tokens :: "'l controller \<Rightarrow> int" where
  "remaining_tokens c =
     (if max_tokens_total c \<le> 0 then max_int64
      else let r = wrap64 (max_tokens_total c - used_tokens c) in if r < 0 then 0 else r)"

definition can_afford :: "gofloat \<Rightarrow> 'l controller \<Rightarrow> bool" where
  "can_afford cost c =
     (if \<not> finite_non_negative cost then False
      else if fle (budget c) fzero then True
      else fle cost (remaining c))"

text \<open>\<open>CheckAndRecord\<close>, with the controller the context carries.\<close>

definition check_and_record :: "'l limiter_ops \<Rightarrow> request_ctx \<Rightarrow> string \<Rightarrow> token_usage \<Rightarrow> 'l controller option
    \<Rightarrow> cost_error option \<times> 'l controller option" where
  "check_and_record rl ctx model u mc =
     (case mc of
        None \<Rightarrow> (None, None)
      | Some c \<Rightarrow>
          (case validate_usage u of
             Inl e \<Rightarrow> (Some e, Some c)
           | Inr tot \<Rightarrow>
               (case check_request rl (Some ctx) tot c of
                  ((_, Some e), c') \<Rightarrow> (Some e, Some c')
                | ((_, None), c') \<Rightarrow>
                    (case record_usage model u c' of ((_, e), c'') \<Rightarrow> (e, Some c'')))))"

subsection \<open>The ledger\<close>

text \<open>
  What holds of a controller at all times: the spent amount is a finite non-negative number within
  the budget (a zero budget sets no limit), the remaining amount is the budget less the spent one,
  and the tokens are counted exactly, within their limit and within an \<open>int64\<close>.
\<close>

definition ledger_ok :: "'l controller \<Rightarrow> bool" where
  "ledger_ok c \<longleftrightarrow> finite_non_negative (budget c) \<and> finite_non_negative (used c) \<and>
     (fless fzero (budget c) \<longrightarrow> fle (used c) (budget c)) \<and>
     0 \<le> used_tokens c \<and> used_tokens c \<le> max_int64 \<and>
     (0 < max_tokens_total c \<longrightarrow> used_tokens c \<le> max_tokens_total c)"

definition balanced :: "'l controller \<Rightarrow> bool" where
  "balanced c \<longleftrightarrow> remaining c = fsub (budget c) (used c) \<or> (used c = fzero \<and> remaining c = budget c)"

text \<open>The limits and prices no operation changes.\<close>

definition same_limits :: "'l controller \<Rightarrow> 'l controller \<Rightarrow> bool" where
  "same_limits c d \<longleftrightarrow> budget d = budget c \<and> max_tokens_total d = max_tokens_total c \<and>
     max_tokens_per_request d = max_tokens_per_request c \<and> requests_per_minute d = requests_per_minute c \<and>
     pricing d = pricing c"

lemma finite_non_negative_Fin: "finite_non_negative a \<Longrightarrow> \<exists>x. a = Fin x \<and> 0 \<le> x"
  by (cases a) (auto simp: finite_non_negative_def is_nan_def fzero_def)

lemma finite_non_negative_zero [simp]: "finite_non_negative fzero"
  by (simp add: finite_non_negative_def is_nan_def fzero_def)

lemma finite_non_negative_ge: "finite_non_negative a \<Longrightarrow> fle fzero a"
  by (simp add: finite_non_negative_def)

lemma bad_amount_iff [simp]: "bad_amount a \<longleftrightarrow> \<not> finite_non_negative a"
  by (cases a) (auto simp: bad_amount_def finite_non_negative_def is_nan_def fzero_def)

lemma validate_usage_total:
  "validate_usage u = Inr t \<Longrightarrow> 0 \<le> t \<and> 0 \<le> prompt_tokens u \<and> 0 \<le> completion_tokens u \<and>
     (t = total_tokens u \<or> t = prompt_tokens u + completion_tokens u)"
  by (auto simp: validate_usage_def Let_def wrap64_id max_int64_def split: if_splits)

text \<open>A recording either fails and changes nothing, or books the cost and the tokens.\<close>

lemma record_usage_cases:
  assumes "record_usage model u c = ((cb, e), c')" and "0 \<le> used_tokens c"
  obtains (failed) err where "e = Some err" "c' = c"
  | (booked) t cost where "e = None" "cb = None" "validate_usage u = Inr t"
      "calculate_cost (pricing_of c model) (prompt_tokens u) (completion_tokens u) = Inr cost"
      "finite_non_negative (used c)" "finite_non_negative (fadd (used c) cost)"
      "fless fzero (budget c) \<Longrightarrow> \<not> fless (budget c) (fadd (used c) cost)"
      "used_tokens c + t \<le> max_int64" "0 < max_tokens_total c \<Longrightarrow> used_tokens c + t \<le> max_tokens_total c"
      "c' = c\<lparr>used_tokens := used_tokens c + t, used := fadd (used c) cost,
              remaining := fsub (budget c) (fadd (used c) cost)\<rparr>"
proof (cases "validate_usage u")
  case (Inl err)
  then show ?thesis using assms failed by (auto simp: record_usage_def)
next
  case (Inr t)
  have t: "0 \<le> t" using validate_usage_total[OF Inr] by simp
  show ?thesis
  proof (cases "calculate_cost (pricing_of c model) (prompt_tokens u) (completion_tokens u)")
    case (Inl err)
    then show ?thesis using assms Inr failed by (auto simp: record_usage_def record_usage_locked_def)
  next
    case cost: (Inr cost)
    show ?thesis
    proof (cases "max_int64 - used_tokens c < t")
      case True
      then show ?thesis using assms Inr cost failed
        by (auto simp: record_usage_def record_usage_locked_def split: if_splits)
    next
      case False
      then have w: "wrap64 (used_tokens c + t) = used_tokens c + t"
        using t assms(2) by (intro wrap64_id) (simp_all add: max_int64_def)
      note unfolded = assms(1)[unfolded record_usage_def record_usage_locked_def, simplified Inr cost sum.case Let_def w]
      show ?thesis
      proof (cases e)
        case None
        have "\<not> (0 < max_tokens_total c \<and> max_tokens_total c < used_tokens c + t)"
          "finite_non_negative (used c)" "finite_non_negative (fadd (used c) cost)"
          "\<not> (fless fzero (budget c) \<and> fless (budget c) (fadd (used c) cost))"
          using unfolded None by (simp_all split: if_splits)
        moreover from this have "cb = None \<and> c' = c\<lparr>used_tokens := used_tokens c + t, used := fadd (used c) cost,
              remaining := fsub (budget c) (fadd (used c) cost)\<rparr>"
          using unfolded None assms(2) False by (simp split: if_splits)
        ultimately show ?thesis using None Inr cost False by (intro booked[of t cost]) auto
      next
        case (Some err)
        then have "c' = c" using unfolded by (simp split: if_splits)
        then show ?thesis using Some failed by blast
      qed
    qed
  qed
qed

lemma record_usage_ledger:
  assumes "ledger_ok c" "balanced c" "record_usage model u c = ((cb, e), c')"
  shows "ledger_ok c' \<and> balanced c' \<and> same_limits c c'"
proof -
  have "0 \<le> used_tokens c" using assms(1) by (simp add: ledger_ok_def)
  from assms(3) this show ?thesis
  proof (cases rule: record_usage_cases)
    case failed
    then show ?thesis using assms(1,2) by (simp add: same_limits_def)
  next
    case (booked t cost)
    obtain x y where "budget c = Fin x" "fadd (used c) cost = Fin y"
      using assms(1) booked(6) finite_non_negative_Fin unfolding ledger_ok_def by metis
    moreover have "0 \<le> t" using validate_usage_total[OF booked(3)] by simp
    ultimately show ?thesis using assms(1) booked
      by (auto simp: ledger_ok_def balanced_def same_limits_def fzero_def)
  qed
qed

lemma check_request_ledger:
  assumes "check_request rl ctx n c = (r, c')"
  shows "\<exists>l. c' = c\<lparr>rate_limiter := l\<rparr>"
proof (cases ctx)
  case None
  then have "c' = c\<lparr>rate_limiter := rate_limiter c\<rparr>" using assms by (simp add: check_request_def)
  then show ?thesis by blast
next
  case (Some x)
  obtain ok k l where l: "try_allow rl (rate_limiter c) = ((ok, k), l)" by (metis prod.exhaust)
  have "c' = c\<lparr>rate_limiter := rate_limiter c\<rparr> \<or> c' = c\<lparr>rate_limiter := l\<rparr>"
    using assms Some l by (auto simp: check_request_def check_request_locked_def split: if_splits)
  then show ?thesis by blast
qed

datatype controller_op = CheckRequest "request_ctx option" int | RecordUsage string token_usage | ResetStats

fun controller_step :: "'l limiter_ops \<Rightarrow> controller_op \<Rightarrow> 'l controller \<Rightarrow> 'l controller" where
  "controller_step rl (CheckRequest ctx n) c = snd (check_request rl ctx n c)"
| "controller_step rl (RecordUsage m u) c = snd (record_usage m u c)"
| "controller_step rl ResetStats c = reset_controller rl c"

lemma ledger_ok_limiter [simp]: "ledger_ok (c\<lparr>rate_limiter := l\<rparr>) = ledger_ok c"
  "balanced (c\<lparr>rate_limiter := l\<rparr>) = balanced c"
  by (simp_all add: ledger_ok_def balanced_def)

lemma reset_ledger: "ledger_ok c \<Longrightarrow> ledger_ok (reset_controller rl c) \<and> balanced (reset_controller rl c)"
  by (auto simp: ledger_ok_def balanced_def reset_controller_def max_int64_def intro: finite_non_negative_ge)

lemma controller_step_ledger:
  assumes "ledger_ok c" "balanced c"
  shows "ledger_ok (controller_step rl x c) \<and> balanced (controller_step rl x c)"
proof (cases x)
  case (CheckRequest ctx n)
  obtain r c' where r: "check_request rl ctx n c = (r, c')" by (metis prod.exhaust)
  then show ?thesis using assms check_request_ledger[OF r] CheckRequest by auto
next
  case (RecordUsage m u)
  obtain cb e c' where r: "record_usage m u c = ((cb, e), c')" by (metis prod.exhaust)
  then show ?thesis using record_usage_ledger[OF assms r] RecordUsage by simp
next
  case ResetStats
  then show ?thesis using reset_ledger[OF assms(1)] by simp
qed

lemma new_controller_ledger: "new_controller rl opts = Inr c \<Longrightarrow> ledger_ok c \<and> balanced c"
  by (auto simp: new_controller_def validate_config_def ledger_ok_def balanced_def max_int64_def
      intro: finite_non_negative_ge split: sum.splits option.splits if_splits)

lemma run_ledger:
  "ledger_ok c \<Longrightarrow> balanced c \<Longrightarrow>
     ledger_ok (fold (controller_step rl) xs c) \<and> balanced (fold (controller_step rl) xs c)"
  by (induction xs arbitrary: c) (simp_all add: controller_step_ledger)

subsection \<open>The run's budget (runtime/middleware)\<close>

datatype attr = AttrTime gotime | AttrInt int | AttrString string | AttrOther

record run_state =
  run_usage :: token_usage
  attributes :: "string \<rightharpoonup> attr"

record budget_limits =
  max_tokens :: int
  max_duration :: int
  max_cost_usd :: gofloat

record budget_middleware =
  limits :: budget_limits
  cost_func :: "(run_state option \<Rightarrow> gofloat) option"

datatype breach = TokensBreached int int | DurationBreached int int | CostBreached gofloat gofloat

datatype budget_event = BudgetChecked int int gofloat | BudgetExceededEvent breach

definition started_key :: string where
  "started_key = ''runtime.budget.started_at''"

definition lower_bound_key :: string where
  "lower_bound_key = ''usage_known_token_lower_bound''"

text \<open>\<open>t.Sub(u)\<close> saturates at the limits of an \<open>int64\<close>.\<close>

definition time_sub :: "gotime \<Rightarrow> gotime \<Rightarrow> int" where
  "time_sub t u = max (- (2 ^ 63)) (min max_int64 (int t - int u))"

definition ensure_start :: "gotime \<Rightarrow> run_state option \<Rightarrow> gotime \<times> run_state option" where
  "ensure_start now ms =
     (case ms of
        None \<Rightarrow> (now, None)
      | Some s \<Rightarrow>
          (case attributes s started_key of
             Some (AttrTime t) \<Rightarrow> (t, Some s)
           | _ \<Rightarrow> (now, Some (s\<lparr>attributes := (attributes s)(started_key \<mapsto> AttrTime now)\<rparr>))))"

definition initialize_model_attempt :: "gotime \<Rightarrow> run_state option \<Rightarrow> run_state option" where
  "initialize_model_attempt now ms = snd (ensure_start now ms)"

definition used_tokens_of :: "run_state option \<Rightarrow> int" where
  "used_tokens_of ms =
     (case ms of
        None \<Rightarrow> 0
      | Some s \<Rightarrow>
          (case attributes s lower_bound_key of
             Some (AttrInt b) \<Rightarrow> if total_tokens (run_usage s) < b then b else total_tokens (run_usage s)
           | _ \<Rightarrow> total_tokens (run_usage s)))"

definition breach_of :: "budget_limits \<Rightarrow> int \<Rightarrow> int \<Rightarrow> gofloat \<Rightarrow> breach option" where
  "breach_of l tokens elapsed cost =
     (if 0 < max_tokens l \<and> max_tokens l \<le> tokens then Some (TokensBreached tokens (max_tokens l))
      else if 0 < max_duration l \<and> max_duration l \<le> elapsed
      then Some (DurationBreached elapsed (max_duration l))
      else if fless fzero (max_cost_usd l) \<and> fle (max_cost_usd l) cost
      then Some (CostBreached cost (max_cost_usd l)) else None)"

definition before_llm :: "budget_middleware \<Rightarrow> gotime \<Rightarrow> run_state option
    \<Rightarrow> (budget_event list \<times> breach option) \<times> run_state option" where
  "before_llm b now ms =
     (let tokens = used_tokens_of ms in
      case ensure_start now ms of
        (start, ms') \<Rightarrow>
          (let elapsed = time_sub now start;
               cost = (case cost_func b of None \<Rightarrow> fzero | Some f \<Rightarrow> f ms');
               checked = BudgetChecked tokens elapsed cost in
           case breach_of (limits b) tokens elapsed cost of
             Some r \<Rightarrow> (([checked, BudgetExceededEvent r], Some r), ms')
           | None \<Rightarrow> (([checked], None), ms')))"

text \<open>The bridges of the controller: the cost a run has run up, and the booking of a call.\<close>

definition budget_cost_func :: "'l controller \<Rightarrow> run_state option \<Rightarrow> gofloat" where
  "budget_cost_func c ms =
     (case ms of
        None \<Rightarrow> fzero
      | Some s \<Rightarrow>
          estimate_cost (case attributes s ''model'' of Some (AttrString m) \<Rightarrow> m | _ \<Rightarrow> [])
            (prompt_tokens (run_usage s)) (completion_tokens (run_usage s)) c)"

definition record_usage_func :: "string \<Rightarrow> token_usage \<Rightarrow> 'l controller \<Rightarrow> cost_error option \<times> 'l controller" where
  "record_usage_func model u c = (case record_usage model u c of ((_, e), c') \<Rightarrow> (e, c'))"

text \<open>What \<open>CostControl\<close> reads of a model attempt, and its two ways of booking one.\<close>

record model_attempt =
  attempt_model :: string
  provider_called :: bool
  usage_known :: bool
  attempt_usage :: token_usage

datatype 'e attempt_error = HostError 'e | BudgetExceededBy 'e

record ('e, 'c) cost_control =
  cc_record :: "(string \<Rightarrow> token_usage \<Rightarrow> 'c \<Rightarrow> 'e option \<times> 'c) option"
  cc_record_attempt :: "(model_attempt \<Rightarrow> 'c \<Rightarrow> 'e option \<times> 'c) option"

definition after_model_attempt :: "('e, 'c) cost_control \<Rightarrow> model_attempt \<Rightarrow> 'c \<Rightarrow> 'e attempt_error option \<times> 'c" where
  "after_model_attempt cc a c =
     (if \<not> provider_called a \<or> \<not> usage_known a then (None, c)
      else
        (case cc_record_attempt cc of
           Some f \<Rightarrow> (case f a c of (e, c') \<Rightarrow> (map_option HostError e, c'))
         | None \<Rightarrow>
             (case cc_record cc of
                None \<Rightarrow> (None, c)
              | Some f \<Rightarrow> (case f (attempt_model a) (attempt_usage a) c of
                  (e, c') \<Rightarrow> (map_option BudgetExceededBy e, c')))))"

text \<open>\<open>BudgetControl\<close> is the two middlewares under one name.\<close>

record ('e, 'c) budget_control =
  bc_budget :: budget_middleware
  bc_cost :: "('e, 'c) cost_control"

definition new_budget_control :: "budget_limits \<Rightarrow> (run_state option \<Rightarrow> gofloat) option
    \<Rightarrow> (string \<Rightarrow> token_usage \<Rightarrow> 'c \<Rightarrow> 'e option \<times> 'c) option
    \<Rightarrow> (model_attempt \<Rightarrow> 'c \<Rightarrow> 'e option \<times> 'c) option \<Rightarrow> ('e, 'c) budget_control" where
  "new_budget_control l f r ra =
     \<lparr>bc_budget = \<lparr>limits = l, cost_func = f\<rparr>, bc_cost = \<lparr>cc_record = r, cc_record_attempt = ra\<rparr>\<rparr>"

definition bc_before_llm :: "('e, 'c) budget_control \<Rightarrow> gotime \<Rightarrow> run_state option
    \<Rightarrow> (budget_event list \<times> breach option) \<times> run_state option" where
  "bc_before_llm b now ms = before_llm (bc_budget b) now ms"

definition bc_after_model_attempt :: "('e, 'c) budget_control \<Rightarrow> model_attempt \<Rightarrow> 'c \<Rightarrow> 'e attempt_error option \<times> 'c" where
  "bc_after_model_attempt b a c = after_model_attempt (bc_cost b) a c"

subsection \<open>A shared ledger behind the middleware\<close>

text \<open>
  What \<open>CostControl\<close> relies on: the injected recording function keeps the ledger's invariant and
  does not book what it refuses. The controller provides it.
\<close>

locale usage_ledger =
  fixes record_fn :: "string \<Rightarrow> token_usage \<Rightarrow> 'c \<Rightarrow> 'e option \<times> 'c" and ok :: "'c \<Rightarrow> bool"
  assumes record_keeps: "ok c \<Longrightarrow> ok (snd (record_fn m u c))"
    and refused_unbooked: "ok c \<Longrightarrow> fst (record_fn m u c) \<noteq> None \<Longrightarrow> snd (record_fn m u c) = c"
begin

abbreviation control :: "('e, 'c) cost_control" where
  "control \<equiv> \<lparr>cc_record = Some record_fn, cc_record_attempt = None\<rparr>"

lemma attempt_keeps: "ok c \<Longrightarrow> ok (snd (after_model_attempt control a c))"
  using record_keeps[of c "attempt_model a" "attempt_usage a"]
  by (simp add: after_model_attempt_def case_prod_beta)

lemma attempt_refused:
  "ok c \<Longrightarrow> fst (after_model_attempt control a c) \<noteq> None \<Longrightarrow>
     snd (after_model_attempt control a c) = c \<and> (\<exists>e. fst (after_model_attempt control a c) = Some (BudgetExceededBy e))"
  using refused_unbooked[of c "attempt_model a" "attempt_usage a"]
  by (auto simp: after_model_attempt_def case_prod_beta split: if_splits)

lemma attempts_keep: "ok c \<Longrightarrow> ok (fold (\<lambda>a c. snd (after_model_attempt control a c)) as c)"
  by (induction as arbitrary: c) (simp_all add: attempt_keeps)

end

definition controller_ok :: "'l controller \<Rightarrow> bool" where
  "controller_ok c \<longleftrightarrow> ledger_ok c \<and> balanced c"

interpretation controller_ledger: usage_ledger record_usage_func controller_ok
proof
  fix c :: "'l controller" and m u
  assume ok: "controller_ok c"
  obtain cb e c' where r: "record_usage m u c = ((cb, e), c')" by (metis prod.exhaust)
  have "ledger_ok c' \<and> balanced c'"
    using record_usage_ledger[of c m u cb e c'] ok r by (simp add: controller_ok_def)
  then show "controller_ok (snd (record_usage_func m u c))"
    using r by (simp add: record_usage_func_def controller_ok_def)
  have "0 \<le> used_tokens c" using ok by (simp add: controller_ok_def ledger_ok_def)
  with r have "e \<noteq> None \<Longrightarrow> c' = c" by (cases rule: record_usage_cases) auto
  then show "fst (record_usage_func m u c) \<noteq> None \<Longrightarrow> snd (record_usage_func m u c) = c"
    using r by (simp add: record_usage_func_def)
qed

text \<open>The default price table passes the validation.\<close>

lemma decimal_small: "0 \<le> x \<Longrightarrow> x \<le> 2 ^ 60 \<Longrightarrow> finite_non_negative (decimal x)"
  using small_finite[of x] by (auto simp: decimal_def finite_non_negative_def fzero_def is_nan_def)

lemma default_pricing_valid: "validate_pricing default_pricing = None"
  unfolding default_pricing_def price_def by (simp add: decimal_small)

subsection \<open>Properties\<close>

text \<open>
  C39: from its creation on, whatever requests are checked, usages recorded and statistics reset, a
  controller's spent amount is finite, non-negative and within a positive budget, the remaining
  amount is the budget less the spent one, and its token count is non-negative and within the
  limit.
\<close>

theorem ledger_never_exceeded:
  assumes "new_controller rl opts = Inr c"
  shows "ledger_ok (fold (controller_step rl) xs c) \<and> balanced (fold (controller_step rl) xs c)"
  using run_ledger new_controller_ledger[OF assms] by blast

definition sample_limiter :: "int limiter_ops" where
  "sample_limiter = \<lparr>new_window = (\<lambda>n. Some n), try_allow = (\<lambda>n. ((0 < n, n), n - 1)),
     window_count = (\<lambda>n. n), reset_window = (\<lambda>n. n)\<rparr>"

definition sample_price :: model_pricing where
  "sample_price = \<lparr>prompt_price = Fin (1/4), completion_price = Fin (1/2)\<rparr>"

definition sample_controller :: "int controller" where
  "sample_controller = \<lparr>budget = Fin 2, used = fzero, remaining = Fin 2,
     max_tokens_per_request = 8000, max_tokens_total = 9000, used_tokens = 0, requests_per_minute = 60,
     rate_limiter = 60, on_budget_exceeded = False, on_tokens_exceeded = False, on_rate_exceeded = False,
     pricing = default_pricing @ [(''m'', sample_price)]\<rparr>"

definition sample_options :: "controller_option list" where
  "sample_options = [WithBudget (Fin 2), WithMaxTokensTotal 9000, WithPricing [(''m'', sample_price)]]"

lemma validate_pricing_append:
  "validate_pricing xs = None \<Longrightarrow> validate_pricing (xs @ ys) = validate_pricing ys"
  by (induction xs rule: validate_pricing.induct) (auto split: if_splits)

lemma sample_created: "new_controller sample_limiter sample_options = Inr sample_controller"
proof -
  have "AList.update ''m'' sample_price default_pricing = default_pricing @ [(''m'', sample_price)]"
    by (simp add: default_pricing_def)
  moreover have "map_of (default_pricing @ [(''m'', sample_price)]) ''default'' \<noteq> None"
    by (simp add: default_pricing_def)
  moreover have "finite_non_negative (Fin 2)" "validate_pricing [(''m'', sample_price)] = None"
    by (simp_all add: finite_non_negative_def fzero_def is_nan_def sample_price_def)
  ultimately show ?thesis
    by (simp add: new_controller_def sample_options_def sample_limiter_def sample_controller_def default_config_def
        validate_config_def validate_pricing_append[OF default_pricing_valid])
qed

lemma sample_pricing: "pricing_of sample_controller ''m'' = sample_price"
  by (simp add: pricing_of_def sample_controller_def default_pricing_def)

definition sample_usage :: "int \<Rightarrow> int \<Rightarrow> token_usage" where
  "sample_usage p q = \<lparr>prompt_tokens = p, completion_tokens = q, total_tokens = 0\<rparr>"

definition sample_steps :: "controller_op list" where
  "sample_steps = [CheckRequest (Some \<lparr>done_at_entry = False, done_locked = False, done_before_rate = False\<rparr>) 10,
     RecordUsage ''m'' (sample_usage 1000 2000), RecordUsage ''m'' (sample_usage 1000 2000)]"

theorem ledger_never_exceeded_witness:
  "ledger_ok (fold (controller_step sample_limiter) sample_steps sample_controller) \<and>
     balanced (fold (controller_step sample_limiter) sample_steps sample_controller)"
  by (rule ledger_never_exceeded[OF sample_created])

text \<open>The first of the two recordings of \<open>sample_steps\<close> is booked; the second would exceed the budget.\<close>

lemma sample_cost: "calculate_cost sample_price 1000 2000 = Inr (Fin (5/4))"
  by code_simp

lemma sample_sum: "fadd fzero (Fin (5/4)) = Fin (5/4)" "round64 (5/2) = Fin (5/2)"
  by code_simp+

text \<open>
  The histories of recordings: \<open>record_all\<close> records a list of usages and collects, for each that was
  accepted, the tokens and the cost booked.
\<close>

fun record_all :: "(string \<times> token_usage) list \<Rightarrow> 'l controller \<Rightarrow> (int \<times> gofloat) list \<times> 'l controller" where
  "record_all [] c = ([], c)"
| "record_all ((m, u) # us) c =
     (case record_usage m u c of
        ((_, Some _), c') \<Rightarrow> record_all us c'
      | ((_, None), c') \<Rightarrow>
          (case (validate_usage u, calculate_cost (pricing_of c m) (prompt_tokens u) (completion_tokens u)) of
             (Inr t, Inr cost) \<Rightarrow> (case record_all us c' of (es, c'') \<Rightarrow> ((t, cost) # es, c''))
           | _ \<Rightarrow> record_all us c'))"

lemma record_all_sum:
  "0 \<le> used_tokens c \<Longrightarrow> record_all us c = (es, c') \<Longrightarrow>
     used_tokens c' = used_tokens c + sum_list (map fst es) \<and> used c' = foldl fadd (used c) (map snd es) \<and>
     (\<forall>(t, cost) \<in> set es. 0 \<le> t)"
proof (induction us arbitrary: c es c')
  case (Cons mu us)
  obtain m u where mu: "mu = (m, u)" by force
  obtain cb e c1 where r: "record_usage m u c = ((cb, e), c1)" by (metis prod.exhaust)
  from r Cons.prems(1) show ?case
  proof (cases rule: record_usage_cases)
    case failed
    then show ?thesis using Cons.IH[OF Cons.prems(1)] Cons.prems(2) r mu by simp
  next
    case (booked t cost)
    have t: "0 \<le> t" using validate_usage_total[OF booked(3)] by simp
    obtain es1 where es1: "record_all us c1 = (es1, c')" "es = (t, cost) # es1"
      using Cons.prems(2) r mu booked(1,3,4) by (auto split: prod.splits)
    have "0 \<le> used_tokens c1" using booked(10) t Cons.prems(1) by simp
    then show ?thesis using Cons.IH[OF _ es1(1)] es1(2) t booked(10) by simp
  qed
qed simp

text \<open>
  On a controller whose ledger is sound, a recording that is refused leaves the controller
  untouched, and after any history the token count is the old one plus the tokens of the accepted
  recordings, with no wrap-around, and the spent amount is their costs added up in order.
\<close>

lemma recordings_add_up:
  assumes "ledger_ok c" and "record_all us c = (es, c')"
  shows "used_tokens c' = used_tokens c + sum_list (map fst es) \<and> used c' = foldl fadd (used c) (map snd es) \<and>
    (\<forall>m u cb e d. record_usage m u c = ((cb, Some e), d) \<longrightarrow> d = c)"
proof -
  have pos: "0 \<le> used_tokens c" using assms(1) by (simp add: ledger_ok_def)
  have "d = c" if r: "record_usage m u c = ((cb, Some e), d)" for m u cb e d
    using r pos by (cases rule: record_usage_cases) auto
  then show ?thesis using record_all_sum[OF pos assms(2)] by blast
qed

lemma sample_recordings:
  "fst (record_all [(''m'', sample_usage 1000 2000), (''m'', sample_usage 1000 2000)] sample_controller) =
     [(3000, Fin (5/4))]"
proof -
  have v: "validate_usage (sample_usage 1000 2000) = Inr 3000"
    by (simp add: validate_usage_def sample_usage_def wrap64_def max_int64_def)
  have tok: "prompt_tokens (sample_usage 1000 2000) = 1000" "completion_tokens (sample_usage 1000 2000) = 2000"
    by (simp_all add: sample_usage_def)
  have fin: "finite_non_negative (Fin (5/4))" "finite_non_negative (Fin (5/2))"
    by (simp_all add: finite_non_negative_def fzero_def is_nan_def)
  have lim: "fless fzero (Fin 2)" by (simp add: fzero_def)
  define c1 where "c1 = sample_controller\<lparr>used_tokens := 3000, used := Fin (5/4), remaining := fsub (Fin 2) (Fin (5/4))\<rparr>"
  have p1: "pricing_of c1 ''m'' = sample_price" by (simp add: c1_def pricing_of_def sample_controller_def default_pricing_def)
  have fields: "used_tokens sample_controller = 0" "used sample_controller = fzero" "budget sample_controller = Fin 2"
    "max_tokens_total sample_controller = 9000" by (simp_all add: sample_controller_def)
  have r1: "record_usage ''m'' (sample_usage 1000 2000) sample_controller = ((None, None), c1)"
    unfolding record_usage_def record_usage_locked_def v sum.case sample_pricing tok sample_cost
    by (simp add: fields sample_sum fin lim c1_def Let_def wrap64_def max_int64_def)
  have r2: "\<exists>cb e. record_usage ''m'' (sample_usage 1000 2000) c1 = ((cb, Some e), c1)"
    unfolding record_usage_def record_usage_locked_def v sum.case p1 tok sample_cost
    by (simp add: fields sample_sum fin lim c1_def Let_def wrap64_def max_int64_def)
  show ?thesis using r1 r2 v sample_cost sample_pricing tok by auto
qed

lemma recordings_add_up_example:
  "used_tokens (snd (record_all [(''m'', sample_usage 1000 2000), (''m'', sample_usage 1000 2000)] sample_controller)) = 3000"
proof -
  let ?us = "[(''m'', sample_usage 1000 2000), (''m'', sample_usage 1000 2000)]"
  have ok: "ledger_ok sample_controller" using new_controller_ledger[OF sample_created] by simp
  obtain es c' where ra: "record_all ?us sample_controller = (es, c')" by force
  have "used_tokens c' = used_tokens sample_controller + sum_list (map fst es)"
    using recordings_add_up[OF ok ra] by blast
  moreover have "es = [(3000, Fin (5/4))]" using sample_recordings unfolding ra by simp
  ultimately show ?thesis unfolding ra by (simp add: sample_controller_def)
qed

text \<open>
  What a recording should do, said without the code's guards: a usage is consistent when its parts
  are non-negative, their sum fits an \<open>int64\<close> and agrees with the stated total (where both are
  given); it is booked when it can be priced and neither limit nor the range of the ledger is
  exceeded.
\<close>

definition usage_total :: "token_usage \<Rightarrow> int option" where
  "usage_total u =
     (let s = prompt_tokens u + completion_tokens u in
      if 0 \<le> prompt_tokens u \<and> 0 \<le> completion_tokens u \<and> 0 \<le> total_tokens u \<and> s \<le> max_int64 \<and>
         (s = 0 \<or> total_tokens u = 0 \<or> total_tokens u = s)
      then Some (if s = 0 then total_tokens u else s) else None)"

definition booking :: "'l controller \<Rightarrow> string \<Rightarrow> token_usage \<Rightarrow> (int \<times> gofloat) option" where
  "booking c m u =
     (case (usage_total u, calculate_cost (pricing_of c m) (prompt_tokens u) (completion_tokens u)) of
        (Some t, Inr cost) \<Rightarrow>
          if used_tokens c + t \<le> max_int64 \<and>
             (0 < max_tokens_total c \<longrightarrow> used_tokens c + t \<le> max_tokens_total c) \<and>
             finite_non_negative (fadd (used c) cost) \<and>
             (fless fzero (budget c) \<longrightarrow> fle (fadd (used c) cost) (budget c))
          then Some (t, cost) else None
      | _ \<Rightarrow> None)"

definition book :: "int \<times> gofloat \<Rightarrow> 'l controller \<Rightarrow> 'l controller" where
  "book x c = c\<lparr>used_tokens := used_tokens c + fst x, used := fadd (used c) (snd x),
     remaining := fsub (budget c) (fadd (used c) (snd x))\<rparr>"

lemma pricing_of_book: "pricing_of (book x c) m = pricing_of c m"
proof -
  have "pricing (book x c) = pricing c" by (simp add: book_def)
  then show ?thesis by (simp only: pricing_of_def)
qed

lemma validate_usage_exact:
  "validate_usage u = (case usage_total u of None \<Rightarrow> Inl (case validate_usage u of Inl e \<Rightarrow> e) | Some t \<Rightarrow> Inr t)"
  by (auto simp: validate_usage_def usage_total_def Let_def wrap64_id max_int64_def)

lemma record_usage_exact:
  assumes "ledger_ok c"
  shows "case booking c m u of
      None \<Rightarrow> \<exists>cb e. record_usage m u c = ((cb, Some e), c)
    | Some x \<Rightarrow> record_usage m u c = ((None, None), book x c)"
proof -
  obtain cb e c' where r: "record_usage m u c = ((cb, e), c')" by (metis prod.exhaust)
  have pos: "0 \<le> used_tokens c" and fin: "finite_non_negative (used c)" "finite_non_negative (budget c)"
    using assms by (simp_all add: ledger_ok_def)
  have le: "fle x y \<longleftrightarrow> \<not> fless y x" if "finite_non_negative x" "finite_non_negative y" for x y
    using that[THEN finite_non_negative_Fin] by auto
  show ?thesis
  proof (cases "booking c m u")
    case None
    from r pos have "\<exists>err. e = Some err \<and> c' = c"
    proof (cases rule: record_usage_cases)
      case (booked t cost)
      have "usage_total u = Some t"
      proof (cases "usage_total u")
        case None
        then have "\<exists>e. validate_usage u = Inl e" using validate_usage_exact[of u] by auto
        then show ?thesis using booked(3) by auto
      qed (use booked(3) validate_usage_exact[of u] in simp)
      then have "booking c m u = Some (t, cost)"
        using booked le[OF booked(6) fin(2)] by (simp add: booking_def)
      then show ?thesis using None by simp
    qed simp
    then show ?thesis using r None by auto
  next
    case (Some x)
    obtain t cost where x: "x = (t, cost)" by (cases x)
    have b: "usage_total u = Some t"
      "calculate_cost (pricing_of c m) (prompt_tokens u) (completion_tokens u) = Inr cost"
      "used_tokens c + t \<le> max_int64" "0 < max_tokens_total c \<Longrightarrow> used_tokens c + t \<le> max_tokens_total c"
      "finite_non_negative (fadd (used c) cost)"
      "fless fzero (budget c) \<Longrightarrow> fle (fadd (used c) cost) (budget c)"
      using Some by (auto simp: booking_def x split: option.splits sum.splits if_splits)
    have v: "validate_usage u = Inr t" using validate_usage_exact[of u] b(1) by simp
    have t: "0 \<le> t" using validate_usage_total[OF v] by simp
    have w: "wrap64 (used_tokens c + t) = used_tokens c + t"
      using t pos b(3) by (intro wrap64_id) (simp_all add: max_int64_def)
    have lim: "\<not> (0 < max_tokens_total c \<and> max_tokens_total c < used_tokens c + t)"
      "\<not> (fless fzero (budget c) \<and> fless (budget c) (fadd (used c) cost))"
      using b(4,6) le[OF b(5) fin(2)] by fastforce+
    show ?thesis
      using pos b(3) lim fin(1) b(5)
      by (simp add: Some x record_usage_def record_usage_locked_def v b(2) Let_def w book_def)
  qed
qed

text \<open>The bookings of a list of attempts, in order.\<close>

fun bookings :: "model_attempt list \<Rightarrow> 'l controller \<Rightarrow> (int \<times> gofloat) list" where
  "bookings [] c = []"
| "bookings (a # as) c =
     (if provider_called a \<and> usage_known a
      then (case booking c (attempt_model a) (attempt_usage a) of
              None \<Rightarrow> bookings as c
            | Some x \<Rightarrow> x # bookings as (book x c))
      else bookings as c)"

lemma attempt_exact:
  assumes "ledger_ok c"
  shows "if \<not> (provider_called a \<and> usage_known a)
     then after_model_attempt controller_ledger.control a c = (None, c)
     else (case booking c (attempt_model a) (attempt_usage a) of
         None \<Rightarrow> \<exists>e. after_model_attempt controller_ledger.control a c = (Some (BudgetExceededBy e), c)
       | Some x \<Rightarrow> after_model_attempt controller_ledger.control a c = (None, book x c))"
  using record_usage_exact[OF assms, of "attempt_model a" "attempt_usage a"]
  by (auto simp: after_model_attempt_def record_usage_func_def split: option.splits)

lemma attempts_tally:
  assumes "controller_ok c" and "d = fold (\<lambda>a c. snd (after_model_attempt controller_ledger.control a c)) as c"
  shows "used_tokens d = used_tokens c + sum_list (map fst (bookings as c)) \<and>
    used d = foldl fadd (used c) (map snd (bookings as c))"
  using assms
proof (induction as arbitrary: c)
  case (Cons a as)
  let ?c = "snd (after_model_attempt controller_ledger.control a c)"
  have ok: "controller_ok ?c" by (rule controller_ledger.attempt_keeps[OF Cons.prems(1)])
  have "ledger_ok c" using Cons.prems(1) by (simp add: controller_ok_def)
  from attempt_exact[OF this, of a] Cons.IH[OF ok] Cons.prems(2)
  show ?case by (auto simp: book_def split: option.splits if_splits)
qed simp

text \<open>
  C40: a controller behind \<open>BudgetControl\<close>, through its recording function, fails closed and loses no
  usage. Whatever the controller went through since its creation and whatever model attempts came
  before, of any number of runs: an attempt that reached the provider with a known usage is answered
  with the budget error and books nothing when the ledger cannot take the usage (\<open>booking\<close> is
  \<open>None\<close>); otherwise it is answered without an error and its tokens and its cost are booked; an
  attempt without a call or without a known usage changes nothing. So the ledger is always the old
  one plus exactly the accepted attempts, and within its limits.
\<close>

theorem attempts_fail_closed:
  assumes "new_controller rl opts = Inr c0" and "c = fold (controller_step rl) xs c0"
    and "d = fold (\<lambda>a c. snd (bc_after_model_attempt (new_budget_control l f (Some record_usage_func) None) a c)) as c"
  shows "(\<forall>a. if \<not> (provider_called a \<and> usage_known a)
       then bc_after_model_attempt (new_budget_control l f (Some record_usage_func) None) a d = (None, d)
       else (case booking d (attempt_model a) (attempt_usage a) of
           None \<Rightarrow> \<exists>e. bc_after_model_attempt (new_budget_control l f (Some record_usage_func) None) a d =
             (Some (BudgetExceededBy e), d)
         | Some (t, cost) \<Rightarrow> bc_after_model_attempt (new_budget_control l f (Some record_usage_func) None) a d =
             (None, d\<lparr>used_tokens := used_tokens d + t, used := fadd (used d) cost,
                      remaining := fsub (budget d) (fadd (used d) cost)\<rparr>))) \<and>
    used_tokens d = used_tokens c + sum_list (map fst (bookings as c)) \<and>
    used d = foldl fadd (used c) (map snd (bookings as c)) \<and>
    ledger_ok d \<and> balanced d"
proof -
  have eq: "bc_after_model_attempt (new_budget_control l f (Some record_usage_func) None) a c =
      after_model_attempt controller_ledger.control a c" for a and c :: "'a controller"
    by (simp add: bc_after_model_attempt_def new_budget_control_def)
  have c: "controller_ok c"
    using run_ledger new_controller_ledger[OF assms(1)] unfolding assms(2) controller_ok_def by blast
  have d: "controller_ok d"
    unfolding assms(3) eq by (rule controller_ledger.attempts_keep[OF c])
  then have ld: "ledger_ok d" by (simp add: controller_ok_def)
  have each: "if \<not> (provider_called a \<and> usage_known a)
     then after_model_attempt controller_ledger.control a d = (None, d)
     else (case booking d (attempt_model a) (attempt_usage a) of
         None \<Rightarrow> \<exists>e. after_model_attempt controller_ledger.control a d = (Some (BudgetExceededBy e), d)
       | Some (t, cost) \<Rightarrow> after_model_attempt controller_ledger.control a d =
           (None, d\<lparr>used_tokens := used_tokens d + t, used := fadd (used d) cost,
                    remaining := fsub (budget d) (fadd (used d) cost)\<rparr>))" for a
    using attempt_exact[OF ld, of a] by (auto simp: book_def split: option.splits)
  show ?thesis
    unfolding eq using each attempts_tally[OF c assms(3)[unfolded eq]] d[unfolded controller_ok_def] by blast
qed

text \<open>Of two attempts the first is booked; the second would exceed the budget and is refused.\<close>

definition sample_attempt :: model_attempt where
  "sample_attempt = \<lparr>attempt_model = ''m'', provider_called = True, usage_known = True,
     attempt_usage = sample_usage 1000 2000\<rparr>"

definition sample_control :: "(cost_error, int controller) budget_control" where
  "sample_control = new_budget_control \<lparr>max_tokens = 0, max_duration = 0, max_cost_usd = fzero\<rparr> None
     (Some record_usage_func) None"

lemma sample_booking:
  "booking sample_controller ''m'' (sample_usage 1000 2000) = Some (3000, Fin (5/4))"
  "booking (book (3000, Fin (5/4)) sample_controller) ''m'' (sample_usage 1000 2000) = None"
proof -
  have u: "usage_total (sample_usage 1000 2000) = Some 3000"
    by (simp add: usage_total_def sample_usage_def max_int64_def)
  have p: "pricing_of (book (3000, Fin (5/4)) sample_controller) ''m'' = sample_price"
    using sample_pricing by (simp add: pricing_of_book)
  have fin: "finite_non_negative (Fin (5/4))" by (simp add: finite_non_negative_def fzero_def is_nan_def)
  have spent: "used (book (3000, Fin (5/4)) sample_controller) = Fin (5/4)"
    "budget (book (3000, Fin (5/4)) sample_controller) = Fin 2"
    using sample_sum(1) by (simp_all add: book_def sample_controller_def)
  show "booking sample_controller ''m'' (sample_usage 1000 2000) = Some (3000, Fin (5/4))"
    unfolding booking_def u sample_pricing
    by (simp add: sample_usage_def sample_cost sample_controller_def sample_sum fin max_int64_def)
  show "booking (book (3000, Fin (5/4)) sample_controller) ''m'' (sample_usage 1000 2000) = None"
    unfolding booking_def u p
    by (simp add: sample_usage_def sample_cost spent sample_sum(2)) (simp add: fzero_def)
qed

theorem attempts_fail_closed_witness:
  "used_tokens (snd (bc_after_model_attempt sample_control sample_attempt sample_controller)) = 3000 \<and>
   (\<exists>e. bc_after_model_attempt sample_control sample_attempt
      (snd (bc_after_model_attempt sample_control sample_attempt sample_controller)) =
     (Some (BudgetExceededBy e), snd (bc_after_model_attempt sample_control sample_attempt sample_controller)))"
proof -
  let ?l = "\<lparr>max_tokens = 0, max_duration = 0, max_cost_usd = fzero\<rparr>"
  have a: "provider_called sample_attempt" "usage_known sample_attempt" "attempt_model sample_attempt = ''m''"
    "attempt_usage sample_attempt = sample_usage 1000 2000" by (simp_all add: sample_attempt_def)
  have none: "sample_controller = fold (controller_step sample_limiter) [] sample_controller" by simp
  have b: "bookings [sample_attempt] sample_controller = [(3000, Fin (5/4))]"
    by (simp add: a sample_booking)
  define d where "d = fold (\<lambda>a c. snd (bc_after_model_attempt
      (new_budget_control ?l None (Some record_usage_func) None) a c)) [sample_attempt] sample_controller"
  have d: "d = snd (bc_after_model_attempt sample_control sample_attempt sample_controller)"
    by (simp add: d_def sample_control_def)
  note empty = attempts_fail_closed[OF sample_created none, of sample_controller ?l None "[]", simplified]
  have "bc_after_model_attempt sample_control sample_attempt sample_controller =
      (None, book (3000, Fin (5/4)) sample_controller)"
    using empty[THEN conjunct1, rule_format, of sample_attempt]
    by (simp add: a sample_booking sample_control_def book_def)
  then have db: "d = book (3000, Fin (5/4)) sample_controller" using d by simp
  note one = attempts_fail_closed[OF sample_created none d_def]
  have "used_tokens d = used_tokens sample_controller + sum_list (map fst (bookings [sample_attempt] sample_controller))"
    using one by blast
  then have "used_tokens d = 3000" unfolding b by (simp add: sample_controller_def)
  moreover have "\<exists>e. bc_after_model_attempt sample_control sample_attempt d = (Some (BudgetExceededBy e), d)"
    using one[THEN conjunct1, rule_format, of sample_attempt] sample_booking(2)
    by (simp add: a db sample_control_def)
  ultimately show ?thesis unfolding d by blast
qed

subsection \<open>What the limits of a run mean\<close>

text \<open>The wall clock of a run starts at its first check and later checks measure from there.\<close>

lemma duration_from_first_check:
  assumes "attributes s started_key = None" and "before_llm b t1 (Some s) = (r1, Some s1)"
    and "t1 \<le> t2" and "int t2 - int t1 \<le> max_int64"
  shows "fst (ensure_start t2 (Some (s1\<lparr>run_usage := u\<rparr>))) = t1 \<and> time_sub t2 t1 = int (t2 - t1)"
proof -
  have "s1 = s\<lparr>attributes := (attributes s)(started_key \<mapsto> AttrTime t1)\<rparr>"
    using assms(1,2) by (auto simp: before_llm_def ensure_start_def Let_def split: option.splits)
  then show ?thesis using assms(3,4) by (simp add: ensure_start_def time_sub_def max_int64_def)
qed

text \<open>A cost that is not a number does not count as a breach, although the check is meant to fail closed.\<close>

lemma nan_cost_passes: "breach_of \<lparr>max_tokens = 0, max_duration = 0, max_cost_usd = Fin 1\<rparr> n d NaN = None"
  by (simp add: breach_of_def)

text \<open>A usage that cannot be priced costs an infinite amount, so it is refused under any positive limit.\<close>

lemma unpriceable_refused:
  assumes "calculate_cost (pricing_of c m) (prompt_tokens u) (completion_tokens u) = Inl e"
    and "max_cost_usd l = Fin x" "0 < x"
  shows "breach_of l n d (estimate_cost m (prompt_tokens u) (completion_tokens u) c) \<noteq> None"
  using assms by (simp add: breach_of_def estimate_cost_def fzero_def)

end
