(* ===== verification/Tenant.thy ===== *)
theory Tenant
  imports GoBase
begin

section \<open>Tenants and their quotas\<close>

text \<open>
  \<open>security/tenant/tenant.go\<close>: the manager with its cache, the in-memory storage, the usage tracker, the
  quota enforcer and the middleware. Tenants are pointers, so a heap that the cache and the storage both
  point into; a call of the storage may fail (\<open>fault\<close>). The first of the month is a parameter. Display
  names, settings and metadata, which nothing here reads, are left out. \<open>Check\<close> and \<open>Track\<close> take the
  tracker's lock one after the other, so the last section also has them as steps of a relation.
\<close>

subsection \<open>The data\<close>

record tenant_quota =
  max_requests :: int
  max_tokens :: int
  max_agents :: int
  max_concurrency :: int
  max_storage :: int
  rate_limit_per_minute :: int
  custom_quotas :: "string \<rightharpoonup> int"

record tenant =
  tn_id :: string
  tn_name :: string
  tn_type :: string
  tn_status :: string
  tn_plan :: string
  tn_quota :: "tenant_quota option"
  tn_created_at :: gotime
  tn_updated_at :: gotime
  tn_expires_at :: "gotime option"

record usage_data =
  ud_current :: int
  ud_total :: int
  ud_last_updated :: gotime
  ud_period_start :: gotime

datatype tenant_error = TenantIdRequired | TenantNotFound string | TenantNotActive string | TenantExpired
  | StorageFault nat | QuotaExceeded string string int int | ExtractorFault nat

record tenancy =
  ty_heap :: "nat \<Rightarrow> tenant"
  ty_cache :: "string \<rightharpoonup> nat"
  ty_store :: "string \<rightharpoonup> nat"
  ty_usage :: "string \<rightharpoonup> (string \<rightharpoonup> usage_data)"

definition quota_of :: "int \<Rightarrow> int \<Rightarrow> int \<Rightarrow> int \<Rightarrow> int \<Rightarrow> int \<Rightarrow> tenant_quota" where
  "quota_of requests tokens agents concurrency storage rate =
     \<lparr>max_requests = requests, max_tokens = tokens, max_agents = agents, max_concurrency = concurrency, max_storage = storage,
      rate_limit_per_minute = rate, custom_quotas = Map.empty\<rparr>"

definition default_quota_for_type :: "string \<Rightarrow> tenant_quota" where
  "default_quota_for_type t =
     (if t = ''standard'' then quota_of 10000 1000000 5 5 (1024 * 1024 * 1024) 60
      else if t = ''premium'' then quota_of 100000 10000000 20 20 (10 * 1024 * 1024 * 1024) 300
      else if t = ''enterprise'' then quota_of (-1) (-1) (-1) 100 (-1) 1000
      else quota_of 1000 100000 1 1 (100 * 1024 * 1024) 10)"

subsection \<open>The manager over its storage\<close>

definition upd_tenant :: "nat \<Rightarrow> (tenant \<Rightarrow> tenant) \<Rightarrow> tenancy \<Rightarrow> tenancy" where
  "upd_tenant p f s = s\<lparr>ty_heap := (ty_heap s)(p := f (ty_heap s p))\<rparr>"

definition storage_save :: "nat option \<Rightarrow> nat \<Rightarrow> tenancy \<Rightarrow> tenant_error option \<times> tenancy" where
  "storage_save fault p s =
     (case fault of
        Some e \<Rightarrow> (Some (StorageFault e), s)
      | None \<Rightarrow> (None, s\<lparr>ty_store := (ty_store s)(tn_id (ty_heap s p) \<mapsto> p)\<rparr>))"

definition save_and_cache :: "nat option \<Rightarrow> nat \<Rightarrow> tenancy \<Rightarrow> tenant_error option \<times> tenancy" where
  "save_and_cache fault p s =
     (case storage_save fault p s of
        (Some e, s') \<Rightarrow> (Some e, s')
      | (None, s') \<Rightarrow> (None, s'\<lparr>ty_cache := (ty_cache s')(tn_id (ty_heap s' p) \<mapsto> p)\<rparr>))"

definition fill_defaults :: "gotime \<Rightarrow> tenant \<Rightarrow> tenant" where
  "fill_defaults now t =
     (let typ = (if tn_type t = [] then ''free'' else tn_type t) in
      t\<lparr>tn_created_at := now, tn_updated_at := now, tn_status := (if tn_status t = [] then ''active'' else tn_status t),
        tn_type := typ, tn_quota := (case tn_quota t of None \<Rightarrow> Some (default_quota_for_type typ) | Some q \<Rightarrow> Some q)\<rparr>)"

definition create_tenant :: "gotime \<Rightarrow> nat option \<Rightarrow> nat \<Rightarrow> tenancy \<Rightarrow> tenant_error option \<times> tenancy" where
  "create_tenant now fault p s =
     (if tn_id (ty_heap s p) = [] then (Some TenantIdRequired, s)
      else save_and_cache fault p (upd_tenant p (fill_defaults now) s))"

definition get_tenant :: "nat option \<Rightarrow> string \<Rightarrow> tenancy \<Rightarrow> (tenant_error + nat) \<times> tenancy" where
  "get_tenant fault i s =
     (case ty_cache s i of
        Some p \<Rightarrow> (Inr p, s)
      | None \<Rightarrow>
          (case fault of
             Some e \<Rightarrow> (Inl (StorageFault e), s)
           | None \<Rightarrow>
               (case ty_store s i of
                  None \<Rightarrow> (Inl (TenantNotFound i), s)
                | Some p \<Rightarrow> (Inr p, s\<lparr>ty_cache := (ty_cache s)(i \<mapsto> p)\<rparr>))))"

definition update_tenant :: "gotime \<Rightarrow> nat option \<Rightarrow> nat \<Rightarrow> tenancy \<Rightarrow> tenant_error option \<times> tenancy" where
  "update_tenant now fault p s = save_and_cache fault p (upd_tenant p (\<lambda>t. t\<lparr>tn_updated_at := now\<rparr>) s)"

definition delete_tenant :: "nat option \<Rightarrow> string \<Rightarrow> tenancy \<Rightarrow> tenant_error option \<times> tenancy" where
  "delete_tenant fault i s =
     (case fault of
        Some e \<Rightarrow> (Some (StorageFault e), s)
      | None \<Rightarrow> (None, s\<lparr>ty_store := (ty_store s)(i := None), ty_cache := (ty_cache s)(i := None)\<rparr>))"

definition set_tenant_status :: "string \<Rightarrow> gotime \<Rightarrow> nat option \<Rightarrow> nat option \<Rightarrow> string \<Rightarrow> tenancy \<Rightarrow> tenant_error option \<times> tenancy" where
  "set_tenant_status st now get_fault save_fault i s =
     (case get_tenant get_fault i s of
        (Inl e, s') \<Rightarrow> (Some e, s')
      | (Inr p, s') \<Rightarrow> update_tenant now save_fault p (upd_tenant p (\<lambda>t. t\<lparr>tn_status := st\<rparr>) s'))"

definition suspend_tenant :: "gotime \<Rightarrow> nat option \<Rightarrow> nat option \<Rightarrow> string \<Rightarrow> tenancy \<Rightarrow> tenant_error option \<times> tenancy" where
  "suspend_tenant = set_tenant_status ''suspended''"

definition activate_tenant :: "gotime \<Rightarrow> nat option \<Rightarrow> nat option \<Rightarrow> string \<Rightarrow> tenancy \<Rightarrow> tenant_error option \<times> tenancy" where
  "activate_tenant = set_tenant_status ''active''"

record tenant_filter =
  tf_type :: string
  tf_status :: string
  tf_plan :: string
  tf_limit :: int
  tf_offset :: int

definition filter_matches :: "tenant_filter \<Rightarrow> tenant \<Rightarrow> bool" where
  "filter_matches f t \<longleftrightarrow> (tf_type f = [] \<or> tn_type t = tf_type f) \<and> (tf_status f = [] \<or> tn_status t = tf_status f) \<and>
     (tf_plan f = [] \<or> tn_plan t = tf_plan f)"

text \<open>\<open>List\<close> ranges over the map in the order \<open>ids\<close>.\<close>

fun list_tenants :: "tenancy \<Rightarrow> tenant_filter \<Rightarrow> string list \<Rightarrow> nat list \<Rightarrow> nat list" where
  "list_tenants s f [] acc = acc"
| "list_tenants s f (i # ids) acc =
     (case ty_store s i of
        None \<Rightarrow> list_tenants s f ids acc
      | Some p \<Rightarrow>
          if \<not> filter_matches f (ty_heap s p) then list_tenants s f ids acc
          else if 0 < tf_limit f \<and> tf_limit f \<le> int (length (acc @ [p])) then acc @ [p]
          else list_tenants s f ids (acc @ [p]))"

subsection \<open>The middleware\<close>

text \<open>The context's tenant, if any; the extractor's answer is an argument.\<close>

definition wrap_context :: "gotime \<Rightarrow> nat option \<Rightarrow> tenant_error + string \<Rightarrow> nat option \<Rightarrow> tenancy \<Rightarrow> (tenant_error + nat option) \<times> tenancy" where
  "wrap_context now fault extracted ctx s =
     (case extracted of
        Inl e \<Rightarrow> (Inl e, s)
      | Inr i \<Rightarrow>
          if i = [] then (Inr ctx, s)
          else
            (case get_tenant fault i s of
               (Inl e, s') \<Rightarrow> (Inl e, s')
             | (Inr p, s') \<Rightarrow>
                 let t = ty_heap s' p in
                 if tn_status t \<noteq> ''active'' then (Inl (TenantNotActive (tn_status t)), s')
                 else if (case tn_expires_at t of None \<Rightarrow> False | Some x \<Rightarrow> x < now) then (Inl TenantExpired, s')
                 else (Inr (Some p), s')))"

subsection \<open>Usage and quotas\<close>

definition usage_data :: "tenancy \<Rightarrow> string \<Rightarrow> string \<Rightarrow> usage_data option" where
  "usage_data s i r = (case ty_usage s i of None \<Rightarrow> None | Some m \<Rightarrow> m r)"

definition get_usage :: "tenancy \<Rightarrow> string \<Rightarrow> string \<Rightarrow> int" where
  "get_usage s i r = (case usage_data s i r of None \<Rightarrow> 0 | Some d \<Rightarrow> ud_current d)"

definition track :: "(gotime \<Rightarrow> gotime) \<Rightarrow> gotime \<Rightarrow> string \<Rightarrow> string \<Rightarrow> int \<Rightarrow> tenancy \<Rightarrow> tenancy" where
  "track month_start now i r amount s =
     (let m = (case ty_usage s i of None \<Rightarrow> Map.empty | Some m \<Rightarrow> m);
          d = (case m r of None \<Rightarrow> \<lparr>ud_current = 0, ud_total = 0, ud_last_updated = 0, ud_period_start = month_start now\<rparr> | Some d \<Rightarrow> d);
          d' = d\<lparr>ud_current := wrap64 (ud_current d + amount), ud_total := wrap64 (ud_total d + amount), ud_last_updated := now\<rparr>
      in s\<lparr>ty_usage := (ty_usage s)(i \<mapsto> m(r \<mapsto> d'))\<rparr>)"

definition get_all_usage :: "tenancy \<Rightarrow> string \<Rightarrow> string \<rightharpoonup> usage_data" where
  "get_all_usage s i = (case ty_usage s i of None \<Rightarrow> Map.empty | Some m \<Rightarrow> m)"

definition reset_period :: "gotime \<Rightarrow> string \<Rightarrow> tenancy \<Rightarrow> tenancy" where
  "reset_period now i s =
     (case ty_usage s i of
        None \<Rightarrow> s
      | Some m \<Rightarrow> s\<lparr>ty_usage := (ty_usage s)(i \<mapsto> (\<lambda>r. map_option (\<lambda>d. d\<lparr>ud_current := 0, ud_period_start := now\<rparr>) (m r)))\<rparr>)"

definition get_limit :: "tenant_quota \<Rightarrow> string \<Rightarrow> int" where
  "get_limit q r =
     (if r = ''requests'' then max_requests q
      else if r = ''tokens'' then max_tokens q
      else if r = ''storage'' then max_storage q
      else (case custom_quotas q r of Some l \<Rightarrow> l | None \<Rightarrow> -1))"

definition check_quota :: "nat option \<Rightarrow> string \<Rightarrow> int \<Rightarrow> tenancy \<Rightarrow> tenant_error option" where
  "check_quota ctx r amount s =
     (case ctx of
        None \<Rightarrow> None
      | Some p \<Rightarrow>
          let t = ty_heap s p in
          (case tn_quota t of
             None \<Rightarrow> None
           | Some q \<Rightarrow>
               let current = get_usage s (tn_id t) r; limit = get_limit q r in
               if 0 < limit \<and> limit < wrap64 (current + amount) then Some (QuotaExceeded (tn_id t) r limit current) else None))"

definition check_and_track :: "(gotime \<Rightarrow> gotime) \<Rightarrow> gotime \<Rightarrow> nat option \<Rightarrow> string \<Rightarrow> int \<Rightarrow> tenancy \<Rightarrow> tenant_error option \<times> tenancy" where
  "check_and_track month_start now ctx r amount s =
     (case check_quota ctx r amount s of
        Some e \<Rightarrow> (Some e, s)
      | None \<Rightarrow>
          (None, case ctx of None \<Rightarrow> s | Some p \<Rightarrow> track month_start now (tn_id (ty_heap s p)) r amount s))"

subsection \<open>Names agree with the tenants they lead to\<close>

datatype tenant_op = OpCreate gotime "nat option" nat | OpGet "nat option" string | OpUpdate gotime "nat option" nat
  | OpDelete "nat option" string | OpSuspend gotime "nat option" "nat option" string | OpActivate gotime "nat option" "nat option" string
  | OpTrack gotime string string int | OpReset gotime string

fun tenant_step :: "(gotime \<Rightarrow> gotime) \<Rightarrow> tenant_op \<Rightarrow> tenancy \<Rightarrow> tenancy" where
  "tenant_step ms (OpCreate now f p) s = snd (create_tenant now f p s)"
| "tenant_step ms (OpGet f i) s = snd (get_tenant f i s)"
| "tenant_step ms (OpUpdate now f p) s = snd (update_tenant now f p s)"
| "tenant_step ms (OpDelete f i) s = snd (delete_tenant f i s)"
| "tenant_step ms (OpSuspend now f g i) s = snd (suspend_tenant now f g i s)"
| "tenant_step ms (OpActivate now f g i) s = snd (activate_tenant now f g i s)"
| "tenant_step ms (OpTrack now i r a) s = track ms now i r a s"
| "tenant_step ms (OpReset now i) s = reset_period now i s"

definition coherent :: "tenancy \<Rightarrow> bool" where
  "coherent s \<longleftrightarrow> (\<forall>i p. ty_cache s i = Some p \<longrightarrow> ty_store s i = Some p) \<and>
     (\<forall>i p. ty_store s i = Some p \<longrightarrow> tn_id (ty_heap s p) = i)"

lemma coherentD:
  "coherent s \<Longrightarrow> ty_cache s i = Some p \<Longrightarrow> ty_store s i = Some p"
  "coherent s \<Longrightarrow> ty_store s i = Some p \<Longrightarrow> tn_id (ty_heap s p) = i"
  by (simp_all add: coherent_def)

lemma upd_tenant_coherent [inv_intros]:
  "coherent s \<Longrightarrow> (\<And>t. tn_id (f t) = tn_id t) \<Longrightarrow> coherent (upd_tenant p f s)"
  by (simp add: coherent_def upd_tenant_def)

lemma save_and_cache_coherent [inv_intros]: "coherent s \<Longrightarrow> coherent (snd (save_and_cache fault p s))"
  by (auto simp: save_and_cache_def storage_save_def coherent_def split: option.splits)

lemma get_tenant_coherent [inv_intros]: "coherent s \<Longrightarrow> coherent (snd (get_tenant fault i s))"
  by (auto simp: get_tenant_def coherent_def split: option.splits)

lemma set_tenant_status_coherent [inv_intros]:
  assumes "coherent s"
  shows "coherent (snd (set_tenant_status st now f g i s))"
proof (cases "get_tenant f i s")
  case (Pair x t)
  have t: "coherent t" using get_tenant_coherent[OF assms, of f i] Pair by simp
  show ?thesis
  proof (cases x)
    case (Inr p)
    have "coherent (upd_tenant p (\<lambda>t. t\<lparr>tn_updated_at := now\<rparr>) (upd_tenant p (\<lambda>t. t\<lparr>tn_status := st\<rparr>) t))"
      by (intro upd_tenant_coherent t) simp_all
    then show ?thesis using Pair Inr by (simp add: set_tenant_status_def update_tenant_def save_and_cache_coherent)
  qed (use Pair t in \<open>simp add: set_tenant_status_def\<close>)
qed

lemma tenant_step_coherent [inv_intros]: "coherent s \<Longrightarrow> coherent (tenant_step ms oper s)"
proof (cases oper)
  case (OpTrack now i r a)
  then show "coherent s \<Longrightarrow> ?thesis" by (simp add: coherent_def track_def Let_def)
next
  case (OpReset now i)
  then show "coherent s \<Longrightarrow> ?thesis" by (simp add: coherent_def reset_period_def split: option.splits)
next
  case (OpDelete f i)
  then show "coherent s \<Longrightarrow> ?thesis" by (auto simp: coherent_def delete_tenant_def split: option.splits)
next
  case (OpCreate now f p)
  then show "coherent s \<Longrightarrow> ?thesis"
    by (simp add: create_tenant_def save_and_cache_coherent upd_tenant_coherent fill_defaults_def Let_def)
qed (simp_all add: update_tenant_def suspend_tenant_def activate_tenant_def save_and_cache_coherent upd_tenant_coherent
    get_tenant_coherent set_tenant_status_coherent)

lemma tenant_steps_coherent: "coherent s \<Longrightarrow> coherent (fold (tenant_step ms) ops s)"
  by (induction ops arbitrary: s) (simp_all add: tenant_step_coherent)

lemma get_tenant_Inr:
  assumes "coherent s" "get_tenant fault i s = (Inr p, s')"
  shows "tn_id (ty_heap s' p) = i" "ty_heap s' = ty_heap s" "ty_cache s' i = Some p"
  using assms by (auto simp: get_tenant_def dest: coherentD split: option.splits)

text \<open>Nothing is stored yet; the heap holds the tenants the host will create.\<close>

definition new_manager :: "(nat \<Rightarrow> tenant) \<Rightarrow> tenancy" where
  "new_manager h = \<lparr>ty_heap = h, ty_cache = Map.empty, ty_store = Map.empty, ty_usage = Map.empty\<rparr>"

text \<open>
  C33: After any operations of the manager, with any failures of the storage, the middleware lets a request
  with a tenant identifier through only with the tenant of exactly that identifier in its context, which is
  active and not past its expiry; and once Suspend has answered without error the identifier is refused
  as suspended, whether or not the storage can be reached.
\<close>

theorem middleware_admits_only_active:
  fixes ms ops h
  defines "s \<equiv> fold (tenant_step ms) ops (new_manager h)"
  shows "(\<forall>now fault i ctx ctx' s'. i \<noteq> [] \<longrightarrow> wrap_context now fault (Inr i) ctx s = (Inr ctx', s') \<longrightarrow>
      (\<exists>p. ctx' = Some p \<and> tn_id (ty_heap s' p) = i \<and> tn_status (ty_heap s' p) = ''active'' \<and>
         (\<forall>x. tn_expires_at (ty_heap s' p) = Some x \<longrightarrow> now \<le> x))) \<and>
    (\<forall>now f g i s'. suspend_tenant now f g i s = (None, s') \<longrightarrow> i \<noteq> [] \<longrightarrow>
      (\<forall>now fault ctx. fst (wrap_context now fault (Inr i) ctx s') = Inl (TenantNotActive ''suspended'')))"
proof -
  have coh: "coherent s"
    unfolding s_def by (rule tenant_steps_coherent) (simp add: coherent_def new_manager_def)
  show ?thesis
  proof (intro conjI allI impI)
    fix now fault i ctx ctx' s'
    assume i: "i \<noteq> []" "wrap_context now fault (Inr i) ctx s = (Inr ctx', s')"
    then obtain p where p: "get_tenant fault i s = (Inr p, s')" "ctx' = Some p" "tn_status (ty_heap s' p) = ''active''"
      "\<not> (case tn_expires_at (ty_heap s' p) of None \<Rightarrow> False | Some x \<Rightarrow> x < now)"
      by (auto simp: wrap_context_def Let_def split: prod.splits sum.splits if_splits)
    then show "\<exists>p. ctx' = Some p \<and> tn_id (ty_heap s' p) = i \<and> tn_status (ty_heap s' p) = ''active'' \<and>
         (\<forall>x. tn_expires_at (ty_heap s' p) = Some x \<longrightarrow> now \<le> x)"
      using get_tenant_Inr(1)[OF coh p(1)] by auto
  next
    fix now f g i s' now' fault ctx
    assume i: "suspend_tenant now f g i s = (None, s')" "i \<noteq> []"
    then obtain p t where p: "get_tenant f i s = (Inr p, t)"
      and u: "update_tenant now g p (upd_tenant p (\<lambda>x. x\<lparr>tn_status := ''suspended''\<rparr>) t) = (None, s')"
      by (auto simp: suspend_tenant_def set_tenant_status_def split: prod.splits sum.splits)
    have "ty_cache s' i = Some p" "tn_status (ty_heap s' p) = ''suspended''"
      using u get_tenant_Inr(1)[OF coh p]
      by (auto simp: update_tenant_def save_and_cache_def storage_save_def upd_tenant_def split: option.splits)
    then show "fst (wrap_context now' fault (Inr i) ctx s') = Inl (TenantNotActive ''suspended'')"
      using i(2) by (simp add: wrap_context_def get_tenant_def)
  qed
qed

definition sample_tenant :: tenant where
  "sample_tenant = \<lparr>tn_id = ''acme'', tn_name = ''Acme'', tn_type = ''free'', tn_status = [], tn_plan = [], tn_quota = None,
     tn_created_at = 0, tn_updated_at = 0, tn_expires_at = Some 90\<rparr>"

definition sample_tenancy :: tenancy where
  "sample_tenancy = fold (tenant_step id) [OpCreate 1 None 0] (new_manager (\<lambda>_. sample_tenant))"

theorem middleware_admits_only_active_witness:
  "fst (wrap_context 5 None (Inr ''acme'') None sample_tenancy) = Inr (Some 0) \<and>
   (\<exists>p. Some 0 = Some p \<and> tn_status (ty_heap (snd (wrap_context 5 None (Inr ''acme'') None sample_tenancy)) p) = ''active'') \<and>
   (\<exists>s'. suspend_tenant 6 None None ''acme'' sample_tenancy = (None, s') \<and>
      fst (wrap_context 7 (Some 1) (Inr ''acme'') None s') = Inl (TenantNotActive ''suspended''))"
proof -
  have s: "sample_tenancy = fold (tenant_step id) [OpCreate 1 None 0] (new_manager (\<lambda>_. sample_tenant))"
    by (simp add: sample_tenancy_def)
  note T = middleware_admits_only_active[of id "[OpCreate 1 None 0]" "\<lambda>_. sample_tenant", folded s]
  have w: "fst (wrap_context 5 None (Inr ''acme'') None sample_tenancy) = Inr (Some 0)" by code_simp
  have u: "fst (suspend_tenant 6 None None ''acme'' sample_tenancy) = None" by code_simp
  have "wrap_context 5 None (Inr ''acme'') None sample_tenancy =
      (Inr (Some 0), snd (wrap_context 5 None (Inr ''acme'') None sample_tenancy))" using w by (metis prod.collapse)
  then have a: "\<exists>p. Some 0 = Some p \<and> tn_status (ty_heap (snd (wrap_context 5 None (Inr ''acme'') None sample_tenancy)) p) = ''active''"
    using conjunct1[OF T] by blast
  have su: "suspend_tenant 6 None None ''acme'' sample_tenancy = (None, snd (suspend_tenant 6 None None ''acme'' sample_tenancy))"
    using u by (metis prod.collapse)
  have "fst (wrap_context 7 (Some 1) (Inr ''acme'') None (snd (suspend_tenant 6 None None ''acme'' sample_tenancy))) = Inl (TenantNotActive ''suspended'')"
    using conjunct2[OF T] su by blast
  then show ?thesis using w a su by blast
qed

subsection \<open>Quotas\<close>

lemma usage_data_track:
  "usage_data (track ms now i r a s) j q =
     (if j = i \<and> q = r
      then Some (case usage_data s i r of
          None \<Rightarrow> \<lparr>ud_current = wrap64 a, ud_total = wrap64 a, ud_last_updated = now, ud_period_start = ms now\<rparr>
        | Some d \<Rightarrow> d\<lparr>ud_current := wrap64 (ud_current d + a), ud_total := wrap64 (ud_total d + a), ud_last_updated := now\<rparr>)
      else usage_data s j q)"
  by (auto simp: usage_data_def track_def Let_def split: option.splits)

lemma get_usage_track:
  "get_usage (track ms now i r a s) j q = (if j = i \<and> q = r then wrap64 (get_usage s i r + a) else get_usage s j q)"
  by (auto simp: get_usage_def usage_data_track split: option.splits)

lemma track_heap [simp]: "ty_heap (track ms now i r a s) = ty_heap s"
  by (simp add: track_def Let_def)

text \<open>A quota applies: the context has a tenant with a positive limit on the resource, far enough from the integers' end.\<close>

definition limited :: "nat \<Rightarrow> string \<Rightarrow> int \<Rightarrow> int \<Rightarrow> tenancy \<Rightarrow> bool" where
  "limited p r l most s \<longleftrightarrow> (\<exists>q. tn_quota (ty_heap s p) = Some q \<and> get_limit q r = l) \<and> 0 < l \<and> l + most \<le> max_int64"

lemma check_quota_limited:
  assumes "limited p r l most s" "0 \<le> a" "0 \<le> get_usage s (tn_id (ty_heap s p)) r"
    "get_usage s (tn_id (ty_heap s p)) r + a \<le> l + most"
  shows "check_quota (Some p) r a s = None \<longleftrightarrow> get_usage s (tn_id (ty_heap s p)) r + a \<le> l"
proof -
  have "wrap64 (get_usage s (tn_id (ty_heap s p)) r + a) = get_usage s (tn_id (ty_heap s p)) r + a"
    using assms by (intro wrap64_id) (auto simp: limited_def)
  then show ?thesis using assms(1) by (auto simp: check_quota_def limited_def Let_def split: if_splits)
qed

text \<open>Requests of one tenant for one resource, one after the other; the amounts admitted.\<close>

fun run_requests :: "(gotime \<Rightarrow> gotime) \<Rightarrow> nat \<Rightarrow> string \<Rightarrow> (gotime \<times> int) list \<Rightarrow> tenancy \<Rightarrow> int list \<times> tenancy" where
  "run_requests ms p r [] s = ([], s)"
| "run_requests ms p r ((now, a) # reqs) s =
     (case check_and_track ms now (Some p) r a s of
        (Some e, s') \<Rightarrow> run_requests ms p r reqs s'
      | (None, s') \<Rightarrow> (case run_requests ms p r reqs s' of (as, s'') \<Rightarrow> (a # as, s'')))"

text \<open>The reference: admit whatever still fits.\<close>

fun fits :: "int \<Rightarrow> int \<Rightarrow> int list \<Rightarrow> int list" where
  "fits l u [] = []"
| "fits l u (a # as) = (if u + a \<le> l then a # fits l (u + a) as else fits l u as)"

lemma fits_sum: "u \<le> l \<Longrightarrow> u + sum_list (fits l u as) \<le> l"
  by (induction as arbitrary: u) (auto simp: add.assoc[symmetric])

text \<open>
  C35: Requests that come one after the other are admitted exactly as long as they fit: the amounts that
  CheckAndTrack lets through are those of the greedy reference, the recorded usage is their sum and never
  exceeds the limit, and no other tenant and no other resource is charged.
\<close>

theorem quota_is_greedy:
  assumes "limited p r l most s" "\<forall>(now, a) \<in> set reqs. 0 \<le> a \<and> a \<le> most"
    and "0 \<le> get_usage s (tn_id (ty_heap s p)) r" "get_usage s (tn_id (ty_heap s p)) r \<le> l"
  shows "\<exists>s'. run_requests ms p r reqs s = (fits l (get_usage s (tn_id (ty_heap s p)) r) (map snd reqs), s') \<and>
    get_usage s' (tn_id (ty_heap s p)) r =
      get_usage s (tn_id (ty_heap s p)) r + sum_list (fits l (get_usage s (tn_id (ty_heap s p)) r) (map snd reqs)) \<and>
    get_usage s' (tn_id (ty_heap s p)) r \<le> l \<and>
    (\<forall>i q. (i, q) \<noteq> (tn_id (ty_heap s p), r) \<longrightarrow> get_usage s' i q = get_usage s i q)"
  using assms
proof (induction reqs arbitrary: s)
  case (Cons req reqs)
  obtain now a where req: "req = (now, a)" by (cases req)
  let ?i = "tn_id (ty_heap s p)"
  let ?u = "get_usage s ?i r"
  have a: "0 \<le> a" "a \<le> most" using Cons.prems(2) req by auto
  have check: "check_quota (Some p) r a s = None \<longleftrightarrow> ?u + a \<le> l"
    by (rule check_quota_limited[OF Cons.prems(1) a(1) Cons.prems(3)]) (use Cons.prems(4) a(2) in simp)
  show ?case
  proof (cases "?u + a \<le> l")
    case True
    let ?t = "track ms now ?i r a s"
    have "wrap64 (?u + a) = ?u + a" using True Cons.prems(1,3) a by (intro wrap64_id) (auto simp: limited_def)
    then have use: "get_usage ?t ?i r = ?u + a" by (simp add: get_usage_track)
    have "limited p r l most ?t" using Cons.prems(1) by (simp add: limited_def)
    then obtain s' where s': "run_requests ms p r reqs ?t = (fits l (?u + a) (map snd reqs), s')"
      "get_usage s' ?i r = ?u + a + sum_list (fits l (?u + a) (map snd reqs))" "get_usage s' ?i r \<le> l"
      "\<forall>i q. (i, q) \<noteq> (?i, r) \<longrightarrow> get_usage s' i q = get_usage ?t i q"
      using Cons.IH[of ?t] Cons.prems(2-4) True a use by auto
    then show ?thesis using req True check by (auto simp: check_and_track_def get_usage_track)
  next
    case False
    then obtain e where "check_quota (Some p) r a s = Some e" using check by (cases "check_quota (Some p) r a s") auto
    then show ?thesis using Cons.IH[OF Cons.prems(1) _ Cons.prems(3,4)] Cons.prems(2) req False by (auto simp: check_and_track_def)
  qed
qed simp

theorem quota_is_greedy_witness:
  "fst (run_requests id 0 ''tokens'' [(1, 60000), (2, 50000), (3, 40000)] sample_tenancy) = [60000, 40000] \<and>
   (\<exists>s'. run_requests id 0 ''tokens'' [(1, 60000), (2, 50000), (3, 40000)] sample_tenancy = ([60000, 40000], s') \<and>
      get_usage s' ''acme'' ''tokens'' = 100000)"
proof -
  have n: "tn_id (ty_heap sample_tenancy 0) = ''acme''" by code_simp
  have u: "get_usage sample_tenancy ''acme'' ''tokens'' = 0" by code_simp
  have "map_option (\<lambda>q. get_limit q ''tokens'') (tn_quota (ty_heap sample_tenancy 0)) = Some 100000" by code_simp
  then have "limited 0 ''tokens'' 100000 60000 sample_tenancy" by (auto simp: limited_def max_int64_def)
  from quota_is_greedy[OF this, of "[(1, 60000), (2, 50000), (3, 40000)]" id, unfolded n u]
  show ?thesis by auto
qed

text \<open>
  Two requests may be checked before either is recorded. The steps of \<open>c\<close> requests in flight: one more is
  checked (its amount waits to be recorded), or one is recorded.
\<close>

inductive in_flight :: "(gotime \<Rightarrow> gotime) \<Rightarrow> nat \<Rightarrow> string \<Rightarrow> nat \<Rightarrow> int \<Rightarrow> tenancy \<Rightarrow> tenancy \<Rightarrow> int list \<Rightarrow> bool"
  for ms p r c most s0 where
  in_flight_start: "in_flight ms p r c most s0 s0 []"
| in_flight_check: "in_flight ms p r c most s0 s as \<Longrightarrow> length as < c \<Longrightarrow> 0 \<le> a \<Longrightarrow> a \<le> most \<Longrightarrow> check_quota (Some p) r a s = None \<Longrightarrow>
    in_flight ms p r c most s0 s (a # as)"
| in_flight_track: "in_flight ms p r c most s0 s (as @ a # bs) \<Longrightarrow>
    in_flight ms p r c most s0 (track ms now (tn_id (ty_heap s p)) r a s) (as @ bs)"

text \<open>
  C36: With at most c requests of a tenant in flight, each of at most a given amount, the recorded usage
  exceeds the limit by less than c times that amount, however their checks and recordings interleave.
\<close>

theorem concurrent_quota_bound:
  assumes "in_flight ms p r c most s0 s as" "limited p r l (int c * most) s0" "0 < c" "0 \<le> most"
    and "0 \<le> get_usage s0 (tn_id (ty_heap s0 p)) r" "get_usage s0 (tn_id (ty_heap s0 p)) r \<le> l"
  shows "get_usage s (tn_id (ty_heap s0 p)) r + sum_list as \<le> l + (int c - 1) * most \<and>
    0 \<le> get_usage s (tn_id (ty_heap s0 p)) r \<and> (\<forall>a \<in> set as. 0 \<le> a \<and> a \<le> most) \<and> length as \<le> c \<and> ty_heap s = ty_heap s0"
  using assms(1)
proof (induction rule: in_flight.induct)
  case in_flight_start
  have "0 \<le> (int c - 1) * most" using assms(3,4) by simp
  then show ?case using assms(5,6) by simp
next
  case (in_flight_check s as a)
  let ?u = "get_usage s (tn_id (ty_heap s0 p)) r"
  have sum: "sum_list as \<le> int (length as) * most" if "\<forall>a \<in> set as. 0 \<le> a \<and> a \<le> most" for as :: "int list"
    using that by (induction as) (auto simp: algebra_simps)
  have lens: "int (length as) * most \<le> (int c - 1) * most" using in_flight_check(2) assms(4) by (intro mult_right_mono) simp_all
  have pos: "0 \<le> sum_list as" using in_flight_check.IH by (intro sum_list_nonneg) auto
  have lim: "limited p r l (int c * most) s" using assms(2) in_flight_check.IH by (simp add: limited_def)
  have "?u \<le> l + (int c - 1) * most" using in_flight_check.IH pos by linarith
  then have "?u + a \<le> l + int c * most" using in_flight_check(4) by (simp add: algebra_simps)
  then have "?u + a \<le> l"
    using check_quota_limited[OF lim in_flight_check(3), of] in_flight_check by simp
  then show ?case using in_flight_check sum[of as] lens by auto
next
  case (in_flight_track s as a bs now)
  let ?u = "get_usage s (tn_id (ty_heap s0 p)) r"
  have a: "0 \<le> a" "0 \<le> sum_list as" "0 \<le> sum_list bs" using in_flight_track.IH by (auto intro!: sum_list_nonneg)
  have "?u + a \<le> l + (int c - 1) * most" using in_flight_track.IH a by simp
  also have "\<dots> \<le> max_int64" using assms(2,4) by (simp add: limited_def algebra_simps)
  finally have "wrap64 (?u + a) = ?u + a" using in_flight_track.IH a by (intro wrap64_id) auto
  then show ?case using in_flight_track.IH a by (auto simp: get_usage_track)
qed

text \<open>The bound is met: two requests, checked at 999 of 1000, are both recorded.\<close>

definition nearly_full :: tenancy where
  "nearly_full = track id 2 ''acme'' ''requests'' 999 sample_tenancy"

theorem concurrent_quota_bound_witness:
  "\<exists>s. in_flight id 0 ''requests'' 2 1 nearly_full s [] \<and> get_usage s ''acme'' ''requests'' = 1001 \<and>
    get_usage s ''acme'' ''requests'' + sum_list [] \<le> 1000 + (int 2 - 1) * 1"
proof -
  let ?s = "\<lambda>n. (track id 3 ''acme'' ''requests'' 1 ^^ n) nearly_full"
  have check: "check_quota (Some 0) ''requests'' 1 nearly_full = None" by code_simp
  have n: "tn_id (ty_heap nearly_full 0) = ''acme''" by code_simp
  then have n1: "tn_id (ty_heap (?s 1) 0) = ''acme''" by simp
  have "in_flight id 0 ''requests'' 2 1 nearly_full nearly_full [1, 1]"
    by (rule in_flight_check[OF in_flight_check[OF in_flight_start]]) (simp_all add: check)
  then have "in_flight id 0 ''requests'' 2 1 nearly_full (?s 1) [1]"
    using in_flight_track[of id 0 "''requests''" 2 1 nearly_full nearly_full "[]" 1 "[1]" 3] n by simp
  then have run: "in_flight id 0 ''requests'' 2 1 nearly_full (?s 2) []"
    using in_flight_track[of id 0 "''requests''" 2 1 nearly_full "?s 1" "[]" 1 "[]" 3] n1 by (simp add: numeral_2_eq_2)
  have u: "get_usage nearly_full ''acme'' ''requests'' = 999" "get_usage (?s 2) ''acme'' ''requests'' = 1001" by code_simp+
  have "map_option (\<lambda>q. get_limit q ''requests'') (tn_quota (ty_heap nearly_full 0)) = Some 1000" by code_simp
  then have "limited 0 ''requests'' 1000 (int 2 * 1) nearly_full" by (auto simp: limited_def max_int64_def)
  from concurrent_quota_bound[OF run this] show ?thesis using run u n by auto
qed

subsection \<open>What modelling showed\<close>

text \<open>\<open>Suspend\<close> writes the status into the shared tenant before it saves: it answers an error, and the tenant is suspended.\<close>

lemma failed_suspend_suspends:
  "fst (suspend_tenant 6 None (Some 9) ''acme'' sample_tenancy) = Some (StorageFault 9) \<and>
   fst (wrap_context 7 None (Inr ''acme'') None (snd (suspend_tenant 6 None (Some 9) ''acme'' sample_tenancy))) =
     Inl (TenantNotActive ''suspended'')"
  by code_simp

text \<open>A request so large that the sum wraps passes the check, and leaves the usage negative.\<close>

lemma overflow_passes_quota:
  "fst (check_and_track id 3 (Some 0) ''requests'' max_int64 nearly_full) = None \<and>
   get_usage (snd (check_and_track id 3 (Some 0) ''requests'' max_int64 nearly_full)) ''acme'' ''requests'' < 0"
  by code_simp

text \<open>A deleted tenant's usage stays, and is charged to the next tenant of the same identifier.\<close>

lemma deleted_usage_survives:
  "get_usage (fold (tenant_step id) [OpDelete None ''acme'', OpCreate 9 None 1] nearly_full) ''acme'' ''requests'' = 999"
  by code_simp

text \<open>A limit of zero is no limit, and \<open>List\<close> never reads the offset.\<close>

lemma zero_limit_unlimited: "get_limit q r = 0 \<Longrightarrow> tn_quota (ty_heap s p) = Some q \<Longrightarrow> check_quota (Some p) r a s = None"
  by (simp add: check_quota_def Let_def)

lemma list_ignores_offset: "list_tenants s (f\<lparr>tf_offset := k\<rparr>) ids acc = list_tenants s f ids acc"
  by (induction ids arbitrary: acc) (simp_all add: filter_matches_def split: option.splits)

text \<open>Otherwise \<open>List\<close> gives the stored tenants that match, in the order of the map, up to the limit.\<close>

lemma list_tenants_unlimited:
  "tf_limit f \<le> 0 \<Longrightarrow> list_tenants s f ids acc =
     acc @ filter (\<lambda>p. filter_matches f (ty_heap s p)) (List.map_filter (ty_store s) ids)"
  by (induction ids arbitrary: acc) (simp_all add: List.map_filter_simps split: option.splits)

lemma list_tenants_limited:
  "0 < tf_limit f \<Longrightarrow> int (length acc) < tf_limit f \<Longrightarrow> list_tenants s f ids acc =
     take (nat (tf_limit f)) (acc @ filter (\<lambda>p. filter_matches f (ty_heap s p)) (List.map_filter (ty_store s) ids))"
proof (induction ids arbitrary: acc)
  case (Cons i ids)
  show ?case
  proof (cases "ty_store s i")
    case (Some p)
    show ?thesis
    proof (cases "tf_limit f \<le> int (length (acc @ [p]))")
      case True
      then have "nat (tf_limit f) = length (acc @ [p])" using Cons.prems(2) by simp
      then show ?thesis using Cons Some True by (simp add: List.map_filter_simps)
    next
      case False
      then show ?thesis using Cons.IH[of "acc @ [p]"] Cons.IH[of acc] Cons.prems Some by (simp add: List.map_filter_simps)
    qed
  qed (use Cons in \<open>simp add: List.map_filter_simps\<close>)
qed (simp add: List.map_filter_simps)

end
