(* ===== verification/Outcome.thy ===== *)
theory Outcome
  imports Main
begin

section \<open>Computations that fail or are cut short\<close>

text \<open>
  A computation on a state is done with a value, fails with an error, or is cut short, as when its process
  ends; the state is what is left in each case. A caller may handle a failure, but nothing handles the end
  of the process. \<open>wp m Q E s\<close>: from \<open>s\<close> the computation \<open>m\<close> is done in a state of \<open>Q\<close>, or leaves a state
  of \<open>E\<close>; it is the method by which an invariant is followed through the code, error paths included.
\<close>

datatype ('e, 'a) outcome = Done 'a | Failed 'e | Crashed

type_synonym ('s, 'e, 'a) action = "'s \<Rightarrow> ('e, 'a) outcome \<times> 's"

definition give :: "'a \<Rightarrow> ('s, 'e, 'a) action" where
  "give a s = (Done a, s)"

definition throw :: "'e \<Rightarrow> ('s, 'e, 'a) action" where
  "throw e s = (Failed e, s)"

definition andthen :: "('s, 'e, 'a) action \<Rightarrow> ('a \<Rightarrow> ('s, 'e, 'b) action) \<Rightarrow> ('s, 'e, 'b) action" where
  "andthen m f s = (case m s of (Done a, t) \<Rightarrow> f a t | (Failed e, t) \<Rightarrow> (Failed e, t) | (Crashed, t) \<Rightarrow> (Crashed, t))"

definition seq :: "('s, 'e, 'a) action \<Rightarrow> ('s, 'e, 'b) action \<Rightarrow> ('s, 'e, 'b) action" where
  "seq m n = andthen m (\<lambda>_. n)"

definition look :: "('s \<Rightarrow> ('s, 'e, 'a) action) \<Rightarrow> ('s, 'e, 'a) action" where
  "look f s = f s s"

definition change :: "('s \<Rightarrow> 's) \<Rightarrow> ('s, 'e, unit) action" where
  "change f s = (Done (), f s)"

text \<open>The failure of \<open>m\<close> as a value, and a failure reported before it is passed on.\<close>

definition tried :: "('s, 'e, 'a) action \<Rightarrow> ('s, 'e, 'e + 'a) action" where
  "tried m s = (case m s of (Done a, t) \<Rightarrow> (Done (Inr a), t) | (Failed e, t) \<Rightarrow> (Done (Inl e), t) | (Crashed, t) \<Rightarrow> (Crashed, t))"

definition report_failure :: "('e \<Rightarrow> ('s, 'e, unit) action) \<Rightarrow> ('s, 'e, 'a) action \<Rightarrow> ('s, 'e, 'a) action" where
  "report_failure r m = andthen (tried m) (\<lambda>x. case x of Inr a \<Rightarrow> give a | Inl e \<Rightarrow> seq (tried (r e)) (throw e))"

subsection \<open>Following an invariant\<close>

definition wp :: "('s, 'e, 'a) action \<Rightarrow> ('a \<Rightarrow> 's \<Rightarrow> bool) \<Rightarrow> ('s \<Rightarrow> bool) \<Rightarrow> 's \<Rightarrow> bool" where
  "wp m Q E s \<longleftrightarrow> (case m s of (Done a, t) \<Rightarrow> Q a t | (Failed e, t) \<Rightarrow> E t | (Crashed, t) \<Rightarrow> E t)"

named_theorems wp_simps \<open>what a computation has to establish, as a condition on its parts\<close>

lemma wp_give [wp_simps]: "wp (give a) Q E s \<longleftrightarrow> Q a s"
  by (simp add: wp_def give_def)

lemma wp_throw [wp_simps]: "wp (throw e) Q E s \<longleftrightarrow> E s"
  by (simp add: wp_def throw_def)

lemma wp_andthen [wp_simps]: "wp (andthen m f) Q E s \<longleftrightarrow> wp m (\<lambda>a. wp (f a) Q E) E s"
  by (simp add: wp_def andthen_def split: outcome.splits prod.splits)

lemma wp_seq [wp_simps]: "wp (seq m n) Q E s \<longleftrightarrow> wp m (\<lambda>_. wp n Q E) E s"
  by (simp add: seq_def wp_andthen)

lemma wp_look [wp_simps]: "wp (look f) Q E s \<longleftrightarrow> wp (f s) Q E s"
  by (simp add: wp_def look_def)

lemma wp_change [wp_simps]: "wp (change f) Q E s \<longleftrightarrow> Q () (f s)"
  by (simp add: wp_def change_def)

lemma wp_mono:
  "wp m Q E s \<Longrightarrow> (\<And>a t. Q a t \<Longrightarrow> Q' a t) \<Longrightarrow> (\<And>t. E t \<Longrightarrow> E' t) \<Longrightarrow> wp m Q' E' s"
  by (auto simp: wp_def split: outcome.splits prod.splits)

lemma wp_conj: "wp m Q E s \<Longrightarrow> wp m R F s \<Longrightarrow> wp m (\<lambda>a t. Q a t \<and> R a t) (\<lambda>t. E t \<and> F t) s"
  by (auto simp: wp_def split: outcome.splits prod.splits)

text \<open>A handled failure leaves a state of \<open>E\<close>, from which the handler goes on.\<close>

lemma wp_tried: "wp m (\<lambda>a. Q (Inr a)) (\<lambda>t. (\<forall>e. Q (Inl e) t) \<and> E t) s \<Longrightarrow> wp (tried m) Q E s"
  by (auto simp: wp_def tried_def split: outcome.splits prod.splits)

lemma wp_report_failure:
  assumes "wp m Q E s" "\<And>e t. E t \<Longrightarrow> wp (r e) (\<lambda>_. E) E t"
  shows "wp (report_failure r m) Q E s"
  unfolding report_failure_def wp_andthen
  by (rule wp_tried, rule wp_mono[OF assms(1)])
    (auto simp: wp_simps intro!: wp_tried intro: wp_mono[OF assms(2)])

lemma wp_if [wp_simps]: "wp (if b then m else n) Q E s \<longleftrightarrow> (if b then wp m Q E s else wp n Q E s)"
  by simp

end
