(* ===== verification/Permission.thy ===== *)
theory Permission
  imports GoBase
begin

section \<open>Permission to call a tool\<close>

text \<open>
  \<open>runtime/middleware/permission_mode.go\<close> and \<open>permission.go\<close>, and the chain that runs them before a tool
  (\<open>runtime/middleware.go\<close>). The hook, the prompt, the classifier and the checker are the host's, so
  functions of the policy, absent or present; a middleware works on a candidate state whose events are
  buffered and published when it is done, and a failed publication is an error of the chain. Tool names are
  ASCII, where \<open>strings.ToLower\<close> works byte by byte.
\<close>

subsection \<open>Classification by name\<close>

datatype tool_class = ToolRead | ToolWrite | ToolDangerous

definition dangerous_words :: "string list" where
  "dangerous_words = [''shell'', ''exec'', ''run'', ''command'', ''bash'', ''delete'', ''remove'', ''rm'', ''kill'', ''sudo'', ''http'',
     ''fetch_url'', ''network'']"

definition read_words :: "string list" where
  "read_words = [''read'', ''list'', ''get'', ''search'', ''view'', ''find'', ''stat'', ''cat'', ''grep'', ''query'', ''fetch'']"

definition classify_by_name :: "string \<Rightarrow> tool_class" where
  "classify_by_name name =
     (let n = to_lower name in
      if list_ex (str_contains n) dangerous_words then ToolDangerous
      else if list_ex (str_contains n) read_words then ToolRead
      else ToolWrite)"

subsection \<open>The policy\<close>

record tool_call =
  tc_id :: string
  tc_name :: string
  tc_arguments :: json

datatype permission_mode = ModeDefault | ModeReadOnly | ModeWorkspaceWrite | ModeDangerFullAccess | ModePrompt | ModeAllow

datatype permission_decision = DecisionDefer | DecisionAllow | DecisionDeny

datatype permission_error = PermissionDenied | CheckerRefused nat | MiddlewareFailed nat | PublishFailed nat | JoinedErrors "permission_error list"

datatype permission_event = PermissionRequested string | PermissionApproved string string | PermissionDeniedBy string permission_error

record permission_policy =
  pp_mode :: permission_mode
  pp_classify :: "(tool_call \<Rightarrow> tool_class) option"
  pp_hook :: "(tool_call \<Rightarrow> permission_decision) option"
  pp_prompt :: "(tool_call \<Rightarrow> bool) option"
  pp_checker :: "(tool_call \<Rightarrow> nat option) option"

definition classify :: "permission_policy \<Rightarrow> tool_call \<Rightarrow> tool_class" where
  "classify p c = (case pp_classify p of Some f \<Rightarrow> f c | None \<Rightarrow> classify_by_name (tc_name c))"

text \<open>What a middleware answers, and the events it emitted.\<close>

type_synonym answer = "permission_error option \<times> permission_event list"

definition allow_call :: "tool_call \<Rightarrow> string \<Rightarrow> answer" where
  "allow_call c why = (None, [PermissionApproved (tc_id c) why])"

definition deny_call :: "tool_call \<Rightarrow> answer" where
  "deny_call c = (Some PermissionDenied, [PermissionDeniedBy (tc_id c) PermissionDenied])"

definition check_with :: "(tool_call \<Rightarrow> nat option) option \<Rightarrow> tool_call \<Rightarrow> answer" where
  "check_with checker c =
     (case checker of
        None \<Rightarrow> allow_call c ''none''
      | Some f \<Rightarrow>
          (case f c of
             Some e \<Rightarrow> (Some (CheckerRefused e), [PermissionDeniedBy (tc_id c) (CheckerRefused e)])
           | None \<Rightarrow> allow_call c ''checker''))"

definition mode_decision :: "permission_policy \<Rightarrow> tool_call \<Rightarrow> answer" where
  "mode_decision p c =
     (case pp_mode p of
        ModeAllow \<Rightarrow> allow_call c ''allow''
      | ModeDangerFullAccess \<Rightarrow> allow_call c ''danger_full_access''
      | ModeReadOnly \<Rightarrow> if classify p c = ToolRead then allow_call c ''read_only'' else deny_call c
      | ModeWorkspaceWrite \<Rightarrow> if classify p c \<noteq> ToolDangerous then allow_call c ''workspace_write'' else deny_call c
      | ModePrompt \<Rightarrow> (case pp_prompt p of Some f \<Rightarrow> if f c then allow_call c ''prompt'' else deny_call c | None \<Rightarrow> deny_call c)
      | ModeDefault \<Rightarrow> check_with (pp_checker p) c)"

definition policy_before_tool :: "permission_policy \<Rightarrow> tool_call \<Rightarrow> answer" where
  "policy_before_tool p c =
     apsnd ((#) (PermissionRequested (tc_id c)))
       (case (case pp_hook p of None \<Rightarrow> DecisionDefer | Some f \<Rightarrow> f c) of
          DecisionAllow \<Rightarrow> allow_call c ''hook''
        | DecisionDeny \<Rightarrow> deny_call c
        | DecisionDefer \<Rightarrow> mode_decision p c)"

text \<open>The older \<open>Permission\<close> middleware only asks the checker.\<close>

definition permission_before_tool :: "(tool_call \<Rightarrow> nat option) option \<Rightarrow> tool_call \<Rightarrow> answer" where
  "permission_before_tool checker c = apsnd ((#) (PermissionRequested (tc_id c))) (check_with checker c)"

subsection \<open>The chain before a tool\<close>

datatype middleware = PolicyPermission permission_policy | CheckerPermission "(tool_call \<Rightarrow> nat option) option" | OtherMiddleware "tool_call \<Rightarrow> answer"

fun before_tool :: "middleware \<Rightarrow> tool_call \<Rightarrow> answer" where
  "before_tool (PolicyPermission p) c = policy_before_tool p c"
| "before_tool (CheckerPermission f) c = permission_before_tool f c"
| "before_tool (OtherMiddleware f) c = f c"

text \<open>\<open>stageMiddleware\<close> publishes the buffered events, and joins the errors of the publications to the answer's.\<close>

definition join_error :: "permission_error option \<Rightarrow> permission_error option \<Rightarrow> permission_error option" where
  "join_error a b = (case (a, b) of (None, _) \<Rightarrow> b | (_, None) \<Rightarrow> a | (Some x, Some y) \<Rightarrow> Some (JoinedErrors [x, y]))"

definition stage_middleware :: "(permission_event \<Rightarrow> nat option) \<Rightarrow> answer \<Rightarrow> answer" where
  "stage_middleware publish a =
     (fold (\<lambda>e err. join_error err (map_option PublishFailed (publish e))) (snd a) (fst a), snd a)"

text \<open>The first error ends the chain; the answer has the events published so far.\<close>

fun run_before_tool :: "(permission_event \<Rightarrow> nat option) \<Rightarrow> middleware list \<Rightarrow> tool_call \<Rightarrow> answer" where
  "run_before_tool publish [] c = (None, [])"
| "run_before_tool publish (m # ms) c =
     (case stage_middleware publish (before_tool m c) of
        (Some e, evs) \<Rightarrow> (Some e, evs)
      | (None, evs) \<Rightarrow> apsnd ((@) evs) (run_before_tool publish ms c))"

subsection \<open>What the policy lets through\<close>

lemma join_error_None [simp]: "join_error a b = None \<longleftrightarrow> a = None \<and> b = None"
  by (auto simp: join_error_def split: option.splits)

lemma stage_None:
  "fst (stage_middleware publish a) = None \<longleftrightarrow> fst a = None \<and> (\<forall>e \<in> set (snd a). publish e = None)"
proof -
  have "fold (\<lambda>e err. join_error err (map_option PublishFailed (publish e))) evs err = None \<longleftrightarrow>
      err = None \<and> (\<forall>e \<in> set evs. publish e = None)" for evs err
    by (induction evs arbitrary: err) auto
  then show ?thesis by (simp add: stage_middleware_def)
qed

lemma run_before_tool_None:
  "fst (run_before_tool publish ms c) = None \<longleftrightarrow>
     (\<forall>m \<in> set ms. fst (before_tool m c) = None \<and> (\<forall>e \<in> set (snd (before_tool m c)). publish e = None))"
proof (induction ms)
  case (Cons m ms)
  then show ?case
    using stage_None[of publish "before_tool m c"] by (cases "stage_middleware publish (before_tool m c)") (auto split: option.splits)
qed simp

text \<open>When a policy lets a call through, as a condition on the hook, the mode, and the host's answers.\<close>

definition permitted :: "permission_policy \<Rightarrow> tool_call \<Rightarrow> bool" where
  "permitted p c \<longleftrightarrow>
     (\<exists>f. pp_hook p = Some f \<and> f c = DecisionAllow) \<or>
     (\<forall>f. pp_hook p = Some f \<longrightarrow> f c = DecisionDefer) \<and>
       (pp_mode p \<in> {ModeAllow, ModeDangerFullAccess} \<or>
        pp_mode p = ModeReadOnly \<and> classify p c = ToolRead \<or>
        pp_mode p = ModeWorkspaceWrite \<and> classify p c \<in> {ToolRead, ToolWrite} \<or>
        pp_mode p = ModePrompt \<and> (\<exists>f. pp_prompt p = Some f \<and> f c) \<or>
        pp_mode p = ModeDefault \<and> (\<forall>f. pp_checker p = Some f \<longrightarrow> f c = None))"

text \<open>An answer settles a call with one event that says the same as the answer.\<close>

definition settles :: "tool_call \<Rightarrow> answer \<Rightarrow> bool" where
  "settles c a \<longleftrightarrow>
     (if fst a = None then \<exists>w. snd a = [PermissionApproved (tc_id c) w]
      else \<exists>x. snd a = [PermissionDeniedBy (tc_id c) x])"

lemma settles_allow [simp]: "settles c (allow_call c w)" "fst (allow_call c w) = None"
  by (simp_all add: settles_def allow_call_def)

lemma settles_deny [simp]: "settles c (deny_call c)" "fst (deny_call c) \<noteq> None"
  by (simp_all add: settles_def deny_call_def)

lemma check_with_settles: "settles c (check_with f c)"
  and check_with_None: "fst (check_with f c) = None \<longleftrightarrow> (\<forall>g. f = Some g \<longrightarrow> g c = None)"
proof -
  show "settles c (check_with f c)" by (auto simp: check_with_def settles_def allow_call_def split: option.splits)
  show "fst (check_with f c) = None \<longleftrightarrow> (\<forall>g. f = Some g \<longrightarrow> g c = None)"
    by (auto simp: check_with_def split: option.splits)
qed

definition mode_permits :: "permission_policy \<Rightarrow> tool_call \<Rightarrow> bool" where
  "mode_permits p c \<longleftrightarrow>
     pp_mode p \<in> {ModeAllow, ModeDangerFullAccess} \<or>
     pp_mode p = ModeReadOnly \<and> classify p c = ToolRead \<or>
     pp_mode p = ModeWorkspaceWrite \<and> classify p c \<in> {ToolRead, ToolWrite} \<or>
     pp_mode p = ModePrompt \<and> (\<exists>f. pp_prompt p = Some f \<and> f c) \<or>
     pp_mode p = ModeDefault \<and> (\<forall>f. pp_checker p = Some f \<longrightarrow> f c = None)"

lemma mode_decision_settles: "settles c (mode_decision p c)"
  by (cases "pp_mode p"; cases "pp_prompt p") (simp_all add: mode_decision_def check_with_settles)

lemma mode_decision_None: "fst (mode_decision p c) = None \<longleftrightarrow> mode_permits p c"
  by (cases "pp_mode p"; cases "classify p c"; cases "pp_prompt p") (simp_all add: mode_decision_def mode_permits_def check_with_None)

lemma permitted_alt:
  "permitted p c \<longleftrightarrow>
     (case (case pp_hook p of None \<Rightarrow> DecisionDefer | Some f \<Rightarrow> f c) of
        DecisionAllow \<Rightarrow> True | DecisionDeny \<Rightarrow> False | DecisionDefer \<Rightarrow> mode_permits p c)"
  by (auto simp: permitted_def mode_permits_def split: option.splits permission_decision.splits)

lemma policy_before_tool_None: "fst (policy_before_tool p c) = None \<longleftrightarrow> permitted p c"
  unfolding policy_before_tool_def permitted_alt by (simp add: mode_decision_None split: permission_decision.splits)

lemma policy_before_tool_events:
  "\<exists>e. snd (policy_before_tool p c) = [PermissionRequested (tc_id c), e] \<and>
     (if permitted p c then \<exists>w. e = PermissionApproved (tc_id c) w else \<exists>x. e = PermissionDeniedBy (tc_id c) x)"
proof -
  let ?a = "case (case pp_hook p of None \<Rightarrow> DecisionDefer | Some f \<Rightarrow> f c) of
          DecisionAllow \<Rightarrow> allow_call c ''hook''
        | DecisionDeny \<Rightarrow> deny_call c
        | DecisionDefer \<Rightarrow> mode_decision p c"
  have "settles c ?a" by (simp add: mode_decision_settles split: permission_decision.splits)
  moreover have "fst ?a = None \<longleftrightarrow> permitted p c" using policy_before_tool_None[of p c] by (simp add: policy_before_tool_def)
  ultimately show ?thesis by (auto simp: policy_before_tool_def settles_def split: if_splits)
qed

text \<open>
  C34: The chain before a tool fails closed. A call gets through exactly when every middleware answers
  without error and every event is published; then every policy of the chain permits it (its hook
  overrides, or its mode does: a read tool under read-only, no dangerous tool under workspace-write, an
  approval under prompt, the checker otherwise), and has published a request and an approval. When any
  policy does not permit the call, the chain ends with an error whatever the others answer.
\<close>

theorem tool_chain_fails_closed:
  "(fst (run_before_tool publish ms c) = None \<longleftrightarrow>
      (\<forall>m \<in> set ms. fst (before_tool m c) = None \<and> (\<forall>e \<in> set (snd (before_tool m c)). publish e = None))) \<and>
   (\<forall>p. PolicyPermission p \<in> set ms \<longrightarrow>
      (fst (run_before_tool publish ms c) = None \<longrightarrow> permitted p c \<and>
         (\<exists>w. publish (PermissionRequested (tc_id c)) = None \<and> publish (PermissionApproved (tc_id c) w) = None \<and>
            snd (before_tool (PolicyPermission p) c) = [PermissionRequested (tc_id c), PermissionApproved (tc_id c) w])) \<and>
      (\<not> permitted p c \<longrightarrow> fst (run_before_tool publish ms c) \<noteq> None))"
proof (intro conjI allI impI)
  show "fst (run_before_tool publish ms c) = None \<longleftrightarrow>
      (\<forall>m \<in> set ms. fst (before_tool m c) = None \<and> (\<forall>e \<in> set (snd (before_tool m c)). publish e = None))"
    by (rule run_before_tool_None)
  fix p
  assume p: "PolicyPermission p \<in> set ms"
  show "fst (run_before_tool publish ms c) \<noteq> None" if "\<not> permitted p c"
    using that p run_before_tool_None[of publish ms c] policy_before_tool_None[of p c] by force
  assume none: "fst (run_before_tool publish ms c) = None"
  then have m: "fst (before_tool (PolicyPermission p) c) = None" "\<forall>e \<in> set (snd (before_tool (PolicyPermission p) c)). publish e = None"
    using p run_before_tool_None by blast+
  show "permitted p c" using m(1) by (simp add: policy_before_tool_None)
  then obtain w where "snd (policy_before_tool p c) = [PermissionRequested (tc_id c), PermissionApproved (tc_id c) w]"
    using policy_before_tool_events[of p c] by auto
  then show "\<exists>w. publish (PermissionRequested (tc_id c)) = None \<and> publish (PermissionApproved (tc_id c) w) = None \<and>
            snd (before_tool (PolicyPermission p) c) = [PermissionRequested (tc_id c), PermissionApproved (tc_id c) w]"
    using m(2) by auto
qed

definition sample_policy :: "permission_mode \<Rightarrow> permission_policy" where
  "sample_policy m = \<lparr>pp_mode = m, pp_classify = None, pp_hook = None, pp_prompt = None, pp_checker = None\<rparr>"

theorem tool_chain_fails_closed_witness:
  "fst (run_before_tool (\<lambda>_. None) [CheckerPermission None, PolicyPermission (sample_policy ModeReadOnly)]
      \<lparr>tc_id = ''1'', tc_name = ''list_files'', tc_arguments = ''{}''\<rparr>) = None \<and>
   permitted (sample_policy ModeReadOnly) \<lparr>tc_id = ''1'', tc_name = ''list_files'', tc_arguments = ''{}''\<rparr> \<and>
   fst (run_before_tool (\<lambda>_. None) [CheckerPermission None, PolicyPermission (sample_policy ModeReadOnly)]
      \<lparr>tc_id = ''2'', tc_name = ''Write_File'', tc_arguments = ''{}''\<rparr>) \<noteq> None"
proof -
  let ?ms = "[CheckerPermission None, PolicyPermission (sample_policy ModeReadOnly)]"
  let ?c = "\<lparr>tc_id = ''1'', tc_name = ''list_files'', tc_arguments = ''{}''\<rparr>"
  let ?d = "\<lparr>tc_id = ''2'', tc_name = ''Write_File'', tc_arguments = ''{}''\<rparr>"
  have c: "fst (run_before_tool (\<lambda>_. None) ?ms ?c) = None" by code_simp
  have "classify (sample_policy ModeReadOnly) ?d = ToolWrite" by code_simp
  then have d: "\<not> permitted (sample_policy ModeReadOnly) ?d" by (simp add: permitted_def sample_policy_def)
  have mem: "PolicyPermission (sample_policy ModeReadOnly) \<in> set ?ms" by simp
  show ?thesis
    using tool_chain_fails_closed[of "\<lambda>_. None" ?ms ?c] tool_chain_fails_closed[of "\<lambda>_. None" ?ms ?d] c d mem by blast
qed

subsection \<open>What modelling showed\<close>

text \<open>
  The classifier matches fragments of names, so a name it does not know need not be a write: the tools
  below are read tools, which the read-only mode lets through.
\<close>

lemma unknown_tools_read:
  "classify_by_name ''update_category'' = ToolRead" "classify_by_name ''set_target'' = ToolRead"
  "classify_by_name ''write_spreadsheet'' = ToolRead" "classify_by_name ''create_widget'' = ToolRead"
  by code_simp+

lemma harmless_tools_dangerous: "classify_by_name ''read_terms'' = ToolDangerous" "classify_by_name ''find_permits'' = ToolDangerous"
  by code_simp+

end
