(* ===== verification/RunnerSafety.thy ===== *)
theory RunnerSafety
  imports Runner
begin

section \<open>What a run keeps across crashes\<close>

text \<open>
  The invariant that relates the tools executed so far to the last snapshot, through every step of a run,
  every failure and every end of its process; and what follows for the resumptions.
\<close>

subsection \<open>Steps that neither save nor execute\<close>

definition core :: "'w system \<Rightarrow> invocation list \<times> snapshot option \<times> nat \<times> phase" where
  "core s = (sy_log s, sy_saved s, r_turn (sy_run s), r_phase (sy_run s))"

definition quiet :: "('w, 'a) running \<Rightarrow> bool" where
  "quiet m \<longleftrightarrow> (\<forall>s. core (snd (m s)) = core s)"

named_theorems quiet_intros

lemma wp_quiet: "quiet m \<Longrightarrow> (\<And>a t. core t = core s \<Longrightarrow> Q a t) \<Longrightarrow> (\<And>t. core t = core s \<Longrightarrow> E t) \<Longrightarrow> wp m Q E s"
  unfolding quiet_def wp_def by (auto split: prod.splits outcome.splits) (metis snd_conv)+

lemma quiet_give [quiet_intros]: "quiet (give a)"
  by (simp add: quiet_def give_def)

lemma quiet_throw [quiet_intros]: "quiet (throw e)"
  by (simp add: quiet_def throw_def)

lemma quiet_andthen [quiet_intros]: "quiet m \<Longrightarrow> (\<And>a. quiet (f a)) \<Longrightarrow> quiet (andthen m f)"
  unfolding quiet_def andthen_def by (auto split: prod.splits outcome.splits) (metis snd_conv)+

lemma quiet_seq [quiet_intros]: "quiet m \<Longrightarrow> quiet n \<Longrightarrow> quiet (seq m n)"
  unfolding seq_def by (intro quiet_intros)

lemma quiet_look [quiet_intros]: "(\<And>s. quiet (f s)) \<Longrightarrow> quiet (look f)"
  by (simp add: quiet_def look_def)

lemma quiet_look_run [quiet_intros]: "(\<And>s. quiet (f s)) \<Longrightarrow> quiet (look_run f)"
  unfolding look_run_def by (intro quiet_intros)

lemma quiet_tried [quiet_intros]: "quiet m \<Longrightarrow> quiet (tried m)"
  unfolding quiet_def tried_def by (auto split: prod.splits outcome.splits) (metis snd_conv)+

lemma quiet_ask [quiet_intros]: "quiet (ask f)"
  by (auto simp: quiet_def ask_def core_def split: prod.splits)

lemma quiet_change_run [quiet_intros]:
  "(\<And>r. r_turn (f r) = r_turn r \<and> r_phase (f r) = r_phase r) \<Longrightarrow> quiet (change_run f)"
  by (simp add: quiet_def change_run_def change_def core_def)

lemma quiet_emit [quiet_intros]: "quiet (emit_run h ev)"
  unfolding emit_run_def by (rule quiet_ask)

lemma quiet_report_failure [quiet_intros]: "quiet m \<Longrightarrow> (\<And>e. quiet (r e)) \<Longrightarrow> quiet (report_failure r m)"
  unfolding report_failure_def by (intro quiet_intros) (auto split: sum.splits intro: quiet_intros)

lemma quiet_reporting [quiet_intros]: "quiet m \<Longrightarrow> quiet (reporting h m)"
  unfolding reporting_def by (intro quiet_intros)

lemma quiet_check_run_ctx [quiet_intros]: "quiet (check_run_ctx h)"
  unfolding check_run_ctx_def by (intro quiet_intros) (auto split: option.splits intro: quiet_intros)

lemma quiet_run_hook [quiet_intros]: "quiet (run_hook f)"
  by (auto simp: quiet_def run_hook_def kept_from_def core_def split: prod.splits)

lemma quiet_publish_staged [quiet_intros]: "quiet (publish_staged h evs out)"
  by (induction evs arbitrary: out) (auto intro!: quiet_intros simp: quiet_def[of "\<lambda>s. (_, s)"])

lemma quiet_stage [quiet_intros]:
  fixes f :: "rstate \<Rightarrow> 'w \<Rightarrow> (run_error, 'a) outcome \<times> 'c \<times> run_event list \<times> 'w"
  assumes "\<And>r c. r_turn (u r c) = r_turn r \<and> r_phase (u r c) = r_phase r"
  shows "quiet (stage h u f)"
proof -
  have "core (s\<lparr>sy_run := u (sy_run s) c, sy_world := w\<rparr>) = core s" "core (s\<lparr>sy_world := w\<rparr>) = core s" for s :: "'w system" and c w
    using assms by (simp_all add: core_def)
  then show ?thesis
    by (auto simp: quiet_def stage_def quiet_publish_staged[unfolded quiet_def, rule_format] split: prod.splits outcome.splits)
qed

lemma quiet_run_stages [quiet_intros]: "(\<And>m. quiet (f m)) \<Longrightarrow> quiet (run_stages f ms)"
  by (induction ms) (auto intro: quiet_intros)

lemma take_over_fields [simp]:
  "r_turn (take_attributes r a) = r_turn r" "r_phase (take_attributes r a) = r_phase r"
  "r_turn (take_messages r b) = r_turn r" "r_phase (take_messages r b) = r_phase r"
  "r_turn (take_final r d) = r_turn r" "r_phase (take_final r d) = r_phase r"
  by (simp_all add: take_attributes_def take_messages_def take_final_def)

lemma quiet_chains [quiet_intros]:
  "quiet (run_before_llm h)" "quiet (run_tool_chain h c)" "quiet (run_after_tool h c res)" "quiet (run_finalize h)"
  unfolding run_before_llm_def run_tool_chain_def run_after_tool_def run_finalize_def by (intro quiet_intros; simp)+

lemma quiet_after_llm [quiet_intros]: "quiet (run_after_llm h rp)"
proof -
  have "quiet (after_llm_stages h ms rp)" for ms
    by (induction ms arbitrary: rp) (auto intro!: quiet_intros)
  then show ?thesis by (simp add: run_after_llm_def)
qed

lemma quiet_call_model [quiet_intros]: "quiet (call_model h sel ms)"
  by (auto simp: quiet_def call_model_def taken_from_model_def core_def split: prod.splits)

lemma quiet_build_model_request [quiet_intros]: "quiet (build_model_request h sel)"
  unfolding build_model_request_def by (intro quiet_intros) (auto simp: Let_def split: option.splits intro: quiet_intros)

lemma quiet_initialize [quiet_intros]: "quiet (init_model_attempt h)"
proof -
  have "quiet (run_initializers ms)" for ms :: "'w run_middleware list"
    by (induction ms) (auto split: option.splits intro!: quiet_intros)
  then show ?thesis unfolding init_model_attempt_def
    by (intro quiet_intros) (auto split: option.splits attribute.splits intro!: quiet_intros)
qed

lemma quiet_set_waiting [quiet_intros]: "quiet (set_waiting h c ws)"
  unfolding set_waiting_def by (auto split: option.splits intro!: quiet_intros)

lemma quiet_sync_waiting [quiet_intros]: "quiet (sync_waiting h c n wait)"
  unfolding sync_waiting_def by (intro quiet_intros)

lemma append_output_fields [simp]:
  "r_turn (append_output m r) = r_turn r" "r_phase (append_output m r) = r_phase r" "r_calls (append_output m r) = r_calls r"
  "r_pending_start (append_output m r) = r_pending_start r" "r_waiting (append_output m r) = r_waiting r"
  by (simp_all add: append_output_def)

lemma record_result_fields [simp]:
  "r_turn (record_result call res r) = r_turn r" "r_phase (record_result call res r) = r_phase r"
  by (auto simp: record_result_def replace_reconciled_def Let_def split: option.splits)

lemma discard_fields [simp]:
  "r_turn (discard_partial_draft r) = r_turn r" "r_phase (discard_partial_draft r) = r_phase r"
  "r_turn (select_attributes sel r) = r_turn r" "r_phase (select_attributes sel r) = r_phase r"
  "r_turn (start_step rp r) = r_turn r" "r_phase (start_step rp r) = r_phase r"
  "r_turn (finish_with rp stop r) = r_turn r" "r_phase (finish_with rp stop r) = r_phase r"
  by (simp_all add: discard_partial_draft_def select_attributes_def start_step_def finish_with_def Let_def)

subsection \<open>The invariant\<close>

text \<open>An execution that must not be repeated: of an unsafe tool, by its first activation.\<close>

definition first_unsafe :: "invocation \<Rightarrow> bool" where
  "first_unsafe iv \<longleftrightarrow> \<not> replay_safe (iv_effect iv) \<and> iv_activation iv = ''1''"

definition keys :: "invocation list \<Rightarrow> task list" where
  "keys log = map (\<lambda>iv. (iv_turn iv, iv_position iv)) (filter first_unsafe log)"

definition logged_below :: "nat \<Rightarrow> nat \<Rightarrow> invocation list \<Rightarrow> bool" where
  "logged_below t m log \<longleftrightarrow> distinct (keys log) \<and> (\<forall>(u, p) \<in> set (keys log). u < t \<or> u = t \<and> p < m)"

definition distinct_ids :: "tool_call list \<Rightarrow> bool" where
  "distinct_ids cs \<longleftrightarrow> distinct (map tc_id cs)"

text \<open>The turn a resumption goes on with.\<close>

definition bound_of :: "snapshot \<Rightarrow> nat" where
  "bound_of sn = (if sn_pending sn = [] then snapshot_next_turn sn else sn_step sn + 1)"

definition durable_ok :: "'w system \<Rightarrow> bool" where
  "durable_ok s \<longleftrightarrow> (case sy_saved s of None \<Rightarrow> keys (sy_log s) = []
     | Some sn \<Rightarrow> distinct_ids (map pt_call (sn_pending sn)) \<and> logged_below (bound_of sn) 0 (sy_log s))"

definition at_turn :: "nat \<Rightarrow> 'w system \<Rightarrow> bool" where
  "at_turn t s \<longleftrightarrow> durable_ok s \<and> r_turn (sy_run s) = t \<and> (\<forall>sn. sy_saved s = Some sn \<longrightarrow> bound_of sn \<le> t)"

definition in_step :: "nat \<Rightarrow> nat \<Rightarrow> pending_tool list \<Rightarrow> 'w system \<Rightarrow> bool" where
  "in_step t m ps s \<longleftrightarrow> r_turn (sy_run s) = t \<and> ps \<noteq> [] \<and> distinct_ids (map pt_call ps) \<and> logged_below t m (sy_log s) \<and>
     (\<exists>sn. sy_saved s = Some sn \<and> sn_pending sn = ps \<and> sn_step sn = t)"

lemma core_cong:
  "core t = core s \<Longrightarrow> durable_ok t = durable_ok s" "core t = core s \<Longrightarrow> at_turn n t = at_turn n s"
  "core t = core s \<Longrightarrow> in_step n m ps t = in_step n m ps s"
  "core t = core s \<Longrightarrow> r_phase (sy_run t) = r_phase (sy_run s) \<and> r_turn (sy_run t) = r_turn (sy_run s) \<and> sy_log t = sy_log s \<and> sy_saved t = sy_saved s"
  by (simp_all add: core_def durable_ok_def at_turn_def in_step_def split: option.split)

lemma logged_below_mono: "logged_below t m log \<Longrightarrow> t < u \<or> t = u \<and> m \<le> n \<Longrightarrow> logged_below u n log"
  by (fastforce simp: logged_below_def)

lemma in_step_durable: "in_step t m ps s \<Longrightarrow> durable_ok s"
  by (auto simp: in_step_def durable_ok_def bound_of_def intro: logged_below_mono)

lemma at_turn_durable: "at_turn t s \<Longrightarrow> durable_ok s"
  by (simp add: at_turn_def)

lemma at_turn_logged: "at_turn t s \<Longrightarrow> logged_below t 0 (sy_log s)"
  by (auto simp: at_turn_def durable_ok_def logged_below_def split: option.splits)

lemma in_step_mono: "in_step t m ps s \<Longrightarrow> m \<le> n \<Longrightarrow> in_step t n ps s"
  by (auto simp: in_step_def intro: logged_below_mono)

lemma wp_quiet_at: "quiet m \<Longrightarrow> P s \<Longrightarrow> (\<And>t u. core t = core u \<Longrightarrow> P t = P u) \<Longrightarrow> (\<And>t. P t \<Longrightarrow> E t) \<Longrightarrow> wp m (\<lambda>_. P) E s"
  by (rule wp_quiet) metis+

subsection \<open>Saving\<close>

lemma core_saved: "core (s\<lparr>sy_world := w, sy_saved := v\<rparr>) = (sy_log s, v, r_turn (sy_run s), r_phase (sy_run s))"
  by (simp add: core_def)

lemma wp_save_or_fail:
  assumes "\<And>t. core t = (sy_log s, Some sn, r_turn (sy_run s), r_phase (sy_run s)) \<Longrightarrow> Q () t"
    and "\<And>t. core t = core s \<or> core t = (sy_log s, Some sn, r_turn (sy_run s), r_phase (sy_run s)) \<Longrightarrow> E t"
  shows "wp (save_or_fail h sn) Q E s"
proof -
  let ?F = "\<lambda>t. core t = core s \<or> core t = (sy_log s, Some sn, r_turn (sy_run s), r_phase (sy_run s))"
  have save: "wp (durable_save h sn) (\<lambda>_ t. core t = (sy_log s, Some sn, r_turn (sy_run s), r_phase (sy_run s))) ?F s"
    by (auto simp: wp_def durable_save_def core_def split: prod.splits outcome.splits)
  have fail: "wp (seq (tried (emit_run h (RunFailed (DurableSave e)))) (throw (DurableSave e))) Q E t" if "?F t" for e t
  proof -
    have "E u" if "core u = core t" for u using assms(2)[of u] that \<open>?F t\<close> by simp
    then show ?thesis unfolding wp_seq by - (rule wp_quiet, intro quiet_intros, simp_all add: wp_throw)
  qed
  show ?thesis
    unfolding save_or_fail_def wp_andthen
    by (rule wp_tried, rule wp_mono[OF save]) (auto simp: wp_give assms(1,2) intro: fail)
qed

text \<open>The end of a turn: the next one is new.\<close>

definition at_end :: "nat \<Rightarrow> 'w system \<Rightarrow> bool" where
  "at_end t s \<longleftrightarrow> durable_ok s \<and> r_turn (sy_run s) = t \<and> (\<forall>sn. sy_saved s = Some sn \<longrightarrow> bound_of sn \<le> t + 1)"

lemma at_end_cong: "core t = core s \<Longrightarrow> at_end n t = at_end n s"
  using core_cong(1,4)[of t s] by (simp add: at_end_def)

lemma at_turn_end: "at_turn t s \<Longrightarrow> at_end t s"
  by (auto simp: at_turn_def at_end_def)

lemma in_step_end: "in_step t m ps s \<Longrightarrow> at_end t s"
  using in_step_durable by (auto simp: in_step_def at_end_def bound_of_def)

lemma at_end_durable: "at_end t s \<Longrightarrow> durable_ok s"
  by (simp add: at_end_def)

lemma at_end_logged: "at_end t s \<Longrightarrow> logged_below (t + 1) 0 (sy_log s)"
  by (auto simp: at_end_def durable_ok_def logged_below_def split: option.splits)

lemma coreD:
  "core t = (lg, sv, tn, ph) \<Longrightarrow> sy_log t = lg \<and> sy_saved t = sv \<and> r_turn (sy_run t) = tn \<and> r_phase (sy_run t) = ph"
  by (simp add: core_def)

lemma snapshot_state_fields [simp]:
  "sn_pending (snapshot_state i r) = []" "sn_phase (snapshot_state i r) = r_phase r" "sn_step (snapshot_state i r) = r_turn r"
  "sn_waiting (snapshot_state i r) = r_waiting r" "sn_calls (snapshot_state i r) = r_calls r"
  by (simp_all add: snapshot_state_def)

lemma pending_snapshot_fields [simp]:
  "sn_pending (pending_snapshot c ps r) = ps" "sn_step (pending_snapshot c ps r) = r_turn r"
  by (simp_all add: pending_snapshot_def)

lemma durable_ok_phase [simp]: "durable_ok (s\<lparr>sy_run := (sy_run s)\<lparr>r_phase := ph\<rparr>\<rparr>) = durable_ok s"
  by (simp add: durable_ok_def split: option.split)

lemma wp_save_pending:
  assumes "is_durable c" "durable_ok s" "r_turn (sy_run s) = t" "logged_below t m (sy_log s)" "ps \<noteq> []" "distinct_ids (map pt_call ps)"
  shows "wp (save_pending_progress h c ps) (\<lambda>_. in_step t m ps) durable_ok s"
proof -
  let ?s = "s\<lparr>sy_run := (sy_run s)\<lparr>r_phase := PendingTools\<rparr>\<rparr>"
  have step: "in_step t m ps u \<and> durable_ok u" if "core u = (sy_log ?s, Some (pending_snapshot c ps (sy_run ?s)), r_turn (sy_run ?s), r_phase (sy_run ?s))" for u
    using coreD[OF that] assms in_step_durable[of t m ps u] by (simp add: in_step_def)
  have "wp (save_or_fail h (pending_snapshot c ps (sy_run ?s))) (\<lambda>_. in_step t m ps) durable_ok ?s"
    by (rule wp_save_or_fail) (use step core_cong(1)[of _ ?s] assms(2) in \<open>auto simp del: pending_snapshot_fields\<close>)
  then show ?thesis using assms(1) by (simp add: save_pending_progress_def wp_seq change_run_def wp_change look_run_def wp_look)
qed

lemma wp_save_after:
  assumes "is_durable c" "at_end t s" "r_phase (sy_run s) \<noteq> BeforeModel"
  shows "wp (save_snapshot h c) (\<lambda>_. at_end t) durable_ok s"
proof -
  let ?sn = "snapshot_state (cf_run_id c) (sy_run s)"
  have b: "bound_of ?sn = t + 1" using assms by (simp add: bound_of_def snapshot_next_turn_def at_end_def)
  have saved: "at_end t u" if "core u = (sy_log s, Some ?sn, r_turn (sy_run s), r_phase (sy_run s))" for u
    using coreD[OF that] b assms(2,3) at_end_logged[OF assms(2)] by (simp add: at_end_def durable_ok_def distinct_ids_def)
  have "wp (save_or_fail h ?sn) (\<lambda>_. at_end t) durable_ok s"
    by (rule wp_save_or_fail) (use saved at_end_durable assms(2) core_cong(1)[of _ s] in blast)+
  then show ?thesis using assms(1) by (simp add: save_snapshot_def look_run_def wp_look)
qed

subsection \<open>The tools of a step\<close>

text \<open>A call that may run: at a position none has run at, or one that is no first execution of an unsafe tool.\<close>

definition may_run :: "string list \<Rightarrow> nat \<Rightarrow> nat \<Rightarrow> pending_tool list \<Rightarrow> (task \<times> signal) list \<Rightarrow> string list \<Rightarrow> nat \<Rightarrow> tool_call \<Rightarrow> bool" where
  "may_run targets t m ps prev ids p call \<longleftrightarrow>
     m \<le> p \<or> p < length ps \<and> replay_safe (pt_effect (ps ! p)) \<or> tc_id call \<noteq> [] \<and> tc_id call \<in> set ids \<or> map_of prev (t, p) \<noteq> None"

lemma task_activation_resumed: "\<not> waits_unselected targets prev task \<Longrightarrow> map_of prev task \<noteq> None \<Longrightarrow> tool_activation targets prev task \<noteq> ''1''"
  by (auto simp: waits_unselected_def tool_activation_def selected_activation_def Let_def split: option.splits)

lemma keys_snoc: "keys (log @ [iv]) = keys log @ (if first_unsafe iv then [(iv_turn iv, iv_position iv)] else [])"
  by (simp add: keys_def)

lemma logged_below_snoc:
  assumes "logged_below t m log" "first_unsafe iv \<Longrightarrow> iv_turn iv = t \<and> m \<le> iv_position iv"
  shows "logged_below t (max m (Suc (iv_position iv))) (log @ [iv])"
  using assms by (fastforce simp: logged_below_def keys_snoc)

lemma wp_call_tool:
  assumes "\<And>w x. Q x (s\<lparr>sy_world := w, sy_log := sy_log s @ [iv]\<rparr>)" "\<And>w. E (s\<lparr>sy_world := w, sy_log := sy_log s @ [iv]\<rparr>)"
  shows "wp (call_tool f l iv) Q E s"
  using assms by (auto simp: wp_def call_tool_def split: prod.splits option.splits)

lemma wp_invoke_tool:
  assumes "in_step t m ps s" "\<not> waits_unselected targets prev (t, p)" "\<not> (tc_id call \<noteq> [] \<and> tc_id call \<in> set ids)"
    and "may_run targets t m ps prev ids p call"
  shows "wp (invoke_tool h ps targets prev p call) (\<lambda>_. in_step t (max m (Suc p)) ps) durable_ok s"
proof (cases "h_tool h")
  case None
  then show ?thesis using in_step_mono[OF assms(1), of "max m (Suc p)"] by (simp add: invoke_tool_def wp_give)
next
  case (Some f)
  let ?iv = "\<lparr>iv_turn = r_turn (sy_run s), iv_position = p, iv_activation = tool_activation targets prev (r_turn (sy_run s), p),
    iv_call = call, iv_effect = (if p < length ps then pt_effect (ps ! p) else SideEffectUnsafe)\<rparr>"
  have t: "r_turn (sy_run s) = t" using assms(1) by (simp add: in_step_def)
  have "first_unsafe ?iv \<Longrightarrow> iv_turn ?iv = t \<and> m \<le> iv_position ?iv"
    using assms(3,4) task_activation_resumed[OF assms(2)] by (auto simp: first_unsafe_def may_run_def t split: if_splits)
  then have "logged_below t (max m (Suc (iv_position ?iv))) (sy_log s @ [?iv])"
    using assms(1) by (intro logged_below_snoc) (auto simp: in_step_def)
  then have after: "in_step t (max m (Suc p)) ps (s\<lparr>sy_world := w, sy_log := sy_log s @ [?iv]\<rparr>)" for w
    using assms(1) by (auto simp: in_step_def)
  have "wp (call_tool f (p < length ps) ?iv) (\<lambda>_. in_step t (max m (Suc p)) ps) durable_ok s"
    by (rule wp_call_tool) (rule after, rule in_step_durable[OF after])
  then show ?thesis using Some by (simp add: invoke_tool_def look_run_def wp_look)
qed

lemma wp_seq_keep: "wp m (\<lambda>_. P) E s \<Longrightarrow> (\<And>t. P t \<Longrightarrow> wp n Q E t) \<Longrightarrow> wp (seq m n) Q E s"
  unfolding wp_seq by (erule wp_mono)

lemma wp_andthen_keep: "wp m P E s \<Longrightarrow> (\<And>a t. P a t \<Longrightarrow> wp (f a) Q E t) \<Longrightarrow> wp (andthen m f) Q E s"
  unfolding wp_andthen by (erule wp_mono)

lemma wp_look_run [wp_simps]: "wp (look_run f) Q E s \<longleftrightarrow> wp (f (sy_run s)) Q E s"
  by (simp add: look_run_def wp_look)

lemma wp_change_run [wp_simps]: "wp (change_run f) Q E s \<longleftrightarrow> Q () (s\<lparr>sy_run := f (sy_run s)\<rparr>)"
  by (simp add: change_run_def wp_change)

lemma quiet_step: "quiet q \<Longrightarrow> in_step t m ps s \<Longrightarrow> wp q (\<lambda>_. in_step t m ps) durable_ok s"
  by (erule wp_quiet_at) (assumption, erule core_cong(3), erule in_step_durable)

lemma in_stepD:
  "in_step t m ps s \<Longrightarrow> r_turn (sy_run s) = t" "in_step t m ps s \<Longrightarrow> logged_below t m (sy_log s)"
  "in_step t m ps s \<Longrightarrow> ps \<noteq> []" "in_step t m ps s \<Longrightarrow> distinct_ids (map pt_call ps)"
  by (simp_all add: in_step_def)

lemma save_step:
  assumes "is_durable c" "in_step t m ps s"
  shows "wp (save_pending_progress h c ps) (\<lambda>_. in_step t m ps) durable_ok s"
  using in_stepD[OF assms(2)] in_step_durable[OF assms(2)] by (intro wp_save_pending assms(1)) blast+

lemma quiet_then:
  "quiet q \<Longrightarrow> in_step t m ps s \<Longrightarrow> (\<And>u. in_step t m ps u \<Longrightarrow> wp n Q durable_ok u) \<Longrightarrow> wp (seq q n) Q durable_ok s"
  by (rule wp_seq_keep[OF quiet_step])

lemma save_then:
  "is_durable c \<Longrightarrow> in_step t m ps s \<Longrightarrow> (\<And>u. in_step t m ps u \<Longrightarrow> wp n Q durable_ok u) \<Longrightarrow>
   wp (seq (save_pending_progress h c ps) n) Q durable_ok s"
  by (rule wp_seq_keep[OF save_step])

lemma wp_settle_tool:
  assumes "is_durable c" "in_step t m ps s"
  shows "wp (settle_tool h c ps call res err) (\<lambda>_. in_step t m ps) durable_ok s"
proof -
  have q1: "quiet (case err of Some e \<Rightarrow> emit_run h (ToolCallFailed call res e) | None \<Rightarrow> give ())"
    "quiet (case err of Some e \<Rightarrow> if extension_panicked e \<or> h_unsafe_to_replay h e then throw e else give () | None \<Rightarrow> give ())"
    by (auto split: option.split intro: quiet_intros)
  have q2: "quiet (if tr_stop res then seq (change_run (\<lambda>r. r\<lparr>r_final := True, r_final_text := tr_content res\<rparr>)) (give True) else give False)"
    by (auto intro!: quiet_intros)
  show ?thesis
    unfolding settle_tool_def
    by (rule quiet_then[OF q1(1) assms(2)], rule quiet_then[OF quiet_chains(3)], assumption, rule quiet_then[OF quiet_emit], assumption,
      rule save_then[OF assms(1)], assumption, rule quiet_then[OF q1(2)], assumption, rule quiet_then[OF quiet_check_run_ctx], assumption,
      rule quiet_step[OF q2])
qed

text \<open>What is kept while a call of the step is answered: identifiers are only added to those that are done.\<close>

definition step_answer :: "nat \<Rightarrow> nat \<Rightarrow> pending_tool list \<Rightarrow> string list \<Rightarrow> (string list \<times> 'b) option \<Rightarrow> 'w system \<Rightarrow> bool" where
  "step_answer t m ps ids x s \<longleftrightarrow> in_step t m ps s \<and> (\<forall>ids' wait'. x = Some (ids', wait') \<longrightarrow> set ids \<subseteq> set ids')"

lemma wp_give_answer: "in_step t m ps s \<Longrightarrow> set ids \<subseteq> set ids' \<Longrightarrow> wp (give (Some (ids', wait))) (step_answer t m ps ids) durable_ok s"
  by (simp add: wp_give step_answer_def)

lemma wp_record_tool:
  assumes "is_durable c" "in_step t m ps s"
  shows "wp (record_tool h c ps n p call res err ids wait) (step_answer t m ps ids) durable_ok s"
proof -
  have q: "quiet (change_run (record_result call res))" by (rule quiet_change_run) simp
  show ?thesis
    unfolding record_tool_def Let_def wp_look_run
    by (rule quiet_then[OF quiet_sync_waiting assms(2)], rule quiet_then[OF q], assumption, rule wp_andthen_keep[OF wp_settle_tool[OF assms(1)]],
      assumption) (auto simp: wp_give step_answer_def)
qed

lemma wp_take_answer:
  assumes "is_durable c" "in_step t m ps s"
  shows "wp (take_answer h c ps n p call ids wait a) (step_answer t m ps ids) durable_ok s"
proof -
  have wait: "wp (seq (sync_waiting h c n wait') (seq (save_pending_progress h c ps) (give (Some (ids, wait')))))
      (step_answer t m ps ids) durable_ok s" for wait'
    by (rule quiet_then[OF quiet_sync_waiting assms(2)], rule save_then[OF assms(1)], assumption, rule wp_give_answer) simp_all
  show ?thesis
    using wait wp_record_tool[OF assms] in_step_durable[OF assms(2)]
    by (auto simp: take_answer_def Let_def wp_throw wp_look_run split: prod.split option.split)
qed

lemma wp_tool_step:
  fixes h :: "'w host"
  assumes "is_durable c" "in_step t m ps s" "may_run targets t m ps prev ids p call"
  shows "wp (tool_step h c targets ps prev n (p, call) ids wait) (step_answer t (max m (Suc p)) ps ids) durable_ok s"
  unfolding tool_step_def prod.case
proof (rule quiet_then[OF quiet_check_run_ctx assms(2)])
  let ?m = "max m (Suc p)"
  fix u :: "'w system"
  assume u: "in_step t m ps u"
  then have t: "r_turn (sy_run u) = t" by (simp add: in_step_def)
  have skip: "wp (give (Some (ids, wait)) :: ('w, _) running) (step_answer t ?m ps ids) durable_ok u"
    using in_step_mono[OF u, of ?m] by (intro wp_give_answer) simp_all
  have run: "wp (seq (run_tool_chain h call) (seq (check_run_ctx h) (seq (emit_run h (ToolCallStarted call))
      (andthen (invoke_tool h ps targets prev p call) (take_answer h c ps n p call ids wait))))) (step_answer t ?m ps ids) durable_ok u"
    if r: "\<not> (tc_id call \<noteq> [] \<and> tc_id call \<in> set ids)" "\<not> waits_unselected targets prev (t, p)"
    by (rule quiet_then[OF quiet_chains(2) u], rule quiet_then[OF quiet_check_run_ctx], assumption, rule quiet_then[OF quiet_emit], assumption,
      rule wp_andthen_keep[OF wp_invoke_tool[OF _ r(2,1) assms(3)]], assumption, rule wp_take_answer[OF assms(1)])
  show "wp (look_run (\<lambda>r. if tc_id call \<noteq> [] \<and> tc_id call \<in> set ids then give (Some (ids, wait))
       else if waits_unselected targets prev (r_turn r, p) then give (Some (ids, wait))
       else seq (run_tool_chain h call) (seq (check_run_ctx h) (seq (emit_run h (ToolCallStarted call))
           (andthen (invoke_tool h ps targets prev p call) (take_answer h c ps n p call ids wait)))))) (step_answer t ?m ps ids) durable_ok u"
    using skip run by (simp add: wp_look_run t)
qed

text \<open>The calls of a step in order, or all of them calls that may run again.\<close>

lemma wp_tool_loop_fresh:
  assumes "is_durable c" "in_step t m ps s"
  shows "wp (tool_loop h c targets ps prev n (enumerate m calls) ids wait) (\<lambda>_. in_step t (m + length calls) ps) durable_ok s"
  using assms(2)
proof (induction calls arbitrary: m s ids wait)
  case Nil
  then show ?case by (simp add: wp_give)
next
  case (Cons call calls)
  have "wp (tool_step h c targets ps prev n (m, call) ids wait) (step_answer t (Suc m) ps ids) durable_ok s"
    using wp_tool_step[OF assms(1) Cons.prems, of targets prev ids m call h n wait] by (simp add: may_run_def)
  then show ?case
    unfolding enumerate_simps tool_loop.simps
    by (rule wp_andthen_keep)
      (use Cons.IH[of "Suc m"] in_step_mono[of t "Suc m" ps _ "Suc (m + length calls)"] in \<open>auto simp: step_answer_def wp_give split: option.splits\<close>)
qed

lemma wp_tool_loop_again:
  fixes h :: "'w host" and wait :: "task \<Rightarrow> signal option"
  assumes "is_durable c" "in_step t m ps s" "\<forall>(p, call) \<in> set pcs. p < m \<and> may_run targets t (Suc p) ps prev ids p call"
  shows "wp (tool_loop h c targets ps prev n pcs ids wait) (\<lambda>_. in_step t m ps) durable_ok s"
  using assms(2,3)
proof (induction pcs arbitrary: s ids wait)
  case Nil
  then show ?case by (simp add: wp_give)
next
  case (Cons pc pcs)
  obtain p call where pc: "pc = (p, call)" by (cases pc)
  have p: "p < m" "may_run targets t m ps prev ids p call" using Cons.prems(2) by (auto simp: pc may_run_def)
  then have "wp (tool_step h c targets ps prev n pc ids wait) (step_answer t m ps ids) durable_ok s"
    using wp_tool_step[OF assms(1) Cons.prems(1) p(2)] by (simp add: pc max_absorb1)
  then show ?case
    unfolding tool_loop.simps
  proof (rule wp_andthen_keep)
    fix x :: "(string list \<times> (task \<Rightarrow> signal option)) option" and u :: "'w system"
    assume x: "step_answer t m ps ids x u"
    show "wp (case x of None \<Rightarrow> give None | Some (ids', wait') \<Rightarrow> tool_loop h c targets ps prev n pcs ids' wait') (\<lambda>_. in_step t m ps) durable_ok u"
    proof (cases x)
      case (Some y)
      obtain ids' wait' where y: "y = (ids', wait')" by (cases y)
      have "\<forall>(p, call) \<in> set pcs. p < m \<and> may_run targets t (Suc p) ps prev ids' p call"
        using Cons.prems(2) x by (fastforce simp: step_answer_def Some y may_run_def)
      then show ?thesis using Cons.IH[of u ids' wait'] x by (simp add: Some y step_answer_def)
    qed (use x in \<open>simp add: step_answer_def wp_give\<close>)
  qed
qed

lemma wp_step_end:
  assumes "is_durable c" "wp (tool_loop h c targets ps prev n pcs ids wait) (\<lambda>_. in_step t m ps) durable_ok s"
  shows "wp (andthen (tool_loop h c targets ps prev n pcs ids wait) (\<lambda>x.
            case x of
              None \<Rightarrow> give ()
            | Some wait' \<Rightarrow>
                if waiting_list u n wait' = [] then give ()
                else seq (save_pending_progress h c ps) (look_run (\<lambda>r'. throw (Interrupted (concat (map snd (r_waiting r'))))))))
    (\<lambda>_. in_step t m ps) durable_ok s"
proof (rule wp_andthen_keep[OF assms(2)])
  fix x and v :: "'a system"
  assume v: "in_step t m ps v"
  have "wp (seq (save_pending_progress h c ps) (look_run (\<lambda>r'. throw (Interrupted (concat (map snd (r_waiting r')))))) :: ('a, unit) running) (\<lambda>_. in_step t m ps) durable_ok v"
    by (rule save_then[OF assms(1) v]) (simp add: wp_look_run wp_throw in_step_durable)
  then show "wp (case x of None \<Rightarrow> give () | Some wait' \<Rightarrow> if waiting_list u n wait' = [] then give ()
      else seq (save_pending_progress h c ps) (look_run (\<lambda>r'. throw (Interrupted (concat (map snd (r_waiting r')))))))
    (\<lambda>_. in_step t m ps) durable_ok v"
    using v by (simp add: wp_give split: option.split)
qed

lemma wp_execute_fresh:
  assumes "is_durable c" "in_step t 0 ps s"
  shows "wp (execute_tool_calls h c targets calls ps False) (\<lambda>_. in_step t (length calls) ps) durable_ok s"
  unfolding execute_tool_calls_def Let_def wp_look_run
  by (rule quiet_then[OF quiet_sync_waiting assms(2)], rule wp_step_end[OF assms(1)], drule wp_tool_loop_fresh[OF assms(1)]) simp

lemma enumerate_mem: "(p, x) \<in> set (enumerate k xs) \<Longrightarrow> k \<le> p \<and> p < k + length xs \<and> xs ! (p - k) = x"
  by (auto simp: in_set_enumerate_eq)

lemma unsafe_done_may_run:
  assumes "\<not> unsafe_not_done ps ids" "p < length ps"
  shows "replay_safe (pt_effect (ps ! p)) \<or> tc_id (pt_call (ps ! p)) \<in> set ids"
  using assms nth_mem by (fastforce simp: unsafe_not_done_def list_ex_iff)

lemma wp_execute_again:
  assumes "is_durable c" "in_step t m ps s" "length ps \<le> m" "r_waiting (sy_run s) = sn_waiting sn" "sn_pending sn = ps" "sn_step sn = t"
    and "\<not> unsafe_not_done ps (completed_ids (r_pending_start (sy_run s)) (r_calls (sy_run s)) @ waiting_call_ids sn)"
  shows "wp (execute_tool_calls h c targets (map pt_call ps) ps True) (\<lambda>_. in_step t m ps) durable_ok s"
proof -
  let ?ids = "completed_ids (r_pending_start (sy_run s)) (r_calls (sy_run s))"
  have may: "\<forall>(p, call) \<in> set (enumerate 0 (map pt_call ps)). p < m \<and> may_run targets t (Suc p) ps (sn_waiting sn) ?ids p call"
  proof (clarify, rule conjI)
    fix p call
    assume pc: "(p, call) \<in> set (enumerate 0 (map pt_call ps))"
    then have p: "p < length ps" "call = pt_call (ps ! p)" using enumerate_mem[OF pc] by auto
    show "p < m" using p assms(3) by simp
    have "tc_id call \<in> set (waiting_call_ids sn) \<Longrightarrow> map_of (sn_waiting sn) (t, p) \<noteq> None"
    proof -
      assume "tc_id call \<in> set (waiting_call_ids sn)"
      then obtain q pt where q: "(q, pt) \<in> set (enumerate 0 ps)" "map_of (sn_waiting sn) (t, q) \<noteq> None" "tc_id (pt_call pt) = tc_id call"
        using assms(5,6) by (auto simp: waiting_call_ids_def)
      then have "q < length ps" "pt = ps ! q" using enumerate_mem[OF q(1)] by auto
      then have "q = p" using q(3) p in_stepD(4)[OF assms(2)] nth_eq_iff_index_eq[of "map tc_id (map pt_call ps)" q p]
        by (simp add: distinct_ids_def)
      then show ?thesis using q(2) by simp
    qed
    moreover have "tc_id call \<noteq> []" if "tc_id call \<in> set ?ids" using that by (auto simp: completed_ids_def)
    ultimately show "may_run targets t (Suc p) ps (sn_waiting sn) ?ids p call"
      using unsafe_done_may_run[OF assms(7) p(1)] p by (auto simp: may_run_def)
  qed
  show ?thesis
    unfolding execute_tool_calls_def Let_def wp_look_run assms(4)
    by (rule quiet_then[OF quiet_sync_waiting assms(2)], rule wp_step_end[OF assms(1)], drule wp_tool_loop_again[OF assms(1)])
      (use may in auto)
qed

subsection \<open>The model\<close>

text \<open>The identifiers of the calls of one answer differ; this is what the host has to see to.\<close>

definition honest :: "'w host \<Rightarrow> bool" where
  "honest h \<longleftrightarrow>
     (\<forall>r sel ms w rp. fst (h_model h r sel ms w) = Done (Some rp) \<longrightarrow> distinct_ids (rp_calls rp)) \<and>
     (\<forall>m \<in> set (h_middleware h). \<forall>r rp w rp'. distinct_ids (rp_calls rp) \<and> fst (mw_after_llm m r rp w) = Done rp' \<longrightarrow> distinct_ids (rp_calls rp'))"

definition before_model :: "nat \<Rightarrow> 'w system \<Rightarrow> bool" where
  "before_model t s \<longleftrightarrow> at_turn t s \<and> r_phase (sy_run s) = BeforeModel"

lemma before_model_cong: "core t = core s \<Longrightarrow> before_model n t = before_model n s"
  using core_cong(2,4)[of t s] by (simp add: before_model_def)

lemma before_model_durable: "before_model t s \<Longrightarrow> durable_ok s"
  by (simp add: before_model_def at_turn_def)

lemma quiet_before: "quiet q \<Longrightarrow> before_model t s \<Longrightarrow> wp q (\<lambda>_. before_model t) durable_ok s"
  by (erule wp_quiet_at) (assumption, erule before_model_cong, erule before_model_durable)

lemma before_then:
  "quiet q \<Longrightarrow> before_model t s \<Longrightarrow> (\<And>u. before_model t u \<Longrightarrow> wp n Q durable_ok u) \<Longrightarrow> wp (seq q n) Q durable_ok s"
  by (rule wp_seq_keep[OF quiet_before])

lemma before_andthen:
  "quiet q \<Longrightarrow> before_model t s \<Longrightarrow> (\<And>a u. before_model t u \<Longrightarrow> wp (f a) Q durable_ok u) \<Longrightarrow> wp (andthen q f) Q durable_ok s"
  by (rule wp_andthen_keep[OF quiet_before])

text \<open>An attempt keeps the turn, failed or not.\<close>

lemma wp_save_before:
  assumes "is_durable c" "before_model t s"
  shows "wp (save_snapshot h c) (\<lambda>_. before_model t) (before_model t) s"
proof -
  let ?sn = "snapshot_state (cf_run_id c) (sy_run s)"
  have b: "bound_of ?sn = t" using assms by (simp add: bound_of_def snapshot_next_turn_def before_model_def at_turn_def)
  have saved: "before_model t u" if "core u = (sy_log s, Some ?sn, r_turn (sy_run s), r_phase (sy_run s))" for u
    using coreD[OF that] b assms(2) at_turn_logged[of t s]
    by (simp add: before_model_def at_turn_def durable_ok_def distinct_ids_def)
  have "wp (save_or_fail h ?sn) (\<lambda>_. before_model t) (before_model t) s"
    by (rule wp_save_or_fail) (use saved assms(2) before_model_cong[of _ s] in blast)+
  then show ?thesis using assms(1) by (simp add: save_snapshot_def wp_look_run)
qed

lemma wp_persist_budget_origin:
  assumes "is_durable c" "before_model t s"
  shows "wp (persist_budget_origin h c) (\<lambda>_. before_model t) (before_model t) s"
proof -
  have load: "wp (seq (ask (h_load h)) n) (\<lambda>_. before_model t) (before_model t) s"
    if "\<And>u. before_model t u \<Longrightarrow> wp n (\<lambda>_. before_model t) (before_model t) u" for n
    unfolding wp_seq by (rule wp_quiet[OF quiet_ask]) (use that assms(2) before_model_cong in blast)+
  show ?thesis
    using assms wp_save_before[OF assms(1)]
    by (auto simp: persist_budget_origin_def wp_look wp_give split: option.split attribute.split intro!: load)
qed

lemma wp_invoke_provider:
  fixes h :: "'w host"
  assumes "honest h" "is_durable c" "before_model t s"
  shows "wp (invoke_provider h c sel ms) (\<lambda>x u. before_model t u \<and> (\<forall>rp. x = Some rp \<longrightarrow> distinct_ids (rp_calls rp))) (before_model t) s"
proof -
  have call: "wp (call_model h sel ms) (\<lambda>x u. before_model t u \<and> (\<forall>rp. x = Some rp \<longrightarrow> distinct_ids (rp_calls rp))) (before_model t) u"
    if "before_model t u" for u
  proof -
    have "core (snd (call_model h sel ms u)) = core u" using quiet_call_model[of h sel ms] by (simp add: quiet_def)
    then have "before_model t (snd (call_model h sel ms u))" using before_model_cong that by blast
    moreover have "distinct_ids (rp_calls rp)" if "fst (call_model h sel ms u) = Done (Some rp)" for rp
      using that assms(1) by (auto simp: call_model_def honest_def split: prod.splits) (metis fst_conv)
    ultimately show ?thesis by (auto simp: wp_def split: prod.split outcome.split)
  qed
  have origin: "wp (seq (init_model_attempt h) (persist_budget_origin h c)) (\<lambda>_. before_model t) (before_model t) s"
    unfolding wp_seq by (rule wp_quiet[OF quiet_initialize]) (use assms(3) before_model_cong wp_persist_budget_origin[OF assms(2)] in blast)+
  show ?thesis
    unfolding invoke_provider_def wp_andthen
    by (rule wp_tried, rule wp_mono[OF origin]) (simp_all add: call wp_throw)
qed

text \<open>An answer of the model, if there is one, has calls with identifiers that differ.\<close>

definition modelled :: "nat \<Rightarrow> run_error + response option \<Rightarrow> 'w system \<Rightarrow> bool" where
  "modelled t x s \<longleftrightarrow> before_model t s \<and> (\<forall>rp. x = Inr (Some rp) \<longrightarrow> distinct_ids (rp_calls rp))"

lemma wp_tried_invoke:
  assumes "honest h" "is_durable c" "before_model t s"
  shows "wp (tried (invoke_provider h c sel ms)) (modelled t) durable_ok s"
  by (rule wp_tried, rule wp_mono[OF wp_invoke_provider[OF assms]]) (auto simp: modelled_def before_model_durable)

lemma wp_fall_back:
  assumes "honest h" "is_durable c" "before_model t s"
  shows "wp (fall_back h c sel e) (\<lambda>(_, x). modelled t x) durable_ok s"
proof -
  have again: "wp (andthen (tried (andthen (build_model_request h new) (invoke_provider h c new))) (\<lambda>z. give (new, z)))
      (\<lambda>(_, x). modelled t x) durable_ok u" if u: "before_model t u" for new u
  proof -
    have "wp (andthen (build_model_request h new) (invoke_provider h c new))
        (\<lambda>x v. before_model t v \<and> (\<forall>rp. x = Some rp \<longrightarrow> distinct_ids (rp_calls rp))) (before_model t) u"
      unfolding wp_andthen
      by (rule wp_quiet[OF quiet_build_model_request]) (use u before_model_cong wp_invoke_provider[OF assms(1,2)] in blast)+
    then have "wp (tried (andthen (build_model_request h new) (invoke_provider h c new))) (modelled t) durable_ok u"
      by (intro wp_tried) (erule wp_mono, auto simp: modelled_def before_model_durable)
    then show ?thesis unfolding wp_andthen by (rule wp_mono) (simp_all add: wp_give)
  qed
  have replace: "wp (look_run (\<lambda>r. seq (change_run discard_partial_draft)
            (andthen (tried (emit_run h (ProviderFallback sel new e (r_partial r)))) (\<lambda>y. case y of
               Inl f \<Rightarrow> throw (JoinedRun e f)
             | Inr _ \<Rightarrow> seq (change_run (select_attributes new))
                 (andthen (tried (andthen (build_model_request h new) (invoke_provider h c new))) (\<lambda>z. give (new, z)))))))
      (\<lambda>(_, x). modelled t x) durable_ok u" if "before_model t u" for new u
    unfolding wp_look_run
    by (rule before_then[OF quiet_change_run that], simp, rule before_andthen, intro quiet_intros, assumption)
      (auto simp: wp_throw before_model_durable split: sum.split intro!: before_then quiet_change_run again)
  show ?thesis
    unfolding fall_back_def
    by (rule before_andthen[OF _ assms(3)], intro quiet_intros)
      (auto simp: wp_give modelled_def split: sum.split option.split intro!: replace)
qed

lemma wp_model_turn:
  assumes "honest h" "is_durable c" "before_model t s"
  shows "wp (model_turn h c sel) (\<lambda>(_, rp) u. before_model t u \<and> distinct_ids (rp_calls rp)) durable_ok s"
proof -
  let ?settle = "\<lambda>(sel', y). case y of Inl e \<Rightarrow> seq (tried (emit_run h (RunFailed (LlmComplete e)))) (throw (LlmComplete e))
         | Inr None \<Rightarrow> throw NoResponse | Inr (Some rp) \<Rightarrow> give (sel', rp)"
  have settle: "wp (?settle y) (\<lambda>(_, rp) u. before_model t u \<and> distinct_ids (rp_calls rp)) durable_ok u"
    if "modelled t (snd y) u" for u y
  proof -
    have u: "before_model t u" using that by (simp add: modelled_def)
    show ?thesis
      using that before_then[OF quiet_tried[OF quiet_emit] u, of "throw (LlmComplete e)" for e]
      by (auto simp: modelled_def wp_throw wp_give before_model_durable split: prod.split sum.split option.split)
  qed
  have choose: "wp (case x of Inl e \<Rightarrow> if b e then fall_back h c sel e else give (sel, Inl e) | Inr rp \<Rightarrow> give (sel, Inr rp))
      (\<lambda>(_, y). modelled t y) durable_ok u" if "modelled t x u" for x b u
    using that wp_fall_back[OF assms(1,2), of t u]
    by (auto simp: wp_give modelled_def split: sum.split)
  show ?thesis
    unfolding model_turn_def
  proof (rule before_andthen[OF quiet_build_model_request assms(3)], rule before_then[OF quiet_emit], assumption,
      rule wp_andthen_keep[OF wp_tried_invoke[OF assms(1,2)]], assumption, unfold wp_look)
    fix ms x and u :: "'a system"
    assume x: "modelled t x u"
    show "wp (andthen (case x of Inl e \<Rightarrow> if h_ctx_err h (sy_world u) = None \<and> \<not> attempt_hook_failed e \<and> \<not> h_unsafe_to_replay h e
          then fall_back h c sel e else give (sel, Inl e) | Inr rp \<Rightarrow> give (sel, Inr rp)) ?settle)
      (\<lambda>(_, rp) u. before_model t u \<and> distinct_ids (rp_calls rp)) durable_ok u"
      by (rule wp_andthen_keep[OF choose[OF x]]) (rule settle, auto split: prod.splits)
  qed
qed

lemma publish_staged_Done: "fst (publish_staged h evs out s) = Done a \<Longrightarrow> out = Done a"
proof (induction evs arbitrary: out s)
  case (Cons ev evs)
  obtain y t where m: "tried (emit_run h ev) s = (y, t)" by (cases "tried (emit_run h ev) s")
  show ?case
  proof (cases y)
    case (Done x)
    then have "(case x of Inr _ \<Rightarrow> out | Inl e \<Rightarrow> (case out of Failed a \<Rightarrow> Failed (JoinedRun a e) | Crashed \<Rightarrow> Crashed | Done _ \<Rightarrow> Failed e)) = Done a"
      using Cons.IH[of _ t] Cons.prems by (simp add: andthen_def m)
    then show ?thesis by (cases x; cases out) simp_all
  qed (use Cons.prems in \<open>simp_all add: andthen_def m\<close>)
qed simp

lemma stage_Done: "fst (stage h u f s) = Done a \<Longrightarrow> fst (f (sy_run s) (sy_world s)) = Done a"
  using publish_staged_Done by (fastforce simp: stage_def split: prod.splits outcome.splits)

lemma wp_run_after_llm:
  fixes h :: "'w host"
  assumes "honest h" "before_model t s" "distinct_ids (rp_calls rp)"
  shows "wp (run_after_llm h rp) (\<lambda>rp' u. before_model t u \<and> distinct_ids (rp_calls rp')) (before_model t) s"
proof -
  have "wp (after_llm_stages h ms rp) (\<lambda>rp' u. before_model t u \<and> distinct_ids (rp_calls rp')) (before_model t) s"
    if "set ms \<subseteq> set (h_middleware h)" for ms
    using that assms(2,3)
  proof (induction ms arbitrary: s rp)
    case Nil
    then show ?case by (simp add: wp_give)
  next
    case (Cons m ms)
    let ?st = "stage h take_messages (\<lambda>s. mw_after_llm m s rp)"
    have "core (snd (?st s)) = core s" using quiet_stage[of take_messages h "\<lambda>s. mw_after_llm m s rp"] by (simp add: quiet_def)
    then have b: "before_model t (snd (?st s))" using before_model_cong Cons.prems by blast
    have "distinct_ids (rp_calls rp')" if "fst (?st s) = Done rp'" for rp'
      using stage_Done[OF that] assms(1) Cons.prems by (auto simp: honest_def)
    then have "wp ?st (\<lambda>rp' u. before_model t u \<and> distinct_ids (rp_calls rp')) (before_model t) s"
      using b by (auto simp: wp_def split: prod.split outcome.split)
    then show ?case
      unfolding after_llm_stages.simps
      by (rule wp_andthen_keep) (use Cons in \<open>auto simp: adopt_response_def intro!: Cons.IH\<close>)
  qed
  then show ?thesis by (simp add: run_after_llm_def)
qed

subsection \<open>Turns and runs\<close>

lemma quiet_durable: "quiet q \<Longrightarrow> durable_ok s \<Longrightarrow> wp q (\<lambda>_. durable_ok) durable_ok s"
  by (erule wp_quiet_at) (assumption, erule core_cong(1))

lemma wp_reporting: "wp m Q durable_ok s \<Longrightarrow> wp (reporting h m) Q durable_ok s"
  unfolding reporting_def by (erule wp_report_failure) (erule quiet_durable[OF quiet_emit])

lemma quiet_end: "quiet q \<Longrightarrow> at_end t s \<Longrightarrow> wp q (\<lambda>_. at_end t) durable_ok s"
  by (erule wp_quiet_at) (assumption, erule at_end_cong, erule at_end_durable)

lemma end_then:
  "quiet q \<Longrightarrow> at_end t s \<Longrightarrow> (\<And>u. at_end t u \<Longrightarrow> wp n Q durable_ok u) \<Longrightarrow> wp (seq q n) Q durable_ok s"
  by (rule wp_seq_keep[OF quiet_end])

lemma at_end_phase [simp]: "at_end t (s\<lparr>sy_run := (sy_run s)\<lparr>r_phase := ph\<rparr>\<rparr>) = at_end t s"
  by (simp add: at_end_def)

lemma wp_close_step:
  assumes "is_durable c" "at_end t s"
  shows "wp (close_step h c) (\<lambda>_. at_end t) durable_ok s"
  using wp_save_after[OF assms(1), of t "s\<lparr>sy_run := (sy_run s)\<lparr>r_phase := AfterTurn\<rparr>\<rparr>"] assms(2)
  by (simp add: close_step_def wp_look_run wp_give wp_seq wp_change_run)

lemma classify_pending_calls: "classify_pending h cs = Inr ps \<Longrightarrow> map pt_call ps = cs"
  by (induction cs arbitrary: ps) (auto split: sum.splits option.splits)

lemma wp_after_tools:
  assumes "is_durable c" "at_end t s"
  shows "wp (after_tools h c) (\<lambda>_. at_end t) durable_ok s"
  unfolding after_tools_def
  by (rule end_then[OF quiet_ask assms(2)], rule end_then, intro quiet_intros, assumption, rule wp_seq_keep[OF wp_close_step[OF assms(1)]],
    assumption, rule quiet_end) (intro quiet_intros)

lemma wp_dispatch_tools:
  assumes "is_durable c" "before_model t s" "distinct_ids (map pt_call ps)" "ps \<noteq> []"
  shows "wp (dispatch_tools h c targets calls ps) (\<lambda>_. at_end t) durable_ok s"
proof -
  have q: "quiet (change_run (\<lambda>r. r\<lparr>r_pending_start := length (r_calls r)\<rparr>))"
    by (rule quiet_change_run) simp
  have save: "wp (save_pending_progress h c ps) (\<lambda>_. in_step t 0 ps) durable_ok u" if "before_model t u" for u
    using that at_turn_logged[of t u] by (intro wp_save_pending assms) (auto simp: before_model_def at_turn_def)
  show ?thesis
    unfolding dispatch_tools_def
    by (rule before_then[OF q assms(2)], rule wp_seq_keep[OF save], assumption,
      rule wp_seq_keep[OF wp_reporting[OF wp_execute_fresh[OF assms(1)]]], assumption, rule wp_after_tools[OF assms(1)], erule in_step_end)
qed

lemma wp_tool_turn:
  assumes "is_durable c" "before_model t s" "distinct_ids (rp_calls rp)" "rp_calls rp \<noteq> []"
  shows "wp (tool_turn h c targets rp) (\<lambda>_. at_end t) durable_ok s"
proof -
  have q: "quiet (change_run (start_step rp))" by (rule quiet_change_run) simp
  have dispatch: "wp (dispatch_tools h c targets (rp_calls rp) ps) (\<lambda>_. at_end t) durable_ok u"
    if "before_model t u" "classify_pending h (rp_calls rp) = Inr ps" for u ps
    using classify_pending_calls[OF that(2)] assms by (intro wp_dispatch_tools that(1)) auto
  show ?thesis
    unfolding tool_turn_def
    by (rule before_then[OF q assms(2)], rule before_then[OF quiet_ask], assumption)
      (auto simp: wp_throw before_model_durable dispatch split: sum.split)
qed

lemma model_response_stop_calls: "model_response_stop rp = None \<Longrightarrow> rp_calls rp \<noteq> []"
  by (auto simp: model_response_stop_def Let_def split: if_splits)

lemma quiet_answer_finally [quiet_intros]: "quiet (answer_finally h rp stop)"
  unfolding answer_finally_def by (intro quiet_intros) simp

lemma before_model_end: "before_model t s \<Longrightarrow> at_end t s"
  by (simp add: before_model_def at_turn_end)

lemma wp_settle_response:
  assumes "is_durable c" "before_model t s" "distinct_ids (rp_calls rp)"
  shows "wp (settle_response h c targets sel rp) (\<lambda>_. at_end t) durable_ok s"
proof -
  have "wp (seq (answer_finally h rp stop) (give None)) (\<lambda>_. at_end t) durable_ok s" for stop
    by (rule quiet_end[OF _ before_model_end[OF assms(2)]]) (intro quiet_intros)
  moreover have "wp (andthen (tool_turn h c targets rp) (\<lambda>go. give (if go then Some sel else None))) (\<lambda>_. at_end t) durable_ok s"
    if "model_response_stop rp = None"
    by (rule wp_andthen_keep[OF wp_tool_turn[OF assms model_response_stop_calls[OF that]]]) (simp add: wp_give)
  ultimately show ?thesis
    using before_model_durable[OF assms(2)] by (auto simp: settle_response_def wp_throw split: option.split sum.split)
qed

lemma wp_answer_turn:
  assumes "honest h" "is_durable c" "before_model t s"
  shows "wp (answer_turn h c targets sel) (\<lambda>_. at_end t) durable_ok s"
  unfolding answer_turn_def
proof (rule before_then[OF quiet_reporting[OF quiet_chains(1)] assms(3)],
    rule wp_seq_keep[OF wp_mono[OF wp_persist_budget_origin[OF assms(2)]]], assumption, assumption, erule before_model_durable,
    rule wp_andthen_keep[OF wp_model_turn[OF assms(1,2)]], assumption, clarify)
  fix sel' rp0 and v :: "'a system"
  assume v: "before_model t v" "distinct_ids (rp_calls (rp0 :: response))"
  have after: "wp (reporting h (run_after_llm h rp0)) (\<lambda>rp w. before_model t w \<and> distinct_ids (rp_calls rp)) durable_ok v"
    by (rule wp_reporting, rule wp_mono[OF wp_run_after_llm[OF assms(1) v]]) (simp_all add: before_model_durable)
  show "wp (andthen (reporting h (run_after_llm h rp0)) (\<lambda>rp. seq (emit_run h (LLMCompleted rp)) (settle_response h c targets sel' rp)))
      (\<lambda>_. at_end t) durable_ok v"
    by (rule wp_andthen_keep[OF after], erule conjE, rule before_then[OF quiet_emit], assumption, rule wp_settle_response[OF assms(2)])
qed

lemma wp_run_turn:
  assumes "honest h" "is_durable c" "at_turn t s"
  shows "wp (run_turn h c targets sel) (\<lambda>_. at_end t) durable_ok s"
proof -
  have b: "before_model t (s\<lparr>sy_run := (sy_run s)\<lparr>r_phase := BeforeModel\<rparr>\<rparr>)"
    using assms(3) by (simp add: before_model_def at_turn_def)
  show ?thesis
    unfolding run_turn_def wp_seq[of "change_run _"] wp_change_run
    by (rule before_then[OF _ b], intro quiet_intros, rule before_then, intro quiet_intros, assumption, unfold wp_look_run wp_if)
      (auto simp: wp_give before_model_end intro: wp_answer_turn[OF assms(1,2)])
qed

lemma wp_run_turns:
  assumes "honest h" "is_durable c" "at_turn t s"
  shows "wp (run_turns h c targets k sel) (\<lambda>_ u. \<exists>t. at_end t u) durable_ok s"
  using assms(3)
proof (induction k arbitrary: t s sel)
  case 0
  then show ?case using at_turn_end by (auto simp: wp_give)
next
  case (Suc k)
  have again: "wp (seq (change_run (\<lambda>r. r\<lparr>r_turn := Suc (r_turn r)\<rparr>)) (run_turns h c targets k sel')) (\<lambda>_ u. \<exists>t. at_end t u) durable_ok u"
    if "at_end t u" for u sel'
  proof -
    have "at_turn (Suc t) (u\<lparr>sy_run := (sy_run u)\<lparr>r_turn := Suc (r_turn (sy_run u))\<rparr>\<rparr>)"
      using that by (simp add: at_turn_def at_end_def durable_ok_def split: option.splits)
    then show ?thesis using Suc.IH by (simp add: wp_seq wp_change_run)
  qed
  have turn: "wp (andthen (run_turn h c targets sel) (\<lambda>x. case x of None \<Rightarrow> give ()
      | Some sel' \<Rightarrow> seq (change_run (\<lambda>r. r\<lparr>r_turn := Suc (r_turn r)\<rparr>)) (run_turns h c targets k sel'))) (\<lambda>_ u. \<exists>t. at_end t u) durable_ok s"
    by (rule wp_andthen_keep[OF wp_run_turn[OF assms(1,2) Suc.prems]]) (use again in \<open>auto simp: wp_give split: option.split\<close>)
  show ?case using turn at_turn_end[OF Suc.prems] by (auto simp: wp_look_run wp_give)
qed

subsection \<open>A run, and a resumption\<close>

definition same_record :: "'w system \<Rightarrow> 'w system \<Rightarrow> bool" where
  "same_record s u \<longleftrightarrow> sy_log u = sy_log s \<and> sy_saved u = sy_saved s"

lemma same_record_durable: "same_record s u \<Longrightarrow> durable_ok s \<Longrightarrow> durable_ok u"
  by (simp add: same_record_def durable_ok_def split: option.splits)

lemma wp_ask: "(\<And>a w. Q a (s\<lparr>sy_world := w\<rparr>)) \<Longrightarrow> (\<And>w. E (s\<lparr>sy_world := w\<rparr>)) \<Longrightarrow> wp (ask f) Q E s"
  by (simp add: wp_def ask_def split: prod.split outcome.split)

lemma wp_emit: "(\<And>w. Q () (s\<lparr>sy_world := w\<rparr>)) \<Longrightarrow> (\<And>w. E (s\<lparr>sy_world := w\<rparr>)) \<Longrightarrow> wp (emit_run h ev) Q E s"
  unfolding emit_run_def by (rule wp_ask) simp_all

lemma wp_check_run_ctx: "Q () s \<Longrightarrow> E s \<Longrightarrow> wp (check_run_ctx h) Q E s"
  by (simp add: check_run_ctx_def wp_look wp_give wp_throw split: option.split)

text \<open>Before its turns a run records nothing; a seed is installed but for its attributes.\<close>

definition started :: "rstate option \<Rightarrow> 'w system \<Rightarrow> 'w system \<Rightarrow> bool" where
  "started seed s u \<longleftrightarrow> same_record s u \<and> (\<forall>r. seed = Some r \<longrightarrow> (\<exists>a. sy_run u = r\<lparr>r_attributes := a\<rparr>))"

lemma wp_start_run: "wp (start_run h c seed) (\<lambda>_. started seed s) (same_record s) s"
proof -
  have rest: "wp (andthen (ask (h_select h)) (\<lambda>x. case x of
          None \<Rightarrow> throw NoProvider
        | Some sel \<Rightarrow> seq (change_run (select_attributes sel)) (seq (emit_run h RunStarted) (seq (emit_run h (ProviderSelected sel)) (give sel)))))
      (\<lambda>_. started seed s) (same_record s) u"
    if u: "same_record s u" "\<forall>r. seed = Some r \<longrightarrow> sy_run u = r" for u
  proof -
    have "started seed s (u\<lparr>sy_run := select_attributes sel (sy_run u), sy_world := w\<rparr>)" for sel w
      unfolding started_def using u by (auto simp: same_record_def select_attributes_def intro!: exI[where P = "\<lambda>a. _\<lparr>r_attributes := _\<rparr> = _\<lparr>r_attributes := a\<rparr>", OF refl])
    then show ?thesis
      unfolding wp_andthen
      by (intro wp_ask) (use u in \<open>auto simp: wp_simps same_record_def split: option.split intro!: wp_emit\<close>)
  qed
  have "wp (seq (install_state h c seed) (andthen (ask (h_select h)) (\<lambda>x. case x of
          None \<Rightarrow> throw NoProvider
        | Some sel \<Rightarrow> seq (change_run (select_attributes sel)) (seq (emit_run h RunStarted) (seq (emit_run h (ProviderSelected sel)) (give sel))))))
      (\<lambda>_. started seed s) (same_record s) s"
  proof (cases seed)
    case None
    have q: "wp (andthen (ask (h_system_prefix h)) (\<lambda>prefix. change_run (\<lambda>_. fresh_state c prefix))) (\<lambda>_. same_record s) (same_record s) u"
      if "same_record s u" for u
      unfolding wp_andthen wp_change_run by (rule wp_ask) (use that in \<open>auto simp: same_record_def\<close>)
    show ?thesis
      unfolding install_state_def None option.case
      by (rule wp_seq_keep[of _ "same_record s"], unfold wp_seq wp_change_run, rule q, simp add: same_record_def, rule rest[unfolded None])
        simp_all
  next
    case (Some r)
    show ?thesis
      unfolding install_state_def Some option.case wp_seq[of "change_run _"] wp_change_run
      by (rule rest[unfolded Some]) (simp_all add: same_record_def)
  qed
  then show ?thesis
    unfolding start_run_def wp_seq[of "check_run_ctx h"]
    by (intro wp_check_run_ctx) (simp_all add: wp_throw same_record_def)
qed

lemma logged_below_some: "logged_below (t + 1) 0 log \<Longrightarrow> \<exists>m \<ge> n. logged_below t m log"
proof -
  assume l: "logged_below (t + 1) 0 log"
  have "p < Suc (Max (insert n (snd ` set (keys log))))" if "(u, p) \<in> set (keys log)" for u p
    using that by (intro le_imp_less_Suc Max_ge) (auto intro: image_eqI[where x = "(u, p)"])
  then have "logged_below t (Suc (Max (insert n (snd ` set (keys log))))) log"
    using l by (fastforce simp: logged_below_def less_Suc_eq)
  moreover have "n \<le> Suc (Max (insert n (snd ` set (keys log))))" by (rule le_SucI) (simp add: Max_ge)
  ultimately show ?thesis by blast
qed

lemma wp_finish_run:
  assumes "is_durable c" "at_end t s"
  shows "wp (end_run h c) (\<lambda>_. durable_ok) durable_ok s"
proof -
  have save: "wp (seq (change_run (\<lambda>r. r\<lparr>r_phase := FinalPhase\<rparr>)) (seq (save_snapshot h c)
         (look_run (\<lambda>r. seq (emit_run h (RunFinished (state_result r))) (give (state_result r)))))) (\<lambda>_. durable_ok) durable_ok u"
    if "at_end t u" for u
    unfolding wp_seq[of "change_run _"] wp_change_run
    by (rule wp_seq_keep[OF wp_save_after[OF assms(1)]])
      (use that in \<open>auto intro!: quiet_durable quiet_intros at_end_durable\<close>)
  have "quiet (if r_final (sy_run s) then seq (reporting h (run_hook (h_finalize h))) (reporting h (run_finalize h))
      else change_run (\<lambda>r. r\<lparr>r_stop := ''max_turns''\<rparr>))"
    by (auto intro!: quiet_intros)
  then show ?thesis
    unfolding end_run_def wp_look_run by (rule end_then[OF _ assms(2)]) (rule save)
qed

lemma wp_turns:
  assumes "honest h" "is_durable c" "durable_ok s" "\<forall>sn. sy_saved s = Some sn \<longrightarrow> bound_of sn \<le> start"
  shows "wp (seq (change_run (\<lambda>r. r\<lparr>r_turn := start\<rparr>)) (seq (run_turns h c targets k sel) (end_run h c))) (\<lambda>_. durable_ok) durable_ok s"
proof -
  have "at_turn start (s\<lparr>sy_run := (sy_run s)\<lparr>r_turn := start\<rparr>\<rparr>)"
    using assms(3,4) by (simp add: at_turn_def durable_ok_def split: option.splits)
  then show ?thesis
    unfolding wp_seq[of "change_run _"] wp_change_run
    by (intro wp_seq_keep[OF wp_run_turns[OF assms(1,2)]]) (auto intro: wp_finish_run[OF assms(2)])
qed

lemma wp_execute_from:
  assumes "honest h" "is_durable c" "durable_ok s" "\<forall>sn. sy_saved s = Some sn \<longrightarrow> bound_of sn \<le> start"
  shows "wp (execute_run h c targets seed start []) (\<lambda>_. durable_ok) durable_ok s"
  unfolding execute_run_def
proof (rule wp_andthen_keep[OF wp_mono[OF wp_start_run]])
  fix sel u
  assume "started seed s u"
  then have "durable_ok u" "\<forall>sn. sy_saved u = Some sn \<longrightarrow> bound_of sn \<le> start"
    using assms(3,4) same_record_durable by (auto simp: started_def same_record_def)
  then show "wp (seq (complete_step h c targets []) (seq (change_run (\<lambda>r. r\<lparr>r_turn := start\<rparr>))
         (seq (run_turns h c targets (nat (max_turns c - int start)) sel) (end_run h c)))) (\<lambda>_. durable_ok) durable_ok u"
    using wp_turns[OF assms(1,2)] by (simp add: complete_step_def wp_seq[of "give ()"] wp_give)
qed (use assms(3) same_record_durable in auto)

lemma wp_complete_step:
  assumes "is_durable c" "sy_saved s = Some sn" "durable_ok s" "sn_pending sn \<noteq> []"
    and "sy_run s = (restore_state sn)\<lparr>r_attributes := a\<rparr>"
    and "\<not> unsafe_not_done (sn_pending sn) (pending_completed_tool_ids sn @ waiting_call_ids sn)"
  shows "wp (complete_step h c targets (sn_pending sn)) (\<lambda>_. at_end (sn_step sn)) durable_ok s"
proof -
  let ?t = "sn_step sn"
  have "logged_below (?t + 1) 0 (sy_log s)" using assms(2,3,4) by (simp add: durable_ok_def bound_of_def)
  then obtain m where m: "length (sn_pending sn) \<le> m" "logged_below ?t m (sy_log s)" using logged_below_some by blast
  then have step: "in_step ?t m (sn_pending sn) s"
    using assms(2-5) by (simp add: in_step_def durable_ok_def restore_state_def)
  have tools: "wp (execute_tool_calls h c targets (map pt_call (sn_pending sn)) (sn_pending sn) True) (\<lambda>_. in_step ?t m (sn_pending sn)) durable_ok s"
    by (rule wp_execute_again[OF assms(1) step m(1)])
      (use assms(4-6) in \<open>simp_all add: restore_state_def pending_completed_tool_ids_def\<close>)
  have close: "wp (seq (reporting h (run_hook (h_after_llm h))) (close_step h c)) (\<lambda>_. at_end ?t) durable_ok u" if "at_end ?t u" for u
    by (rule end_then[OF _ that], intro quiet_intros, rule wp_close_step[OF assms(1)])
  show ?thesis
    unfolding complete_step_def if_not_P[OF assms(4)]
    by (rule wp_seq_keep[OF wp_reporting[OF tools]], rule close, erule in_step_end)
qed

lemma wp_execute_pending:
  assumes "honest h" "is_durable c" "sy_saved s = Some sn" "durable_ok s" "sn_pending sn \<noteq> []"
    and "\<not> unsafe_not_done (sn_pending sn) (pending_completed_tool_ids sn @ waiting_call_ids sn)"
  shows "wp (execute_run h c targets (Some (restore_state sn)) (sn_step sn + 1) (sn_pending sn)) (\<lambda>_. durable_ok) durable_ok s"
  unfolding execute_run_def
proof (rule wp_andthen_keep[OF wp_mono[OF wp_start_run]])
  fix sel u
  assume u: "started (Some (restore_state sn)) s u"
  then obtain a where a: "sy_run u = (restore_state sn)\<lparr>r_attributes := a\<rparr>" by (auto simp: started_def)
  have s: "sy_saved u = Some sn" "durable_ok u"
    using u assms(3) same_record_durable[OF _ assms(4), of u] by (auto simp: started_def same_record_def)
  show "wp (seq (complete_step h c targets (sn_pending sn)) (seq (change_run (\<lambda>r. r\<lparr>r_turn := sn_step sn + 1\<rparr>))
         (seq (run_turns h c targets (nat (max_turns c - int (sn_step sn + 1))) sel) (end_run h c)))) (\<lambda>_. durable_ok) durable_ok u"
    by (rule wp_seq_keep[OF wp_complete_step[OF assms(2) s assms(5) a assms(6)]], rule wp_turns[OF assms(1,2)]) (auto simp: at_end_def)
qed (use assms(4) same_record_durable in auto)

lemma resume_durable:
  assumes "honest h" "cf_durable c" "run \<noteq> []" "durable_ok s"
  shows "durable_ok (snd (resume_run h c run targets s))"
proof -
  let ?c = "c\<lparr>cf_run_id := run\<rparr>"
  have c: "is_durable ?c" using assms(2,3) by (simp add: is_durable_def)
  have pending: "wp (resume_pending h ?c ts sn) (\<lambda>_. durable_ok) durable_ok u"
    if u: "durable_ok u" "sy_saved u = Some sn" "sn_pending sn \<noteq> []" for ts sn u
    using wp_execute_pending[OF assms(1) c u(2,1,3)] wp_execute_from[OF assms(1) c u(1), of "sn_step sn + 1"] u
    by (auto simp: resume_pending_def wp_throw bound_of_def split: option.split)
  have "wp (resume_run h c run targets) (\<lambda>_. durable_ok) durable_ok s"
  proof -
    have "wp (look (\<lambda>s. case sy_saved s of
          None \<Rightarrow> throw NoSnapshot
        | Some sn \<Rightarrow>
            if sn_run sn \<noteq> run then throw IdentityDiffers
            else if sn_waiting sn \<noteq> [] \<and> targets = [] then throw (Interrupted (concat (map snd (sn_waiting sn))))
            else if sn_waiting sn \<noteq> [] \<and> \<not> set targets \<subseteq> set (concat (map snd (sn_waiting sn))) then
              throw (TargetNotWaiting (hd (filter (\<lambda>i. i \<notin> set (concat (map snd (sn_waiting sn)))) targets)))
            else if sn_final sn \<or> sn_stop sn \<noteq> [] then give (snapshot_result sn)
            else if sn_pending sn \<noteq> [] then resume_pending h ?c (if sn_waiting sn = [] then [] else targets) sn
            else execute_run h ?c (if sn_waiting sn = [] then [] else targets) (Some (restore_state sn)) (snapshot_next_turn sn) []))
      (\<lambda>_. durable_ok) durable_ok u" if u: "durable_ok u" for u
    proof (cases "sy_saved u")
      case (Some sn)
      show ?thesis
      proof (cases "sn_pending sn = []")
        case True
        then have "\<forall>sn'. sy_saved u = Some sn' \<longrightarrow> bound_of sn' \<le> snapshot_next_turn sn" using Some by (simp add: bound_of_def)
        then show ?thesis using Some u True wp_execute_from[OF assms(1) c u] by (simp add: wp_look wp_throw wp_give)
      qed (use Some u pending in \<open>simp add: wp_look wp_throw wp_give\<close>)
    qed (use u in \<open>simp add: wp_look wp_throw\<close>)
    then show ?thesis
      unfolding resume_run_def
      by (auto simp: assms(2,4) wp_throw intro!: wp_seq_keep[OF quiet_durable[OF quiet_ask assms(4)]])
  qed
  then show ?thesis by (simp add: wp_def split: prod.splits outcome.splits)
qed

end
