(* ===== verification/RunnerResume.thy ===== *)
theory RunnerResume
  imports RunnerSafety
begin

section \<open>Runs and their resumptions\<close>

text \<open>
  A run lives on across processes: one starts it, and whenever a process has ended, wherever it was, another
  may resume it from the last snapshot. What holds of the tools that all of them execute together, and of
  the results they answer.
\<close>

definition at_start :: "runner_config \<Rightarrow> 'w \<Rightarrow> 'w system" where
  "at_start c w = \<lparr>sy_run = fresh_state c [], sy_world = w, sy_saved = None, sy_log = []\<rparr>"

inductive lives :: "'w host \<Rightarrow> runner_config \<Rightarrow> 'w system \<Rightarrow> bool" for h c where
  lives_first: "lives h c (snd (run_fresh h c (at_start c w)))"
| lives_again: "lives h c s \<Longrightarrow> lives h c (snd (resume_run h c (cf_run_id c) targets (s\<lparr>sy_world := w\<rparr>)))"

lemma lives_durable:
  assumes "lives h c s" "honest h" "is_durable c"
  shows "durable_ok s"
  using assms(1)
proof (induction rule: lives.induct)
  case (lives_first w)
  have "durable_ok (at_start c w)" by (simp add: at_start_def durable_ok_def keys_def)
  then have "wp (run_fresh h c) (\<lambda>_. durable_ok) durable_ok (at_start c w)"
    unfolding run_fresh_def by (intro wp_execute_from assms(2,3)) (simp_all add: at_start_def)
  then show ?case by (simp add: wp_def split: prod.splits outcome.splits)
next
  case (lives_again s targets w)
  have "durable_ok (s\<lparr>sy_world := w\<rparr>)" using lives_again.IH by (simp add: durable_ok_def split: option.splits)
  then show ?case using assms(2,3) by (intro resume_durable) (simp_all add: is_durable_def)
qed

lemma durable_ok_distinct: "durable_ok s \<Longrightarrow> distinct (keys (sy_log s))"
  by (auto simp: durable_ok_def logged_below_def split: option.splits)

lemma distinct_map_filter_le_1: "distinct (map f xs) \<Longrightarrow> length (filter (\<lambda>x. f x = k) xs) \<le> 1"
proof (induction xs)
  case (Cons x xs)
  have "filter (\<lambda>y. f y = k) xs = []" if "f x = k" using Cons.prems that unfolding filter_empty_conv by (metis distinct.simps(2) imageI list.simps(9) list.set_map)
  then show ?case using Cons by auto
qed simp

text \<open>
  A tool that may not be repeated is started once, or refused. The host below starts a run whose model calls
  one unsafe tool, and whose process ends in that tool; every later process refuses to go on.
\<close>

definition sample_call :: "string \<Rightarrow> tool_call" where
  "sample_call i = \<lparr>tc_id = i, tc_name = ''pay'', tc_arguments = ''{}''\<rparr>"

text \<open>
  The answers of the model are a function of how many tools have a result; the tools answer, fail or end the
  process as \<open>tools\<close> says of the number of calls so far, which is the world.
\<close>

definition sample_host :: "(nat \<Rightarrow> response) \<Rightarrow> (nat \<Rightarrow> (tool_result \<times> run_error option \<times> int) option) \<Rightarrow> nat host" where
  "sample_host answers tools =
     \<lparr>h_ctx_err = (\<lambda>_. None), h_emit = (\<lambda>ev w. (Done (), w)), h_system_prefix = (\<lambda>w. (Done [], w)),
      h_select = (\<lambda>w. (Done (Some \<lparr>sel_name = ''p'', sel_model = ''m''\<rparr>), w)), h_fallback = (\<lambda>sel e w. (Failed NoFallback, w)),
      h_request = (\<lambda>ms sel. None), h_model = (\<lambda>r sel ms w. (Done (Some (answers (length (r_calls r)))), r, w)),
      h_before_turn = (\<lambda>r w. (Done (), r, w)), h_after_llm = (\<lambda>r w. (Done (), r, w)),
      h_should_continue = (\<lambda>r w. (Done (\<not> r_final r), w)), h_finalize = (\<lambda>r w. (Done (), r, w)), h_middleware = [],
      h_tool = Some (\<lambda>iv w. (tools w, Suc w)), h_side_effect = None, h_boundary = (\<lambda>_ w. (Done (), w)),
      h_unsafe_to_replay = needs_tool_reconciliation, h_error_text = (\<lambda>_. ''failed''), h_encode = (\<lambda>_. None),
      h_save = (\<lambda>sn w. (True, Done (), w)), h_load = (\<lambda>w. (Done (), w))\<rparr>"

definition sample_config :: runner_config where
  "sample_config = \<lparr>cf_run_id = ''run'', cf_messages = [plain_message RoleUser ''pay''], cf_max_turns = 3, cf_default_turns = 0, cf_durable = True,
     cf_has_selector = True\<rparr>"

definition calls_tools :: "tool_call list \<Rightarrow> nat \<Rightarrow> response" where
  "calls_tools cs n =
     (if n < length cs then \<lparr>rp_content = [], rp_calls = cs, rp_finish = ''tool_calls'', rp_continuation = None\<rparr>
      else \<lparr>rp_content = ''done'', rp_calls = [], rp_finish = ''stop'', rp_continuation = None\<rparr>)"

definition good_result :: tool_result where
  "good_result = \<lparr>tr_content = ''ok'', tr_parts = [], tr_needs_reconciliation = False, tr_error = [], tr_stop = False, tr_status = ''success'', tr_duration = 1\<rparr>"

lemma sample_host_honest: "distinct_ids cs \<Longrightarrow> honest (sample_host (calls_tools cs) tools)"
  by (auto simp: honest_def sample_host_def calls_tools_def distinct_ids_def)

text \<open>
  The equations by which a concrete run is computed: a step at a time, and nothing that has not been reached
  (the congruences).
\<close>

lemma eval_congs:
  "s = s' \<Longrightarrow> andthen m f s = andthen m f s'" "s = s' \<Longrightarrow> seq m n s = seq m n s'" "s = s' \<Longrightarrow> look g s = look g s'"
  "s = s' \<Longrightarrow> look_run k s = look_run k s'" "s = s' \<Longrightarrow> tried m s = tried m s'" "s = s' \<Longrightarrow> reporting h m s = reporting h m s'"
  "s = s' \<Longrightarrow> report_failure r m s = report_failure r m s'" "s = s' \<Longrightarrow> change_run p s = change_run p s'" "s = s' \<Longrightarrow> ask q s = ask q s'"
  by simp_all

lemma eval_basic:
  "seq m n s = (case m s of (Done a, t) \<Rightarrow> n t | (Failed e, t) \<Rightarrow> (Failed e, t) | (Crashed, t) \<Rightarrow> (Crashed, t))"
  "look_run k s = k (sy_run s) s"
  "change_run p s = (Done (), s\<lparr>sy_run := p (sy_run s)\<rparr>)"
  "reporting h m s = andthen (tried m) (\<lambda>x. case x of Inr a \<Rightarrow> give a | Inl e \<Rightarrow> seq (tried (emit_run h (RunFailed e))) (throw e)) s"
  by (simp_all add: seq_def andthen_def look_run_def look_def change_run_def change_def reporting_def report_failure_def)

lemmas eval_defs = eval_basic andthen_def look_def tried_def give_def throw_def ask_def emit_run_def check_run_ctx_def run_hook_def stage_def
  publish_staged.simps run_stages.simps run_before_llm_def run_after_llm_def after_llm_stages.simps run_tool_chain_def run_after_tool_def run_finalize_def
  durable_save_def save_or_fail_def save_snapshot_def save_pending_progress_def persist_budget_origin_def set_waiting_def sync_waiting_def
  call_tool_def invoke_tool_def settle_tool_def record_tool_def take_answer_def tool_step_def tool_loop.simps execute_tool_calls_def
  call_model_def build_model_request_def init_model_attempt_def run_initializers.simps invoke_provider_def fall_back_def model_turn_def close_step_def after_tools_def dispatch_tools_def tool_turn_def
  answer_finally_def settle_response_def answer_turn_def run_turn_def install_state_def complete_step_def end_run_def start_run_def execute_run_def
  run_fresh_def resume_pending_def resume_run_def

lemma run_turns_step:
  "run_turns h c targets k sel s =
     (if k = 0 then give () s
      else look_run (\<lambda>r. if r_final r then give ()
       else andthen (run_turn h c targets sel) (\<lambda>x. case x of
          None \<Rightarrow> give ()
        | Some sel' \<Rightarrow> seq (change_run (\<lambda>r. r\<lparr>r_turn := Suc (r_turn r)\<rparr>)) (run_turns h c targets (k - 1) sel'))) s)"
proof (cases k)
  case (Suc n)
  show ?thesis unfolding Suc diff_Suc_1 run_turns.simps by simp
qed simp

lemma sample_fields:
  "h_ctx_err (sample_host f g) w = None" "h_emit (sample_host f g) ev w = (Done (), w)" "h_system_prefix (sample_host f g) w = (Done [], w)"
  "h_select (sample_host f g) w = (Done (Some \<lparr>sel_name = ''p'', sel_model = ''m''\<rparr>), w)" "h_request (sample_host f g) ms sel = None"
  "h_model (sample_host f g) r sel ms w = (Done (Some (f (length (r_calls r)))), r, w)"
  "h_before_turn (sample_host f g) r w = (Done (), r, w)" "h_after_llm (sample_host f g) r w = (Done (), r, w)"
  "h_should_continue (sample_host f g) r w = (Done (\<not> r_final r), w)" "h_finalize (sample_host f g) r w = (Done (), r, w)"
  "h_middleware (sample_host f g) = []" "h_tool (sample_host f g) = Some (\<lambda>iv w. (g w, Suc w))"
  "h_side_effect (sample_host f g) = None" "h_boundary (sample_host f g) b w = (Done (), w)"
  "h_unsafe_to_replay (sample_host f g) = needs_tool_reconciliation" "h_error_text (sample_host f g) e = ''failed''"
  "h_encode (sample_host f g) ws = None" "h_save (sample_host f g) sn w = (True, Done (), w)" "h_load (sample_host f g) w = (Done (), w)"
  by (simp_all add: sample_host_def)

lemma sample_config_fields:
  "cf_run_id sample_config = ''run''" "cf_messages sample_config = [plain_message RoleUser ''pay'']" "cf_durable sample_config" "cf_has_selector sample_config"
  "max_turns sample_config = 3" "is_durable sample_config" "sample_config\<lparr>cf_run_id := ''run''\<rparr> = sample_config"
  by (simp_all add: sample_config_def max_turns_def is_durable_def)

lemma sample_stops:
  "model_response_stop \<lparr>rp_content = x, rp_calls = c # cs, rp_finish = ''tool_calls'', rp_continuation = None\<rparr> = None"
  "model_response_stop \<lparr>rp_content = x, rp_calls = [], rp_finish = ''stop'', rp_continuation = None\<rparr> = Some (Inr ''end_turn'')"
proof -
  have "to_lower (trim_space ''tool_calls'') = ''tool_calls''" "to_lower (trim_space ''stop'') = ''stop''" by code_simp+
  then show "model_response_stop \<lparr>rp_content = x, rp_calls = c # cs, rp_finish = ''tool_calls'', rp_continuation = None\<rparr> = None"
    "model_response_stop \<lparr>rp_content = x, rp_calls = [], rp_finish = ''stop'', rp_continuation = None\<rparr> = Some (Inr ''end_turn'')"
    by (simp_all add: model_response_stop_def model_stop_reason_def)
qed

lemma fresh_no_prefix: "fresh_state c [] =
    \<lparr>r_messages = cf_messages c, r_revision = 0, r_calls = [], r_usage = \<lparr>us_prompt = 0, us_completion = 0, us_total = 0, us_cache_creation = 0, us_cache_read = 0\<rparr>,
       r_turn = 0, r_final = False, r_final_text = [], r_reasoning = [], r_attributes = Map.empty, r_run_start = length (cf_messages c), r_output = Some [],
       r_partial = [], r_stop = [], r_finish = [], r_phase = NoPhase, r_waiting = [], r_has_draft = False, r_draft_message = 0,
       r_draft_output = 0, r_pending_start = 0\<rparr>"
  by (simp add: fresh_state_def trim_space_def Let_def)

lemmas eval_data = snapshot_state_def pending_snapshot_def kept_from_def take_attributes_def take_messages_def take_final_def
  append_output_def calls_tools_def sample_call_def good_result_def sample_stops fresh_no_prefix
  plain_message_def at_start_def select_attributes_def sample_fields sample_config_fields run_turns_step adopt_response_def
  taken_from_model_def start_step_def assistant_message_def finish_with_def waiting_list_def map_filter_simps waits_unselected_def tool_activation_def
  attempt_hook_failed_def discard_partial_draft_def completed_ids_def unsafe_not_done_def pending_completed_tool_ids_def pending_tool_record_start_def
  waiting_call_ids_def replay_safe_def restore_state_def record_result_def replace_reconciled_def append_tool_media_def with_duration_def
  tool_message_def snapshot_next_turn_def

text \<open>
  C3: However often the process of a run ends, in whatever place, and the run is resumed, an unsafe tool
  call is started at most once, unless it waited and its resumption was asked for. (The provider must give
  the calls of an answer different identifiers, and the store keep what it says it saved.)
\<close>

theorem unsafe_tools_run_once:
  assumes "honest h" "is_durable c" "lives h c s"
  shows "length (filter (\<lambda>iv. iv_effect iv = SideEffectUnsafe \<and> iv_activation iv = ''1'' \<and> iv_turn iv = t \<and> iv_position iv = p) (sy_log s)) \<le> 1"
proof -
  have "filter (\<lambda>iv. iv_effect iv = SideEffectUnsafe \<and> iv_activation iv = ''1'' \<and> iv_turn iv = t \<and> iv_position iv = p) (sy_log s) =
      filter (\<lambda>iv. (iv_turn iv, iv_position iv) = (t, p)) (filter first_unsafe (sy_log s))"
    by (auto simp: first_unsafe_def replay_safe_def intro!: filter_cong) (metis side_effect.exhaust)+
  moreover have "length (filter (\<lambda>iv. (iv_turn iv, iv_position iv) = (t, p)) (filter first_unsafe (sy_log s))) \<le> 1"
    using durable_ok_distinct[OF lives_durable[OF assms(3,1,2)]] by (intro distinct_map_filter_le_1) (simp add: keys_def)
  ultimately show ?thesis by simp
qed

theorem unsafe_tools_run_once_witness:
  "\<exists>s. lives (sample_host (calls_tools [sample_call ''a'']) (\<lambda>_. None)) sample_config s \<and>
     fst (resume_run (sample_host (calls_tools [sample_call ''a'']) (\<lambda>_. None)) sample_config ''run'' [] s) = Failed UnsafeReplay \<and>
     length (sy_log s) = 1 \<and>
     length (filter (\<lambda>iv. iv_effect iv = SideEffectUnsafe \<and> iv_activation iv = ''1'' \<and> iv_turn iv = 0 \<and> iv_position iv = 0) (sy_log s)) \<le> 1"
proof -
  let ?h = "sample_host (calls_tools [sample_call ''a'']) (\<lambda>_. None)"
  let ?s = "snd (run_fresh ?h sample_config (at_start sample_config 0))"
  have h: "honest ?h" by (rule sample_host_honest) (simp add: distinct_ids_def)
  have c: "is_durable sample_config" by code_simp
  have l: "lives ?h sample_config ?s" by (rule lives_first)
  have "fst (resume_run ?h sample_config ''run'' [] ?s) = Failed UnsafeReplay"
    by (simp add: eval_defs eval_data Let_def upt_rec cong: eval_congs)
  moreover have "length (sy_log ?s) = 1" by (simp add: eval_defs eval_data Let_def upt_rec cong: eval_congs)
  ultimately show ?thesis using unsafe_tools_run_once[OF h c l, of 0 0] l by blast
qed

subsection \<open>What a resumed run answers\<close>

lemma wp_True: "wp m (\<lambda>_ _. True) (\<lambda>_. True) s"
  by (simp add: wp_def split: prod.split outcome.split)

lemma wp_reporting_any: "wp m Q (\<lambda>_. True) s \<Longrightarrow> wp (reporting h m) Q (\<lambda>_. True) s"
  unfolding reporting_def by (erule wp_report_failure) (rule wp_True)

text \<open>A strategy's \<open>Finalize\<close> does not take back that the run is over.\<close>

definition final_stays :: "'w host \<Rightarrow> bool" where
  "final_stays h \<longleftrightarrow> (\<forall>r w. r_final r \<longrightarrow> r_final (fst (snd (h_finalize h r w))))"

definition saved_as_answered :: "runner_config \<Rightarrow> run_result \<Rightarrow> 'w system \<Rightarrow> bool" where
  "saved_as_answered c a s \<longleftrightarrow> (r_final (sy_run s) \<or> r_stop (sy_run s) \<noteq> []) \<and>
     sy_saved s = Some (snapshot_state (cf_run_id c) (sy_run s)) \<and> a = state_result (sy_run s)"

lemma quiet_final:
  assumes "\<And>s. r_final (sy_run s) \<Longrightarrow> r_final (sy_run (snd (m s)))" "r_final (sy_run s)"
  shows "wp m (\<lambda>_ u. r_final (sy_run u)) (\<lambda>_. True) s"
  using assms(1)[of s] assms(2) by (cases "m s") (simp add: wp_def split: outcome.split)

lemma publish_staged_run: "sy_run (snd (publish_staged h evs out s)) = sy_run s"
proof (induction evs arbitrary: out s)
  case (Cons ev evs)
  obtain y t where m: "tried (emit_run h ev) s = (y, t)" by (cases "tried (emit_run h ev) s")
  then have "sy_run t = sy_run s" by (auto simp: tried_def emit_run_def ask_def split: prod.splits outcome.splits)
  then show ?case using Cons.IH by (cases y) (simp_all add: andthen_def m)
qed simp

lemma run_finalize_final: "r_final (sy_run s) \<Longrightarrow> wp (run_finalize h) (\<lambda>_ u. r_final (sy_run u)) (\<lambda>_. True) s"
proof -
  have "r_final (sy_run s) \<Longrightarrow> wp (run_stages (\<lambda>m. stage h take_final (mw_finalize m)) ms) (\<lambda>_ u. r_final (sy_run u)) (\<lambda>_. True) s" for ms
  proof (induction ms arbitrary: s)
    case (Cons m ms)
    have st: "r_final (sy_run (snd (stage h take_final (mw_finalize m) u)))" if "r_final (sy_run u)" for u
      using that by (auto simp: stage_def publish_staged_run take_final_def take_attributes_def split: prod.splits outcome.splits)
    have "wp (stage h take_final (mw_finalize m)) (\<lambda>_ u. r_final (sy_run u)) (\<lambda>_. True) s"
      by (rule quiet_final) (use st Cons.prems in auto)
    then show ?case using Cons.IH by (auto simp: intro: wp_seq_keep)
  qed (simp add: wp_give)
  then show "r_final (sy_run s) \<Longrightarrow> wp (run_finalize h) (\<lambda>_ u. r_final (sy_run u)) (\<lambda>_. True) s" by (simp add: run_finalize_def)
qed

lemma durable_save_run: "wp (save_or_fail h sn) (\<lambda>_ u. sy_saved u = Some sn \<and> sy_run u = sy_run s) (\<lambda>_. True) s"
  by (auto simp: save_or_fail_def tried_def durable_save_def wp_def andthen_def give_def seq_def throw_def split: prod.splits outcome.splits sum.splits)

lemma wp_finish_saved:
  assumes "is_durable c" "final_stays h"
  shows "wp (end_run h c) (saved_as_answered c) (\<lambda>_. True) s"
proof -
  have hook: "r_final (sy_run (snd (run_hook (h_finalize h) u)))" if "r_final (sy_run u)" for u
    using that assms(2) by (auto simp: run_hook_def final_stays_def kept_from_def split: prod.splits) (metis fst_conv snd_conv)
  have fin: "wp (if r_final (sy_run s) then seq (reporting h (run_hook (h_finalize h))) (reporting h (run_finalize h))
      else change_run (\<lambda>r. r\<lparr>r_stop := ''max_turns''\<rparr>)) (\<lambda>_ u. r_final (sy_run u) \<or> r_stop (sy_run u) \<noteq> []) (\<lambda>_. True) s"
  proof (cases "r_final (sy_run s)")
    case True
    have "wp (seq (reporting h (run_hook (h_finalize h))) (reporting h (run_finalize h))) (\<lambda>_ u. r_final (sy_run u)) (\<lambda>_. True) s"
      by (rule wp_seq_keep[OF wp_reporting_any[OF quiet_final[OF hook]]], assumption, rule True, rule wp_reporting_any, erule run_finalize_final)
    then show ?thesis using True by (auto elim: wp_mono)
  qed (simp add: wp_change_run)
  show ?thesis
    unfolding end_run_def wp_look_run
  proof (rule wp_seq_keep[OF fin], unfold wp_seq[of "change_run _"] wp_change_run)
    fix u :: "'a system"
    assume u: "r_final (sy_run u) \<or> r_stop (sy_run u) \<noteq> []"
    let ?u = "u\<lparr>sy_run := (sy_run u)\<lparr>r_phase := FinalPhase\<rparr>\<rparr>"
    have save: "wp (save_snapshot h c) (\<lambda>_ v. sy_saved v = Some (snapshot_state (cf_run_id c) (sy_run ?u)) \<and> sy_run v = sy_run ?u) (\<lambda>_. True) ?u"
      using assms(1) durable_save_run[of h "snapshot_state (cf_run_id c) (sy_run ?u)" ?u] by (simp add: save_snapshot_def wp_look_run)
    show "wp (seq (save_snapshot h c) (look_run (\<lambda>r. seq (emit_run h (RunFinished (state_result r))) (give (state_result r)))))
        (saved_as_answered c) (\<lambda>_. True) ?u"
      by (rule wp_seq_keep[OF save])
        (use u in \<open>auto simp: wp_look_run wp_seq wp_give saved_as_answered_def intro!: wp_emit\<close>)
  qed
qed

lemma wp_execute_saved:
  assumes "is_durable c" "final_stays h"
  shows "wp (execute_run h c targets seed start ps) (saved_as_answered c) (\<lambda>_. True) s"
  unfolding execute_run_def
  by (rule wp_andthen_keep[OF wp_True], rule wp_seq_keep[OF wp_True], rule wp_seq_keep[OF wp_True], rule wp_seq_keep[OF wp_True],
    rule wp_finish_saved[OF assms])

text \<open>What a result and a result restored from a snapshot have in common.\<close>

definition same_answer :: "run_result \<Rightarrow> run_result \<Rightarrow> bool" where
  "same_answer a b \<longleftrightarrow> rr_content a = rr_content b \<and> rr_calls a = rr_calls b \<and> rr_usage a = rr_usage b \<and> rr_stop a = rr_stop b \<and>
     rr_finish a = rr_finish b \<and> rr_output a = rr_output b"

text \<open>
  C5: A run that has answered is over: whoever resumes it, whenever and in whatever state of the world,
  gets the same answer (content, tool results, usage, stop reason, finish reason, messages), from the
  snapshot alone: no tool, no model and no store is touched. (When no tool was left waiting, and the
  strategy's Finalize does not take the end back.)
\<close>

theorem finished_run_is_replayed:
  assumes "is_durable c" "final_stays h" "execute_run h c targets seed start ps s = (Done a, s')" "r_waiting (sy_run s') = []"
    and "fst (h_load h w) = Done ()"
  shows "\<exists>b w'. resume_run h c (cf_run_id c) targets' (s'\<lparr>sy_world := w\<rparr>) = (Done b, s'\<lparr>sy_world := w'\<rparr>) \<and> same_answer a b"
proof -
  have "saved_as_answered c a s'" using wp_execute_saved[OF assms(1,2), of targets seed start ps s] assms(3) by (simp add: wp_def)
  then have s': "r_final (sy_run s') \<or> r_stop (sy_run s') \<noteq> []" "sy_saved s' = Some (snapshot_state (cf_run_id c) (sy_run s'))"
    "a = state_result (sy_run s')"
    by (simp_all add: saved_as_answered_def)
  let ?b = "snapshot_result (snapshot_state (cf_run_id c) (sy_run s'))"
  obtain w' where w': "h_load h w = (Done (), w')" using assms(5) by (cases "h_load h w") auto
  have "sn_final (snapshot_state i r) = r_final r" "sn_stop (snapshot_state i r) = r_stop r" "sn_run (snapshot_state i r) = i" for i r
    by (simp_all add: snapshot_state_def)
  then have "resume_run h c (cf_run_id c) targets' (s'\<lparr>sy_world := w\<rparr>) = (Done ?b, s'\<lparr>sy_world := w'\<rparr>)"
    using assms(1,4) s'(1,2) w' by (auto simp: resume_run_def seq_def andthen_def ask_def look_def give_def is_durable_def)
  moreover have "same_answer a ?b" by (simp add: s'(3) same_answer_def snapshot_result_def state_result_def snapshot_state_def)
  ultimately show ?thesis by blast
qed

theorem finished_run_is_replayed_witness:
  "\<exists>a s' b w'. run_fresh (sample_host (calls_tools [sample_call ''a'']) (\<lambda>_. Some (good_result, None, 0))) sample_config (at_start sample_config 0) = (Done a, s') \<and>
     rr_content a = ''done'' \<and> length (sy_log s') = 1 \<and>
     resume_run (sample_host (calls_tools [sample_call ''a'']) (\<lambda>_. Some (good_result, None, 0))) sample_config ''run'' [''x''] (s'\<lparr>sy_world := 7\<rparr>) =
       (Done b, s'\<lparr>sy_world := w'\<rparr>) \<and> same_answer a b"
proof -
  let ?h = "sample_host (calls_tools [sample_call ''a'']) (\<lambda>_. Some (good_result, None, 0))"
  have c: "is_durable sample_config" "cf_run_id sample_config = ''run''" by (simp_all add: sample_config_fields)
  have h: "final_stays ?h" "fst (h_load ?h 7) = Done ()" by (simp_all add: final_stays_def sample_fields)
  have "\<exists>a s'. run_fresh ?h sample_config (at_start sample_config 0) = (Done a, s') \<and> rr_content a = ''done'' \<and> length (sy_log s') = 1 \<and>
      r_waiting (sy_run s') = []"
    by (simp add: eval_defs eval_data Let_def upt_rec state_result_def cong: eval_congs)
  then obtain a s' where r: "execute_run ?h sample_config [] None 0 [] (at_start sample_config 0) = (Done a, s')" "rr_content a = ''done''"
    "length (sy_log s') = 1" "r_waiting (sy_run s') = []"
    by (auto simp: run_fresh_def)
  from finished_run_is_replayed[OF c(1) h(1) r(1,4) h(2), of "[''x'']"] show ?thesis
    using r unfolding run_fresh_def c(2) by blast
qed

subsection \<open>Only permitted tools are executed\<close>

text \<open>A computation that executes nothing but calls of \<open>A\<close>.\<close>

definition executes_only :: "(tool_call \<Rightarrow> bool) \<Rightarrow> ('w, 'a) running \<Rightarrow> bool" where
  "executes_only A m \<longleftrightarrow> (\<forall>s. (\<forall>iv \<in> set (sy_log s). A (iv_call iv)) \<longrightarrow> (\<forall>iv \<in> set (sy_log (snd (m s))). A (iv_call iv)))"

named_theorems only_intros

lemma only_give [only_intros]: "executes_only A (give a)"
  by (simp add: executes_only_def give_def)

lemma onlyD: "executes_only A m \<Longrightarrow> (\<And>iv. iv \<in> set (sy_log s) \<Longrightarrow> A (iv_call iv)) \<Longrightarrow> iv \<in> set (sy_log (snd (m s))) \<Longrightarrow> A (iv_call iv)"
  unfolding executes_only_def by blast

lemma only_quiet: "quiet m \<Longrightarrow> executes_only A m"
  by (simp add: executes_only_def quiet_def core_def)

lemmas only_quiets [only_intros] = quiet_throw[THEN only_quiet] quiet_ask[THEN only_quiet] quiet_emit[THEN only_quiet]
  quiet_check_run_ctx[THEN only_quiet] quiet_run_hook[THEN only_quiet] quiet_chains[THEN only_quiet] quiet_after_llm[THEN only_quiet]
  quiet_call_model[THEN only_quiet] quiet_build_model_request[THEN only_quiet] quiet_initialize[THEN only_quiet] quiet_sync_waiting[THEN only_quiet]
  quiet_answer_finally[THEN only_quiet]

lemma only_andthen [only_intros]:
  fixes m :: "('w, 'a) running"
  assumes "executes_only A m" "\<And>a. executes_only A (f a)"
  shows "executes_only A (andthen m f)"
  unfolding executes_only_def
proof (intro allI impI)
  fix s :: "'w system"
  assume s: "\<forall>iv \<in> set (sy_log s). A (iv_call iv)"
  obtain y t where m: "m s = (y, t)" by (cases "m s")
  then have t: "\<forall>iv \<in> set (sy_log t). A (iv_call iv)" using assms(1) s unfolding executes_only_def by (metis snd_conv)
  show "\<forall>iv \<in> set (sy_log (snd (andthen m f s))). A (iv_call iv)"
    using t assms(2) by (cases y) (simp_all add: andthen_def m executes_only_def)
qed

lemma only_seq [only_intros]: "executes_only A m \<Longrightarrow> executes_only A n \<Longrightarrow> executes_only A (seq m n)"
  unfolding seq_def by (intro only_intros)

lemma only_look [only_intros]: "(\<And>s. executes_only A (f s)) \<Longrightarrow> executes_only A (look f)"
  by (simp add: executes_only_def look_def)

lemma only_look_run [only_intros]: "(\<And>s. executes_only A (f s)) \<Longrightarrow> executes_only A (look_run f)"
  unfolding look_run_def by (intro only_intros)

lemma only_change_run [only_intros]: "executes_only A (change_run f)"
  by (simp add: executes_only_def change_run_def change_def)

lemma only_tried [only_intros]: "executes_only A m \<Longrightarrow> executes_only A (tried m)"
  by (fastforce simp: executes_only_def tried_def split: prod.splits outcome.splits)

lemma only_reporting [only_intros]: "executes_only A m \<Longrightarrow> executes_only A (reporting h m)"
  unfolding reporting_def report_failure_def
  by (intro only_andthen only_tried) (auto split: sum.split intro!: only_intros)

lemma only_durable_save [only_intros]: "executes_only A (durable_save h sn)"
  by (auto simp: executes_only_def durable_save_def split: prod.splits)

lemma only_saves [only_intros]:
  "executes_only A (save_or_fail h sn)" "executes_only A (save_snapshot h c)" "executes_only A (save_pending_progress h c ps)"
proof -
  show save: "executes_only A (save_or_fail h sn)" for sn
    unfolding save_or_fail_def by (intro only_intros) (auto split: sum.split intro!: only_intros)
  show "executes_only A (save_snapshot h c)" "executes_only A (save_pending_progress h c ps)"
    unfolding save_snapshot_def save_pending_progress_def by (auto intro!: only_intros save)
qed

lemma only_model [only_intros]: "executes_only A (persist_budget_origin h c)" "executes_only A (model_turn h c sel)"
proof -
  show persist: "executes_only A (persist_budget_origin h c)"
    unfolding persist_budget_origin_def
    by (auto split: option.split attribute.split intro!: only_intros)
  have invoke: "executes_only A (invoke_provider h c sel ms)" for sel ms
    unfolding invoke_provider_def by (intro only_andthen only_tried only_seq persist) (auto split: sum.split intro!: only_intros)
  have fall: "executes_only A (fall_back h c sel e)" for e
    unfolding fall_back_def
    by (intro only_andthen only_tried) (auto split: sum.split option.split intro!: only_intros invoke)
  show "executes_only A (model_turn h c sel)"
    unfolding model_turn_def
    by (intro only_andthen only_seq only_tried only_look invoke)
      (auto split: sum.split option.split prod.split intro!: only_intros fall)
qed

text \<open>A middleware that refuses a call ends the chain before it.\<close>

definition refuses :: "'w run_middleware \<Rightarrow> (tool_call \<Rightarrow> bool) \<Rightarrow> bool" where
  "refuses m A \<longleftrightarrow> (\<forall>c r w. fst (mw_before_tool m c r w) = Done () \<longrightarrow> A c)"

lemma run_stages_Done: "fst (run_stages f ms s) = Done x \<Longrightarrow> m \<in> set ms \<Longrightarrow> \<exists>t. fst (f m t) = Done ()"
proof (induction ms arbitrary: s)
  case (Cons n ms)
  obtain y t where y: "f n s = (y, t)" by (cases "f n s")
  show ?case
  proof (cases y)
    case (Done u)
    then have "fst (run_stages f ms t) = Done x" using Cons.prems(1) by (simp add: seq_def andthen_def y)
    then show ?thesis using Cons.IH Cons.prems(2) y Done by (metis (full_types) fst_conv old.unit.exhaust set_ConsD)
  qed (use Cons.prems(1) in \<open>simp_all add: seq_def andthen_def y\<close>)
qed simp

lemma run_tool_chain_allows:
  assumes "m \<in> set (h_middleware h)" "refuses m A" "fst (run_tool_chain h c s) = Done x"
  shows "A c"
proof -
  obtain t where "fst (stage h take_attributes (mw_before_tool m c) t) = Done ()"
    using run_stages_Done[OF assms(3)[unfolded run_tool_chain_def] assms(1)] by blast
  then have "fst (mw_before_tool m c (sy_run t) (sy_world t)) = Done ()" by (rule stage_Done)
  then show ?thesis using assms(2) unfolding refuses_def by blast
qed

lemma only_tool_step:
  fixes h :: "'w host"
  assumes "m \<in> set (h_middleware h)" "refuses m A"
  shows "executes_only A (tool_step h c targets ps prev n (p, call) ids wait)"
proof -
  have chain: "executes_only A (seq (run_tool_chain h call) q)" if "A call \<Longrightarrow> executes_only A q" for q :: "('w, 'b) running"
  proof (cases "A call")
    case True
    show ?thesis by (intro only_seq only_quiet[OF quiet_chains(2)] that[OF True])
  next
    case False
    have "snd (seq (run_tool_chain h call) q s) = snd (run_tool_chain h call s)" for s
    proof (cases "run_tool_chain h call s")
      case (Pair y t)
      then have "y \<noteq> Done ()" using run_tool_chain_allows[OF assms, of call s "()"] False by auto
      then show ?thesis using Pair by (cases y) (simp_all add: seq_def andthen_def)
    qed
    then show ?thesis using only_quiet[OF quiet_chains(2), of A h call] by (simp add: executes_only_def)
  qed
  have settle: "executes_only A (settle_tool h c ps call res err)" for res err
    unfolding settle_tool_def by (intro only_seq) (auto split: option.split intro!: only_intros)
  have recorded: "executes_only A (record_tool h c ps n p call res err ids wait)" for res err
    unfolding record_tool_def Let_def by (intro only_intros settle)
  have answer: "executes_only A (take_answer h c ps n p call ids wait a)" for a
    unfolding take_answer_def Let_def
    by (auto split: prod.split option.split intro!: recorded only_intros)
  have invoke: "executes_only A (invoke_tool h ps targets prev p call)" if "A call"
  proof -
    have "executes_only A (call_tool f l iv)" if "iv_call iv = call" for f :: "invocation \<Rightarrow> 'w \<Rightarrow> _" and l iv
      using that \<open>A call\<close> by (auto simp: executes_only_def call_tool_def split: prod.splits option.splits)
    then show ?thesis by (auto simp: invoke_tool_def split: option.split intro!: only_intros)
  qed
  show ?thesis
    unfolding tool_step_def prod.case
    by (intro only_seq only_look_run only_quiet[OF quiet_check_run_ctx])
      (auto intro!: chain only_intros invoke answer)
qed

lemma only_run:
  fixes h :: "'w host"
  assumes "m \<in> set (h_middleware h)" "refuses m A"
  shows "executes_only A (execute_run h c targets seed start ps)"
proof -
  have loop: "executes_only A (tool_loop h c targets qs prev n pcs ids wait)" for qs prev n pcs ids wait
    by (induction pcs arbitrary: ids wait)
      (auto split: option.split intro!: only_give only_andthen only_tool_step[OF assms])
  have tools: "executes_only A (execute_tool_calls h c targets calls qs b)" for calls qs b
    unfolding execute_tool_calls_def Let_def
    by (auto split: option.split intro!: loop only_intros)
  have close: "executes_only A (close_step h c)"
    unfolding close_step_def by (auto intro!: only_intros)
  have turn: "executes_only A (run_turn h c targets sel)" for sel
    unfolding run_turn_def answer_turn_def settle_response_def tool_turn_def dispatch_tools_def after_tools_def
    by (intro only_seq only_look_run only_change_run)
      (auto split: prod.split option.split sum.split intro!: tools close only_intros)
  have turns: "executes_only A (run_turns h c targets k sel)" for k sel
    by (induction k arbitrary: sel) (auto split: option.split intro!: turn only_intros)
  have finish: "executes_only A (end_run h c)"
    unfolding end_run_def by (auto intro!: only_intros)
  have complete: "executes_only A (complete_step h c targets ps)"
    unfolding complete_step_def by (auto intro!: tools close only_intros)
  have start: "executes_only A (start_run h c seed)"
    unfolding start_run_def install_state_def
    by (auto split: option.split intro!: only_intros)
  show ?thesis
    unfolding execute_run_def by (intro only_andthen only_seq only_change_run start complete turns finish)
qed

lemma only_resume:
  assumes "m \<in> set (h_middleware h)" "refuses m A"
  shows "executes_only A (resume_run h c run targets)"
proof -
  have pending: "executes_only A (resume_pending h c' ts sn)" for c' ts sn
    unfolding resume_pending_def by (auto split: option.split intro!: only_run[OF assms] only_quiet[OF quiet_throw])
  show ?thesis
    unfolding resume_run_def
    by (auto split: option.split intro!: only_run[OF assms] pending only_intros)
qed

text \<open>The policy of \<open>Permission\<close> as the middleware of a run; its events are published with the others.\<close>

definition permission_stage :: "permission_policy \<Rightarrow> 'w run_middleware \<Rightarrow> 'w run_middleware" where
  "permission_stage p m = m\<lparr>mw_before_tool := (\<lambda>c r w.
     (case policy_before_tool p c of
        (None, evs) \<Rightarrow> (Done (), r_attributes r, map (\<lambda>_. MiddlewareEvent 0) evs, w)
      | (Some e, evs) \<Rightarrow> (Failed (HostFailure 0), r_attributes r, map (\<lambda>_. MiddlewareEvent 0) evs, w)))\<rparr>"

lemma permission_stage_refuses: "refuses (permission_stage p m) (permitted p)"
  unfolding refuses_def
proof (intro allI impI)
  fix c r w
  assume "fst (mw_before_tool (permission_stage p m) c r w) = Done ()"
  then have "fst (policy_before_tool p c) = None"
    by (cases "policy_before_tool p c"; cases "fst (policy_before_tool p c)") (auto simp: permission_stage_def)
  then show "permitted p c" by (simp add: policy_before_tool_None)
qed

text \<open>
  C4: With a permission policy anywhere in the chain of middlewares, every tool that any process of the run
  executes, first or resumed, is one the policy permits, whatever the model, the other middlewares, the
  strategy and the store do.
\<close>

theorem only_permitted_tools_execute:
  assumes "permission_stage p m \<in> set (h_middleware h)" "lives h c s" "iv \<in> set (sy_log s)"
  shows "permitted p (iv_call iv)"
proof -
  have "\<forall>iv \<in> set (sy_log s). permitted p (iv_call iv)"
    using assms(2)
  proof (induction rule: lives.induct)
    case (lives_first w)
    have only: "executes_only (permitted p) (run_fresh h c)"
      unfolding run_fresh_def by (rule only_run[OF assms(1) permission_stage_refuses])
    show ?case by (intro ballI, erule onlyD[OF only, rotated]) (simp add: at_start_def)
  next
    case (lives_again s targets w)
    have only: "executes_only (permitted p) (resume_run h c (cf_run_id c) targets)"
      by (rule only_resume[OF assms(1) permission_stage_refuses])
    show ?case by (intro ballI, erule onlyD[OF only, rotated]) (use lives_again.IH in simp)
  qed
  then show ?thesis using assms(3) by blast
qed

definition quiet_middleware :: "'w run_middleware" where
  "quiet_middleware =
     \<lparr>mw_initialize = None, mw_before_llm = (\<lambda>r w. (Done (), (r_messages r, r_attributes r), [], w)), mw_after_llm = (\<lambda>r rp w. (Done rp, (r_messages r, r_attributes r), [], w)),
      mw_before_tool = (\<lambda>c r w. (Done (), r_attributes r, [], w)), mw_after_tool = (\<lambda>c res r w. (Done (), r_attributes r, [], w)),
      mw_finalize = (\<lambda>r w. (Done (), (r_final_text r, r_reasoning r, r_attributes r), [], w))\<rparr>"

definition guarded_host :: "permission_mode \<Rightarrow> tool_call list \<Rightarrow> nat host" where
  "guarded_host mode cs = (sample_host (calls_tools cs) (\<lambda>_. None))
     \<lparr>h_middleware := [permission_stage (sample_policy mode) quiet_middleware]\<rparr>"

lemma quiet_stage_fields:
  "mw_initialize (permission_stage p quiet_middleware) = None"
  "mw_before_llm (permission_stage p quiet_middleware) r w = (Done (), (r_messages r, r_attributes r), [], w)"
  "mw_after_llm (permission_stage p quiet_middleware) r rp w = (Done rp, (r_messages r, r_attributes r), [], w)"
  "mw_after_tool (permission_stage p quiet_middleware) c res r w = (Done (), r_attributes r, [], w)"
  "mw_finalize (permission_stage p quiet_middleware) r w = (Done (), (r_final_text r, r_reasoning r, r_attributes r), [], w)"
  "mw_before_tool (permission_stage (sample_policy ModeAllow) quiet_middleware) c r w = (Done (), r_attributes r, [MiddlewareEvent 0, MiddlewareEvent 0], w)"
  by (simp_all add: permission_stage_def quiet_middleware_def policy_before_tool_def sample_policy_def mode_decision_def allow_call_def)

lemma merge_budget: "merge_attributes old a ''runtime.budget.started_at'' =
    (case old ''runtime.budget.started_at'' of Some (ATime t) \<Rightarrow> Some (ATime t) | _ \<Rightarrow> a ''runtime.budget.started_at'')"
  by (auto simp: merge_attributes_def usage_evidence_def Let_def split: option.split attribute.split)

theorem only_permitted_tools_execute_witness:
  "\<exists>s iv. lives (guarded_host ModeAllow [sample_call ''a'']) sample_config s \<and> sy_log s = [iv] \<and> permitted (sample_policy ModeAllow) (iv_call iv)"
proof -
  let ?h = "guarded_host ModeAllow [sample_call ''a'']"
  let ?s = "snd (run_fresh ?h sample_config (at_start sample_config 0))"
  have "\<exists>iv. sy_log ?s = [iv]"
    by (simp add: guarded_host_def quiet_stage_fields merge_budget eval_defs eval_data Let_def upt_rec cong: eval_congs)
  then obtain iv where iv: "sy_log ?s = [iv]" by blast
  have m: "permission_stage (sample_policy ModeAllow) quiet_middleware \<in> set (h_middleware ?h)" by (simp add: guarded_host_def)
  have l: "lives ?h sample_config ?s" by (rule lives_first)
  have "permitted (sample_policy ModeAllow) (iv_call iv)" by (rule only_permitted_tools_execute[OF m l]) (simp add: iv)
  then show ?thesis using l iv by blast
qed

end
