(* ===== verification/RunnerMessages.thy ===== *)
theory RunnerMessages
  imports Runner
begin

section \<open>What the model is shown\<close>

text \<open>
  \<open>sanitizeToolCallSequence\<close> of \<open>runtime/runner.go\<close>, which every request to the model goes through, and
  what it guarantees to the provider.
\<close>

text \<open>A message may be shown after those before it: a tool's result only if its call was.\<close>

definition answered :: "message list \<Rightarrow> message \<Rightarrow> bool" where
  "answered before m \<longleftrightarrow> m_role m = RoleTool \<longrightarrow>
     m_call_id m \<noteq> [] \<and> (\<exists>a \<in> set before. m_role a = RoleAssistant \<and> m_call_id m \<in> tc_id ` set (m_refs a))"

lemma answered_append: "answered before m \<Longrightarrow> answered (before @ rest) m"
  by (auto simp: answered_def)

definition known_ids :: "message list \<Rightarrow> string set" where
  "known_ids before = {i. i \<noteq> [] \<and> (\<exists>a \<in> set before. m_role a = RoleAssistant \<and> i \<in> tc_id ` set (m_refs a))}"

lemma answered_known: "answered before m \<longleftrightarrow> (m_role m = RoleTool \<longrightarrow> m_call_id m \<in> known_ids before)"
  by (auto simp: answered_def known_ids_def)

lemma known_ids_snoc:
  "known_ids (before @ [m]) = known_ids before \<union> (if m_role m = RoleAssistant then {i \<in> tc_id ` set (m_refs m). i \<noteq> []} else {})"
  by (auto simp: known_ids_def)

text \<open>The kept messages, as positions of the list.\<close>

lemma sanitize_keeps:
  "set known = known_ids before \<Longrightarrow>
   sanitize known ms = map ((!) ms) (filter (\<lambda>i. answered (before @ take i ms) (ms ! i)) [0..<length ms])"
proof (induction ms arbitrary: known before)
  case (Cons m ms)
  have shift: "map ((!) (m # ms)) (filter (\<lambda>i. answered (before @ take i (m # ms)) ((m # ms) ! i)) [0..<length (m # ms)]) =
      (if answered before m then [m] else []) @ map ((!) ms) (filter (\<lambda>i. answered ((before @ [m]) @ take i ms) (ms ! i)) [0..<length ms])"
    by (simp add: upt_conv_Cons map_Suc_upt[symmetric] filter_map comp_def del: upt_Suc)
  show ?case
  proof (cases "m_role m = RoleAssistant \<and> m_refs m \<noteq> []")
    case True
    then have "set (known @ filter (\<lambda>i. i \<noteq> []) (map tc_id (m_refs m))) = known_ids (before @ [m])"
      using Cons.prems by (auto simp: known_ids_snoc)
    then show ?thesis using Cons.IH[of "known @ filter (\<lambda>i. i \<noteq> []) (map tc_id (m_refs m))" "before @ [m]"] True
      unfolding shift by (simp add: answered_def)
  next
    case False
    then have k: "set known = known_ids (before @ [m])" using Cons.prems by (auto simp: known_ids_snoc)
    have ih: "sanitize known ms = map ((!) ms) (filter (\<lambda>i. answered ((before @ [m]) @ take i ms) (ms ! i)) [0..<length ms])"
      by (rule Cons.IH[OF k])
    have "sanitize known (m # ms) = (if answered before m then [m] else []) @ sanitize known ms"
      using False Cons.prems by (auto simp: answered_known known_ids_def)
    then show ?thesis unfolding shift ih .
  qed
qed simp

lemma sanitize_closed:
  "set known = known_ids before \<Longrightarrow> i < length (sanitize known ms) \<Longrightarrow> answered (before @ take i (sanitize known ms)) (sanitize known ms ! i)"
proof (induction ms arbitrary: known before i)
  case (Cons m ms)
  have step: "answered (before @ take i (m # sanitize known' ms)) ((m # sanitize known' ms) ! i)"
    if "set known' = known_ids (before @ [m])" "answered before m" "i < length (m # sanitize known' ms)" for known'
  proof (cases i)
    case (Suc j)
    then show ?thesis using Cons.IH[OF that(1), of j] that(3) by simp
  qed (use that(2) in simp)
  show ?case
  proof (cases "m_role m = RoleAssistant \<and> m_refs m \<noteq> []")
    case True
    have "set (known @ filter (\<lambda>i. i \<noteq> []) (map tc_id (m_refs m))) = known_ids (before @ [m])"
      using Cons.prems(1) True by (auto simp: known_ids_snoc)
    from step[OF this] show ?thesis using Cons.prems(2) True by (simp add: answered_def)
  next
    case False
    then have k: "set known = known_ids (before @ [m])" using Cons.prems(1) by (auto simp: known_ids_snoc)
    show ?thesis
    proof (cases "answered before m")
      case True
      then have s: "sanitize known (m # ms) = m # sanitize known ms"
        using False Cons.prems(1) by (auto simp: answered_known known_ids_def)
      show ?thesis using step[OF k True] Cons.prems(2) unfolding s by blast
    next
      case False
      then have s: "sanitize known (m # ms) = sanitize known ms" using Cons.prems(1) by (auto simp: answered_known)
      have "known_ids before = known_ids (before @ [m])" using k Cons.prems(1) by simp
      then show ?thesis using Cons.IH[OF Cons.prems(1)] Cons.prems(2) unfolding s by blast
    qed
  qed
qed simp

definition call_named :: "string \<Rightarrow> tool_call" where
  "call_named i = \<lparr>tc_id = i, tc_name = ''read'', tc_arguments = ''{}''\<rparr>"

definition ok_result :: tool_result where
  "ok_result = \<lparr>tr_content = ''ok'', tr_parts = [], tr_needs_reconciliation = False, tr_error = [], tr_stop = False, tr_status = ''success'', tr_duration = 1\<rparr>"

text \<open>
  C10: The messages sent to the model are those of the state, in order, without the tool results that no
  earlier assistant message called for (and nothing else is left out); and of what is sent, every tool
  result still has its call before it.
\<close>

theorem no_orphan_tool_results:
  "sanitize_tool_call_sequence ms = map ((!) ms) (filter (\<lambda>i. answered (take i ms) (ms ! i)) [0..<length ms]) \<and>
   (\<forall>i. i < length (sanitize_tool_call_sequence ms) \<longrightarrow>
      answered (take i (sanitize_tool_call_sequence ms)) (sanitize_tool_call_sequence ms ! i))"
  using sanitize_keeps[of "[]" "[]" ms] sanitize_closed[of "[]" "[]" _ ms] by (simp add: sanitize_tool_call_sequence_def known_ids_def)

theorem no_orphan_tool_results_witness:
  "let ms = [plain_message RoleUser ''q'', tool_message (call_named ''b'') ok_result,
      (plain_message RoleAssistant [])\<lparr>m_refs := [call_named ''a'']\<rparr>, tool_message (call_named ''a'') ok_result]
   in length (sanitize_tool_call_sequence ms) = 3 \<and>
      answered (take 2 (sanitize_tool_call_sequence ms)) (sanitize_tool_call_sequence ms ! 2)"
proof -
  let ?ms = "[plain_message RoleUser ''q'', tool_message (call_named ''b'') ok_result,
      (plain_message RoleAssistant [])\<lparr>m_refs := [call_named ''a'']\<rparr>, tool_message (call_named ''a'') ok_result]"
  have "length (sanitize_tool_call_sequence ?ms) = 3" by code_simp
  then have "answered (take 2 (sanitize_tool_call_sequence ?ms)) (sanitize_tool_call_sequence ?ms ! 2)"
    using conjunct2[OF no_orphan_tool_results[of ?ms]] by (metis lessI numeral_2_eq_2 numeral_3_eq_3)
  then show ?thesis unfolding Let_def using \<open>length (sanitize_tool_call_sequence ?ms) = 3\<close> by (rule conjI[rotated])
qed

end
