(* ===== verification/GraphNode.thy ===== *)
theory GraphNode
  imports GoFloat
begin

section \<open>Graph nodes: isolation, retries and commands\<close>

text \<open>
  \<open>orchestration/graph/node.go\<close>, \<open>execution.go\<close> and \<open>command.go\<close>: a node, and the one place every
  execution mode runs it through, \<open>executeNodeHandler\<close>, with its isolation of the input, its panics
  turned into errors, and its retry policy.
  \<^item> a handler is a function of the state and of the outside world \<open>'w\<close> that its calls change; a panic
    is \<open>None\<close>;
  \<^item> errors are trees, so that \<open>errors.Is\<close> and \<open>errors.As\<close> are a search of the leaves;
  \<^item> the record \<open>node_env\<close> is what the code calls and does not define: the clone of a state, the
    errors of the contexts, the wait between attempts, and \<open>llm.IsUnsafeToReplay\<close>;
  \<^item> the typed I/O adapters of a node (mapping.go) are not modelled.
\<close>

subsection \<open>Errors\<close>

datatype error_leaf = PlainError string | UnsafeError string | InterruptLeaf nat | LegacyInterrupt nat
  | Canceled | DeadlineExceeded | NodePanicked string

datatype node_error = Leaf error_leaf | Wrapped node_error | Joined "node_error list"

fun leaves :: "node_error \<Rightarrow> error_leaf list" where
  "leaves (Leaf l) = [l]"
| "leaves (Wrapped e) = leaves e"
| "leaves (Joined es) = concat (map leaves es)"

definition is_cancelled :: "node_error \<Rightarrow> bool" where
  "is_cancelled e \<longleftrightarrow> Canceled \<in> set (leaves e) \<or> DeadlineExceeded \<in> set (leaves e)"

definition is_interrupt_signal :: "node_error \<Rightarrow> bool" where
  "is_interrupt_signal e \<longleftrightarrow> list_ex (\<lambda>l. case l of InterruptLeaf _ \<Rightarrow> True | _ \<Rightarrow> False) (leaves e)"

definition is_interrupt_error :: "node_error \<Rightarrow> bool" where
  "is_interrupt_error e \<longleftrightarrow> list_ex (\<lambda>l. case l of LegacyInterrupt _ \<Rightarrow> True | _ \<Rightarrow> False) (leaves e)"

subsection \<open>Nodes\<close>

datatype node_type = NodeTypeNormal | NodeTypeStart | NodeTypeEnd | NodeTypeConditional | NodeTypeParallel
  | NodeTypeSubgraph | NodeTypeCatch | NodeTypeRetry | NodeTypeFallback | NodeTypeLoop

type_synonym ('s, 'w) handler = "'s \<Rightarrow> 'w \<Rightarrow> ('s \<times> node_error option) option \<times> 'w"

record retry_policy =
  max_retries :: int
  initial_delay :: int
  max_delay :: int
  multiplier :: gofloat
  retry_on :: "(node_error \<Rightarrow> bool option) option"

text \<open>A command carries its target and the updates to apply, any of which may panic.\<close>

record 's command =
  goto_target :: string
  updates :: "('s \<Rightarrow> 's option) list"

type_synonym ('s, 'w) command_handler = "'s \<Rightarrow> 'w \<Rightarrow> ('s command option + node_error) option \<times> 'w"

record ('s, 'w) node =
  node_name :: string
  node_type :: node_type
  node_handler :: "('s, 'w) handler option"
  node_retry :: "retry_policy option"
  node_timeout :: int
  node_command :: "('s, 'w) command_handler option"

definition START :: string where "START = ''__start__''"

definition END :: string where "END = ''__end__''"

definition identity_handler :: "('s, 'w) handler" where
  "identity_handler s w = (Some (s, None), w)"

definition start_node :: "('s, 'w) node" where
  "start_node = \<lparr>node_name = START, node_type = NodeTypeStart, node_handler = Some identity_handler,
     node_retry = None, node_timeout = 0, node_command = None\<rparr>"

definition end_node :: "('s, 'w) node" where
  "end_node = \<lparr>node_name = END, node_type = NodeTypeEnd, node_handler = Some identity_handler,
     node_retry = None, node_timeout = 0, node_command = None\<rparr>"

definition new_node :: "string \<Rightarrow> ('s, 'w) handler \<Rightarrow> ('s, 'w) node" where
  "new_node name h = \<lparr>node_name = name, node_type = NodeTypeNormal, node_handler = Some h,
     node_retry = None, node_timeout = 0, node_command = None\<rparr>"

definition default_retry_policy :: retry_policy where
  "default_retry_policy = \<lparr>max_retries = 3, initial_delay = 100, max_delay = 5000, multiplier = Fin 2,
     retry_on = Some (\<lambda>_. Some True)\<rparr>"

definition retry_node :: "string \<Rightarrow> ('s, 'w) handler \<Rightarrow> retry_policy option \<Rightarrow> ('s, 'w) node" where
  "retry_node name h p = (new_node name h)\<lparr>node_type := NodeTypeRetry,
     node_retry := Some (case p of None \<Rightarrow> default_retry_policy | Some q \<Rightarrow> q)\<rparr>"

definition timeout_node :: "string \<Rightarrow> ('s, 'w) handler \<Rightarrow> int \<Rightarrow> ('s, 'w) node" where
  "timeout_node name h ms = (new_node name h)\<lparr>node_timeout := ms\<rparr>"

subsection \<open>One isolated call\<close>

datatype 's cloned = Cloned 's | CloneFailed node_error | ClonePanicked | CloneMistyped

record ('s, 'w) node_env =
  clone_state :: "'s \<Rightarrow> 's cloned"
  ctx_err :: "'w \<Rightarrow> node_error option"
  attempt_err :: "int \<Rightarrow> 'w \<Rightarrow> 'w \<Rightarrow> node_error option"
  pause :: "int \<Rightarrow> 'w \<Rightarrow> bool \<times> 'w"
  unsafe_to_replay :: "node_error \<Rightarrow> bool"

text \<open>
  \<open>runIsolatedNode\<close> under a context whose error is \<open>cerr\<close>: the input is cloned, the context read, and
  the handler called on the clone; a panic gives the input back.
\<close>

definition run_isolated :: "('s, 'w) node_env \<Rightarrow> ('w \<Rightarrow> node_error option) \<Rightarrow> string \<Rightarrow> ('s, 'w) handler
    \<Rightarrow> 's \<Rightarrow> 'w \<Rightarrow> ('s \<times> node_error option) \<times> 'w" where
  "run_isolated env cerr name h input w =
     (case clone_state env input of
        ClonePanicked \<Rightarrow> ((input, Some (Wrapped (Leaf (NodePanicked name)))), w)
      | CloneFailed e \<Rightarrow> ((input, Some (Wrapped e)), w)
      | CloneMistyped \<Rightarrow> ((input, Some (Leaf (PlainError ''clone input''))), w)
      | Cloned s \<Rightarrow>
          (case cerr w of
             Some e \<Rightarrow> ((input, Some e), w)
           | None \<Rightarrow>
               (case h s w of
                  (None, w') \<Rightarrow> ((input, Some (Leaf (NodePanicked name))), w')
                | (Some r, w') \<Rightarrow> (r, w'))))"

subsection \<open>Retries\<close>

text \<open>Milliseconds as a \<open>time.Duration\<close>, and the conversion of a float to \<open>int64\<close> (as on amd64).\<close>

definition millis :: "int \<Rightarrow> int" where
  "millis ms = ms * 1000000"

definition max_millis :: int where
  "max_millis = max_int64 div 1000000"

fun to_int64 :: "gofloat \<Rightarrow> int" where
  "to_int64 (Fin x) = (if 0 \<le> x then \<lfloor>x\<rfloor> else \<lceil>x\<rceil>)"
| "to_int64 _ = - (2 ^ 63)"

definition next_delay :: "retry_policy \<Rightarrow> int \<Rightarrow> int" where
  "next_delay p delay =
     (if fless (Fin 1) (multiplier p)
      then let bound = (if 0 < max_delay p then millis (max_delay p) else max_int64);
               v = fmul (float_of_int delay) (multiplier p) in
           if fle (float_of_int bound) v then bound else to_int64 v
      else delay)"

definition final_error :: "('s, 'w) node_env \<Rightarrow> node_error \<Rightarrow> bool" where
  "final_error env e \<longleftrightarrow> is_cancelled e \<or> is_interrupt_signal e \<or> is_interrupt_error e \<or> unsafe_to_replay env e"

text \<open>
  The loop of \<open>executeNodeHandler\<close> with \<open>k\<close> retries left. \<open>attempt_err env t w0 w\<close> is the error at \<open>w\<close>
  of the attempt's context, created at \<open>w0\<close> with time limit \<open>t\<close>.
\<close>

definition with_cause :: "node_error option \<Rightarrow> node_error option \<Rightarrow> node_error option" where
  "with_cause err cause =
     (case cause of
        None \<Rightarrow> err
      | Some c \<Rightarrow> Some (Joined ((case err of None \<Rightarrow> [] | Some e \<Rightarrow> [e]) @ [c])))"

fun retry_loop :: "('s, 'w) node_env \<Rightarrow> string \<Rightarrow> int \<Rightarrow> ('s, 'w) handler \<Rightarrow> retry_policy option \<Rightarrow> nat \<Rightarrow> int
    \<Rightarrow> 's \<Rightarrow> 'w \<Rightarrow> ('s \<times> node_error option) \<times> 'w" where
  "retry_loop env name limit h pol k delay input w =
     (case ctx_err env w of
        Some e \<Rightarrow> ((input, Some e), w)
      | None \<Rightarrow>
          (case run_isolated env (attempt_err env limit w) name h input w of
             ((output, err0), w1) \<Rightarrow>
               (case with_cause err0 (attempt_err env limit w w1) of
                  None \<Rightarrow> ((output, None), w1)
                | Some e \<Rightarrow>
                    if k = 0 \<or> ctx_err env w1 \<noteq> None \<or> final_error env e then ((output, Some e), w1)
                    else
                      (case pol of
                         None \<Rightarrow> ((output, Some e), w1)
                       | Some p \<Rightarrow>
                           (case (case retry_on p of None \<Rightarrow> Some True | Some f \<Rightarrow> f e) of
                              None \<Rightarrow> ((input, Some (Leaf (NodePanicked name))), w1)
                            | Some again \<Rightarrow>
                                if \<not> again then ((output, Some e), w1)
                                else
                                  (case pause env delay w1 of
                                     (True, w2) \<Rightarrow> ((output, ctx_err env w2), w2)
                                   | (False, w2) \<Rightarrow>
                                       retry_loop env name limit h pol (k - 1) (next_delay p delay) input w2))))))"

declare retry_loop.simps [simp del]

definition execute_node_handler :: "('s, 'w) node_env \<Rightarrow> ('s, 'w) node \<Rightarrow> 's \<Rightarrow> retry_policy option \<Rightarrow> 'w
    \<Rightarrow> ('s \<times> node_error option) \<times> 'w" where
  "execute_node_handler env nd input fallback w =
     (let pol = (case node_retry nd of None \<Rightarrow> fallback | Some p \<Rightarrow> Some p);
          invalid = (\<lambda>why. ((input, Some (Leaf (PlainError why))), w)) in
      case node_handler nd of
        None \<Rightarrow> ((input, Some (Leaf (NodePanicked (node_name nd)))), w)
      | Some h \<Rightarrow>
          if node_timeout nd < 0 \<or> max_millis < node_timeout nd then invalid ''invalid timeout''
          else
            (case pol of
               None \<Rightarrow> retry_loop env (node_name nd) (node_timeout nd) h None 0 0 input w
             | Some p \<Rightarrow>
                 if max_retries p < 0 \<or> initial_delay p < 0 \<or> max_delay p < 0 \<or>
                    fless (multiplier p) fzero \<or> is_nan (multiplier p)
                 then invalid ''invalid retry policy''
                 else if max_millis < initial_delay p \<or> max_millis < max_delay p
                 then invalid ''retry delay overflows duration''
                 else
                   (let d = millis (initial_delay p);
                        delay = (if 0 < max_delay p \<and> millis (max_delay p) < d then millis (max_delay p) else d) in
                    retry_loop env (node_name nd) (node_timeout nd) h (Some p) (nat (max_retries p)) delay input w)))"

subsection \<open>Commands\<close>

fun apply_updates :: "('s \<Rightarrow> 's option) list \<Rightarrow> 's \<Rightarrow> 's option" where
  "apply_updates [] s = Some s"
| "apply_updates (f # fs) s = (case f s of None \<Rightarrow> None | Some s' \<Rightarrow> apply_updates fs s')"

text \<open>
  \<open>invokeCommand\<close>. The target of the last successful call is remembered by the closure, so the
  world of the handler is paired with it.
\<close>

definition invoke_command :: "('s, 'w) command_handler \<Rightarrow> 's \<Rightarrow> 'w
    \<Rightarrow> ('s \<times> string option \<times> node_error option) option \<times> 'w" where
  "invoke_command h s w =
     (case h s w of
        (None, w') \<Rightarrow> (None, w')
      | (Some (Inr e), w') \<Rightarrow> (Some (s, None, Some e), w')
      | (Some (Inl None), w') \<Rightarrow> (Some (s, Some END, None), w')
      | (Some (Inl (Some c)), w') \<Rightarrow>
          (case apply_updates (updates c) s of
             None \<Rightarrow> (None, w')
           | Some s' \<Rightarrow> (Some (s', Some (goto_target c), None), w')))"

definition command_closure :: "('s, 'w) command_handler \<Rightarrow> ('s, 'w \<times> string option) handler" where
  "command_closure h s wt =
     (case wt of (w, t) \<Rightarrow>
        (case invoke_command h s w of
           (None, w') \<Rightarrow> (None, (w', t))
         | (Some (s', nxt, e), w') \<Rightarrow> (Some (s', e), (w', if e = None then nxt else t))))"

definition with_target :: "('s, 'w) node_env \<Rightarrow> ('s, 'w \<times> string option) node_env" where
  "with_target env = \<lparr>clone_state = clone_state env, ctx_err = (\<lambda>(w, _). ctx_err env w),
     attempt_err = (\<lambda>d (w0, _) (w, _). attempt_err env d w0 w),
     pause = (\<lambda>d (w, t). case pause env d w of (b, w') \<Rightarrow> (b, (w', t))),
     unsafe_to_replay = unsafe_to_replay env\<rparr>"

definition execute_command_node :: "('s, 'w) node_env \<Rightarrow> ('s, 'w) node \<Rightarrow> 's \<Rightarrow> retry_policy option \<Rightarrow> 'w
    \<Rightarrow> ('s \<times> string option \<times> node_error option) \<times> 'w" where
  "execute_command_node env nd input defaults w =
     (case node_command nd of
        None \<Rightarrow>
          (case execute_node_handler env nd input defaults w of ((s, e), w') \<Rightarrow> ((s, None, e), w'))
      | Some h \<Rightarrow>
          (case execute_node_handler (with_target env)
                  \<lparr>node_name = node_name nd, node_type = node_type nd, node_handler = Some (command_closure h),
                   node_retry = node_retry nd, node_timeout = node_timeout nd, node_command = None\<rparr>
                  input defaults (w, None) of
             ((s, Some e), (w', _)) \<Rightarrow> ((s, None, Some e), w')
           | ((s, None), (w', t)) \<Rightarrow> ((s, t, None), w')))"

subsection \<open>Fallback nodes\<close>

definition fallback_handler :: "('s, 'w) node_env \<Rightarrow> ('w \<Rightarrow> node_error option) \<Rightarrow> string \<Rightarrow> ('s, 'w) handler
    \<Rightarrow> ('s, 'w) handler \<Rightarrow> ('s, 'w) handler" where
  "fallback_handler env cerr name primary fallback s w =
     (case run_isolated env cerr (name @ '' primary'') primary s w of
        ((s1, None), w1) \<Rightarrow> (Some (s1, None), w1)
      | ((_, Some e), w1) \<Rightarrow>
          if final_error env e then (Some (s, Some e), w1)
          else
            (case run_isolated env cerr (name @ '' fallback'') fallback s w1 of
               ((_, Some _), w2) \<Rightarrow> (Some (s, Some (Leaf (PlainError ''primary and fallback error''))), w2)
             | ((s2, None), w2) \<Rightarrow> (Some (s2, None), w2)))"

definition fallback_node :: "('s, 'w) node_env \<Rightarrow> ('w \<Rightarrow> node_error option) \<Rightarrow> string \<Rightarrow> ('s, 'w) handler
    \<Rightarrow> ('s, 'w) handler \<Rightarrow> ('s, 'w) node" where
  "fallback_node env cerr name primary fallback =
     (new_node name (fallback_handler env cerr name primary fallback))\<lparr>node_type := NodeTypeFallback\<rparr>"

subsection \<open>Which calls are repeated\<close>

text \<open>
  To speak of the calls a run makes, the world is paired with the list of their results: \<open>logged h\<close>
  is the handler \<open>h\<close> that appends its result to the list.
\<close>

type_synonym 's call = "('s \<times> node_error option) option"

definition logged :: "('s, 'w) handler \<Rightarrow> ('s, 'w \<times> 's call list) handler" where
  "logged h s wl = (case wl of (w, l) \<Rightarrow> (case h s w of (r, w') \<Rightarrow> (r, (w', l @ [r]))))"

definition with_log :: "('s, 'w) node_env \<Rightarrow> ('s, 'w \<times> 's call list) node_env" where
  "with_log env = \<lparr>clone_state = clone_state env, ctx_err = (\<lambda>(w, _). ctx_err env w),
     attempt_err = (\<lambda>d (w0, _) (w, _). attempt_err env d w0 w),
     pause = (\<lambda>d (w, l). case pause env d w of (b, w') \<Rightarrow> (b, (w', l))),
     unsafe_to_replay = unsafe_to_replay env\<rparr>"

text \<open>What the code relies on: a context fails by cancellation or deadline, and panics are unsafe to replay.\<close>

definition env_ok :: "('s, 'w) node_env \<Rightarrow> bool" where
  "env_ok env \<longleftrightarrow> (\<forall>d w0 w e. attempt_err env d w0 w = Some e \<longrightarrow> is_cancelled e) \<and>
     (\<forall>n. unsafe_to_replay env (Leaf (NodePanicked n)))"

text \<open>A call whose failure may be followed by another one.\<close>

definition retryable :: "('s, 'w) node_env \<Rightarrow> 's call \<Rightarrow> bool" where
  "retryable env r \<longleftrightarrow> (\<exists>s e. r = Some (s, Some e) \<and> \<not> final_error env e)"

lemma with_log_simps [simp]:
  "clone_state (with_log env) = clone_state env" "unsafe_to_replay (with_log env) = unsafe_to_replay env"
  "ctx_err (with_log env) (w, l) = ctx_err env w" "attempt_err (with_log env) d (w0, l0) (w, l) = attempt_err env d w0 w"
  "pause (with_log env) d (w, l) = (fst (pause env d w), (snd (pause env d w), l))"
  "final_error (with_log env) = final_error env"
  by (auto simp: with_log_def final_error_def fun_eq_iff split: prod.splits)

lemma is_cancelled_joined:
  "is_cancelled c \<Longrightarrow> is_cancelled (Joined [c])" "is_cancelled c \<Longrightarrow> is_cancelled (Joined [e, c])"
  by (auto simp: is_cancelled_def)

text \<open>An isolated call makes at most one call of the handler, and its error is the handler's own or final.\<close>

lemma run_isolated_log:
  assumes "run_isolated (with_log env) cerr name (logged h) input (w, l) = ((out, err), (w1, l1))"
  shows "l1 = l \<or> (\<exists>r. l1 = l @ [r] \<and> (case r of None \<Rightarrow> err = Some (Leaf (NodePanicked name)) | Some (_, e) \<Rightarrow> err = e))"
  using assms
  by (auto simp: run_isolated_def logged_def split: cloned.splits option.splits prod.splits)

lemma attempt_repeated:
  assumes env: "env_ok env"
    and run: "run_isolated (with_log env) cerr name (logged h) input (w, l) = ((out, err), (w1, l1))"
    and e: "with_cause err (attempt_err env limit w w1) = Some e" and go: "\<not> final_error env e"
  shows "l1 = l \<or> (\<exists>r. l1 = l @ [r] \<and> retryable env r)"
proof -
  have "attempt_err env limit w w1 = None"
  proof (rule ccontr)
    assume "\<not> ?thesis"
    then obtain c where c: "attempt_err env limit w w1 = Some c" by blast
    then have "is_cancelled c" using env by (auto simp: env_ok_def)
    then have "is_cancelled e" using e c is_cancelled_joined[of c]
      by (auto simp: with_cause_def split: option.splits)
    then show False using go by (simp add: final_error_def)
  qed
  then have err: "err = Some e" using e by (simp add: with_cause_def)
  from run_isolated_log[OF run] show ?thesis
  proof
    assume "l1 = l"
    then show ?thesis by simp
  next
    assume "\<exists>r. l1 = l @ [r] \<and> (case r of None \<Rightarrow> err = Some (Leaf (NodePanicked name)) | Some (_, e) \<Rightarrow> err = e)"
    then obtain r where r: "l1 = l @ [r]" "case r of None \<Rightarrow> err = Some (Leaf (NodePanicked name)) | Some (_, e) \<Rightarrow> err = e"
      by blast
    have "r \<noteq> None"
    proof
      assume "r = None"
      then have "unsafe_to_replay env e" using r(2) err env by (auto simp: env_ok_def)
      then show False using go by (simp add: final_error_def)
    qed
    then have "retryable env r" using r(2) err go by (auto simp: retryable_def)
    then show ?thesis using r(1) by blast
  qed
qed

definition repeats_ok :: "('s, 'w) node_env \<Rightarrow> nat \<Rightarrow> 's call list \<Rightarrow> bool" where
  "repeats_ok env k cs \<longleftrightarrow> length cs \<le> Suc k \<and> (\<forall>r \<in> set (butlast cs). retryable env r)"

lemma repeats_ok_short: "length cs \<le> 1 \<Longrightarrow> repeats_ok env k cs"
  by (cases cs) (auto simp: repeats_ok_def)

lemma repeats_ok_more: "repeats_ok env k cs \<Longrightarrow> repeats_ok env (Suc k) cs"
  by (simp add: repeats_ok_def)

lemma repeats_ok_Cons: "retryable env r \<Longrightarrow> repeats_ok env k cs \<Longrightarrow> repeats_ok env (Suc k) (r # cs)"
  by (auto simp: repeats_ok_def)

lemma retry_loop_log:
  assumes env: "env_ok env"
    and run: "retry_loop (with_log env) name limit (logged h) pol k delay input (w, l) = (res, (w', l'))"
  shows "\<exists>cs. l' = l @ cs \<and> repeats_ok env k cs"
  using run
proof (induction k arbitrary: delay w l)
  case (0 delay w l)
  obtain out err w1 l1 where r: "run_isolated (with_log env) (attempt_err (with_log env) limit (w, l)) name (logged h) input (w, l)
      = ((out, err), (w1, l1))" by (metis prod.exhaust)
  have "l1 = l \<or> (\<exists>x. l1 = l @ [x])" using run_isolated_log[OF r] by blast
  moreover have "l' = l \<or> l' = l1"
    using 0 r by (auto simp: retry_loop.simps split: option.splits)
  ultimately show ?case using repeats_ok_short[of "[]" env 0] repeats_ok_short[of "[_]" env 0] by auto
next
  case (Suc k)
  show ?case
  proof (cases "ctx_err env w")
    case (Some e)
    then have "l' = l" using Suc.prems by (simp add: retry_loop.simps)
    then show ?thesis using repeats_ok_short[of "[]" env] by auto
  next
    case None
    obtain out err w1 l1 where r: "run_isolated (with_log env) (attempt_err (with_log env) limit (w, l)) name (logged h) input (w, l)
        = ((out, err), (w1, l1))" by (metis prod.exhaust)
    have one: "l1 = l \<or> (\<exists>x. l1 = l @ [x])" using run_isolated_log[OF r] by blast
    define again where "again = retry_loop (with_log env) name limit (logged h) pol k"
    have "l' = l1 \<or> (\<exists>e p w2. with_cause err (attempt_err env limit w w1) = Some e \<and> \<not> final_error env e \<and>
        again (next_delay p delay) input (w2, l1) = (res, (w', l')))"
      using Suc.prems None r unfolding again_def
      by (subst (asm) retry_loop.simps) (auto split: option.splits if_splits prod.splits bool.splits)
    then show ?thesis
    proof
      assume "l' = l1"
      then show ?thesis using one repeats_ok_short[of "[]" env "Suc k"] repeats_ok_short[of "[_]" env "Suc k"] by auto
    next
      assume "\<exists>e p w2. with_cause err (attempt_err env limit w w1) = Some e \<and> \<not> final_error env e \<and>
        again (next_delay p delay) input (w2, l1) = (res, (w', l'))"
      then obtain e p w2 where e: "with_cause err (attempt_err env limit w w1) = Some e" "\<not> final_error env e"
        and more: "again (next_delay p delay) input (w2, l1) = (res, (w', l'))" by blast
      obtain cs where cs: "l' = l1 @ cs" "repeats_ok env k cs"
        using Suc.IH[OF more[unfolded again_def]] by blast
      from attempt_repeated[OF env r e] show ?thesis
        using cs repeats_ok_more repeats_ok_Cons by fastforce
    qed
  qed
qed

definition logged_node :: "('s, 'w) node \<Rightarrow> ('s, 'w \<times> 's call list) node" where
  "logged_node nd = \<lparr>node_name = node_name nd, node_type = node_type nd,
     node_handler = map_option logged (node_handler nd), node_retry = node_retry nd,
     node_timeout = node_timeout nd, node_command = None\<rparr>"

definition allowed_retries :: "('s, 'w) node \<Rightarrow> retry_policy option \<Rightarrow> nat" where
  "allowed_retries nd fallback =
     (case (case node_retry nd of None \<Rightarrow> fallback | Some p \<Rightarrow> Some p) of
        None \<Rightarrow> 0 | Some p \<Rightarrow> nat (max_retries p))"

text \<open>
  C25: running a node calls its handler at most once more than its policy (or the executor's default)
  allows retries, and every call but the last failed with an error that may be retried: never a
  panic, never a cancellation or a deadline, never an interrupt, never an outcome unsafe to replay.
\<close>

theorem only_retryable_repeated:
  assumes "env_ok env"
    and "execute_node_handler (with_log env) (logged_node nd) input fallback (w, []) = (res, (w', calls))"
  shows "length calls \<le> Suc (allowed_retries nd fallback) \<and> (\<forall>r \<in> set (butlast calls). retryable env r)"
proof -
  have none: "repeats_ok env (allowed_retries nd fallback) []" by (simp add: repeats_ok_def)
  have loop: "repeats_ok env k calls"
    if "retry_loop (with_log env) name limit (logged h) pol k delay input (w, []) = (res, (w', calls))"
    for name limit h pol k delay
    using retry_loop_log[OF assms(1) that] by auto
  have "repeats_ok env (allowed_retries nd fallback) calls"
  proof (cases "node_handler nd")
    case None
    then show ?thesis using assms(2) none by (auto simp: execute_node_handler_def logged_node_def Let_def)
  next
    case (Some h)
    then show ?thesis using assms(2) none
      by (auto simp: execute_node_handler_def logged_node_def allowed_retries_def Let_def
          intro: loop split: option.splits if_splits)
  qed
  then show ?thesis by (simp add: repeats_ok_def)
qed

text \<open>A handler that fails twice before it succeeds, in a world that counts the calls.\<close>

definition flaky_env :: "(nat, nat) node_env" where
  "flaky_env = \<lparr>clone_state = Cloned, ctx_err = (\<lambda>_. None), attempt_err = (\<lambda>_ _ _. None),
     pause = (\<lambda>_ w. (False, w)), unsafe_to_replay = (\<lambda>e. case e of Leaf (NodePanicked _) \<Rightarrow> True | _ \<Rightarrow> False)\<rparr>"

definition flaky_node :: "(nat, nat) node" where
  "flaky_node = (new_node ''n'' (\<lambda>s w. (Some (s + w, if w < 2 then Some (Leaf (PlainError ''no'')) else None), Suc w)))
     \<lparr>node_retry := Some (default_retry_policy\<lparr>multiplier := Fin 1\<rparr>)\<rparr>"

lemma flaky_run:
  "execute_node_handler (with_log flaky_env) (logged_node flaky_node) 5 None (0, []) =
     ((7, None), (3, [Some (5, Some (Leaf (PlainError ''no''))), Some (6, Some (Leaf (PlainError ''no''))), Some (7, None)]))"
  by code_simp

theorem only_retryable_repeated_witness:
  "length [Some (5::nat, Some (Leaf (PlainError ''no''))), Some (6, Some (Leaf (PlainError ''no''))), Some (7, None)]
     \<le> Suc (allowed_retries flaky_node None)"
proof -
  have "env_ok flaky_env" by (simp add: env_ok_def flaky_env_def)
  from only_retryable_repeated[OF this flaky_run] show ?thesis by blast
qed

text \<open>
  A fallback handler reports the failure of the fallback as plain text: an error of the fallback that
  is unsafe to replay, or that asks to wait, is neither for the caller, and a retry policy repeats it.
\<close>

lemma fallback_masks_error:
  assumes "run_isolated env cerr (name @ '' primary'') primary s w = ((s1, Some e1), w1)" "\<not> final_error env e1"
    and "run_isolated env cerr (name @ '' fallback'') fallback s w1 = ((s2, Some e2), w2)"
  shows "fallback_handler env cerr name primary fallback s w =
    (Some (s, Some (Leaf (PlainError ''primary and fallback error''))), w2)"
  using assms by (simp add: fallback_handler_def)

end
