(* ===== verification/GraphPlan.thy ===== *)
theory GraphPlan
  imports GraphNode Kahn
begin

section \<open>Building and compiling a graph\<close>

text \<open>
  \<open>orchestration/graph/graph.go\<close> (the builder, validation, compilation), \<open>compiler.go\<close> (the execution
  plan) and \<open>components.go\<close> (the strongly connected components).
  \<^item> the nodes are a map, an adjacency list or a list of conditional edges is a function that is empty
    where the map has no key, and the labels of a conditional edge are an association list in the
    order the code ranges over them (\<open>None\<close> is the nil map of a dynamic route);
  \<^item> the order in which the code ranges over the maps \<open>Nodes\<close>, \<open>conditionalEdges\<close>, \<open>Dependencies\<close> and
    the levels is the record \<open>graph_orders\<close>;
  \<^item> a router may panic (\<open>None\<close>); state merging, codecs, reducers and checkpoints play no part in the
    plan and are left out, as is the hash that identifies it.
\<close>

subsection \<open>Graphs\<close>

datatype graph_mode = GraphModeDAG | GraphModePregel | OtherMode int

datatype trigger_mode = TriggerAllPredecessors | TriggerAnyPredecessor | OtherTrigger int

record 's cond_edge =
  router :: "'s \<Rightarrow> string option"
  targets :: "(string \<times> string) list option"
  default_target :: string

record plan =
  p_mode :: graph_mode
  p_trigger :: trigger_mode
  p_components :: "string \<rightharpoonup> nat"
  p_cyclic :: "nat list"
  p_entries :: "(nat \<times> string) list"
  p_internal :: "string \<Rightarrow> string list"
  p_external :: "string \<Rightarrow> string list"
  p_order :: "string list"
  p_groups :: "string list list"
  p_critical :: "string list"
  p_deps :: "string \<Rightarrow> string list"

record ('s, 'w) graph =
  g_name :: string
  g_nodes :: "string \<rightharpoonup> ('s, 'w) node"
  g_edges :: "(string \<times> string) list"
  g_entry :: string
  g_adjacency :: "string \<Rightarrow> string list"
  g_conds :: "string \<Rightarrow> 's cond_edge list"
  g_mode :: graph_mode
  g_trigger :: trigger_mode
  g_trigger_explicit :: bool
  g_plan :: "plan option"
  g_compiled :: bool

datatype graph_error = ReservedName string | DuplicateNode string | NoHandler string | MissingNode string
  | MissingEntry string | InvalidMode int | InvalidTrigger int | CycleInDAG
  | UnresolvedCommand string | UnresolvedRoute string | ComponentEntry "string list" "string list"
  | InnerCycle "string list" string | TooManyCycles nat | MixedJoin string

record graph_orders =
  o_nodes :: "string list"
  o_conds :: "string list"
  o_deps :: "string list"
  o_levels :: "string list"
  o_cyclic :: "nat list"

subsection \<open>The builder\<close>

record ('s, 'w) builder =
  b_graph :: "('s, 'w) graph"
  b_err :: "graph_error option"

definition new_graph :: "string \<Rightarrow> ('s, 'w) builder" where
  "new_graph name = \<lparr>b_graph = \<lparr>g_name = name, g_nodes = Map.empty, g_edges = [], g_entry = [],
     g_adjacency = (\<lambda>_. []), g_conds = (\<lambda>_. []), g_mode = GraphModeDAG, g_trigger = TriggerAllPredecessors,
     g_trigger_explicit = False, g_plan = None, g_compiled = False\<rparr>, b_err = None\<rparr>"

definition with_graph :: "(('s, 'w) graph \<Rightarrow> ('s, 'w) graph) \<Rightarrow> ('s, 'w) builder \<Rightarrow> ('s, 'w) builder" where
  "with_graph f b = (if b_err b \<noteq> None then b else b\<lparr>b_graph := f (b_graph b)\<rparr>)"

definition add_node_with_builder :: "('s, 'w) node \<Rightarrow> ('s, 'w) builder \<Rightarrow> ('s, 'w) builder" where
  "add_node_with_builder nd b =
     (let n = node_name nd in
      if b_err b \<noteq> None then b
      else if n = START \<or> n = END then b\<lparr>b_err := Some (ReservedName n)\<rparr>
      else if g_nodes (b_graph b) n \<noteq> None then b\<lparr>b_err := Some (DuplicateNode n)\<rparr>
      else b\<lparr>b_graph := (b_graph b)\<lparr>g_nodes := (g_nodes (b_graph b))(n \<mapsto> nd)\<rparr>\<rparr>)"

definition add_graph_node :: "string \<Rightarrow> ('s, 'w) handler \<Rightarrow> ('s, 'w) builder \<Rightarrow> ('s, 'w) builder" where
  "add_graph_node n h b = add_node_with_builder (new_node n h) b"

definition add_command_node :: "string \<Rightarrow> ('s, 'w) command_handler \<Rightarrow> ('s, 'w) builder \<Rightarrow> ('s, 'w) builder" where
  "add_command_node n h b =
     add_node_with_builder
       \<lparr>node_name = n, node_type = NodeTypeConditional,
        node_handler = Some (\<lambda>s w. case invoke_command h s w of
          (None, w') \<Rightarrow> (None, w') | (Some (s', _, e), w') \<Rightarrow> (Some (s', e), w')),
        node_retry = None, node_timeout = 0, node_command = Some h\<rparr> b"

definition add_edge :: "string \<Rightarrow> string \<Rightarrow> ('s, 'w) builder \<Rightarrow> ('s, 'w) builder" where
  "add_edge from to = with_graph (\<lambda>g. g\<lparr>g_edges := g_edges g @ [(from, to)]\<rparr>)"

definition add_cond_edge :: "string \<Rightarrow> 's cond_edge \<Rightarrow> ('s, 'w) builder \<Rightarrow> ('s, 'w) builder" where
  "add_cond_edge from c = with_graph (\<lambda>g. g\<lparr>g_conds := (g_conds g)(from := g_conds g from @ [c])\<rparr>)"

definition add_conditional_edge :: "string \<Rightarrow> ('s \<Rightarrow> string option) \<Rightarrow> (string \<times> string) list option
    \<Rightarrow> ('s, 'w) builder \<Rightarrow> ('s, 'w) builder" where
  "add_conditional_edge from r ts = add_cond_edge from \<lparr>router = r, targets = ts, default_target = []\<rparr>"

definition add_conditional_edge_with_default :: "string \<Rightarrow> ('s \<Rightarrow> string option) \<Rightarrow> (string \<times> string) list option
    \<Rightarrow> string \<Rightarrow> ('s, 'w) builder \<Rightarrow> ('s, 'w) builder" where
  "add_conditional_edge_with_default from r ts fallback =
     add_cond_edge from \<lparr>router = r, targets = ts, default_target = fallback\<rparr>"

definition set_entry_point :: "string \<Rightarrow> ('s, 'w) builder \<Rightarrow> ('s, 'w) builder" where
  "set_entry_point n = with_graph (\<lambda>g. g\<lparr>g_entry := n\<rparr>)"

definition set_finish_point :: "string list \<Rightarrow> ('s, 'w) builder \<Rightarrow> ('s, 'w) builder" where
  "set_finish_point ns b = fold (\<lambda>n. add_edge n END) ns b"

definition with_execution_mode :: "graph_mode \<Rightarrow> ('s, 'w) builder \<Rightarrow> ('s, 'w) builder" where
  "with_execution_mode m b = b\<lparr>b_graph := (b_graph b)\<lparr>g_mode := m\<rparr>\<rparr>"

definition with_trigger_mode :: "trigger_mode \<Rightarrow> ('s, 'w) builder \<Rightarrow> ('s, 'w) builder" where
  "with_trigger_mode m b = b\<lparr>b_graph := (b_graph b)\<lparr>g_trigger := m, g_trigger_explicit := True\<rparr>\<rparr>"

subsection \<open>Validation\<close>

definition edge_targets :: "'s cond_edge \<Rightarrow> string list" where
  "edge_targets c = (case targets c of None \<Rightarrow> [] | Some ts \<Rightarrow> map snd ts)"

fun first_some :: "('a \<Rightarrow> 'e option) \<Rightarrow> 'a list \<Rightarrow> 'e option" where
  "first_some f [] = None"
| "first_some f (x # xs) = (case f x of Some e \<Rightarrow> Some e | None \<Rightarrow> first_some f xs)"

lemma first_some_None: "first_some f xs = None \<longleftrightarrow> (\<forall>x \<in> set xs. f x = None)"
  by (induction xs) (auto split: option.splits)

definition missing :: "('s, 'w) graph \<Rightarrow> string \<Rightarrow> graph_error option" where
  "missing g n = (if g_nodes g n = None then Some (MissingNode n) else None)"

definition validate_node :: "('s, 'w) graph \<Rightarrow> string \<Rightarrow> graph_error option" where
  "validate_node g n =
     (case g_nodes g n of
        None \<Rightarrow> Some (NoHandler n)
      | Some nd \<Rightarrow> if node_handler nd = None then Some (NoHandler n) else None)"

definition validate_edge :: "('s, 'w) graph \<Rightarrow> string \<times> string \<Rightarrow> graph_error option" where
  "validate_edge g e = (case missing g (fst e) of Some x \<Rightarrow> Some x | None \<Rightarrow> missing g (snd e))"

definition validate_cond :: "('s, 'w) graph \<Rightarrow> 's cond_edge \<Rightarrow> graph_error option" where
  "validate_cond g c =
     (case (if default_target c = [] then None else missing g (default_target c)) of
        Some x \<Rightarrow> Some x
      | None \<Rightarrow> first_some (missing g) (edge_targets c))"

definition validate_from :: "('s, 'w) graph \<Rightarrow> string \<Rightarrow> graph_error option" where
  "validate_from g from =
     (case missing g from of Some x \<Rightarrow> Some x | None \<Rightarrow> first_some (validate_cond g) (g_conds g from))"

definition validate_graph :: "graph_orders \<Rightarrow> ('s, 'w) graph \<Rightarrow> graph_error option" where
  "validate_graph ord g =
     (case first_some (validate_node g) (o_nodes ord) of
        Some x \<Rightarrow> Some x
      | None \<Rightarrow>
          (case first_some (validate_edge g) (g_edges g) of
             Some x \<Rightarrow> Some x
           | None \<Rightarrow> first_some (validate_from g) (o_conds ord)))"

subsection \<open>The execution plan\<close>

definition add_dep :: "string \<Rightarrow> string \<Rightarrow> (string \<Rightarrow> string list) \<Rightarrow> (string \<Rightarrow> string list)" where
  "add_dep from to d = d(to := append_unique (d to) from)"

definition cond_deps :: "string \<Rightarrow> 's cond_edge \<Rightarrow> (string \<Rightarrow> string list) \<Rightarrow> (string \<Rightarrow> string list)" where
  "cond_deps from c d =
     (let d' = fold (add_dep from) (edge_targets c) d in
      if default_target c = [] then d' else add_dep from (default_target c) d')"

definition collect_deps :: "graph_orders \<Rightarrow> ('s, 'w) graph \<Rightarrow> (string \<Rightarrow> string list)" where
  "collect_deps ord g =
     (let d = fold (\<lambda>(from, to). add_dep from to) (g_edges g) (\<lambda>_. []) in
      fold (\<lambda>from. fold (cond_deps from) (g_conds g from)) (o_conds ord) d)"

definition dependencies :: "graph_orders \<Rightarrow> ('s, 'w) graph \<Rightarrow> (string \<Rightarrow> string list)" where
  "dependencies ord g = (\<lambda>n. sort (collect_deps ord g n))"

text \<open>
  \<open>topologicalSort\<close>: Kahn's loop with the sorted queue; the successors of a node are found by ranging
  over the dependencies. As much fuel as there are nodes is enough (\<open>kahn_loop_correct\<close>).
\<close>

definition dep_succs :: "string list \<Rightarrow> (string \<Rightarrow> string list) \<Rightarrow> string \<Rightarrow> string list" where
  "dep_succs keys deps n = concat (map (\<lambda>s. map (\<lambda>_. s) (filter (\<lambda>d. d = n) (deps s))) keys)"

definition graph_topo_sort :: "string list \<Rightarrow> string list \<Rightarrow> (string \<Rightarrow> string list) \<Rightarrow> string list option" where
  "graph_topo_sort names keys deps =
     (let d = (\<lambda>n. if n \<in> set names then int (length (deps n)) else 0);
          queue = sort (filter (\<lambda>n. d n = 0) names) in
      case kahn_loop enq_sorted (dep_succs keys deps) (length names) d queue [] of
        None \<Rightarrow> None
      | Some out \<Rightarrow> if length out = length names then Some out else None)"

fun level_from :: "(string \<rightharpoonup> nat) \<Rightarrow> string list \<Rightarrow> nat \<Rightarrow> nat" where
  "level_from levels [] level = level"
| "level_from levels (d # ds) level =
     (case levels d of
        None \<Rightarrow> level_from levels ds level
      | Some l \<Rightarrow> level_from levels ds (if level \<le> l then l + 1 else level))"

fun assign_levels :: "(string \<Rightarrow> string list) \<Rightarrow> string list \<Rightarrow> (string \<rightharpoonup> nat) \<Rightarrow> nat \<Rightarrow> (string \<rightharpoonup> nat) \<times> nat" where
  "assign_levels deps [] levels m = (levels, m)"
| "assign_levels deps (n # ns) levels m =
     (let l = level_from levels (deps n) 0 in assign_levels deps ns (levels(n \<mapsto> l)) (max m l))"

definition parallel_groups :: "string list \<Rightarrow> string list \<Rightarrow> (string \<Rightarrow> string list) \<Rightarrow> string list list" where
  "parallel_groups keys order deps =
     (if order = [] then []
      else (case assign_levels deps order Map.empty 0 of
        (levels, m) \<Rightarrow> map (\<lambda>i. sort (filter (\<lambda>n. levels n = Some i) keys)) [0..<Suc m]))"

text \<open>\<open>computeCriticalPath\<close>, with the path so far: the visited nodes are those on it.\<close>

fun critical_walk :: "(string \<Rightarrow> string list) \<Rightarrow> nat \<Rightarrow> string \<Rightarrow> string list \<Rightarrow> string list option" where
  "critical_walk adj fuel cur path =
     (if cur = END then Some (path @ [END])
      else if cur \<in> set path then Some path
      else (case fuel of
        0 \<Rightarrow> None
      | Suc f \<Rightarrow> (case adj cur of [] \<Rightarrow> Some (path @ [cur]) | t # _ \<Rightarrow> critical_walk adj f t (path @ [cur]))))"

definition critical_path :: "('s, 'w) graph \<Rightarrow> string list option" where
  "critical_path g = critical_walk (g_adjacency g) (Suc (length (g_edges g))) START []"

definition all_successors :: "('s, 'w) graph \<Rightarrow> string \<Rightarrow> string list" where
  "all_successors g from =
     sort (fold (\<lambda>c acc.
              let acc' = fold (\<lambda>t acc. append_unique acc t) (edge_targets c) acc in
              if default_target c = [] then acc' else append_unique acc' (default_target c))
            (g_conds g from) (g_adjacency g from))"

subsection \<open>Strongly connected components\<close>

text \<open>
  The recursive \<open>visit\<close> of \<open>compileComponents\<close>, with the recursion depth as fuel: a nested visit goes
  to a node not visited before, so one more than the number of nodes is enough (\<open>visit_returns\<close>).
  The stack has its top first.
\<close>

record tarjan =
  t_index :: nat
  t_indices :: "string \<Rightarrow> nat"
  t_low :: "string \<Rightarrow> nat"
  t_on_stack :: "string \<Rightarrow> bool"
  t_stack :: "string list"
  t_groups :: "string list list"

definition tarjan_start :: tarjan where
  "tarjan_start = \<lparr>t_index = 0, t_indices = (\<lambda>_. 0), t_low = (\<lambda>_. 0), t_on_stack = (\<lambda>_. False),
     t_stack = [], t_groups = []\<rparr>"

definition enter_visit :: "string \<Rightarrow> tarjan \<Rightarrow> tarjan" where
  "enter_visit n t =
     (let i = Suc (t_index t) in
      t\<lparr>t_index := i, t_indices := (t_indices t)(n := i), t_low := (t_low t)(n := i),
        t_stack := n # t_stack t, t_on_stack := (t_on_stack t)(n := True)\<rparr>)"

definition lower_to :: "string \<Rightarrow> nat \<Rightarrow> tarjan \<Rightarrow> tarjan" where
  "lower_to n v t = (if v < t_low t n then t\<lparr>t_low := (t_low t)(n := v)\<rparr> else t)"

definition leave_visit :: "string \<Rightarrow> tarjan \<Rightarrow> tarjan" where
  "leave_visit n t =
     (if t_low t n = t_indices t n
      then let grp = takeWhile (\<lambda>x. x \<noteq> n) (t_stack t) @ [n] in
           t\<lparr>t_stack := drop (length grp) (t_stack t),
             t_on_stack := (\<lambda>x. x \<notin> set grp \<and> t_on_stack t x), t_groups := t_groups t @ [sort grp]\<rparr>
      else t)"

fun visit :: "(string \<Rightarrow> string list) \<Rightarrow> nat \<Rightarrow> string \<Rightarrow> tarjan \<Rightarrow> tarjan option"
  and visit_succs :: "(string \<Rightarrow> string list) \<Rightarrow> nat \<Rightarrow> string \<Rightarrow> string list \<Rightarrow> tarjan \<Rightarrow> tarjan option" where
  "visit succ 0 n t = None"
| "visit succ (Suc f) n t = map_option (leave_visit n) (visit_succs succ f n (succ n) (enter_visit n t))"
| "visit_succs succ f n [] t = Some t"
| "visit_succs succ f n (m # ms) t =
     (if t_indices t m = 0
      then (case visit succ f m t of
              None \<Rightarrow> None
            | Some t' \<Rightarrow> visit_succs succ f n ms (lower_to n (t_low t' m) t'))
      else visit_succs succ f n ms (if t_on_stack t m then lower_to n (t_indices t m) t else t))"

fun visit_all :: "(string \<Rightarrow> string list) \<Rightarrow> nat \<Rightarrow> string list \<Rightarrow> tarjan \<Rightarrow> tarjan option" where
  "visit_all succ f [] t = Some t"
| "visit_all succ f (n # ns) t =
     (if t_indices t n = 0
      then (case visit succ f n t of None \<Rightarrow> None | Some t' \<Rightarrow> visit_all succ f ns t')
      else visit_all succ f ns t)"

definition component_groups :: "('s, 'w) graph \<Rightarrow> string list \<Rightarrow> string list list option" where
  "component_groups g names =
     map_option (\<lambda>t. sort_key hd (t_groups t)) (visit_all (all_successors g) (Suc (length names)) names tarjan_start)"

definition cyclic_group :: "('s, 'w) graph \<Rightarrow> string list \<Rightarrow> bool" where
  "cyclic_group g names \<longleftrightarrow>
     1 < length names \<or> (case names of [] \<Rightarrow> False | n # _ \<Rightarrow> n \<in> set (all_successors g n))"

definition assign_components :: "string list list \<Rightarrow> (string \<rightharpoonup> nat)" where
  "assign_components groups =
     fold (\<lambda>(i, ns) m. fold (\<lambda>n m. m(n \<mapsto> i)) ns m) (enumerate 0 groups) Map.empty"

text \<open>A read of the map of components, zero where it has no entry.\<close>

definition component_of :: "(string \<rightharpoonup> nat) \<Rightarrow> string \<Rightarrow> nat" where
  "component_of cmp n = (case cmp n of None \<Rightarrow> 0 | Some i \<Rightarrow> i)"

definition split_preds :: "(string \<rightharpoonup> nat) \<Rightarrow> plan \<Rightarrow> bool \<Rightarrow> string \<Rightarrow> string list" where
  "split_preds cmp p same n =
     (if n \<in> set (p_order p)
      then filter (\<lambda>q. (component_of cmp n = component_of cmp q) = same) (p_deps p n) else [])"

text \<open>The search for a recurrent predecessor, with the \<open>seen\<close> map threaded through.\<close>

fun recurrent :: "(string \<Rightarrow> bool) \<Rightarrow> (string \<Rightarrow> string list) \<Rightarrow> nat \<Rightarrow> string \<Rightarrow> (string \<Rightarrow> bool)
    \<Rightarrow> (bool \<times> (string \<Rightarrow> bool)) option"
  and recurrent_any :: "(string \<Rightarrow> bool) \<Rightarrow> (string \<Rightarrow> string list) \<Rightarrow> nat \<Rightarrow> string list \<Rightarrow> (string \<Rightarrow> bool)
    \<Rightarrow> (bool \<times> (string \<Rightarrow> bool)) option" where
  "recurrent cyc deps 0 n seen = None"
| "recurrent cyc deps (Suc f) n seen =
     (if cyc n then Some (True, seen)
      else if seen n then Some (False, seen)
      else recurrent_any cyc deps f (deps n) (seen(n := True)))"
| "recurrent_any cyc deps f [] seen = Some (False, seen)"
| "recurrent_any cyc deps f (p # ps) seen =
     (case recurrent cyc deps f p seen of
        None \<Rightarrow> None
      | Some (True, s) \<Rightarrow> Some (True, s)
      | Some (False, s) \<Rightarrow> recurrent_any cyc deps f ps s)"

text \<open>The restrictions on a Pregel plan whose nodes wait for all predecessors.\<close>

definition check_commands :: "graph_orders \<Rightarrow> ('s, 'w) graph \<Rightarrow> graph_error option" where
  "check_commands ord g =
     first_some (\<lambda>n. case g_nodes g n of
        Some nd \<Rightarrow> if node_command nd \<noteq> None then Some (UnresolvedCommand n) else None
      | None \<Rightarrow> None) (o_nodes ord)"

definition check_routes :: "graph_orders \<Rightarrow> ('s, 'w) graph \<Rightarrow> graph_error option" where
  "check_routes ord g =
     first_some (\<lambda>from. first_some (\<lambda>c. if targets c = None then Some (UnresolvedRoute from) else None)
       (g_conds g from)) (o_conds ord)"

definition check_component :: "('s, 'w) graph \<Rightarrow> plan \<Rightarrow> string list \<Rightarrow> graph_error + string" where
  "check_component g p grp =
     (let entries = filter (\<lambda>n. p_external p n \<noteq> [] \<or> g_entry g = n) grp in
      case entries of
        [entry] \<Rightarrow>
          (let deps = (\<lambda>n. if n \<in> set grp \<and> n \<noteq> entry then p_internal p n else []);
               keys = filter (\<lambda>n. n \<noteq> entry) grp in
           case graph_topo_sort grp keys deps of
             None \<Rightarrow> Inl (InnerCycle grp entry)
           | Some _ \<Rightarrow> Inr entry)
      | _ \<Rightarrow> Inl (ComponentEntry grp entries))"

fun check_components :: "('s, 'w) graph \<Rightarrow> plan \<Rightarrow> string list list \<Rightarrow> nat list \<Rightarrow> (nat \<times> string) list
    \<Rightarrow> graph_error + (nat \<times> string) list" where
  "check_components g p groups [] acc = Inr acc"
| "check_components g p groups (i # is) acc =
     (case check_component g p (groups ! i) of
        Inl e \<Rightarrow> Inl e
      | Inr entry \<Rightarrow> check_components g p groups is (acc @ [(i, entry)]))"

definition in_cycle :: "plan \<Rightarrow> string \<Rightarrow> bool" where
  "in_cycle p n \<longleftrightarrow> component_of (p_components p) n \<in> set (p_cyclic p)"

definition check_join :: "plan \<Rightarrow> nat \<Rightarrow> string \<Rightarrow> graph_error option option" where
  "check_join p fuel n =
     (if in_cycle p n then Some None
      else
        (let rs = map (\<lambda>q. map_option fst (recurrent (in_cycle p) (p_deps p) fuel q (\<lambda>_. False))) (p_deps p n) in
         if None \<in> set rs then None
         else Some (if Some True \<in> set rs \<and> Some False \<in> set rs then Some (MixedJoin n) else None)))"

fun check_joins :: "plan \<Rightarrow> nat \<Rightarrow> string list \<Rightarrow> graph_error option option" where
  "check_joins p fuel [] = Some None"
| "check_joins p fuel (n # ns) =
     (case check_join p fuel n of
        None \<Rightarrow> None
      | Some (Some e) \<Rightarrow> Some (Some e)
      | Some None \<Rightarrow> check_joins p fuel ns)"

definition compile_components :: "graph_orders \<Rightarrow> ('s, 'w) graph \<Rightarrow> plan \<Rightarrow> (graph_error + plan) option" where
  "compile_components ord g p =
     (case component_groups g (p_order p) of
        None \<Rightarrow> None
      | Some groups \<Rightarrow>
          (let cmp = assign_components groups;
               cyc = map fst (filter (\<lambda>(i, ns). cyclic_group g ns) (enumerate 0 groups));
               p1 = p\<lparr>p_components := cmp, p_cyclic := cyc,
                      p_internal := split_preds cmp p True, p_external := split_preds cmp p False\<rparr> in
           if p_mode p \<noteq> GraphModePregel \<or> p_trigger p \<noteq> TriggerAllPredecessors then Some (Inr p1)
           else
             (case check_commands ord g of
                Some e \<Rightarrow> Some (Inl e)
              | None \<Rightarrow>
                  (case check_routes ord g of
                     Some e \<Rightarrow> Some (Inl e)
                   | None \<Rightarrow>
                       (case check_components g p1 groups (o_cyclic ord) [] of
                          Inl e \<Rightarrow> Some (Inl e)
                        | Inr entries \<Rightarrow>
                            if 1 < length cyc then Some (Inl (TooManyCycles (length cyc)))
                            else
                              (case check_joins p1 (Suc (Suc (length (p_order p)))) (p_order p) of
                                 None \<Rightarrow> None
                               | Some (Some e) \<Rightarrow> Some (Inl e)
                               | Some None \<Rightarrow> Some (Inr (p1\<lparr>p_entries := entries\<rparr>))))))))"

definition compute_execution_plan :: "graph_orders \<Rightarrow> ('s, 'w) graph \<Rightarrow> (graph_error + plan) option" where
  "compute_execution_plan ord g =
     (let trig = (if \<not> g_trigger_explicit g \<and> g_mode g = GraphModePregel then TriggerAnyPredecessor else g_trigger g) in
      case g_mode g of
        OtherMode m \<Rightarrow> Some (Inl (InvalidMode m))
      | _ \<Rightarrow>
          (case trig of
             OtherTrigger k \<Rightarrow> Some (Inl (InvalidTrigger k))
           | _ \<Rightarrow>
               (let deps = dependencies ord g in
                case (if g_mode g = GraphModeDAG then graph_topo_sort (o_nodes ord) (o_deps ord) deps
                      else Some (sort (o_nodes ord))) of
                  None \<Rightarrow> Some (Inl CycleInDAG)
                | Some order \<Rightarrow>
                    (case critical_path g of
                       None \<Rightarrow> None
                     | Some path \<Rightarrow>
                         compile_components ord g
                           \<lparr>p_mode = g_mode g, p_trigger = trig, p_components = Map.empty, p_cyclic = [],
                            p_entries = [], p_internal = (\<lambda>_. []), p_external = (\<lambda>_. []), p_order = order,
                            p_groups = parallel_groups (o_levels ord) order deps, p_critical = path,
                            p_deps = deps\<rparr>))))"

definition build_adjacency :: "(string \<times> string) list \<Rightarrow> string \<Rightarrow> string list" where
  "build_adjacency es = fold (\<lambda>(from, to) adj. adj(from := adj from @ [to])) es (\<lambda>_. [])"

definition compile_graph :: "graph_orders \<Rightarrow> ('s, 'w) graph \<Rightarrow> (graph_error + ('s, 'w) graph) option" where
  "compile_graph ord g =
     (let g1 = g\<lparr>g_adjacency := build_adjacency (g_edges g)\<rparr> in
      case validate_graph ord g1 of
        Some e \<Rightarrow> Some (Inl e)
      | None \<Rightarrow>
          (let g2 = (if g_entry g1 = [] then g1\<lparr>g_entry := START\<rparr> else g1) in
           if g_nodes g2 (g_entry g2) = None then Some (Inl (MissingEntry (g_entry g2)))
           else
             (case compute_execution_plan ord g2 of
                None \<Rightarrow> None
              | Some (Inl e) \<Rightarrow> Some (Inl e)
              | Some (Inr p) \<Rightarrow> Some (Inr (g2\<lparr>g_plan := Some p, g_compiled := True\<rparr>)))))"

definition graph_build :: "graph_orders \<Rightarrow> ('s, 'w) builder \<Rightarrow> (graph_error + ('s, 'w) graph) option" where
  "graph_build ord b =
     (case b_err b of
        Some e \<Rightarrow> Some (Inl e)
      | None \<Rightarrow>
          compile_graph ord ((b_graph b)\<lparr>g_nodes := (g_nodes (b_graph b))(START \<mapsto> start_node, END \<mapsto> end_node)\<rparr>))"

subsection \<open>The dependencies are the edges\<close>

text \<open>\<open>(f, t) \<in> graph_rel g\<close>: control may pass from \<open>f\<close> to \<open>t\<close>, by an edge or by a declared route.\<close>

definition graph_rel :: "('s, 'w) graph \<Rightarrow> (string \<times> string) set" where
  "graph_rel g = {(f, t). (f, t) \<in> set (g_edges g) \<or>
     (\<exists>c \<in> set (g_conds g f). t \<in> set (edge_targets c) \<or> (t = default_target c \<and> t \<noteq> []))}"

lemma add_dep_simps [simp]:
  "set (add_dep f t d x) = (if x = t then insert f (set (d x)) else set (d x))"
  "(\<And>x. distinct (d x)) \<Longrightarrow> distinct (add_dep f t d x)"
  by (auto simp: add_dep_def)

lemma fold_add_dep:
  "set (fold (add_dep f) ts d x) = (if x \<in> set ts then insert f (set (d x)) else set (d x))"
  "(\<And>x. distinct (d x)) \<Longrightarrow> distinct (fold (add_dep f) ts d x)"
  by (induction ts arbitrary: d) (auto split: if_splits)

lemma cond_deps_simps:
  "set (cond_deps f c d x) =
     (if x \<in> set (edge_targets c) \<or> (x = default_target c \<and> x \<noteq> []) then insert f (set (d x)) else set (d x))"
  "(\<And>x. distinct (d x)) \<Longrightarrow> distinct (cond_deps f c d x)"
  by (auto simp: cond_deps_def fold_add_dep Let_def)

lemma fold_cond_deps:
  "set (fold (cond_deps f) cs d x) = set (d x) \<union>
     {y. y = f \<and> (\<exists>c \<in> set cs. x \<in> set (edge_targets c) \<or> (x = default_target c \<and> x \<noteq> []))}"
  "(\<And>x. distinct (d x)) \<Longrightarrow> distinct (fold (cond_deps f) cs d x)"
  by (induction cs arbitrary: d) (auto simp: cond_deps_simps)

lemma fold_from_deps:
  "set (fold (\<lambda>from. fold (cond_deps from) (G from)) fs d x) = set (d x) \<union>
     {f \<in> set fs. \<exists>c \<in> set (G f). x \<in> set (edge_targets c) \<or> (x = default_target c \<and> x \<noteq> [])}"
  "(\<And>x. distinct (d x)) \<Longrightarrow> distinct (fold (\<lambda>from. fold (cond_deps from) (G from)) fs d x)"
  by (induction fs arbitrary: d) (auto simp: fold_cond_deps)

lemma fold_edge_deps:
  "set (fold (\<lambda>(from, to). add_dep from to) es d x) = set (d x) \<union> {f. (f, x) \<in> set es}"
  "(\<And>x. distinct (d x)) \<Longrightarrow> distinct (fold (\<lambda>(from, to). add_dep from to) es d x)"
  by (induction es arbitrary: d) (auto split: if_splits)

text \<open>The orders range over what they should.\<close>

definition orders_ok :: "('s, 'w) graph \<Rightarrow> graph_orders \<Rightarrow> bool" where
  "orders_ok g ord \<longleftrightarrow> distinct (o_nodes ord) \<and> set (o_nodes ord) = dom (g_nodes g) \<and>
     set (o_conds ord) = {f. g_conds g f \<noteq> []} \<and>
     distinct (o_deps ord) \<and> set (o_deps ord) = Range (graph_rel g) \<and>
     distinct (o_levels ord) \<and> set (o_levels ord) = dom (g_nodes g)"

lemma dependencies_spec:
  assumes "orders_ok g ord"
  shows "set (dependencies ord g t) = {f. (f, t) \<in> graph_rel g}" and "distinct (dependencies ord g t)"
    and "sorted (dependencies ord g t)"
proof -
  have "set (collect_deps ord g t) = {f. (f, t) \<in> graph_rel g}"
    using assms by (auto simp: collect_deps_def Let_def fold_from_deps fold_edge_deps graph_rel_def orders_ok_def)
  then show "set (dependencies ord g t) = {f. (f, t) \<in> graph_rel g}" by (simp add: dependencies_def)
  show "distinct (dependencies ord g t)"
    by (auto simp: dependencies_def collect_deps_def Let_def intro!: fold_from_deps fold_edge_deps)
qed (simp add: dependencies_def)

lemma dependencies_deterministic:
  assumes "orders_ok g ord1" "orders_ok g ord2"
  shows "dependencies ord1 g = dependencies ord2 g"
proof
  fix t
  show "dependencies ord1 g t = dependencies ord2 g t"
    using dependencies_spec[OF assms(1), of t] dependencies_spec[OF assms(2), of t]
    by (intro sorted_distinct_set_unique) auto
qed

subsection \<open>The topological order\<close>

text \<open>The loop does not depend on the order in which the successors of a node are relaxed.\<close>

lemma relax_sorted:
  "distinct ts \<Longrightarrow> sorted q \<Longrightarrow> relax enq_sorted ts d q =
     (\<lambda>t. if t \<in> set ts then d t - 1 else d t, sort (q @ filter (\<lambda>t. d t = 1) ts))"
proof (induction ts arbitrary: d q)
  case Nil
  then show ?case by (simp add: sorted_sort_id)
next
  case (Cons u ts)
  define d1 where "d1 = d(u := d u - 1)"
  define q1 where "q1 = (if d1 u = 0 then enq_sorted q u else q)"
  have "sorted q1" using Cons.prems(2) by (simp add: q1_def enq_sorted_def)
  then have ih: "relax enq_sorted ts d1 q1 =
      (\<lambda>t. if t \<in> set ts then d1 t - 1 else d1 t, sort (q1 @ filter (\<lambda>t. d1 t = 1) ts))"
    using Cons by simp
  have f: "filter (\<lambda>t. d1 t = 1) ts = filter (\<lambda>t. d t = 1) ts"
    using Cons.prems(1) by (intro filter_cong) (auto simp: d1_def)
  have "sort (q1 @ filter (\<lambda>t. d t = 1) ts) = sort (q @ filter (\<lambda>t. d t = 1) (u # ts))"
    by (rule properties_for_sort) (auto simp: q1_def d1_def enq_sorted_def)
  moreover have "(\<lambda>t. if t \<in> set ts then d1 t - 1 else d1 t) = (\<lambda>t. if t \<in> set (u # ts) then d t - 1 else d t)"
    using Cons.prems(1) by (auto simp: d1_def)
  moreover have "relax enq_sorted (u # ts) d q = relax enq_sorted ts d1 q1"
    by (simp add: d1_def q1_def Let_def)
  ultimately show ?case by (simp only: ih f)
qed

lemma relax_perm:
  assumes "distinct ts" "distinct ts'" "set ts = set ts'" "sorted q"
  shows "relax enq_sorted ts d q = relax enq_sorted ts' d q" and "sorted (snd (relax enq_sorted ts d q))"
proof -
  have "mset (filter (\<lambda>t. d t = 1) ts) = mset (filter (\<lambda>t. d t = 1) ts')"
    using assms(1-3) by (simp add: set_eq_iff_mset_eq_distinct[symmetric] flip: mset_filter)
  then have "sort (q @ filter (\<lambda>t. d t = 1) ts) = sort (q @ filter (\<lambda>t. d t = 1) ts')"
    by (intro properties_for_sort) auto
  then show "relax enq_sorted ts d q = relax enq_sorted ts' d q"
    using assms by (simp add: relax_sorted)
  show "sorted (snd (relax enq_sorted ts d q))" using assms by (simp add: relax_sorted)
qed

lemma kahn_loop_perm:
  assumes "\<And>n. distinct (succs n) \<and> distinct (succs' n) \<and> set (succs n) = set (succs' n)"
  shows "sorted q \<Longrightarrow> kahn_loop enq_sorted succs fuel d q out = kahn_loop enq_sorted succs' fuel d q out"
proof (induction fuel arbitrary: d q out)
  case 0
  then show ?case by (cases q) simp_all
next
  case (Suc fuel)
  show ?case
  proof (cases q)
    case (Cons n qs)
    have "sorted qs" using Suc.prems Cons by simp
    then have "relax enq_sorted (succs n) d qs = relax enq_sorted (succs' n) d qs"
      "sorted (snd (relax enq_sorted (succs n) d qs))"
      using relax_perm[of "succs n" "succs' n" qs] assms by blast+
    then show ?thesis using Suc.IH Cons by (simp add: case_prod_beta)
  qed simp
qed

lemma dep_succs_eq:
  assumes "\<And>s. distinct (deps s)"
  shows "dep_succs keys deps n = filter (\<lambda>s. n \<in> set (deps s)) keys"
proof -
  have "map (\<lambda>_. s) (filter (\<lambda>d. d = n) (deps s)) = (if n \<in> set (deps s) then [s] else [])" for s
  proof -
    have "filter (\<lambda>d. d = n) xs = (if n \<in> set xs then [n] else [])" if "distinct xs" for xs :: "string list"
      using that by (induction xs) (auto simp: filter_empty_conv)
    then show ?thesis using assms by simp
  qed
  then have "dep_succs keys deps n = concat (map (\<lambda>s. if n \<in> set (deps s) then [s] else []) keys)"
    by (simp add: dep_succs_def)
  moreover have "concat (map (\<lambda>s. if P s then [s] else []) ks) = filter P ks" for P and ks :: "string list"
    by (induction ks) auto
  ultimately show ?thesis by simp
qed

definition dep_rel :: "(string \<Rightarrow> string list) \<Rightarrow> (string \<times> string) set" where
  "dep_rel deps = {(f, t). f \<in> set (deps t)}"

text \<open>
  The dependencies of the nodes of a closed graph: no node is missing, and \<open>keys\<close> are the nodes that
  have one.
\<close>

definition deps_closed :: "string list \<Rightarrow> string list \<Rightarrow> (string \<Rightarrow> string list) \<Rightarrow> bool" where
  "deps_closed names keys deps \<longleftrightarrow> distinct names \<and> distinct keys \<and> (\<forall>t. distinct (deps t)) \<and>
     set keys = {t. deps t \<noteq> []} \<and> set keys \<subseteq> set names \<and> (\<forall>t. set (deps t) \<subseteq> set names)"

lemma graph_topo_sort_spec:
  assumes ok: "deps_closed names keys deps"
  shows "case graph_topo_sort names keys deps of
      Some out \<Rightarrow> acyclic (dep_rel deps) \<and> distinct out \<and> set out = set names \<and>
        (\<forall>xs t ys. out = xs @ t # ys \<longrightarrow> set (deps t) \<subseteq> set xs)
    | None \<Rightarrow> \<not> acyclic (dep_rel deps)"
proof -
  let ?V = "set names" and ?succs = "dep_succs keys deps"
  let ?d = "\<lambda>n. if n \<in> set names then int (length (deps n)) else 0"
  have dd: "distinct (deps s)" for s using ok by (simp add: deps_closed_def)
  have succs: "?succs n = filter (\<lambda>s. n \<in> set (deps s)) keys" for n
    by (rule dep_succs_eq) (rule dd)
  have keys: "distinct keys" "set keys \<subseteq> ?V" "set keys = {t. deps t \<noteq> []}" "distinct names"
    using ok by (auto simp: deps_closed_def)
  have depsV: "set (deps t) \<subseteq> ?V" for t using ok by (simp add: deps_closed_def)
  have rel: "edge_rel ?V ?succs = dep_rel deps"
    using depsV keys(3) by (fastforce simp: edge_rel_def dep_rel_def succs)
  have cnt: "count_list (?succs m) t = (if m \<in> set (deps t) then 1 else 0)" for m t
  proof -
    have "count_list xs t = (if t \<in> set xs then 1 else 0)" if "distinct xs" for xs :: "string list"
      using that by (induction xs) auto
    then show ?thesis using keys(1,3) by (auto simp: succs)
  qed
  have deg: "?d t = (\<Sum>m \<in> ?V. int (count_list (?succs m) t))" for t
  proof -
    have "(\<Sum>m \<in> ?V. int (count_list (?succs m) t)) = (\<Sum>m \<in> ?V. if m \<in> set (deps t) then 1 else 0)"
      by (intro sum.cong) (simp_all add: cnt)
    also have "\<dots> = int (card (set (deps t)))"
      using depsV[of t] by (simp add: sum.If_cases Int_absorb1)
    also have "\<dots> = int (length (deps t))" using dd[of t] by (simp add: distinct_card)
    finally show ?thesis using keys(2,3) by auto
  qed
  obtain out where out: "kahn_loop enq_sorted ?succs (length names) ?d (sort (filter (\<lambda>n. ?d n = 0) names)) [] = Some out"
    "distinct out" "set out \<subseteq> ?V" "topo ?V ?succs out" "set out = ?V \<longleftrightarrow> acyclic (edge_rel ?V ?succs)"
  proof (rule prio.kahn_loop_correct[of ?V ?succs ?d "sort (filter (\<lambda>n. ?d n = 0) names)" "length names"])
    show "\<And>n. n \<in> ?V \<Longrightarrow> set (?succs n) \<subseteq> ?V" using keys(2) by (auto simp: succs)
    show "\<And>t. ?d t = (\<Sum>m \<in> ?V. int (count_list (?succs m) t))" by (rule deg)
  qed (use keys(4) in \<open>auto simp: distinct_card\<close>)
  have len: "length out = length names \<longleftrightarrow> set out = ?V"
    using out(2,3) keys(4) by (metis List.finite_set card_subset_eq distinct_card)
  have before: "set (deps t) \<subseteq> set xs" if "out = xs @ t # ys" for xs t ys
    using out(4) that rel unfolding topo_def dep_rel_def by blast
  show ?thesis using out len before by (simp add: graph_topo_sort_def Let_def rel)
qed

lemma graph_topo_sort_deterministic:
  assumes "deps_closed names keys deps" "deps_closed names' keys' deps" "set names = set names'" 
  shows "graph_topo_sort names keys deps = graph_topo_sort names' keys' deps"
proof -
  let ?d = "\<lambda>n. if n \<in> set names then int (length (deps n)) else 0"
  have mset: "mset names = mset names'"
    using assms by (auto simp: deps_closed_def set_eq_iff_mset_eq_distinct)
  then have len: "length names = length names'" by (rule mset_eq_length)
  have q: "sort (filter (\<lambda>n. ?d n = 0) names) = sort (filter (\<lambda>n. ?d n = 0) names')"
    using mset by (intro properties_for_sort) auto
  have "kahn_loop enq_sorted (dep_succs keys deps) (length names) ?d (sort (filter (\<lambda>n. ?d n = 0) names)) [] =
      kahn_loop enq_sorted (dep_succs keys' deps) (length names') ?d (sort (filter (\<lambda>n. ?d n = 0) names')) []"
    unfolding q len
  proof (rule kahn_loop_perm)
    fix n
    show "distinct (dep_succs keys deps n) \<and> distinct (dep_succs keys' deps n) \<and>
        set (dep_succs keys deps n) = set (dep_succs keys' deps n)"
      using assms by (simp add: deps_closed_def dep_succs_eq)
  qed simp
  then show ?thesis unfolding graph_topo_sort_def Let_def assms(3)[symmetric] len by simp
qed

subsection \<open>The layers\<close>

lemma level_from_bounds:
  "l \<le> level_from levels ds l"
  "d \<in> set ds \<Longrightarrow> levels d = Some k \<Longrightarrow> k < level_from levels ds l"
  "level_from levels ds l = l \<or> (\<exists>d \<in> set ds. \<exists>k. levels d = Some k \<and> level_from levels ds l = Suc k)"
proof -
  have mono: "l \<le> level_from levels ds l" for levels ds l
    by (induction levels ds l rule: level_from.induct) (auto split: option.splits if_splits)
  show "l \<le> level_from levels ds l" by (rule mono)
  show "d \<in> set ds \<Longrightarrow> levels d = Some k \<Longrightarrow> k < level_from levels ds l"
  proof (induction levels ds l rule: level_from.induct)
    case (2 levels e ds level)
    show ?case
    proof (cases "d = e")
      case True
      have "k < (if level \<le> k then k + 1 else level)" by simp
      also have "\<dots> \<le> level_from levels ds (if level \<le> k then k + 1 else level)" by (rule mono)
      finally show ?thesis using 2(4) True by simp
    next
      case False
      then show ?thesis using 2 by (auto split: option.splits)
    qed
  qed simp
  show "level_from levels ds l = l \<or> (\<exists>d \<in> set ds. \<exists>k. levels d = Some k \<and> level_from levels ds l = Suc k)"
  proof (induction levels ds l rule: level_from.induct)
    case (2 levels d ds level)
    show ?case
    proof (cases "levels d")
      case None
      then show ?thesis using 2(1) by auto
    next
      case (Some k)
      then show ?thesis using 2(2)[OF Some] by (cases "level \<le> k") auto
    qed
  qed simp
qed

text \<open>What holds of the levels of the nodes listed so far, when dependencies are listed first.\<close>

definition layered :: "(string \<Rightarrow> string list) \<Rightarrow> (string \<rightharpoonup> nat) \<Rightarrow> bool" where
  "layered deps levels \<longleftrightarrow>
     (\<forall>n l. levels n = Some l \<longrightarrow>
        (\<forall>d \<in> set (deps n). \<exists>k. levels d = Some k \<and> k < l) \<and>
        (l = 0 \<or> (\<exists>d \<in> set (deps n). levels d = Some (l - 1))))"

lemma layered_upd:
  assumes "layered deps levels" "levels n = None" "\<And>d. d \<in> set (deps n) \<Longrightarrow> levels d \<noteq> None"
  shows "layered deps (levels(n \<mapsto> level_from levels (deps n) 0))"
proof -
  have old: "m \<noteq> n" if "levels m = Some l" for m l using that assms(2) by auto
  have keep: "(levels(n \<mapsto> v)) d = levels d" if "levels m = Some l" "d \<in> set (deps m)" for m l d v
    using assms(1,2) that unfolding layered_def by fastforce
  have self: "(levels(n \<mapsto> v)) d = levels d" if "d \<in> set (deps n)" for d v
    using assms(2) assms(3)[OF that] by (cases "d = n") auto
  show ?thesis
    unfolding layered_def
  proof (intro allI impI)
    fix m l
    assume m: "(levels(n \<mapsto> level_from levels (deps n) 0)) m = Some l"
    show "(\<forall>d \<in> set (deps m). \<exists>k. (levels(n \<mapsto> level_from levels (deps n) 0)) d = Some k \<and> k < l) \<and>
        (l = 0 \<or> (\<exists>d \<in> set (deps m). (levels(n \<mapsto> level_from levels (deps n) 0)) d = Some (l - 1)))"
    proof (cases "m = n")
      case True
      then have l: "l = level_from levels (deps n) 0" using m by simp
      have "\<exists>k. levels d = Some k \<and> k < l" if "d \<in> set (deps n)" for d
        using assms(3)[OF that] level_from_bounds(2)[of d "deps n" levels _ 0] that l by auto
      moreover have "l = 0 \<or> (\<exists>d \<in> set (deps n). levels d = Some (l - 1))"
        using level_from_bounds(3)[of levels "deps n" 0] l by auto
      ultimately show ?thesis using True self by simp
    next
      case False
      then have lm: "levels m = Some l" using m by simp
      then show ?thesis using assms(1) keep[OF lm] unfolding layered_def by simp
    qed
  qed
qed

lemma assign_levels_spec:
  assumes "layered deps levels" "dom levels = set done" "distinct (done @ ns)"
    and "\<And>xs t ys. done @ ns = xs @ t # ys \<Longrightarrow> set (deps t) \<subseteq> set xs"
    and "\<And>n l. levels n = Some l \<Longrightarrow> l \<le> m" and "assign_levels deps ns levels m = (levels', m')"
  shows "layered deps levels' \<and> dom levels' = set (done @ ns) \<and> (\<forall>n l. levels' n = Some l \<longrightarrow> l \<le> m')"
  using assms
proof (induction ns arbitrary: "done" levels m)
  case Nil
  then show ?case by simp
next
  case (Cons n ns)
  let ?l = "level_from levels (deps n) 0"
  have "set (deps n) \<subseteq> set done" using Cons.prems(4)[of "done" n ns] by simp
  then have known: "d \<in> set (deps n) \<Longrightarrow> levels d \<noteq> None" for d using Cons.prems(2) by auto
  have new: "levels n = None" using Cons.prems(2,3) by auto
  have run: "assign_levels deps ns (levels(n \<mapsto> ?l)) (max m ?l) = (levels', m')"
    using Cons.prems(6) by (simp add: Let_def)
  have lay: "layered deps (levels(n \<mapsto> ?l))" using layered_upd[OF Cons.prems(1) new known] .
  have dm: "dom (levels(n \<mapsto> ?l)) = set (done @ [n])" using Cons.prems(2) by auto
  have bnd: "l \<le> max m ?l" if "(levels(n \<mapsto> ?l)) x = Some l" for x l
    using that Cons.prems(5)[of x l] by (auto split: if_splits)
  have "layered deps levels' \<and> dom levels' = set ((done @ [n]) @ ns) \<and> (\<forall>n l. levels' n = Some l \<longrightarrow> l \<le> m')"
  proof (rule Cons.IH[OF lay dm _ _ bnd run])
    show "distinct ((done @ [n]) @ ns)" using Cons.prems(3) by simp
    show "set (deps t) \<subseteq> set xs" if "(done @ [n]) @ ns = xs @ t # ys" for xs t ys
      using Cons.prems(4)[of xs t ys] that by simp
  qed
  then show ?case by simp
qed

text \<open>
  The groups of a list that has the dependencies of a node before it: they partition it, a node's
  dependencies are in earlier groups, and one of them in the group just before.
\<close>

definition layers_of :: "(string \<Rightarrow> string list) \<Rightarrow> string list \<Rightarrow> string list list \<Rightarrow> bool" where
  "layers_of deps order gs \<longleftrightarrow> distinct (concat gs) \<and> set (concat gs) = set order \<and>
     (\<forall>i < length gs. \<forall>n \<in> set (gs ! i).
        (\<forall>d \<in> set (deps n). \<exists>j < i. d \<in> set (gs ! j)) \<and>
        (0 < i \<longrightarrow> (\<exists>d \<in> set (deps n). d \<in> set (gs ! (i - 1)))))"

lemma distinct_concat_classes:
  "distinct keys \<Longrightarrow> distinct (concat (map (\<lambda>i. sort (filter (\<lambda>n. f n = Some i) keys)) [0..<k]))"
  by (induction k) (auto simp: distinct_filter)

lemma parallel_groups_spec:
  assumes "distinct order" "distinct keys" "set keys = set order"
    and topo: "\<And>xs t ys. order = xs @ t # ys \<Longrightarrow> set (deps t) \<subseteq> set xs"
  shows "layers_of deps order (parallel_groups keys order deps)"
proof (cases "order = []")
  case True
  then show ?thesis by (simp add: parallel_groups_def layers_of_def)
next
  case False
  obtain levels m where lm: "assign_levels deps order Map.empty 0 = (levels, m)" by force
  have spec: "layered deps levels \<and> dom levels = set order \<and> (\<forall>n l. levels n = Some l \<longrightarrow> l \<le> m)"
    using assign_levels_spec[of deps Map.empty "[]" order 0 levels m] assms(1) topo lm
    by (simp add: layered_def)
  define gs where "gs = map (\<lambda>i. sort (filter (\<lambda>n. levels n = Some i) keys)) [0..<Suc m]"
  have gs: "parallel_groups keys order deps = gs" using False lm by (simp add: parallel_groups_def gs_def)
  have len: "length gs = Suc m" by (simp add: gs_def)
  have nth: "set (gs ! i) = {n \<in> set order. levels n = Some i}" if "i < Suc m" for i
    using that assms(3) by (auto simp: gs_def simp del: upt_Suc)
  have at: "n \<in> set (gs ! l)" "l < Suc m" if "levels n = Some l" for n l
  proof -
    have n: "n \<in> set order" using spec that by (metis domI)
    show "l < Suc m" using spec that by (simp add: less_Suc_eq_le)
    then show "n \<in> set (gs ! l)" using nth n that by simp
  qed
  have "set (concat gs) \<subseteq> set order"
  proof
    fix n assume "n \<in> set (concat gs)"
    then obtain g where "g \<in> set gs" "n \<in> set g" by auto
    then obtain i where "i < length gs" "n \<in> set (gs ! i)" by (metis in_set_conv_nth)
    then show "n \<in> set order" using nth len by simp
  qed
  moreover have "n \<in> set (concat gs)" if "n \<in> set order" for n
  proof -
    have "n \<in> dom levels" using that spec by simp
    then obtain l where "levels n = Some l" by (auto simp: dom_def)
    from at[OF this] have "gs ! l \<in> set gs" "n \<in> set (gs ! l)" using len by simp_all
    then show ?thesis by auto
  qed
  ultimately have "set (concat gs) = set order" by blast
  moreover have "distinct (concat gs)" unfolding gs_def by (rule distinct_concat_classes[OF assms(2)])
  moreover have "(\<forall>d \<in> set (deps n). \<exists>j < i. d \<in> set (gs ! j)) \<and>
      (0 < i \<longrightarrow> (\<exists>d \<in> set (deps n). d \<in> set (gs ! (i - 1))))"
    if "i < length gs" "n \<in> set (gs ! i)" for i n
  proof -
    have "levels n = Some i" using nth that len by simp
    then have "(\<forall>d \<in> set (deps n). \<exists>k. levels d = Some k \<and> k < i) \<and>
        (i = 0 \<or> (\<exists>d \<in> set (deps n). levels d = Some (i - 1)))"
      using spec by (simp add: layered_def)
    then show ?thesis using at(1) by blast
  qed
  ultimately show ?thesis unfolding gs layers_of_def by blast
qed

lemma parallel_groups_deterministic:
  assumes "distinct keys" "distinct keys'" "set keys = set keys'"
  shows "parallel_groups keys order deps = parallel_groups keys' order deps"
proof -
  have "mset keys = mset keys'" using assms by (simp add: set_eq_iff_mset_eq_distinct)
  then have "sort (filter P keys) = sort (filter P keys')" for P
    by (intro properties_for_sort) auto
  then show ?thesis by (simp add: parallel_groups_def)
qed

subsection \<open>The walk of the critical path ends\<close>

lemma adjacency_spec: "build_adjacency es f = map snd (filter (\<lambda>e. fst e = f) es)"
proof -
  have "fold (\<lambda>(from, to) adj. adj(from := adj from @ [to])) es a f = a f @ map snd (filter (\<lambda>e. fst e = f) es)" for a
    by (induction es arbitrary: a) auto
  then show ?thesis by (simp add: build_adjacency_def)
qed

lemma critical_walk_returns:
  assumes "finite F" "\<And>n. adj n \<noteq> [] \<Longrightarrow> n \<in> F"
  shows "distinct path \<Longrightarrow> set path \<subseteq> F \<Longrightarrow> card F < fuel + length path \<Longrightarrow>
    \<exists>p. critical_walk adj fuel cur path = Some p"
proof (induction fuel arbitrary: cur path)
  case 0
  then have "length path \<le> card F" using assms(1) by (metis card_mono distinct_card)
  then show ?case using 0 by simp
next
  case (Suc fuel)
  show ?case
  proof (cases "cur = END \<or> cur \<in> set path \<or> adj cur = []")
    case True
    then show ?thesis by (auto split: list.splits)
  next
    case False
    then obtain t ts where t: "adj cur = t # ts" by (cases "adj cur") auto
    have "\<exists>p. critical_walk adj fuel t (path @ [cur]) = Some p"
      using Suc False assms(2)[of cur] by (intro Suc.IH) auto
    then show ?thesis using False t by simp
  qed
qed

lemma critical_path_returns:
  assumes "g_adjacency g = build_adjacency (g_edges g)"
  shows "\<exists>p. critical_path g = Some p"
proof -
  have "card (fst ` set (g_edges g)) \<le> length (g_edges g)"
    by (metis card_length length_map set_map)
  moreover have "g_adjacency g n \<noteq> [] \<Longrightarrow> n \<in> fst ` set (g_edges g)" for n
    by (auto simp: assms adjacency_spec filter_empty_conv)
  ultimately show ?thesis unfolding critical_path_def
    by (intro critical_walk_returns[of "fst ` set (g_edges g)"]) auto
qed

subsection \<open>The component search and the check of the joins return\<close>

definition unvisited :: "string set \<Rightarrow> tarjan \<Rightarrow> string set" where
  "unvisited V t = {n \<in> V. t_indices t n = 0}"

lemma indices_simps [simp]:
  "t_indices (enter_visit n t) = (t_indices t)(n := Suc (t_index t))"
  "t_indices (lower_to n v t) = t_indices t" "t_indices (leave_visit n t) = t_indices t"
  by (simp_all add: enter_visit_def lower_to_def leave_visit_def Let_def)

lemma unvisited_simps [simp]:
  "unvisited V (enter_visit n t) = unvisited V t - {n}"
  "unvisited V (lower_to n v t) = unvisited V t" "unvisited V (leave_visit n t) = unvisited V t"
  by (auto simp: unvisited_def)

text \<open>As much fuel as there are nodes not visited yet is enough.\<close>

lemma visit_returns:
  assumes "finite V" "\<And>n. n \<in> V \<Longrightarrow> set (succ n) \<subseteq> V"
  shows "n \<in> unvisited V t \<Longrightarrow> card (unvisited V t) \<le> f \<Longrightarrow>
      \<exists>t'. visit succ f n t = Some t' \<and> unvisited V t' \<subseteq> unvisited V t - {n}"
    and "set ms \<subseteq> V \<Longrightarrow> card (unvisited V t) \<le> f \<Longrightarrow>
      \<exists>t'. visit_succs succ f n ms t = Some t' \<and> unvisited V t' \<subseteq> unvisited V t"
proof (induction succ\<equiv>succ f n t and succ\<equiv>succ f n ms t rule: visit_visit_succs.induct)
  case (1 n t)
  have "finite (unvisited V t)" using assms(1) by (simp add: unvisited_def)
  then show ?case using 1 by (auto simp: card_gt_0_iff)
next
  case (2 f n t)
  have fin: "finite (unvisited V t)" using assms(1) by (simp add: unvisited_def)
  have n: "n \<in> V" using 2(2) by (simp add: unvisited_def)
  have "card (unvisited V (enter_visit n t)) \<le> f"
    using 2(2,3) fin by (simp add: card_Diff_singleton)
  from 2(1)[OF assms(2)[OF n] this] show ?case by auto
next
  case (3 f n t)
  then show ?case by simp
next
  case (4 f n m ms t)
  show ?case
  proof (cases "t_indices t m = 0")
    case True
    have m: "m \<in> unvisited V t" using 4(4) True by (simp add: unvisited_def)
    obtain t' where t': "visit succ f m t = Some t'" "unvisited V t' \<subseteq> unvisited V t - {m}"
      using 4(1)[OF True m 4(5)] by blast
    have "finite (unvisited V t)" using assms(1) by (simp add: unvisited_def)
    then have "card (unvisited V t') \<le> card (unvisited V t)" using t'(2) by (intro card_mono) auto
    then have "card (unvisited V (lower_to n (t_low t' m) t')) \<le> f" using 4(5) by simp
    from 4(2)[OF True t'(1) _ this] show ?thesis using 4(4) True t' by auto
  next
    case False
    have "card (unvisited V (if t_on_stack t m then lower_to n (t_indices t m) t else t)) \<le> f" using 4(5) by simp
    from 4(3)[OF False _ this] show ?thesis using 4(4) False by (auto split: if_splits)
  qed
qed

lemma visit_all_returns:
  assumes "finite V" "\<And>n. n \<in> V \<Longrightarrow> set (succ n) \<subseteq> V" "card V \<le> f"
  shows "set ns \<subseteq> V \<Longrightarrow> \<exists>t'. visit_all succ f ns t = Some t'"
proof (induction ns arbitrary: t)
  case (Cons n ns)
  have le: "card (unvisited V t) \<le> f"
    using assms(1,3) card_mono[of V "unvisited V t"] by (auto simp: unvisited_def)
  show ?case
  proof (cases "t_indices t n = 0")
    case True
    then have "n \<in> unvisited V t" using Cons.prems by (simp add: unvisited_def)
    then obtain t' where "visit succ f n t = Some t'"
      using visit_returns(1)[of V succ n t f] assms(1,2) le by blast
    then show ?thesis using Cons True by simp
  next
    case False
    then show ?thesis using Cons by simp
  qed
qed simp

definition unseen :: "string set \<Rightarrow> (string \<Rightarrow> bool) \<Rightarrow> string set" where
  "unseen V seen = {n \<in> V. \<not> seen n}"

lemma recurrent_returns:
  assumes "finite V" "\<And>n. set (deps n) \<subseteq> V"
  shows "n \<in> V \<Longrightarrow> card (unseen V seen) < f \<Longrightarrow>
      \<exists>b s. recurrent cyc deps f n seen = Some (b, s) \<and> unseen V s \<subseteq> unseen V seen"
    and "set ps \<subseteq> V \<Longrightarrow> card (unseen V seen) < f \<Longrightarrow>
      \<exists>b s. recurrent_any cyc deps f ps seen = Some (b, s) \<and> unseen V s \<subseteq> unseen V seen"
proof (induction cyc\<equiv>cyc deps\<equiv>deps f n seen and cyc\<equiv>cyc deps\<equiv>deps f ps seen rule: recurrent_recurrent_any.induct)
  case (1 n seen)
  then show ?case by simp
next
  case (2 f n seen)
  show ?case
  proof (cases "cyc n \<or> seen n")
    case True
    then show ?thesis by (auto simp: ex_bool_eq)
  next
    case False
    have fin: "finite (unseen V seen)" using assms(1) by (simp add: unseen_def)
    have eq: "unseen V (seen(n := True)) = unseen V seen - {n}" by (auto simp: unseen_def)
    have "n \<in> unseen V seen" using False 2(2) by (simp add: unseen_def)
    then have "card (unseen V seen) = Suc (card (unseen V seen - {n}))"
      using fin by (metis card.remove)
    then have "card (unseen V (seen(n := True))) < f" using 2(3) eq by simp
    from 2(1)[OF _ _ assms(2) this] show ?thesis using False eq by auto
  qed
next
  case (3 f seen)
  then show ?case by (simp add: ex_bool_eq)
next
  case (4 f p ps seen)
  obtain b s where s: "recurrent cyc deps f p seen = Some (b, s)" "unseen V s \<subseteq> unseen V seen"
    using 4(1) 4(3,4) by auto
  show ?case
  proof (cases b)
    case True
    then show ?thesis using s by (simp add: ex_bool_eq)
  next
    case False
    have "finite (unseen V seen)" using assms(1) by (simp add: unseen_def)
    then have "card (unseen V s) < f" using s(2) 4(4) by (meson card_mono le_less_trans)
    moreover have "set ps \<subseteq> V" using 4(3) by simp
    ultimately have "\<exists>b' s'. recurrent_any cyc deps f ps s = Some (b', s') \<and> unseen V s' \<subseteq> unseen V s"
      using 4(2)[OF s(1) refl] False by simp
    then show ?thesis using s False by fastforce
  qed
qed

lemma check_joins_returns:
  assumes "finite V" "\<And>n. set (p_deps p n) \<subseteq> V" "card V < f"
  shows "\<exists>r. check_joins p f ns = Some r"
proof (induction ns)
  case (Cons n ns)
  have "\<exists>b s. recurrent (in_cycle p) (p_deps p) f q (\<lambda>_. False) = Some (b, s)" if "q \<in> set (p_deps p n)" for q
    using recurrent_returns(1)[of V "p_deps p" q "\<lambda>_. False" f "in_cycle p"] assms that
    by (auto simp: unseen_def)
  then have "None \<notin> set (map (\<lambda>q. map_option fst (recurrent (in_cycle p) (p_deps p) f q (\<lambda>_. False))) (p_deps p n))"
    by (auto simp: image_iff)
  then have "\<exists>r. check_join p f n = Some r" by (auto simp: check_join_def Let_def)
  then show ?case using Cons by (auto split: option.splits)
qed simp

subsection \<open>Building a graph\<close>

lemma all_successors_spec:
  assumes "g_adjacency g = build_adjacency (g_edges g)"
  shows "set (all_successors g f) = {t. (f, t) \<in> graph_rel g}"
proof -
  have au: "set (fold (\<lambda>t acc. append_unique acc t) ts acc) = set acc \<union> set ts" for ts acc :: "string list"
    by (induction ts arbitrary: acc) auto
  have "set (fold (\<lambda>c acc. let acc' = fold (\<lambda>t acc. append_unique acc t) (edge_targets c) acc in
      if default_target c = [] then acc' else append_unique acc' (default_target c)) cs acc) =
      set acc \<union> {t. \<exists>c \<in> set cs. t \<in> set (edge_targets c) \<or> (t = default_target c \<and> t \<noteq> [])}"
    for cs :: "'a cond_edge list" and acc
    by (induction cs arbitrary: acc) (auto simp: au Let_def)
  then show ?thesis
    by (auto simp: all_successors_def assms adjacency_spec graph_rel_def image_iff)
qed

text \<open>The declarations refer to nodes of the graph only.\<close>

definition refs_exist :: "('s, 'w) graph \<Rightarrow> bool" where
  "refs_exist g \<longleftrightarrow>
     (\<forall>(f, t) \<in> graph_rel g. f \<in> dom (g_nodes g) \<and> t \<in> dom (g_nodes g)) \<and>
     (\<forall>f. g_conds g f \<noteq> [] \<longrightarrow> f \<in> dom (g_nodes g))"

definition handlers_exist :: "('s, 'w) graph \<Rightarrow> bool" where
  "handlers_exist g \<longleftrightarrow> (\<forall>n nd. g_nodes g n = Some nd \<longrightarrow> node_handler nd \<noteq> None)"

lemma missing_None: "missing g n = None \<longleftrightarrow> n \<in> dom (g_nodes g)"
  by (auto simp: missing_def)

lemma validate_cond_None:
  "validate_cond g c = None \<longleftrightarrow>
     (\<forall>t. t \<in> set (edge_targets c) \<or> (t = default_target c \<and> t \<noteq> []) \<longrightarrow> t \<in> dom (g_nodes g))"
proof -
  have "validate_cond g c = None \<longleftrightarrow>
      (default_target c = [] \<or> missing g (default_target c) = None) \<and> (\<forall>t \<in> set (edge_targets c). missing g t = None)"
    by (auto simp: validate_cond_def first_some_None split: option.splits)
  then show ?thesis unfolding missing_None by auto
qed

lemma validate_from_None:
  "validate_from g f = None \<longleftrightarrow> f \<in> dom (g_nodes g) \<and> (\<forall>c \<in> set (g_conds g f). validate_cond g c = None)"
  using missing_None[of g f] by (auto simp: validate_from_def first_some_None split: option.splits)

lemma validate_graph_None:
  assumes "orders_ok g ord"
  shows "validate_graph ord g = None \<longleftrightarrow> handlers_exist g \<and> refs_exist g"
proof -
  have nodes: "first_some (validate_node g) (o_nodes ord) = None \<longleftrightarrow> handlers_exist g"
  proof -
    have vn: "validate_node g n = None \<longleftrightarrow> (\<exists>nd. g_nodes g n = Some nd \<and> node_handler nd \<noteq> None)" for n
      by (auto simp: validate_node_def split: option.splits)
    have "first_some (validate_node g) (o_nodes ord) = None \<longleftrightarrow> (\<forall>n \<in> dom (g_nodes g). validate_node g n = None)"
      using assms by (simp add: first_some_None orders_ok_def)
    moreover have "(\<forall>n \<in> dom m. \<exists>nd. m n = Some nd \<and> P nd) \<longleftrightarrow> (\<forall>n nd. m n = Some nd \<longrightarrow> P nd)"
      for m :: "string \<rightharpoonup> ('a, 'b) node" and P
      unfolding Ball_def domIff by (metis not_None_eq option.inject)
    ultimately show ?thesis unfolding vn handlers_exist_def by simp
  qed
  have edge: "validate_edge g e = None \<longleftrightarrow> fst e \<in> dom (g_nodes g) \<and> snd e \<in> dom (g_nodes g)" for e
    by (auto simp: validate_edge_def missing_def)
  have froms: "first_some (validate_from g) (o_conds ord) = None \<longleftrightarrow>
      (\<forall>f. g_conds g f \<noteq> [] \<longrightarrow> f \<in> dom (g_nodes g) \<and> (\<forall>c \<in> set (g_conds g f). validate_cond g c = None))"
    using assms unfolding first_some_None validate_from_None orders_ok_def by blast
  have "first_some (validate_edge g) (g_edges g) = None \<and> first_some (validate_from g) (o_conds ord) = None \<longleftrightarrow> refs_exist g"
    (is "?l \<longleftrightarrow> ?r")
  proof
    assume l: ?l
    have "f \<in> dom (g_nodes g) \<and> t \<in> dom (g_nodes g)" if e: "(f, t) \<in> graph_rel g" for f t
    proof (cases "(f, t) \<in> set (g_edges g)")
      case True
      then show ?thesis using l edge[of "(f, t)"] unfolding first_some_None[of "validate_edge g"] by simp
    next
      case False
      then obtain c where "c \<in> set (g_conds g f)" "t \<in> set (edge_targets c) \<or> (t = default_target c \<and> t \<noteq> [])"
        using e by (auto simp: graph_rel_def)
      then show ?thesis using l unfolding froms validate_cond_None by (metis empty_iff list.set(1))
    qed
    then show ?r using l unfolding refs_exist_def froms by blast
  next
    have cond: "?r \<Longrightarrow> c \<in> set (g_conds g f) \<Longrightarrow> validate_cond g c = None" for f c
      unfolding validate_cond_None refs_exist_def graph_rel_def by blast
    have "?r \<Longrightarrow> e \<in> set (g_edges g) \<Longrightarrow> validate_edge g e = None" for e
      unfolding edge refs_exist_def graph_rel_def by (cases e) auto
    then show "?r \<Longrightarrow> ?l"
      using cond unfolding first_some_None[of "validate_edge g"] froms by (auto simp: refs_exist_def)
  qed
  then show ?thesis using nodes by (auto simp: validate_graph_def split: option.splits)
qed

text \<open>The fields that compilation sets play no part in the orders or the references.\<close>

lemma irrelevant_fields [simp]:
  "graph_rel (g\<lparr>g_adjacency := a\<rparr>) = graph_rel g" "graph_rel (g\<lparr>g_entry := n\<rparr>) = graph_rel g"
  "orders_ok (g\<lparr>g_adjacency := a\<rparr>) = orders_ok g" "orders_ok (g\<lparr>g_entry := n\<rparr>) = orders_ok g"
  "refs_exist (g\<lparr>g_adjacency := a\<rparr>) = refs_exist g" "refs_exist (g\<lparr>g_entry := n\<rparr>) = refs_exist g"
  "handlers_exist (g\<lparr>g_adjacency := a\<rparr>) = handlers_exist g" "handlers_exist (g\<lparr>g_entry := n\<rparr>) = handlers_exist g"
  by (simp_all add: graph_rel_def orders_ok_def refs_exist_def handlers_exist_def fun_eq_iff)

lemma deps_closed_graph:
  assumes "orders_ok g ord" "refs_exist g"
  shows "deps_closed (o_nodes ord) (o_deps ord) (dependencies ord g)"
proof -
  have "dependencies ord g t \<noteq> [] \<longleftrightarrow> t \<in> Range (graph_rel g)" for t
    using dependencies_spec(1)[OF assms(1), of t] by (cases "dependencies ord g t") auto
  moreover have "Range (graph_rel g) \<subseteq> dom (g_nodes g)" "{f. (f, t) \<in> graph_rel g} \<subseteq> dom (g_nodes g)" for t
    using assms(2) by (auto simp: refs_exist_def)
  ultimately show ?thesis
    using assms(1) dependencies_spec(2)[OF assms(1)]
    unfolding deps_closed_def dependencies_spec(1)[OF assms(1)] orders_ok_def by blast
qed

lemma dep_rel_dependencies: "orders_ok g ord \<Longrightarrow> dep_rel (dependencies ord g) = graph_rel g"
  by (simp add: dep_rel_def dependencies_spec)

text \<open>What the plan of a graph that refers to its own nodes is computed from.\<close>

lemma component_groups_returns:
  assumes "g_adjacency g = build_adjacency (g_edges g)" "refs_exist g" "distinct names" "set names = dom (g_nodes g)"
  shows "\<exists>gs. component_groups g names = Some gs"
proof -
  have "set (all_successors g n) \<subseteq> dom (g_nodes g)" for n
    using assms(2) unfolding all_successors_spec[OF assms(1)] refs_exist_def by blast
  then have "\<exists>t. visit_all (all_successors g) (Suc (length names)) names tarjan_start = Some t"
    using assms(3) unfolding assms(4)[symmetric] by (intro visit_all_returns[of "set names"]) (auto simp: distinct_card)
  then show ?thesis by (auto simp: component_groups_def)
qed

lemma compile_components_returns:
  assumes "g_adjacency g = build_adjacency (g_edges g)" "refs_exist g" "distinct (p_order p)"
    "set (p_order p) = dom (g_nodes g)" "\<And>n. set (p_deps p n) \<subseteq> dom (g_nodes g)"
  shows "\<exists>r. compile_components ord g p = Some r"
proof -
  obtain gs where gs: "component_groups g (p_order p) = Some gs"
    using component_groups_returns[OF assms(1-4)] by blast
  let ?p1 = "p\<lparr>p_components := assign_components gs,
      p_cyclic := map fst (filter (\<lambda>(i, y). cyclic_group g y) (enumerate 0 gs)),
      p_internal := split_preds (assign_components gs) p True,
      p_external := split_preds (assign_components gs) p False\<rparr>"
  obtain r where r: "check_joins ?p1 (Suc (Suc (length (p_order p)))) (p_order p) = Some r"
  proof -
    have "\<exists>r. check_joins ?p1 (Suc (Suc (length (p_order p)))) (p_order p) = Some r"
      using assms(3,5) unfolding assms(4)[symmetric]
      by (intro check_joins_returns[of "set (p_order p)"]) (auto simp: distinct_card)
    then show ?thesis using that by blast
  qed
  show ?thesis
    unfolding compile_components_def gs option.case Let_def
    by (auto simp: r split: option.splits sum.splits)
qed

text \<open>What compilation computes from a graph with its adjacency lists and its entry point.\<close>

lemma compute_execution_plan_returns:
  assumes "g_adjacency g = build_adjacency (g_edges g)" "refs_exist g" "orders_ok g ord"
  shows "\<exists>r. compute_execution_plan ord g = Some r"
proof -
  let ?deps = "dependencies ord g"
  have names: "distinct (o_nodes ord)" "set (o_nodes ord) = dom (g_nodes g)" using assms(3) by (auto simp: orders_ok_def)
  have deps: "set (?deps t) \<subseteq> dom (g_nodes g)" for t
    using assms(2) dependencies_spec(1)[OF assms(3), of t] unfolding refs_exist_def by blast
  have order: "distinct order \<and> set order = dom (g_nodes g)"
    if "graph_topo_sort (o_nodes ord) (o_deps ord) ?deps = Some order \<or> order = sort (o_nodes ord)" for order
    using that graph_topo_sort_spec[OF deps_closed_graph[OF assms(3,2)]] names by auto
  obtain path where path: "critical_path g = Some path" using critical_path_returns[OF assms(1)] by blast
  have comp: "\<exists>r. compile_components ord g p = Some r"
    if "p_deps p = ?deps"
      "graph_topo_sort (o_nodes ord) (o_deps ord) ?deps = Some (p_order p) \<or> p_order p = sort (o_nodes ord)" for p
    using order[OF that(2)] deps that(1) by (intro compile_components_returns[OF assms(1,2)]) simp_all
  show ?thesis
    unfolding compute_execution_plan_def Let_def path option.case
    by (auto split: graph_mode.split trigger_mode.split option.split intro!: comp)
qed

text \<open>The plan of a DAG, when it is acyclic.\<close>

definition dag_plan :: "graph_orders \<Rightarrow> ('s, 'w) graph \<Rightarrow> string list \<Rightarrow> plan" where
  "dag_plan ord g order =
     (let deps = dependencies ord g;
          groups = the (component_groups g order);
          p = \<lparr>p_mode = GraphModeDAG, p_trigger = g_trigger g, p_components = Map.empty, p_cyclic = [],
               p_entries = [], p_internal = (\<lambda>_. []), p_external = (\<lambda>_. []), p_order = order,
               p_groups = parallel_groups (o_levels ord) order deps, p_critical = the (critical_path g),
               p_deps = deps\<rparr> in
      p\<lparr>p_components := assign_components groups,
        p_cyclic := map fst (filter (\<lambda>(i, ns). cyclic_group g ns) (enumerate 0 groups)),
        p_internal := split_preds (assign_components groups) p True,
        p_external := split_preds (assign_components groups) p False\<rparr>)"

definition known_trigger :: "trigger_mode \<Rightarrow> bool" where
  "known_trigger k \<longleftrightarrow> k = TriggerAllPredecessors \<or> k = TriggerAnyPredecessor"

lemma compute_execution_plan_dag:
  assumes "g_adjacency g = build_adjacency (g_edges g)" "refs_exist g" "orders_ok g ord" "g_mode g = GraphModeDAG"
  shows "compute_execution_plan ord g = Some (Inr p) \<longleftrightarrow>
    known_trigger (g_trigger g) \<and>
    (\<exists>order. graph_topo_sort (o_nodes ord) (o_deps ord) (dependencies ord g) = Some order \<and> p = dag_plan ord g order)"
proof -
  obtain path where path: "critical_path g = Some path" using critical_path_returns[OF assms(1)] by blast
  have groups: "\<exists>gs. component_groups g order = Some gs"
    if "graph_topo_sort (o_nodes ord) (o_deps ord) (dependencies ord g) = Some order" for order
    using that graph_topo_sort_spec[OF deps_closed_graph[OF assms(3,2)]] assms(3)
    by (intro component_groups_returns[OF assms(1,2)]) (auto simp: orders_ok_def)
  have comp: "compile_components ord g
      \<lparr>p_mode = GraphModeDAG, p_trigger = g_trigger g, p_components = Map.empty, p_cyclic = [],
       p_entries = [], p_internal = (\<lambda>_. []), p_external = (\<lambda>_. []), p_order = order,
       p_groups = parallel_groups (o_levels ord) order (dependencies ord g), p_critical = path,
       p_deps = dependencies ord g\<rparr> = Some (Inr (dag_plan ord g order))"
    if "graph_topo_sort (o_nodes ord) (o_deps ord) (dependencies ord g) = Some order" for order
    using groups[OF that] by (auto simp: compile_components_def dag_plan_def Let_def path)
  show ?thesis
    by (cases "g_trigger g"; cases "graph_topo_sort (o_nodes ord) (o_deps ord) (dependencies ord g)")
      (auto simp: compute_execution_plan_def Let_def path assms(4) known_trigger_def dest: comp)
qed

text \<open>The graph a builder compiles: \<open>Build\<close> adds the two special nodes.\<close>

definition closed_graph :: "('s, 'w) builder \<Rightarrow> ('s, 'w) graph" where
  "closed_graph b = (b_graph b)\<lparr>g_nodes := (g_nodes (b_graph b))(START \<mapsto> start_node, END \<mapsto> end_node)\<rparr>"

definition ready_graph :: "('s, 'w) builder \<Rightarrow> ('s, 'w) graph" where
  "ready_graph b = (closed_graph b)\<lparr>g_adjacency := build_adjacency (g_edges (b_graph b)),
     g_entry := (if g_entry (b_graph b) = [] then START else g_entry (b_graph b))\<rparr>"

lemma build_graph_eq:
  assumes "orders_ok (closed_graph b) ord"
  shows "graph_build ord b = Some (Inr g) \<longleftrightarrow>
    b_err b = None \<and> handlers_exist (closed_graph b) \<and> refs_exist (closed_graph b) \<and>
    g_entry (ready_graph b) \<in> dom (g_nodes (closed_graph b)) \<and>
    (\<exists>p. compute_execution_plan ord (ready_graph b) = Some (Inr p) \<and>
         g = (ready_graph b)\<lparr>g_plan := Some p, g_compiled := True\<rparr>)"
    and "refs_exist (closed_graph b) \<longrightarrow> (\<exists>r. compute_execution_plan ord (ready_graph b) = Some r) \<Longrightarrow>
      \<exists>r. graph_build ord b = Some r"
proof -
  let ?g1 = "(closed_graph b)\<lparr>g_adjacency := build_adjacency (g_edges (b_graph b))\<rparr>"
  have valid: "validate_graph ord ?g1 = None \<longleftrightarrow> handlers_exist (closed_graph b) \<and> refs_exist (closed_graph b)"
    using validate_graph_None[of ?g1 ord] assms by simp
  have edges: "g_edges (closed_graph b) = g_edges (b_graph b)" by (simp add: closed_graph_def)
  have ready: "(if g_entry ?g1 = [] then ?g1\<lparr>g_entry := START\<rparr> else ?g1) = ready_graph b"
    by (simp add: ready_graph_def closed_graph_def)
  have eq: "graph_build ord b =
      (case b_err b of
         Some e \<Rightarrow> Some (Inl e)
       | None \<Rightarrow>
          (case validate_graph ord ?g1 of
             Some e \<Rightarrow> Some (Inl e)
           | None \<Rightarrow>
              if g_nodes (ready_graph b) (g_entry (ready_graph b)) = None
              then Some (Inl (MissingEntry (g_entry (ready_graph b))))
              else (case compute_execution_plan ord (ready_graph b) of
                      None \<Rightarrow> None
                    | Some (Inl e) \<Rightarrow> Some (Inl e)
                    | Some (Inr p) \<Rightarrow> Some (Inr ((ready_graph b)\<lparr>g_plan := Some p, g_compiled := True\<rparr>)))))"
    unfolding graph_build_def compile_graph_def closed_graph_def[symmetric] Let_def ready[unfolded edges] edges ..
  have nodes: "g_nodes (ready_graph b) = g_nodes (closed_graph b)" by (simp add: ready_graph_def)
  show "graph_build ord b = Some (Inr g) \<longleftrightarrow>
    b_err b = None \<and> handlers_exist (closed_graph b) \<and> refs_exist (closed_graph b) \<and>
    g_entry (ready_graph b) \<in> dom (g_nodes (closed_graph b)) \<and>
    (\<exists>p. compute_execution_plan ord (ready_graph b) = Some (Inr p) \<and>
         g = (ready_graph b)\<lparr>g_plan := Some p, g_compiled := True\<rparr>)"
    using valid unfolding eq domIff nodes[symmetric]
    by (cases "b_err b"; cases "validate_graph ord ?g1"; cases "compute_execution_plan ord (ready_graph b)")
      (auto split: sum.splits)
  show "refs_exist (closed_graph b) \<longrightarrow> (\<exists>r. compute_execution_plan ord (ready_graph b) = Some r) \<Longrightarrow>
      \<exists>r. graph_build ord b = Some r"
    using valid unfolding eq
    by (cases "b_err b"; cases "validate_graph ord ?g1") (auto split: sum.split)
qed

lemma ready_graph_simps:
  "g_adjacency (ready_graph b) = build_adjacency (g_edges (ready_graph b))"
  "refs_exist (ready_graph b) = refs_exist (closed_graph b)" "orders_ok (ready_graph b) = orders_ok (closed_graph b)"
  "graph_rel (ready_graph b) = graph_rel (closed_graph b)" "g_nodes (ready_graph b) = g_nodes (closed_graph b)"
  "g_mode (ready_graph b) = g_mode (b_graph b)" "g_trigger (ready_graph b) = g_trigger (b_graph b)"
  "START \<in> dom (g_nodes (closed_graph b))"
  by (simp_all add: ready_graph_def closed_graph_def START_def END_def)

subsection \<open>Properties\<close>

text \<open>
  Building a graph always answers, in either mode and for every trigger: the sort, the search for
  the strongly connected components, the walk of the critical path and the search for recurrent
  predecessors end, whatever the edges.
\<close>

lemma build_returns:
  assumes "orders_ok (closed_graph b) ord"
  shows "\<exists>r. graph_build ord b = Some r"
  using compute_execution_plan_returns[of "ready_graph b" ord] assms
  by (intro build_graph_eq(2)) (simp_all add: ready_graph_simps)

text \<open>
  C23: a DAG builds exactly when the builder met no error, every node has a handler, every edge and
  route refers to nodes of the graph, the entry point is one, the trigger is known, and the edges and
  routes form no cycle. The answer does not depend on the order in which the maps are ranged over.
\<close>

theorem build_succeeds_iff:
  assumes "orders_ok (closed_graph b) ord" "g_mode (b_graph b) = GraphModeDAG"
  shows "(\<exists>g. graph_build ord b = Some (Inr g)) \<longleftrightarrow>
    b_err b = None \<and> handlers_exist (closed_graph b) \<and> refs_exist (closed_graph b) \<and>
    (g_entry (b_graph b) = [] \<or> g_entry (b_graph b) \<in> dom (g_nodes (closed_graph b))) \<and>
    known_trigger (g_trigger (b_graph b)) \<and> acyclic (graph_rel (closed_graph b))"
proof -
  have entry: "g_entry (ready_graph b) \<in> dom (g_nodes (closed_graph b)) \<longleftrightarrow>
      g_entry (b_graph b) = [] \<or> g_entry (b_graph b) \<in> dom (g_nodes (closed_graph b))"
    using ready_graph_simps(8)[of b] by (simp add: ready_graph_def)
  have plan: "(\<exists>p. compute_execution_plan ord (ready_graph b) = Some (Inr p)) \<longleftrightarrow>
      known_trigger (g_trigger (b_graph b)) \<and> acyclic (graph_rel (closed_graph b))"
    if "refs_exist (closed_graph b)"
  proof -
    have "(\<exists>order. graph_topo_sort (o_nodes ord) (o_deps ord) (dependencies ord (ready_graph b)) = Some order) \<longleftrightarrow>
        acyclic (graph_rel (closed_graph b))"
      using graph_topo_sort_spec[OF deps_closed_graph[of "ready_graph b" ord]] that assms(1)
      by (auto simp: ready_graph_simps dep_rel_dependencies split: option.splits)
    then show ?thesis
      using compute_execution_plan_dag[of "ready_graph b" ord] that assms by (auto simp: ready_graph_simps)
  qed
  show ?thesis using build_graph_eq(1)[OF assms(1)] plan unfolding entry by blast
qed

text \<open>What a successful build of a DAG is made of.\<close>

lemma built_dag:
  assumes "orders_ok (closed_graph b) ord" "g_mode (b_graph b) = GraphModeDAG" "graph_build ord b = Some (Inr g)"
  shows "\<exists>p order. g = (ready_graph b)\<lparr>g_plan := Some p, g_compiled := True\<rparr> \<and> refs_exist (ready_graph b) \<and>
    g_entry (ready_graph b) \<in> dom (g_nodes (ready_graph b)) \<and>
    graph_topo_sort (o_nodes ord) (o_deps ord) (dependencies ord (ready_graph b)) = Some order \<and>
    p = dag_plan ord (ready_graph b) order"
proof -
  let ?r = "ready_graph b"
  obtain p where p: "compute_execution_plan ord ?r = Some (Inr p)" "g = ?r\<lparr>g_plan := Some p, g_compiled := True\<rparr>"
    and refs: "refs_exist ?r" and entry: "g_entry ?r \<in> dom (g_nodes ?r)"
    using assms(3) unfolding build_graph_eq(1)[OF assms(1)] ready_graph_simps(2,5) by blast
  have ok: "orders_ok ?r ord" "g_mode ?r = GraphModeDAG" using assms by (simp_all add: ready_graph_simps)
  show ?thesis using p refs entry compute_execution_plan_dag[OF ready_graph_simps(1) refs ok] by blast
qed

text \<open>
  C22: the plan of a graph built as a DAG lists every node once, after everything control may come
  from; its dependencies of a node are exactly those; and its parallel groups are the layers of the
  graph, so the nodes of a group do not depend on each other and each waits for one of the group before.
\<close>

theorem plan_correct:
  assumes "orders_ok (closed_graph b) ord" "g_mode (b_graph b) = GraphModeDAG" "graph_build ord b = Some (Inr g)"
  shows "\<exists>p. g_plan g = Some p \<and> distinct (p_order p) \<and> set (p_order p) = dom (g_nodes g) \<and>
    (\<forall>f t. (f, t) \<in> graph_rel g \<longrightarrow> index_in (p_order p) f < index_in (p_order p) t) \<and>
    (\<forall>t. set (p_deps p t) = {f. (f, t) \<in> graph_rel g}) \<and>
    layers_of (p_deps p) (p_order p) (p_groups p)"
proof -
  let ?r = "ready_graph b"
  obtain p order where p: "g = ?r\<lparr>g_plan := Some p, g_compiled := True\<rparr>" and refs: "refs_exist ?r"
    and topo: "graph_topo_sort (o_nodes ord) (o_deps ord) (dependencies ord ?r) = Some order"
    and pd: "p = dag_plan ord ?r order"
    using built_dag[OF assms] by blast
  have ok: "orders_ok ?r ord" using assms(1) by (simp add: ready_graph_simps)
  have fields: "p_order p = order" "p_deps p = dependencies ord ?r"
    "p_groups p = parallel_groups (o_levels ord) order (dependencies ord ?r)"
    by (simp_all add: pd dag_plan_def Let_def)
  have g: "graph_rel g = graph_rel ?r" "g_nodes g = g_nodes ?r" by (simp_all add: p graph_rel_def)
  have order: "distinct order" "set order = set (o_nodes ord)"
    "\<And>xs t ys. order = xs @ t # ys \<Longrightarrow> set (dependencies ord ?r t) \<subseteq> set xs"
    using graph_topo_sort_spec[OF deps_closed_graph[OF ok refs]] topo by auto
  have nodes: "set (o_nodes ord) = dom (g_nodes ?r)" "distinct (o_levels ord)" "set (o_levels ord) = set (o_nodes ord)"
    using ok by (auto simp: orders_ok_def)
  have "index_in order f < index_in order t" if e: "(f, t) \<in> graph_rel ?r" for f t
  proof -
    have "t \<in> set order" using refs e order(2) nodes(1) by (auto simp: refs_exist_def)
    then obtain xs ys where o: "order = xs @ t # ys" by (meson split_list)
    then have "f \<in> set xs" "t \<notin> set xs"
      using order(1) order(3)[OF o] e dependencies_spec(1)[OF ok, of t] by auto
    then show ?thesis using o index_in_less[of f xs "t # ys"] index_in_mid[of t xs ys] by simp
  qed
  moreover have "layers_of (p_deps p) order (p_groups p)"
    unfolding fields using order nodes by (intro parallel_groups_spec) simp_all
  moreover have "g_plan g = Some p" by (simp add: p)
  ultimately show ?thesis
    using order(1,2) nodes(1) dependencies_spec(1)[OF ok] by (intro exI[of _ p]) (simp add: g fields)
qed

text \<open>
  C24: a DAG that builds builds to the same graph, with the same plan, whatever the orders in which the
  maps are ranged over.
\<close>

theorem plan_deterministic:
  assumes "orders_ok (closed_graph b) ord" "orders_ok (closed_graph b) ord'" "g_mode (b_graph b) = GraphModeDAG"
    and "graph_build ord b = Some (Inr g)"
  shows "graph_build ord' b = Some (Inr g)"
proof -
  let ?r = "ready_graph b"
  have ok: "orders_ok ?r ord" "orders_ok ?r ord'" "g_mode ?r = GraphModeDAG" using assms by (simp_all add: ready_graph_simps)
  have refs: "refs_exist ?r" if "refs_exist (closed_graph b)" using that by (simp add: ready_graph_simps)
  have deps: "dependencies ord' ?r = dependencies ord ?r" by (rule dependencies_deterministic[OF ok(2,1)])
  have topo: "graph_topo_sort (o_nodes ord') (o_deps ord') (dependencies ord' ?r) =
      graph_topo_sort (o_nodes ord) (o_deps ord) (dependencies ord ?r)" if "refs_exist ?r"
    using deps_closed_graph[OF ok(1) that] deps_closed_graph[OF ok(2) that] ok(1,2) unfolding deps
    by (intro graph_topo_sort_deterministic) (simp_all add: orders_ok_def)
  have "parallel_groups (o_levels ord') order d = parallel_groups (o_levels ord) order d" for order d
    using ok(1,2) by (intro parallel_groups_deterministic) (simp_all add: orders_ok_def)
  then have "dag_plan ord' ?r order = dag_plan ord ?r order" for order
    by (simp add: dag_plan_def deps)
  then have "compute_execution_plan ord' ?r = Some (Inr p)" if "refs_exist ?r" "compute_execution_plan ord ?r = Some (Inr p)" for p
    using that compute_execution_plan_dag[OF ready_graph_simps(1) that(1) ok(1,3)]
      compute_execution_plan_dag[OF ready_graph_simps(1) that(1) ok(2,3)] topo by simp
  then show ?thesis
    using assms(4) refs unfolding build_graph_eq(1)[OF assms(1)] build_graph_eq(1)[OF assms(2)] by blast
qed

subsection \<open>A routed graph\<close>

text \<open>\<open>a\<close> routes to \<open>b\<close> or \<open>c\<close>, and \<open>c\<close> also waits for \<open>b\<close>; the maps are ranged over in two orders.\<close>

definition routed :: "(nat, unit) builder" where
  "routed = set_finish_point [''c'']
     (add_edge ''b'' ''c''
       (add_conditional_edge ''a'' (\<lambda>s. Some (if s = 0 then ''x'' else ''y'')) (Some [(''x'', ''b''), (''y'', ''c'')])
         (add_edge START ''a''
           (add_graph_node ''c'' identity_handler (add_graph_node ''b'' identity_handler (add_graph_node ''a'' identity_handler
             (new_graph ''routed'')))))))"

definition routed_orders :: graph_orders where
  "routed_orders = \<lparr>o_nodes = [''c'', END, ''a'', START, ''b''], o_conds = [''a''], o_deps = [END, ''c'', ''b'', ''a''],
     o_levels = [''a'', ''b'', ''c'', START, END], o_cyclic = []\<rparr>"

definition routed_orders' :: graph_orders where
  "routed_orders' = \<lparr>o_nodes = [''a'', ''b'', ''c'', START, END], o_conds = [''a''], o_deps = [''a'', ''b'', ''c'', END],
     o_levels = [''c'', START, ''b'', END, ''a''], o_cyclic = []\<rparr>"

lemma routed_eq:
  "b_err routed = None"
  "g_nodes (closed_graph routed) = [''a'' \<mapsto> new_node ''a'' identity_handler, ''b'' \<mapsto> new_node ''b'' identity_handler,
     ''c'' \<mapsto> new_node ''c'' identity_handler, START \<mapsto> start_node, END \<mapsto> end_node]"
  "g_edges (closed_graph routed) = [(START, ''a''), (''b'', ''c''), (''c'', END)]"
  "g_conds (closed_graph routed) = (\<lambda>_. [])(''a'' := [\<lparr>router = (\<lambda>s. Some (if s = 0 then ''x'' else ''y'')),
     targets = Some [(''x'', ''b''), (''y'', ''c'')], default_target = []\<rparr>])"
  "g_mode (b_graph routed) = GraphModeDAG" "g_trigger (b_graph routed) = TriggerAllPredecessors"
  "g_entry (b_graph routed) = []"
  by (simp_all add: routed_def closed_graph_def new_graph_def add_graph_node_def add_node_with_builder_def new_node_def
      add_edge_def add_conditional_edge_def add_cond_edge_def set_finish_point_def with_graph_def START_def END_def Let_def)

lemma routed_rel:
  "graph_rel (closed_graph routed) = {(START, ''a''), (''b'', ''c''), (''c'', END), (''a'', ''b''), (''a'', ''c'')}"
  by (auto simp: graph_rel_def routed_eq edge_targets_def split: if_splits)

lemma routed_orders_ok: "orders_ok (closed_graph routed) routed_orders" "orders_ok (closed_graph routed) routed_orders'"
  unfolding orders_ok_def routed_rel routed_eq routed_orders_def routed_orders'_def START_def END_def
  by (auto simp: START_def END_def split: if_splits)

lemma routed_builds:
  "\<exists>g p. graph_build routed_orders routed = Some (Inr g) \<and> g_plan g = Some p \<and>
     p_order p = [START, ''a'', ''b'', ''c'', END] \<and> p_groups p = [[START], [''a''], [''b''], [''c''], [END]]"
proof -
  have "(case graph_build routed_orders routed of
      Some (Inr g) \<Rightarrow> map_option (\<lambda>p. (p_order p, p_groups p)) (g_plan g) | _ \<Rightarrow> None) =
    Some ([START, ''a'', ''b'', ''c'', END], [[START], [''a''], [''b''], [''c''], [END]])"
    by code_simp
  then show ?thesis by (auto split: option.splits sum.splits)
qed

lemma build_returns_example: "\<exists>r. graph_build routed_orders routed = Some r"
  by (rule build_returns[OF routed_orders_ok(1)])

theorem build_succeeds_iff_witness: "acyclic (graph_rel (closed_graph routed))"
  using build_succeeds_iff[OF routed_orders_ok(1) routed_eq(5)] routed_builds by blast

theorem plan_correct_witness:
  "\<exists>g p. graph_build routed_orders routed = Some (Inr g) \<and> g_plan g = Some p \<and> distinct (p_order p) \<and>
     layers_of (p_deps p) (p_order p) (p_groups p)"
  using plan_correct[OF routed_orders_ok(1) routed_eq(5)] routed_builds by blast

theorem plan_deterministic_witness:
  "\<exists>g. graph_build routed_orders routed = Some (Inr g) \<and> graph_build routed_orders' routed = Some (Inr g)"
  using plan_deterministic[OF routed_orders_ok routed_eq(5)] routed_builds by blast

text \<open>
  The critical path is documented as the longest one. It is the path of the first edges: with a short
  edge declared first, it is shorter than another path of the graph.
\<close>

lemma critical_path_not_longest:
  "critical_path \<lparr>g_name = [], g_nodes = Map.empty, g_edges = es, g_entry = [], g_adjacency = build_adjacency es,
       g_conds = (\<lambda>_. []), g_mode = GraphModeDAG, g_trigger = TriggerAllPredecessors, g_trigger_explicit = False,
       g_plan = None, g_compiled = False\<rparr> = Some [START, ''b'', END]"
  if "es = [(START, ''b''), (START, ''a''), (''a'', ''b''), (''b'', END)]"
  unfolding that by (simp add: critical_path_def build_adjacency_def START_def END_def numeral_eq_Suc)

end
