(* ===== verification/GraphExec.thy ===== *)
theory GraphExec
  imports GraphPlan
begin

section \<open>Running a graph\<close>

text \<open>
  \<open>orchestration/graph/plan.go\<close>: the executor that \<open>Graph.Run\<close> drives over the plan of a DAG, with
  its frontier of ready nodes, the arrivals of predecessors, selected or skipped, the propagation of
  skips, and the nodes that wait for an interrupt.
  \<^item> an entry of \<open>Arrivals\<close> is an association list, the missing entry the empty one;
  \<^item> the activation of a DAG run is always zero, so a task is identified by its node;
  \<^item> persistence and observation are those of \<open>Graph.Run\<close>: none. Barrier nodes and typed I/O are not
    modelled; the Pregel loop is in \<open>GraphPregel\<close>.
\<close>

subsection \<open>The executor\<close>

record 's saved_result =
  r_output :: 's
  r_target :: "string option"
  r_adopted :: bool

record 's frontier =
  f_ready :: "string list"
  f_completed :: "string \<Rightarrow> bool"
  f_skipped :: "string \<Rightarrow> bool"
  f_arrivals :: "string \<Rightarrow> (string \<times> bool) list"
  f_results :: "string \<rightharpoonup> 's saved_result"
  f_waiting :: "string \<rightharpoonup> nat"

record 's executor =
  x_state :: 's
  x_frontier :: "'s frontier"

text \<open>What a run is configured with, and the composite of several interrupts.\<close>

record run_config =
  rc_defaults :: "retry_policy option"
  rc_timeout :: int
  rc_interrupts :: "string list"
  composite_signal :: "nat list \<Rightarrow> nat"

definition new_executor :: "('s, 'w) graph \<Rightarrow> 's \<Rightarrow> 's executor" where
  "new_executor g s = \<lparr>x_state = s, x_frontier = \<lparr>f_ready = [g_entry g], f_completed = (\<lambda>_. False),
     f_skipped = (\<lambda>_. False), f_arrivals = (\<lambda>_. []), f_results = Map.empty, f_waiting = Map.empty\<rparr>\<rparr>"

subsection \<open>Routing\<close>

definition plain :: "string \<Rightarrow> node_error" where
  "plain msg = Leaf (PlainError msg)"

text \<open>\<open>cloneState\<close> and the conversion to the state's type.\<close>

definition clone_for :: "('s, 'w) node_env \<Rightarrow> string \<Rightarrow> 's \<Rightarrow> node_error + 's" where
  "clone_for env name s =
     (case clone_state env s of
        Cloned s' \<Rightarrow> Inr s'
      | CloneFailed e \<Rightarrow> Inl e
      | ClonePanicked \<Rightarrow> Inl (Leaf (NodePanicked name))
      | CloneMistyped \<Rightarrow> Inl (plain ''clone type mismatch''))"

definition route_target :: "('s, 'w) node_env \<Rightarrow> ('s, 'w) graph \<Rightarrow> string \<Rightarrow> 's \<Rightarrow> 's cond_edge \<Rightarrow> node_error + string" where
  "route_target env g name s c =
     (case clone_for env name s of
        Inl e \<Rightarrow> Inl e
      | Inr s' \<Rightarrow>
          (case router c s' of
             None \<Rightarrow> Inl (Leaf (NodePanicked name))
           | Some label \<Rightarrow>
               (let target = (case targets c of
                      None \<Rightarrow> Some label
                    | Some ts \<Rightarrow>
                        (let t = (case map_of ts label of None \<Rightarrow> default_target c | Some t \<Rightarrow> t) in
                         if t = [] then None else Some t)) in
                case target of
                  None \<Rightarrow> Inl (plain ''router has no target for label'')
                | Some t \<Rightarrow> if g_nodes g t = None then Inl (plain ''router selected unknown node'') else Inr t)))"

text \<open>The loop over the conditional edges: the selected and the possible targets so far.\<close>

fun route_all :: "('s, 'w) node_env \<Rightarrow> ('s, 'w) graph \<Rightarrow> string \<Rightarrow> 's \<Rightarrow> 's cond_edge list
    \<Rightarrow> string list \<Rightarrow> string list \<Rightarrow> node_error + string list \<times> string list" where
  "route_all env g name s [] selected possible = Inr (selected, possible)"
| "route_all env g name s (c # cs) selected possible =
     (case route_target env g name s c of
        Inl e \<Rightarrow> Inl e
      | Inr t \<Rightarrow>
          (let p1 = fold (\<lambda>to acc. append_unique acc to) (edge_targets c) possible;
               p2 = (if default_target c = [] then p1 else append_unique p1 (default_target c)) in
           route_all env g name s cs (append_unique selected t) p2))"

definition select_successors :: "('s, 'w) node_env \<Rightarrow> ('s, 'w) graph \<Rightarrow> string \<Rightarrow> 's \<Rightarrow> string option
    \<Rightarrow> node_error + string list \<times> string list" where
  "select_successors env g name s command_target =
     (if name = END then Inr ([], [])
      else if (\<exists>t \<in> set_option command_target. g_nodes g t = None) then Inl (plain ''command selected unknown node'')
      else
        (let start = (case command_target of
               None \<Rightarrow> g_adjacency g name
             | Some t \<Rightarrow> append_unique (g_adjacency g name) t) in
         if start = [] \<and> g_conds g name = [] then Inl (plain ''no outgoing edge'')
         else
           (case route_all env g name s (g_conds g name) start [] of
              Inl e \<Rightarrow> Inl e
            | Inr (selected, possible) \<Rightarrow>
                Inr (sort (fold (\<lambda>to acc. append_unique acc to) selected []),
                     sort (filter (\<lambda>to. to \<notin> set selected) possible)))))"

subsection \<open>Arrivals\<close>

text \<open>
  \<open>arrive\<close>, with the depth of the propagation of skips as fuel: each nested call comes from a node
  newly skipped, so one more than the number of nodes is enough (\<open>arrive_returns\<close>).
\<close>

definition record_arrival :: "string \<Rightarrow> string \<Rightarrow> bool \<Rightarrow> 's frontier \<Rightarrow> 's frontier" where
  "record_arrival to from b f = f\<lparr>f_arrivals := (f_arrivals f)(to := (from, b) # f_arrivals f to)\<rparr>"

definition push_ready :: "string \<Rightarrow> 's frontier \<Rightarrow> 's frontier" where
  "push_ready n f = f\<lparr>f_ready := append_unique (f_ready f) n\<rparr>"

definition mark_skipped :: "string \<Rightarrow> 'a frontier \<Rightarrow> 'a frontier" where
  "mark_skipped n f = f\<lparr>f_skipped := (f_skipped f)(n := True)\<rparr>"

text \<open>The effect of one arrival, and whether the node is now skipped and passes it on.\<close>

definition arrival_step :: "plan \<Rightarrow> string \<Rightarrow> string \<Rightarrow> bool \<Rightarrow> 'a frontier \<Rightarrow> 'a frontier \<times> bool" where
  "arrival_step p to from selected f =
     (if f_completed f to \<or> f_skipped f to then (f, False)
      else if from \<in> fst ` set (f_arrivals f to) then (f, False)
      else
        (let f1 = record_arrival to from selected f;
             got = map_of (f_arrivals f1 to);
             deps = p_deps p to;
             all = (deps = [] \<or> list_all (\<lambda>d. got d \<noteq> None) deps);
             any = (if deps = [] then selected else list_ex (\<lambda>d. got d = Some True) deps) in
         if p_trigger p = TriggerAnyPredecessor \<and> selected then (push_ready to f1, False)
         else if \<not> all then (f1, False)
         else if any then (push_ready to f1, False)
         else (mark_skipped to f1, True)))"

fun arrive :: "('s, 'w) graph \<Rightarrow> plan \<Rightarrow> nat \<Rightarrow> string \<Rightarrow> string \<Rightarrow> bool \<Rightarrow> 'a frontier \<Rightarrow> 'a frontier option"
  and arrive_skipped :: "('s, 'w) graph \<Rightarrow> plan \<Rightarrow> nat \<Rightarrow> string list \<Rightarrow> string \<Rightarrow> 'a frontier \<Rightarrow> 'a frontier option" where
  "arrive g p 0 to from selected f = None"
| "arrive g p (Suc k) to from selected f =
     (case arrival_step p to from selected f of
        (f', skip) \<Rightarrow> if skip then arrive_skipped g p k (all_successors g to) to f' else Some f')"
| "arrive_skipped g p k [] from f = Some f"
| "arrive_skipped g p k (n # ns) from f =
     (case arrive g p k n from False f of None \<Rightarrow> None | Some f' \<Rightarrow> arrive_skipped g p k ns from f')"

fun arrive_all :: "('s, 'w) graph \<Rightarrow> plan \<Rightarrow> nat \<Rightarrow> string list \<Rightarrow> string \<Rightarrow> bool \<Rightarrow> 'a frontier \<Rightarrow> 'a frontier option" where
  "arrive_all g p k [] from b f = Some f"
| "arrive_all g p k (n # ns) from b f =
     (case arrive g p k n from b f of None \<Rightarrow> None | Some f' \<Rightarrow> arrive_all g p k ns from b f')"

subsection \<open>One node\<close>

definition execute :: "('s, 'w) node_env \<Rightarrow> run_config \<Rightarrow> ('s, 'w) graph \<Rightarrow> string \<Rightarrow> 's \<Rightarrow> 'w
    \<Rightarrow> ('s \<times> string option \<times> node_error option) \<times> 'w" where
  "execute env cfg g name input w =
     (case g_nodes g name of
        None \<Rightarrow> ((input, None, Some (plain ''node not found'')), w)
      | Some nd \<Rightarrow>
          execute_command_node env
            (if node_timeout nd = 0 \<and> rc_timeout cfg \<noteq> 0 then nd\<lparr>node_timeout := rc_timeout cfg\<rparr> else nd)
            input (rc_defaults cfg) w)"

fun only_interrupts :: "node_error \<Rightarrow> bool" where
  "only_interrupts (Leaf l) = (case l of InterruptLeaf _ \<Rightarrow> True | _ \<Rightarrow> False)"
| "only_interrupts (Wrapped e) = only_interrupts e"
| "only_interrupts (Joined es) = (es \<noteq> [] \<and> list_all only_interrupts es)"

definition signals_of :: "node_error \<Rightarrow> nat list" where
  "signals_of e = fold (\<lambda>l acc. case l of InterruptLeaf k \<Rightarrow> append_unique acc k | _ \<Rightarrow> acc) (leaves e) []"

definition waiting_signal :: "run_config \<Rightarrow> node_error \<Rightarrow> nat option" where
  "waiting_signal cfg e =
     (if \<not> only_interrupts e then None
      else (case signals_of e of [] \<Rightarrow> None | [k] \<Rightarrow> Some k | ks \<Rightarrow> Some (composite_signal cfg ks)))"

text \<open>The state of a saved result that is not yet adopted is a clone of the node's output.\<close>

definition result_state :: "('s, 'w) node_env \<Rightarrow> string \<Rightarrow> 's \<Rightarrow> 's saved_result \<Rightarrow> node_error + 's" where
  "result_state env name s r =
     (if r_adopted r then Inr s
      else (case clone_for env name (r_output r) of Inl e \<Rightarrow> Inl (Wrapped e) | Inr s' \<Rightarrow> Inr s'))"

definition complete_node :: "string \<Rightarrow> 's saved_result \<Rightarrow> 's frontier \<Rightarrow> 's frontier" where
  "complete_node name r f = f\<lparr>f_results := (f_results f)(name \<mapsto> r\<lparr>r_adopted := True\<rparr>), f_ready := tl (f_ready f),
     f_completed := (f_completed f)(name := True), f_waiting := (f_waiting f)(name := None)\<rparr>"

definition adopt :: "('s, 'w) node_env \<Rightarrow> ('s, 'w) graph \<Rightarrow> plan \<Rightarrow> string \<Rightarrow> 's saved_result \<Rightarrow> 's executor
    \<Rightarrow> (node_error option \<times> 's executor) option" where
  "adopt env g p name r x =
     (let f = x_frontier x in
      case result_state env name (x_state x) r of
        Inl e \<Rightarrow> Some (Some e, x)
      | Inr s \<Rightarrow>
          (case select_successors env g name s (r_target r) of
             Inl e \<Rightarrow> Some (Some e, x)
           | Inr (selected, skipped) \<Rightarrow>
               if list_ex (\<lambda>to. to \<noteq> END \<and> f_completed f to) selected
               then Some (Some (plain ''DAG route reactivates completed node''), x)
               else
                 (let f1 = complete_node name r f;
                      k = Suc (length (p_order p)) in
                  case arrive_all g p k selected name True f1 of
                    None \<Rightarrow> None
                  | Some f2 \<Rightarrow>
                      (case arrive_all g p k skipped name False f2 of
                         None \<Rightarrow> None
                       | Some f3 \<Rightarrow> Some (None, \<lparr>x_state = s, x_frontier = f3\<rparr>)))))"

definition run_one :: "('s, 'w) node_env \<Rightarrow> run_config \<Rightarrow> ('s, 'w) graph \<Rightarrow> plan \<Rightarrow> string \<Rightarrow> 's executor \<Rightarrow> 'w
    \<Rightarrow> ((node_error option \<times> 's executor) \<times> 'w) option" where
  "run_one env cfg g p name x w =
     (let f = x_frontier x in
      if name \<in> set (rc_interrupts cfg) then Some ((Some (plain ''interrupted at node''), x), w)
      else
        (case f_results f name of
           Some r \<Rightarrow> map_option (\<lambda>y. (y, w)) (adopt env g p name r x)
         | None \<Rightarrow>
             (case execute env cfg g name (x_state x) w of
                ((out, t, Some e), w') \<Rightarrow>
                  (let x' = (case waiting_signal cfg e of
                         None \<Rightarrow> x
                       | Some k \<Rightarrow> x\<lparr>x_frontier := f\<lparr>f_waiting := (f_waiting f)(name \<mapsto> k)\<rparr>\<rparr>) in
                   Some ((Some (Wrapped e), x'), w'))
              | ((out, t, None), w') \<Rightarrow>
                  (let r = \<lparr>r_output = out, r_target = t, r_adopted = False\<rparr> in
                   map_option (\<lambda>y. (y, w'))
                     (adopt env g p name r (x\<lparr>x_frontier := f\<lparr>f_results := (f_results f)(name \<mapsto> r)\<rparr>\<rparr>))))))"

subsection \<open>The loop\<close>

definition topo_position :: "plan \<Rightarrow> string \<Rightarrow> nat" where
  "topo_position p n = (if n \<in> set (p_order p) then index_in (p_order p) n else 0)"

definition sort_ready :: "plan \<Rightarrow> 's executor \<Rightarrow> 's executor" where
  "sort_ready p x = x\<lparr>x_frontier := (x_frontier x)\<lparr>f_ready := sort_key (topo_position p) (f_ready (x_frontier x))\<rparr>\<rparr>"

definition drop_ready :: "'s executor \<Rightarrow> 's executor" where
  "drop_ready x = x\<lparr>x_frontier := (x_frontier x)\<lparr>f_ready := tl (f_ready (x_frontier x))\<rparr>\<rparr>"

definition finish_run :: "run_config \<Rightarrow> plan \<Rightarrow> 's executor \<Rightarrow> node_error option" where
  "finish_run cfg p x =
     (let f = x_frontier x;
          waiting = sort (filter (\<lambda>n. f_waiting f n \<noteq> None) (p_order p)) in
      if waiting \<noteq> [] then Some (Leaf (InterruptLeaf (composite_signal cfg (map (\<lambda>n. the (f_waiting f n)) waiting))))
      else if list_ex (\<lambda>n. \<not> f_completed f n \<and> \<not> f_skipped f n \<and> f_arrivals f n \<noteq> []) (p_order p)
      then Some (plain ''graph scheduling stalled'')
      else None)"

text \<open>One turn of the loop: \<open>Inl\<close> when it goes on, \<open>Inr\<close> with the answer when it ends.\<close>

type_synonym ('s, 'w) turn = "('s executor \<times> 'w) + (('s \<times> node_error option) \<times> 's executor \<times> 'w)"

definition turn :: "('s, 'w) node_env \<Rightarrow> run_config \<Rightarrow> ('s, 'w) graph \<Rightarrow> plan \<Rightarrow> 's executor \<Rightarrow> 'w \<Rightarrow> ('s, 'w) turn option" where
  "turn env cfg g p x w =
     (if f_ready (x_frontier x) = [] then Some (Inr ((x_state x, finish_run cfg p x), x, w))
      else
        (case ctx_err env w of
           Some e \<Rightarrow> Some (Inr ((x_state x, Some e), x, w))
         | None \<Rightarrow>
             (let x1 = sort_ready p x; name = hd (f_ready (x_frontier x1)) in
              case run_one env cfg g p name x1 w of
                None \<Rightarrow> None
              | Some ((None, x2), w2) \<Rightarrow> Some (Inl (x2, w2))
              | Some ((Some e, x2), w2) \<Rightarrow>
                  (case waiting_signal cfg e of
                     Some _ \<Rightarrow> Some (Inl (drop_ready x2, w2))
                   | None \<Rightarrow> Some (Inr ((x_state x2, Some e), x2, w2))))))"

fun plan_loop :: "('s, 'w) node_env \<Rightarrow> run_config \<Rightarrow> ('s, 'w) graph \<Rightarrow> plan \<Rightarrow> nat \<Rightarrow> 's executor \<Rightarrow> 'w
    \<Rightarrow> (('s \<times> node_error option) \<times> 's executor \<times> 'w) option" where
  "plan_loop env cfg g p 0 x w = None"
| "plan_loop env cfg g p (Suc k) x w =
     (case turn env cfg g p x w of
        None \<Rightarrow> None
      | Some (Inr r) \<Rightarrow> Some r
      | Some (Inl (x', w')) \<Rightarrow> plan_loop env cfg g p k x' w')"

definition graph_run :: "('s, 'w) node_env \<Rightarrow> run_config \<Rightarrow> nat \<Rightarrow> ('s, 'w) graph \<Rightarrow> 's \<Rightarrow> 'w
    \<Rightarrow> (('s \<times> node_error option) \<times> 's executor \<times> 'w) option" where
  "graph_run env cfg fuel g s w =
     (case (g_compiled g, g_plan g) of
        (True, Some p) \<Rightarrow> plan_loop env cfg g p fuel (new_executor g s) w
      | _ \<Rightarrow> Some ((s, Some (plain ''graph not compiled'')), new_executor g s, w))"

subsection \<open>The frontier of a static plan\<close>

text \<open>
  A plan whose routes are all declared: every trigger waits for all predecessors, no route is dynamic,
  no node is a command node, and nothing leads to the entry point.
\<close>

definition static_plan :: "('s, 'w) graph \<Rightarrow> plan \<Rightarrow> bool" where
  "static_plan g p \<longleftrightarrow> p_trigger p = TriggerAllPredecessors \<and>
     distinct (p_order p) \<and> set (p_order p) = dom (g_nodes g) \<and>
     refs_exist g \<and> g_adjacency g = build_adjacency (g_edges g) \<and>
     (\<forall>t. set (p_deps p t) = {f. (f, t) \<in> graph_rel g}) \<and>
     (\<forall>f. \<forall>c \<in> set (g_conds g f). targets c \<noteq> None) \<and>
     (\<forall>n nd. g_nodes g n = Some nd \<longrightarrow> node_command nd = None) \<and>
     g_entry g \<in> dom (g_nodes g) \<and> p_deps p (g_entry g) = []"

lemma static_planD:
  assumes "static_plan g p"
  shows "p_trigger p = TriggerAllPredecessors" "distinct (p_order p)" "set (p_order p) = dom (g_nodes g)"
    "set (p_deps p t) = {f. (f, t) \<in> graph_rel g}" "set (all_successors g n) = {t. (n, t) \<in> graph_rel g}"
    "(f, t) \<in> graph_rel g \<Longrightarrow> f \<in> dom (g_nodes g) \<and> t \<in> dom (g_nodes g)"
    "(f, g_entry g) \<notin> graph_rel g" "g_entry g \<in> dom (g_nodes g)"
proof -
  have deps: "set (p_deps p t) = {f. (f, t) \<in> graph_rel g}" for t using assms by (simp add: static_plan_def)
  then show "set (p_deps p t) = {f. (f, t) \<in> graph_rel g}" .
  have "p_deps p (g_entry g) = []" using assms by (simp add: static_plan_def)
  then show "(f, g_entry g) \<notin> graph_rel g" using deps[of "g_entry g"] by auto
  show "set (all_successors g n) = {t. (n, t) \<in> graph_rel g}"
    using assms by (intro all_successors_spec) (simp add: static_plan_def)
  show "(f, t) \<in> graph_rel g \<Longrightarrow> f \<in> dom (g_nodes g) \<and> t \<in> dom (g_nodes g)"
    using assms by (auto simp: static_plan_def refs_exist_def)
qed (use assms in \<open>simp_all add: static_plan_def\<close>)

definition arrived :: "'a frontier \<Rightarrow> string \<Rightarrow> string set" where
  "arrived f n = fst ` set (f_arrivals f n)"

definition resolved :: "'a frontier \<Rightarrow> string \<Rightarrow> bool" where
  "resolved f n \<longleftrightarrow> f_completed f n \<or> f_skipped f n"

definition scheduled :: "'a frontier \<Rightarrow> string \<Rightarrow> bool" where
  "scheduled f n \<longleftrightarrow> n \<in> set (f_ready f) \<or> f_completed f n \<or> f_waiting f n \<noteq> None"

text \<open>What is known of one node, of what it has heard, and whether it is settled.\<close>

definition may_report :: "'a frontier \<Rightarrow> string \<Rightarrow> bool \<Rightarrow> bool" where
  "may_report f q b \<longleftrightarrow> resolved f q \<and> (b \<longrightarrow> f_completed f q)"

definition node_ok :: "('s, 'w) graph \<Rightarrow> 'a frontier \<Rightarrow> string \<Rightarrow> bool" where
  "node_ok g f n \<longleftrightarrow>
     (scheduled f n \<or> f_skipped f n \<longrightarrow> n \<in> dom (g_nodes g)) \<and>
     (f_completed f n \<longrightarrow> n \<notin> set (f_ready f) \<and> f_waiting f n = None) \<and>
     (f_skipped f n \<longrightarrow> \<not> scheduled f n) \<and>
     (f_waiting f n \<noteq> None \<longrightarrow> n \<notin> set (f_ready f)) \<and>
     distinct (map fst (f_arrivals f n)) \<and>
     (scheduled f n \<longrightarrow> n = g_entry g \<or>
        ({q. (q, n) \<in> graph_rel g} \<subseteq> arrived f n \<and> (\<exists>q. (q, True) \<in> set (f_arrivals f n)))) \<and>
     (f_skipped f n \<longrightarrow> {q. (q, n) \<in> graph_rel g} \<subseteq> arrived f n \<and> (\<forall>q. (q, True) \<notin> set (f_arrivals f n)))"

definition heard_ok :: "('s, 'w) graph \<Rightarrow> 'a frontier \<Rightarrow> string \<Rightarrow> bool" where
  "heard_ok g f n \<longleftrightarrow> (\<forall>(q, b) \<in> set (f_arrivals f n). (q, n) \<in> graph_rel g \<and> may_report f q b)"

definition settled :: "('s, 'w) graph \<Rightarrow> 'a frontier \<Rightarrow> string \<Rightarrow> bool" where
  "settled g f n \<longleftrightarrow>
     (n \<in> Range (graph_rel g) \<and> {q. (q, n) \<in> graph_rel g} \<subseteq> arrived f n \<longrightarrow> scheduled f n \<or> f_skipped f n)"

text \<open>The invariant of the frontier; the nodes of \<open>T\<close> have just received an arrival and are not settled yet.\<close>

definition frontier_ok :: "('s, 'w) graph \<Rightarrow> string set \<Rightarrow> 'a frontier \<Rightarrow> bool" where
  "frontier_ok g T f \<longleftrightarrow> distinct (f_ready f) \<and> scheduled f (g_entry g) \<and>
     (\<forall>n. node_ok g f n \<and> heard_ok g f n) \<and> (\<forall>n. n \<notin> T \<longrightarrow> settled g f n)"

lemma frontier_okD:
  assumes "frontier_ok g T f"
  shows "distinct (f_ready f)" "scheduled f (g_entry g)" "node_ok g f n" "heard_ok g f n" "n \<notin> T \<Longrightarrow> settled g f n"
  using assms by (simp_all add: frontier_ok_def)

text \<open>All of these look at the node's own fields only.\<close>

definition same_at :: "'a frontier \<Rightarrow> 'a frontier \<Rightarrow> string \<Rightarrow> bool" where
  "same_at f f' n \<longleftrightarrow> (n \<in> set (f_ready f) \<longleftrightarrow> n \<in> set (f_ready f')) \<and> f_completed f n = f_completed f' n \<and>
     f_skipped f n = f_skipped f' n \<and> f_waiting f n = f_waiting f' n \<and> f_arrivals f n = f_arrivals f' n"

lemma same_at_cong:
  assumes "same_at f f' n"
  shows "node_ok g f' n \<longleftrightarrow> node_ok g f n" "settled g f' n \<longleftrightarrow> settled g f n"
  using assms by (simp_all add: same_at_def node_ok_def settled_def scheduled_def arrived_def)

lemma heard_ok_mono:
  assumes "heard_ok g f n" "f_arrivals f' n = f_arrivals f n" "\<And>q b. may_report f q b \<Longrightarrow> may_report f' q b"
  shows "heard_ok g f' n"
  using assms by (auto simp: heard_ok_def)

lemma frontier_ok_update:
  assumes "frontier_ok g T f" "distinct (f_ready f')" "\<And>n. n \<noteq> to \<Longrightarrow> same_at f f' n"
    and "\<And>q b. may_report f q b \<Longrightarrow> may_report f' q b" "scheduled f (g_entry g) \<Longrightarrow> scheduled f' (g_entry g)"
    and "node_ok g f' to" "heard_ok g f' to" "to \<in> T' \<or> settled g f' to" "T - {to} \<subseteq> T'"
  shows "frontier_ok g T' f'"
proof -
  have "heard_ok g f' n" if "n \<noteq> to" for n
    using assms(3)[OF that] assms(4) by (intro heard_ok_mono[OF frontier_okD(4)[OF assms(1)]]) (simp_all add: same_at_def)
  moreover have "node_ok g f' n \<and> (n \<notin> T \<longrightarrow> settled g f' n)" if "n \<noteq> to" for n
    using same_at_cong[OF assms(3)[OF that], where g = g] frontier_okD[OF assms(1)] by simp
  ultimately have rest: "node_ok g f' n \<and> heard_ok g f' n \<and> (n \<notin> T \<longrightarrow> settled g f' n)" if "n \<noteq> to" for n
    using that by blast
  have "node_ok g f' n \<and> heard_ok g f' n" for n using rest[of n] assms(6,7) by (cases "n = to") auto
  moreover have "settled g f' n" if "n \<notin> T'" for n
    using rest[of n] assms(8,9) that by (cases "n = to") auto
  moreover have "scheduled f' (g_entry g)" by (rule assms(5)[OF frontier_okD(2)[OF assms(1)]])
  ultimately show ?thesis using assms(2) unfolding frontier_ok_def by (intro conjI allI impI) simp_all
qed

text \<open>A node that has not heard from a predecessor is neither scheduled nor skipped.\<close>

lemma unheard_open:
  assumes "static_plan g p" "frontier_ok g T f" "(from, to) \<in> graph_rel g" "from \<notin> arrived f to"
  shows "\<not> scheduled f to" "\<not> f_skipped f to" "to \<noteq> g_entry g" "to \<in> dom (g_nodes g)"
proof -
  have ok: "node_ok g f to" by (rule frontier_okD(3)[OF assms(2)])
  show e: "to \<noteq> g_entry g" using static_planD(7)[OF assms(1)] assms(3) by blast
  show "\<not> scheduled f to" using ok e assms(3,4) unfolding node_ok_def by blast
  show "\<not> f_skipped f to" using ok assms(3,4) unfolding node_ok_def by blast
  show "to \<in> dom (g_nodes g)" using static_planD(6)[OF assms(1,3)] by blast
qed

lemma frontier_fields [simp]:
  "f_ready (record_arrival to from b f) = f_ready f" "f_completed (record_arrival to from b f) = f_completed f"
  "f_skipped (record_arrival to from b f) = f_skipped f" "f_waiting (record_arrival to from b f) = f_waiting f"
  "f_results (record_arrival to from b f) = f_results f"
  "f_arrivals (record_arrival to from b f) = (f_arrivals f)(to := (from, b) # f_arrivals f to)"
  "f_ready (push_ready n f) = append_unique (f_ready f) n" "f_completed (push_ready n f) = f_completed f"
  "f_skipped (push_ready n f) = f_skipped f" "f_waiting (push_ready n f) = f_waiting f"
  "f_results (push_ready n f) = f_results f" "f_arrivals (push_ready n f) = f_arrivals f"
  by (simp_all add: record_arrival_def push_ready_def)

lemma record_arrival_ok:
  assumes "static_plan g p" "frontier_ok g {} f" "(from, to) \<in> graph_rel g" "may_report f from b" "from \<notin> arrived f to"
  shows "frontier_ok g {to} (record_arrival to from b f)"
proof (rule frontier_ok_update[OF assms(2), where to = to])
  note open_to = unheard_open[OF assms(1-3,5)]
  show "distinct (f_ready (record_arrival to from b f))" using frontier_okD(1)[OF assms(2)] by simp
  show "same_at f (record_arrival to from b f) n" if "n \<noteq> to" for n using that by (simp add: same_at_def)
  show "may_report (record_arrival to from b f) q c" if "may_report f q c" for q c
    using that by (simp add: may_report_def resolved_def)
  show "scheduled f (g_entry g) \<Longrightarrow> scheduled (record_arrival to from b f) (g_entry g)" by (simp add: scheduled_def)
  show "node_ok g (record_arrival to from b f) to"
    using frontier_okD(3)[OF assms(2), of to] open_to assms(5)
    by (simp add: node_ok_def scheduled_def arrived_def)
  show "heard_ok g (record_arrival to from b f) to"
    using frontier_okD(4)[OF assms(2), of to] assms(3,4)
    by (auto simp: heard_ok_def may_report_def resolved_def)
qed simp_all

text \<open>What an arrival may change: arrivals, skips and ready nodes only grow, and a new skip is passed on.\<close>

definition delivered :: "('s, 'w) graph \<Rightarrow> 'a frontier \<Rightarrow> string \<Rightarrow> bool" where
  "delivered g f q \<longleftrightarrow> (\<forall>n. (q, n) \<in> graph_rel g \<longrightarrow> q \<in> arrived f n)"

definition grows :: "('s, 'w) graph \<Rightarrow> 'a frontier \<Rightarrow> 'a frontier \<Rightarrow> bool" where
  "grows g f f' \<longleftrightarrow> (\<forall>n. set (f_arrivals f n) \<subseteq> set (f_arrivals f' n)) \<and>
     f_completed f' = f_completed f \<and> f_results f' = f_results f \<and> f_waiting f' = f_waiting f \<and>
     set (f_ready f) \<subseteq> set (f_ready f') \<and>
     (\<forall>q. f_skipped f q \<longrightarrow> f_skipped f' q) \<and>
     (\<forall>q. f_skipped f' q \<and> \<not> f_skipped f q \<longrightarrow> delivered g f' q)"

lemma grows_refl: "grows g f f"
  by (simp add: grows_def)

lemma grows_arrived: "grows g f f' \<Longrightarrow> arrived f n \<subseteq> arrived f' n"
  by (auto simp: grows_def arrived_def)

lemma grows_delivered: "grows g f f' \<Longrightarrow> delivered g f q \<Longrightarrow> delivered g f' q"
  using grows_arrived unfolding delivered_def by blast

lemma grows_trans: "grows g f f' \<Longrightarrow> grows g f' f'' \<Longrightarrow> grows g f f''"
  using grows_delivered[of g f' f''] unfolding grows_def by (metis subset_trans)

lemma grows_may_report: "grows g f f' \<Longrightarrow> may_report f q b \<Longrightarrow> may_report f' q b"
  by (auto simp: grows_def may_report_def resolved_def)

text \<open>The three ways an arrival settles its node.\<close>

lemma node_ok_skipped:
  assumes "n \<in> dom (g_nodes g)" "\<not> scheduled f n" "f_skipped f n" "distinct (map fst (f_arrivals f n))"
    and "{q. (q, n) \<in> graph_rel g} \<subseteq> arrived f n" "\<forall>q. (q, True) \<notin> set (f_arrivals f n)"
  shows "node_ok g f n"
proof -
  have "n \<notin> set (f_ready f)" "\<not> f_completed f n" "f_waiting f n = None" using assms(2) by (auto simp: scheduled_def)
  then show ?thesis unfolding node_ok_def using assms by (intro conjI impI) simp_all
qed

lemma node_ok_pushed:
  assumes "n \<in> dom (g_nodes g)" "\<not> f_skipped f n" "\<not> f_completed f n" "f_waiting f n = None" "distinct (map fst (f_arrivals f n))"
    and "{q. (q, n) \<in> graph_rel g} \<subseteq> arrived f n" "(q, True) \<in> set (f_arrivals f n)"
  shows "node_ok g f n"
proof -
  have "\<exists>q. (q, True) \<in> set (f_arrivals f n)" using assms(7) by (rule exI)
  then show ?thesis unfolding node_ok_def using assms(1-6) by (intro conjI impI) simp_all
qed

lemma still_waiting_ok:
  assumes "frontier_ok g {to} f" "\<not> {q. (q, to) \<in> graph_rel g} \<subseteq> arrived f to"
  shows "frontier_ok g {} f"
  using assms frontier_okD[OF assms(1)]
  by (intro frontier_ok_update[OF assms(1), where to = to]) (simp_all add: same_at_def settled_def)

lemma push_ready_ok:
  assumes "frontier_ok g {to} f" "to \<in> dom (g_nodes g)" "\<not> scheduled f to" "\<not> f_skipped f to"
    and "{q. (q, to) \<in> graph_rel g} \<subseteq> arrived f to" "(q, True) \<in> set (f_arrivals f to)"
  shows "frontier_ok g {} (push_ready to f)"
proof (rule frontier_ok_update[OF assms(1), where to = to])
  show "distinct (f_ready (push_ready to f))" using frontier_okD(1)[OF assms(1)] by simp
  show "same_at f (push_ready to f) n" if "n \<noteq> to" for n using that by (simp add: same_at_def)
  show "may_report (push_ready to f) q c" if "may_report f q c" for q c
    using that by (simp add: may_report_def resolved_def)
  show "scheduled f (g_entry g) \<Longrightarrow> scheduled (push_ready to f) (g_entry g)" by (auto simp: scheduled_def)
  show "node_ok g (push_ready to f) to"
  proof -
    have "distinct (map fst (f_arrivals f to))" using frontier_okD(3)[OF assms(1), of to] by (simp add: node_ok_def)
    moreover have "\<not> f_completed f to" "f_waiting f to = None" using assms(3) by (auto simp: scheduled_def)
    moreover have "arrived (push_ready to f) to = arrived f to" by (simp add: arrived_def)
    ultimately show ?thesis using assms(2,4-6) by (intro node_ok_pushed[where q = q]) simp_all
  qed
  show "heard_ok g (push_ready to f) to"
    using frontier_okD(4)[OF assms(1), of to] by (simp add: heard_ok_def may_report_def resolved_def)
  show "to \<in> {} \<or> settled g (push_ready to f) to" by (simp add: settled_def scheduled_def)
qed simp

lemma mark_skipped_fields [simp]:
  "f_ready (mark_skipped n f) = f_ready f" "f_completed (mark_skipped n f) = f_completed f"
  "f_skipped (mark_skipped n f) = (f_skipped f)(n := True)" "f_waiting (mark_skipped n f) = f_waiting f"
  "f_results (mark_skipped n f) = f_results f" "f_arrivals (mark_skipped n f) = f_arrivals f"
  by (simp_all add: mark_skipped_def)

lemma mark_skipped_ok:
  assumes "frontier_ok g {to} f" "to \<in> dom (g_nodes g)" "\<not> scheduled f to"
    and "{q. (q, to) \<in> graph_rel g} \<subseteq> arrived f to" "\<forall>q. (q, True) \<notin> set (f_arrivals f to)"
  shows "frontier_ok g {} (mark_skipped to f)"
proof (rule frontier_ok_update[OF assms(1), where to = to])
  show "distinct (f_ready (mark_skipped to f))" using frontier_okD(1)[OF assms(1)] by simp
  show "same_at f (mark_skipped to f) n" if "n \<noteq> to" for n using that by (simp add: same_at_def)
  show "may_report (mark_skipped to f) q c" if "may_report f q c" for q c
    using that by (auto simp: may_report_def resolved_def)
  show "scheduled f (g_entry g) \<Longrightarrow> scheduled (mark_skipped to f) (g_entry g)" by (simp add: scheduled_def)
  show "node_ok g (mark_skipped to f) to"
  proof -
    have "distinct (map fst (f_arrivals f to))" using frontier_okD(3)[OF assms(1), of to] by (simp add: node_ok_def)
    moreover have "\<not> f_completed f to" "f_waiting f to = None" using assms(3) by (auto simp: scheduled_def)
    moreover have "arrived (mark_skipped to f) to = arrived f to" "scheduled (mark_skipped to f) to = scheduled f to"
      by (simp_all add: arrived_def scheduled_def)
    ultimately show ?thesis using assms(2-5) by (intro node_ok_skipped) simp_all
  qed
  show "heard_ok g (mark_skipped to f) to"
    by (rule heard_ok_mono[OF frontier_okD(4)[OF assms(1)]]) (auto simp: may_report_def resolved_def)
  show "to \<in> {} \<or> settled g (mark_skipped to f) to" by (simp add: settled_def)
qed simp

lemma map_of_keys: "distinct (map fst xs) \<Longrightarrow> map_of xs q = Some b \<longleftrightarrow> (q, b) \<in> set xs"
  by simp

text \<open>One arrival keeps the invariant and is heard; if it makes its node skipped, the node is closed.\<close>

lemma arrival_step_ok:
  assumes st: "static_plan g p" and ok: "frontier_ok g {} f" and e: "(from, to) \<in> graph_rel g"
    and rep: "may_report f from b" and run: "arrival_step p to from b f = (f', skip)"
  shows "frontier_ok g {} f'" and "from \<in> arrived f' to" and "skip \<Longrightarrow> f_skipped f' to \<and> \<not> f_skipped f to"
    and "set (f_arrivals f n) \<subseteq> set (f_arrivals f' n)" "f_completed f' = f_completed f" "f_results f' = f_results f"
    "f_waiting f' = f_waiting f" "set (f_ready f) \<subseteq> set (f_ready f')" "f_skipped f q \<Longrightarrow> f_skipped f' q"
    "f_skipped f' q \<Longrightarrow> \<not> f_skipped f q \<Longrightarrow> skip \<and> q = to"
proof -
  let ?f1 = "record_arrival to from b f"
  have nok: "node_ok g f to" by (rule frontier_okD(3)[OF ok])
  have D: "set (p_deps p to) = {q. (q, to) \<in> graph_rel g}" "p_deps p to \<noteq> []"
    using static_planD(4)[OF st, of to] e by auto
  have "frontier_ok g {} f' \<and> from \<in> arrived f' to \<and> (skip \<longrightarrow> f_skipped f' to \<and> \<not> f_skipped f to) \<and>
      (\<forall>n. set (f_arrivals f n) \<subseteq> set (f_arrivals f' n)) \<and> f_completed f' = f_completed f \<and>
      f_results f' = f_results f \<and> f_waiting f' = f_waiting f \<and> set (f_ready f) \<subseteq> set (f_ready f') \<and>
      (\<forall>q. f_skipped f q \<longrightarrow> f_skipped f' q) \<and> (\<forall>q. f_skipped f' q \<and> \<not> f_skipped f q \<longrightarrow> skip \<and> q = to)"
  proof (cases "from \<in> arrived f to")
    case True
    then have "f' = f" "\<not> skip" using run by (auto simp: arrival_step_def arrived_def split: if_splits)
    then show ?thesis using ok True by simp
  next
    case False
    note o = unheard_open[OF st ok e False]
    have f1: "frontier_ok g {to} ?f1" by (rule record_arrival_ok[OF st ok e rep False])
    have dist: "distinct (map fst (f_arrivals ?f1 to))" using frontier_okD(3)[OF f1, of to] by (simp add: node_ok_def)
    have o1: "\<not> scheduled ?f1 to" "\<not> f_skipped ?f1 to" using o by (simp_all add: scheduled_def)
    have heard: "from \<in> arrived ?f1 to" by (simp add: arrived_def)
    have all: "list_all (\<lambda>d. map_of (f_arrivals ?f1 to) d \<noteq> None) (p_deps p to) \<longleftrightarrow> {q. (q, to) \<in> graph_rel g} \<subseteq> arrived ?f1 to"
      unfolding list_all_iff D(1)[symmetric] arrived_def map_of_eq_None_iff by blast
    have any: "list_ex (\<lambda>d. map_of (f_arrivals ?f1 to) d = Some True) (p_deps p to) \<longleftrightarrow> (\<exists>q. (q, True) \<in> set (f_arrivals ?f1 to))"
      using frontier_okD(4)[OF f1, of to] unfolding list_ex_iff map_of_keys[OF dist] D(1) heard_ok_def by blast
    have run1: "(f', skip) =
        (if \<not> {q. (q, to) \<in> graph_rel g} \<subseteq> arrived ?f1 to then (?f1, False)
         else if \<exists>q. (q, True) \<in> set (f_arrivals ?f1 to) then (push_ready to ?f1, False)
         else (mark_skipped to ?f1, True))"
      using run False o D(2) static_planD(1)[OF st] unfolding all[symmetric] any[symmetric]
      by (simp add: arrival_step_def arrived_def scheduled_def Let_def del: frontier_fields(6) split: if_splits)
    have arr: "set (f_arrivals f n) \<subseteq> set (f_arrivals ?f1 n)" for n by auto
    show ?thesis
    proof (cases "{q. (q, to) \<in> graph_rel g} \<subseteq> arrived ?f1 to")
      case False
      then have "f' = ?f1" "\<not> skip" using run1 by simp_all
      then show ?thesis using still_waiting_ok[OF f1 False] heard arr by simp
    next
      case all: True
      show ?thesis
      proof (cases "\<exists>q. (q, True) \<in> set (f_arrivals ?f1 to)")
        case True
        then have "f' = push_ready to ?f1" "\<not> skip" using run1 all by simp_all
        moreover obtain q where "(q, True) \<in> set (f_arrivals ?f1 to)" using True by blast
        ultimately show ?thesis
          using push_ready_ok[OF f1 o(4) o1 all] heard arr by (simp add: arrived_def subset_insertI)
      next
        case False
        then have r: "f' = mark_skipped to ?f1" "skip" using run1 all by simp_all
        have "frontier_ok g {} f'" unfolding r using mark_skipped_ok[OF f1 o(4) o1(1) all] False by blast
        then show ?thesis using r heard arr o(2) by (simp add: arrived_def)
      qed
    qed
  qed
  then show "frontier_ok g {} f'" and "from \<in> arrived f' to" and "skip \<Longrightarrow> f_skipped f' to \<and> \<not> f_skipped f to"
    and "set (f_arrivals f n) \<subseteq> set (f_arrivals f' n)" "f_completed f' = f_completed f" "f_results f' = f_results f"
    "f_waiting f' = f_waiting f" "set (f_ready f) \<subseteq> set (f_ready f')" "f_skipped f q \<Longrightarrow> f_skipped f' q"
    "f_skipped f' q \<Longrightarrow> \<not> f_skipped f q \<Longrightarrow> skip \<and> q = to"
    by blast+
qed

lemma arrival_step_grows:
  assumes "static_plan g p" "frontier_ok g {} f" "(from, to) \<in> graph_rel g" "may_report f from b"
    and "arrival_step p to from b f = (f', False)"
  shows "grows g f f'"
  unfolding grows_def using arrival_step_ok(4-10)[OF assms] by blast

lemma arrive_ok:
  assumes st: "static_plan g p"
  shows "frontier_ok g {} f \<Longrightarrow> (from, to) \<in> graph_rel g \<Longrightarrow> may_report f from b \<Longrightarrow>
      arrive g p k to from b f = Some f' \<Longrightarrow> frontier_ok g {} f' \<and> from \<in> arrived f' to \<and> grows g f f'"
    and "frontier_ok g {} f \<Longrightarrow> \<forall>n \<in> set ns. (from, n) \<in> graph_rel g \<Longrightarrow> may_report f from False \<Longrightarrow>
      arrive_skipped g p k ns from f = Some f' \<Longrightarrow>
      frontier_ok g {} f' \<and> (\<forall>n \<in> set ns. from \<in> arrived f' n) \<and> grows g f f'"
  using st
proof (induction g p k to "from" b f and g p k ns "from" f arbitrary: f' and f' rule: arrive_arrive_skipped.induct)
  case (1 g p to "from" b f)
  then show ?case by simp
next
  case (2 g p k to "from" b f)
  obtain f1 skip where s: "arrival_step p to from b f = (f1, skip)" by (metis prod.exhaust)
  note one = arrival_step_ok[OF 2(6,2,3,4) s]
  show ?case
  proof (cases skip)
    case False
    then have "f' = f1" using 2(5) s by simp
    then show ?thesis using one(1,2) arrival_step_grows[OF 2(6,2,3,4)] s False by simp
  next
    case True
    have sk: "f_skipped f1 to" using one(3)[OF True] by simp
    have run: "arrive_skipped g p k (all_successors g to) to f1 = Some f'" using 2(5) s True by simp
    have "\<forall>n \<in> set (all_successors g to). (to, n) \<in> graph_rel g" using static_planD(5)[OF 2(6)] by simp
    moreover have "may_report f1 to False" using sk by (simp add: may_report_def resolved_def)
    ultimately have r: "frontier_ok g {} f'" "\<forall>n \<in> set (all_successors g to). to \<in> arrived f' n" "grows g f1 f'"
      using 2(1)[OF s[symmetric] True one(1)] run 2(6) by blast+
    have "delivered g f' to" using r(2) static_planD(5)[OF 2(6)] by (auto simp: delivered_def)
    then have "grows g f f'" using r(3) one(4-10) unfolding grows_def by (metis subset_trans)
    moreover have "from \<in> arrived f' to" using one(2) grows_arrived[OF r(3)] by blast
    ultimately show ?thesis using r(1) by blast
  qed
next
  case (3 g p k "from" f)
  then show ?case using grows_refl by simp
next
  case (4 g p k n ns "from" f)
  obtain f1 where f1: "arrive g p k n from False f = Some f1" using 4(6) by (auto split: option.splits)
  have one: "frontier_ok g {} f1" "from \<in> arrived f1 n" "grows g f f1"
    using 4(1)[OF 4(3) _ 4(5) f1 4(7)] 4(4) by simp_all
  have "may_report f1 from False" using grows_may_report[OF one(3) 4(5)] .
  then have r: "frontier_ok g {} f'" "\<forall>n \<in> set ns. from \<in> arrived f' n" "grows g f1 f'"
    using 4(2)[OF f1 one(1) _ _ _ 4(7)] 4(4,6) f1 by simp_all
  then show ?case using grows_arrived[OF r(3)] one(2) grows_trans[OF one(3) r(3)] by auto
qed

lemma arrive_all_ok:
  assumes st: "static_plan g p"
  shows "frontier_ok g {} f \<Longrightarrow> \<forall>n \<in> set ns. (from, n) \<in> graph_rel g \<Longrightarrow> may_report f from b \<Longrightarrow>
    arrive_all g p k ns from b f = Some f' \<Longrightarrow>
    frontier_ok g {} f' \<and> (\<forall>n \<in> set ns. from \<in> arrived f' n) \<and> grows g f f'"
proof (induction ns arbitrary: f)
  case Nil
  then show ?case using grows_refl by simp
next
  case (Cons n ns)
  obtain f1 where f1: "arrive g p k n from b f = Some f1" using Cons.prems(4) by (auto split: option.splits)
  have one: "frontier_ok g {} f1" "from \<in> arrived f1 n" "grows g f f1"
    using arrive_ok(1)[OF st Cons.prems(1) _ Cons.prems(3) f1] Cons.prems(2) by simp_all
  have "may_report f1 from b" using grows_may_report[OF one(3) Cons.prems(3)] .
  then have r: "frontier_ok g {} f'" "\<forall>n \<in> set ns. from \<in> arrived f' n" "grows g f1 f'"
    using Cons.IH[OF one(1)] Cons.prems(2,4) f1 by simp_all
  then show ?case using grows_arrived[OF r(3)] one(2) grows_trans[OF one(3) r(3)] by auto
qed

text \<open>Enough fuel: a nested arrival comes from a node newly skipped.\<close>

definition open_nodes :: "string set \<Rightarrow> 'a frontier \<Rightarrow> string set" where
  "open_nodes V f = {n \<in> V. \<not> f_skipped f n}"

lemma arrival_step_open:
  assumes "arrival_step p to from b f = (f', skip)"
  shows "open_nodes V f' \<subseteq> open_nodes V f" and "skip \<Longrightarrow> open_nodes V f' = open_nodes V f - {to} \<and> \<not> f_skipped f to"
  using assms by (auto simp: arrival_step_def Let_def open_nodes_def split: if_splits)

lemma arrive_returns:
  assumes "finite V" "\<And>n. n \<in> V \<Longrightarrow> set (all_successors g n) \<subseteq> V"
  shows "to \<in> V \<Longrightarrow> card (open_nodes V f) < k \<Longrightarrow>
      \<exists>f'. arrive g p k to from b f = Some f' \<and> open_nodes V f' \<subseteq> open_nodes V f"
    and "set ns \<subseteq> V \<Longrightarrow> card (open_nodes V f) < k \<Longrightarrow>
      \<exists>f'. arrive_skipped g p k ns from f = Some f' \<and> open_nodes V f' \<subseteq> open_nodes V f"
  using assms
proof (induction g p k to "from" b f and g p k ns "from" f rule: arrive_arrive_skipped.induct)
  case (1 g p to "from" b f)
  then show ?case by simp
next
  case (2 g p k to "from" b f)
  obtain f1 skip where s: "arrival_step p to from b f = (f1, skip)" by (metis prod.exhaust)
  show ?case
  proof (cases skip)
    case False
    then show ?thesis using s arrival_step_open(1)[OF s] by simp
  next
    case True
    note o = arrival_step_open(2)[OF s True, of V]
    have "to \<in> open_nodes V f" using 2(2) o by (simp add: open_nodes_def)
    moreover have "finite (open_nodes V f)" using 2(4) by (simp add: open_nodes_def)
    ultimately have "card (open_nodes V f) = Suc (card (open_nodes V f1))"
      using o by (metis card.remove)
    then have "card (open_nodes V f1) < k" using 2(3) by simp
    then obtain f' where "arrive_skipped g p k (all_successors g to) to f1 = Some f'" "open_nodes V f' \<subseteq> open_nodes V f1"
      using 2(1)[OF s[symmetric] True 2(5)[OF 2(2)] _ 2(4,5)] by blast
    then show ?thesis using s True o by auto
  qed
next
  case (3 g p k "from" f)
  then show ?case by simp
next
  case (4 g p k n ns "from" f)
  obtain f1 where f1: "arrive g p k n from False f = Some f1" "open_nodes V f1 \<subseteq> open_nodes V f"
    using 4(1)[OF _ 4(4,5,6)] 4(3) by auto
  have "finite (open_nodes V f)" using 4(5) by (simp add: open_nodes_def)
  then have "card (open_nodes V f1) < k" using f1(2) 4(4) by (meson card_mono le_less_trans)
  then obtain f' where "arrive_skipped g p k ns from f1 = Some f'" "open_nodes V f' \<subseteq> open_nodes V f1"
    using 4(2)[OF f1(1) _ _ 4(5,6)] 4(3) by auto
  then show ?case using f1 by auto
qed

lemma arrive_all_returns:
  assumes "static_plan g p"
  shows "set ns \<subseteq> dom (g_nodes g) \<Longrightarrow> \<exists>f'. arrive_all g p (Suc (length (p_order p))) ns from b f = Some f'"
proof (induction ns arbitrary: f)
  case (Cons n ns)
  let ?V = "dom (g_nodes g)"
  have V: "finite ?V" "card ?V = length (p_order p)"
    using static_planD(2,3)[OF assms] by (metis List.finite_set, metis distinct_card)
  have "card (open_nodes ?V f) \<le> card ?V" using V(1) by (intro card_mono) (auto simp: open_nodes_def)
  then have lt: "card (open_nodes ?V f) < Suc (length (p_order p))" using V(2) by simp
  have cl: "\<And>m. m \<in> ?V \<Longrightarrow> set (all_successors g m) \<subseteq> ?V"
    using static_planD(5,6)[OF assms] by blast
  obtain f1 where "arrive g p (Suc (length (p_order p))) n from b f = Some f1"
    using arrive_returns(1)[OF V(1) cl _ lt, of n p "from" b] Cons.prems by auto
  then show ?case using Cons by simp
qed simp

subsection \<open>Routing in a static plan\<close>

lemma route_target_static:
  assumes "route_target env g name s c = Inr t" "targets c \<noteq> None"
  shows "t \<in> set (edge_targets c) \<or> (t = default_target c \<and> t \<noteq> [])"
proof -
  obtain ts where ts: "targets c = Some ts" using assms(2) by blast
  have "map_of ts l = Some t \<Longrightarrow> t \<in> snd ` set ts" for l t
    by (metis image_eqI map_of_SomeD snd_conv)
  then show ?thesis
    using assms(1) ts
    by (auto simp: route_target_def edge_targets_def Let_def split: sum.splits option.splits if_splits)
qed

definition cond_targets :: "'s cond_edge list \<Rightarrow> string set" where
  "cond_targets cs = {t. \<exists>c \<in> set cs. t \<in> set (edge_targets c) \<or> (t = default_target c \<and> t \<noteq> [])}"

lemma cond_targets_Cons:
  "cond_targets (c # cs) = set (edge_targets c) \<union> (if default_target c = [] then {} else {default_target c}) \<union> cond_targets cs"
  by (auto simp: cond_targets_def)

lemma route_all_static:
  assumes "\<forall>c \<in> set cs. targets c \<noteq> None" "route_all env g name s cs sel poss = Inr (sel', poss')"
  shows "set sel \<subseteq> set sel' \<and> set sel' \<subseteq> set sel \<union> cond_targets cs \<and> set poss' = set poss \<union> cond_targets cs \<and>
    (cs \<noteq> [] \<longrightarrow> sel' \<noteq> [])"
  using assms
proof (induction cs arbitrary: sel poss)
  case Nil
  then show ?case by (simp add: cond_targets_def)
next
  case (Cons c cs)
  obtain t where t: "route_target env g name s c = Inr t" using Cons.prems(2) by (auto split: sum.splits)
  define poss1 where "poss1 = (let p1 = fold (\<lambda>to acc. append_unique acc to) (edge_targets c) poss in
      if default_target c = [] then p1 else append_unique p1 (default_target c))"
  have run: "route_all env g name s cs (append_unique sel t) poss1 = Inr (sel', poss')"
    using Cons.prems(2) t by (simp add: poss1_def Let_def)
  have p1: "set poss1 = set poss \<union> set (edge_targets c) \<union> (if default_target c = [] then {} else {default_target c})"
    by (auto simp: poss1_def Let_def)
  have tc: "t \<in> cond_targets (c # cs)"
    using route_target_static[OF t] Cons.prems(1) by (auto simp: cond_targets_def)
  have ih: "set (append_unique sel t) \<subseteq> set sel'" "set sel' \<subseteq> set (append_unique sel t) \<union> cond_targets cs"
    "set poss' = set poss1 \<union> cond_targets cs"
    using Cons.IH[OF _ run] Cons.prems(1) by simp_all
  have "t \<in> set sel'" using ih(1) by simp
  then have "sel' \<noteq> []" by auto
  then show ?case using ih tc unfolding p1 cond_targets_Cons by auto
qed

lemma graph_rel_targets:
  "g_adjacency g = build_adjacency (g_edges g) \<Longrightarrow> {t. (n, t) \<in> graph_rel g} = set (g_adjacency g n) \<union> cond_targets (g_conds g n)"
  by (auto simp: graph_rel_def adjacency_spec cond_targets_def image_iff)

lemma set_unique: "set (fold (\<lambda>to acc. append_unique acc to) xs []) = set xs"
  by simp

lemma select_successors_static:
  assumes st: "static_plan g p" and "select_successors env g name s None = Inr (selected, skipped)" "name \<noteq> END"
  shows "set selected \<union> set skipped = {t. (name, t) \<in> graph_rel g}" "selected \<noteq> []" "set selected \<inter> set skipped = {}"
proof -
  have adj: "{t. (name, t) \<in> graph_rel g} = set (g_adjacency g name) \<union> cond_targets (g_conds g name)"
    using st by (intro graph_rel_targets) (simp add: static_plan_def)
  have routes: "\<forall>c \<in> set (g_conds g name). targets c \<noteq> None" using st by (simp add: static_plan_def)
  obtain sel poss where r: "route_all env g name s (g_conds g name) (g_adjacency g name) [] = Inr (sel, poss)"
    "selected = sort (fold (\<lambda>to acc. append_unique acc to) sel [])" "skipped = sort (filter (\<lambda>to. to \<notin> set sel) poss)"
    "\<not> (g_adjacency g name = [] \<and> g_conds g name = [])"
    using assms(2,3) by (auto simp: select_successors_def Let_def split: sum.splits if_splits)
  note spec = route_all_static[OF routes r(1)]
  have sel: "set selected = set sel" "set skipped = set poss - set sel" by (auto simp: r(2,3))
  show "set selected \<union> set skipped = {t. (name, t) \<in> graph_rel g}" using spec unfolding sel adj by auto
  show "set selected \<inter> set skipped = {}" unfolding sel by blast
  have "sel \<noteq> []" using spec r(4) by (cases "g_conds g name") auto
  then have "set selected \<noteq> {}" unfolding sel by simp
  then show "selected \<noteq> []" by simp
qed

lemma select_successors_END: "select_successors env g END s t = Inr ([], [])"
  by (simp add: select_successors_def)

subsection \<open>The invariant of the executor\<close>

definition exec_ok :: "('s, 'w) graph \<Rightarrow> 's executor \<Rightarrow> bool" where
  "exec_ok g x \<longleftrightarrow> frontier_ok g {} (x_frontier x) \<and>
     (\<forall>q. (f_completed (x_frontier x) q \<and> q \<noteq> END) \<or> f_skipped (x_frontier x) q \<longrightarrow> delivered g (x_frontier x) q) \<and>
     (\<forall>q. f_completed (x_frontier x) q \<and> q \<noteq> END \<longrightarrow> (\<exists>n. (q, True) \<in> set (f_arrivals (x_frontier x) n))) \<and>
     (\<forall>n. f_results (x_frontier x) n \<noteq> None \<longrightarrow> f_completed (x_frontier x) n)"

lemma exec_okD:
  assumes "exec_ok g x"
  shows "frontier_ok g {} (x_frontier x)"
    "(f_completed (x_frontier x) q \<and> q \<noteq> END) \<or> f_skipped (x_frontier x) q \<Longrightarrow> delivered g (x_frontier x) q"
    "f_completed (x_frontier x) q \<Longrightarrow> q \<noteq> END \<Longrightarrow> \<exists>n. (q, True) \<in> set (f_arrivals (x_frontier x) n)"
    "f_results (x_frontier x) n \<noteq> None \<Longrightarrow> f_completed (x_frontier x) n"
  using assms unfolding exec_ok_def by blast+

lemma new_executor_ok:
  assumes "static_plan g p"
  shows "exec_ok g (new_executor g s)"
proof -
  let ?f = "x_frontier (new_executor g s)"
  have sch: "scheduled ?f n \<longleftrightarrow> n = g_entry g" "\<not> f_skipped ?f n" "f_arrivals ?f n = []" "\<not> f_completed ?f n"
    "f_waiting ?f n = None" for n
    by (simp_all add: new_executor_def scheduled_def)
  have "node_ok g ?f n" for n
    using static_planD(8)[OF assms] by (simp add: node_ok_def sch)
  moreover have "heard_ok g ?f n" for n by (simp add: heard_ok_def sch)
  moreover have "settled g ?f n" for n by (auto simp: settled_def arrived_def sch)
  moreover have "distinct (f_ready ?f)" by (simp add: new_executor_def)
  ultimately have "frontier_ok g {} ?f" by (simp add: frontier_ok_def sch)
  moreover have "f_results ?f n = None" for n by (simp add: new_executor_def)
  ultimately show ?thesis by (simp add: exec_ok_def sch)
qed

text \<open>What is known of a ready node.\<close>

lemma ready_node:
  assumes "frontier_ok g T f" "n \<in> set (f_ready f)"
  shows "\<not> f_completed f n" "\<not> f_skipped f n" "f_waiting f n = None" "n \<in> dom (g_nodes g)"
    "n = g_entry g \<or> ({q. (q, n) \<in> graph_rel g} \<subseteq> arrived f n \<and> (\<exists>q. (q, True) \<in> set (f_arrivals f n)))"
proof -
  have ok: "node_ok g f n" by (rule frontier_okD(3)[OF assms(1)])
  have s: "scheduled f n" using assms(2) by (simp add: scheduled_def)
  show "\<not> f_completed f n" "\<not> f_skipped f n" "f_waiting f n = None" "n \<in> dom (g_nodes g)"
    using ok s assms(2) unfolding node_ok_def by blast+
  show "n = g_entry g \<or> ({q. (q, n) \<in> graph_rel g} \<subseteq> arrived f n \<and> (\<exists>q. (q, True) \<in> set (f_arrivals f n)))"
    using ok s unfolding node_ok_def by blast
qed

text \<open>The head of the ready nodes leaves them, completed or waiting.\<close>

lemma leave_ready_ok:
  fixes f f' :: "'a frontier"
  assumes ok: "frontier_ok g {} f" and rd: "f_ready f = n # rs"
    and f': "f_ready f' = rs" "f_skipped f' = f_skipped f" "f_arrivals f' = f_arrivals f"
      "\<And>m. m \<noteq> n \<Longrightarrow> f_completed f' m = f_completed f m \<and> f_waiting f' m = f_waiting f m"
      "f_completed f' n \<and> f_waiting f' n = None \<or> \<not> f_completed f' n \<and> f_waiting f' n \<noteq> None"
  shows "frontier_ok g {} f'"
proof (rule frontier_ok_update[OF ok, where to = n])
  have mem: "n \<in> set (f_ready f)" using rd by simp
  note rn = ready_node[OF ok mem]
  have d: "distinct (n # rs)" using frontier_okD(1)[OF ok] rd by simp
  show "distinct (f_ready f')" using d f'(1) by simp
  show "same_at f f' m" if "m \<noteq> n" for m using that f' rd by (simp add: same_at_def)
  show "may_report f' q b" if "may_report f q b" for q b
    using that f'(2,4) rn(1,2) by (cases "q = n") (simp_all add: may_report_def resolved_def)
  have sn: "scheduled f' n" using f'(5) by (auto simp: scheduled_def)
  show "scheduled f' (g_entry g)" if "scheduled f (g_entry g)"
    using that sn f'(1,4) rd by (cases "g_entry g = n") (simp_all add: scheduled_def)
  have arr: "arrived f' n = arrived f n" using f'(3) by (simp add: arrived_def)
  have dist: "distinct (map fst (f_arrivals f n))" using frontier_okD(3)[OF ok, of n] by (simp add: node_ok_def)
  show "node_ok g f' n"
    unfolding node_ok_def arr f'(1-3) using rn d dist f'(5) by (intro conjI impI) auto
  show "heard_ok g f' n"
  proof (rule heard_ok_mono[OF frontier_okD(4)[OF ok]])
    show "may_report f' q b" if "may_report f q b" for q b
      using that f'(2,4) rn(1,2) by (cases "q = n") (simp_all add: may_report_def resolved_def)
  qed (simp add: f'(3))
  show "n \<in> {} \<or> settled g f' n" using sn by (simp add: settled_def)
qed simp

lemma arrive_hd:
  assumes st: "static_plan g p" and ok: "frontier_ok g {} f" and e: "(from, to) \<in> graph_rel g"
    and rep: "may_report f from b" and run: "arrive g p k to from b f = Some f'" and n: "from \<notin> arrived f to"
  shows "(from, b) \<in> set (f_arrivals f' to)"
proof -
  obtain k' where k: "k = Suc k'" using run by (cases k) auto
  obtain f1 skip where s: "arrival_step p to from b f = (f1, skip)" by (metis prod.exhaust)
  note one = arrival_step_ok[OF st ok e rep s]
  have "(from, b) \<in> set (f_arrivals f1 to)"
    using s n unheard_open[OF st ok e n]
    by (auto simp: arrival_step_def arrived_def scheduled_def mark_skipped_def Let_def split: if_splits)
  moreover have "grows g f1 f'"
  proof (cases skip)
    case True
    then have rep': "may_report f1 to False" using one(3) by (simp add: may_report_def resolved_def)
    have run': "arrive_skipped g p k' (all_successors g to) to f1 = Some f'" using run s k True by simp
    show ?thesis using arrive_ok(2)[OF st one(1) _ rep' run'] static_planD(5)[OF st] by simp
  next
    case False
    then show ?thesis using run s k grows_refl by simp
  qed
  ultimately show ?thesis by (auto simp: grows_def)
qed

text \<open>A node that was just resolved has not been heard by anyone.\<close>

lemma unresolved_unheard:
  "frontier_ok g T f \<Longrightarrow> \<not> f_completed f q \<Longrightarrow> \<not> f_skipped f q \<Longrightarrow> q \<notin> arrived f n"
  using frontier_okD(4)[of g T f n] by (auto simp: heard_ok_def arrived_def may_report_def resolved_def)

lemma adopt_ok:
  assumes st: "static_plan g p" and ok: "frontier_ok g {} (x_frontier x)" and rd: "f_ready (x_frontier x) = name # rs"
    and t: "r_target r = None" and run: "adopt env g p name r x = Some (None, x')"
  shows "frontier_ok g {} (x_frontier x')"
    and "f_completed (x_frontier x') = (f_completed (x_frontier x))(name := True)"
    and "f_waiting (x_frontier x') = f_waiting (x_frontier x)"
    and "f_results (x_frontier x') = (f_results (x_frontier x))(name \<mapsto> r\<lparr>r_adopted := True\<rparr>)"
    and "name \<noteq> END \<Longrightarrow> delivered g (x_frontier x') name"
    and "delivered g (x_frontier x) q \<Longrightarrow> delivered g (x_frontier x') q"
    and "f_skipped (x_frontier x') q \<Longrightarrow> \<not> f_skipped (x_frontier x) q \<Longrightarrow> delivered g (x_frontier x') q"
    and "name \<noteq> END \<Longrightarrow> \<exists>n. (name, True) \<in> set (f_arrivals (x_frontier x') n)"
    and "set (f_arrivals (x_frontier x) n) \<subseteq> set (f_arrivals (x_frontier x') n)"
proof -
  let ?f = "x_frontier x" and ?k = "Suc (length (p_order p))"
  let ?f1 = "complete_node name r ?f"
  obtain s where s: "result_state env name (x_state x) r = Inr s" using run by (auto simp: adopt_def Let_def split: sum.splits)
  obtain selected skipped where sel: "select_successors env g name s None = Inr (selected, skipped)"
    using run s t by (auto simp: adopt_def Let_def split: sum.splits)
  have "\<exists>f2 f3. arrive_all g p ?k selected name True ?f1 = Some f2 \<and>
      arrive_all g p ?k skipped name False f2 = Some f3 \<and> x' = \<lparr>x_state = s, x_frontier = f3\<rparr>"
    using run s sel t by (auto simp: adopt_def Let_def split: if_splits option.splits)
  then obtain f2 f3 where f2: "arrive_all g p ?k selected name True ?f1 = Some f2"
    and f3: "arrive_all g p ?k skipped name False f2 = Some f3" and x': "x' = \<lparr>x_state = s, x_frontier = f3\<rparr>"
    by blast
  have mem: "name \<in> set (f_ready ?f)" using rd by simp
  note rn = ready_node[OF ok mem]
  have fields: "f_ready ?f1 = rs" "f_skipped ?f1 = f_skipped ?f" "f_arrivals ?f1 = f_arrivals ?f"
    "f_completed ?f1 = (f_completed ?f)(name := True)" "f_waiting ?f1 = (f_waiting ?f)(name := None)"
    "f_results ?f1 = (f_results ?f)(name \<mapsto> r\<lparr>r_adopted := True\<rparr>)"
    by (simp_all add: complete_node_def rd)
  have ok1: "frontier_ok g {} ?f1" by (rule leave_ready_ok[OF ok rd]) (simp_all add: fields)
  have edges: "(\<forall>n \<in> set selected. (name, n) \<in> graph_rel g) \<and> (\<forall>n \<in> set skipped. (name, n) \<in> graph_rel g)"
    using select_successors_static(1)[OF st sel] sel select_successors_END[of env g s None]
    by (cases "name = END") auto
  have rep: "may_report ?f1 name b" for b using fields(4) by (simp add: may_report_def resolved_def)
  have two: "frontier_ok g {} f2" "\<forall>n \<in> set selected. name \<in> arrived f2 n" "grows g ?f1 f2"
    using arrive_all_ok[OF st ok1 _ rep f2] edges by simp_all
  have three: "frontier_ok g {} f3" "\<forall>n \<in> set skipped. name \<in> arrived f3 n" "grows g f2 f3"
    using arrive_all_ok[OF st two(1) _ grows_may_report[OF two(3) rep] f3] edges by simp_all
  have gr: "grows g ?f1 f3" by (rule grows_trans[OF two(3) three(3)])
  have out: "x_frontier x' = f3" by (simp add: x')
  show "frontier_ok g {} (x_frontier x')" using three(1) out by simp
  show "f_completed (x_frontier x') = (f_completed ?f)(name := True)" using gr out fields(4) by (simp add: grows_def)
  show "f_waiting (x_frontier x') = f_waiting ?f" using gr out fields(5) rn(3) by (auto simp: grows_def fun_eq_iff)
  show "f_results (x_frontier x') = (f_results ?f)(name \<mapsto> r\<lparr>r_adopted := True\<rparr>)"
    using gr out fields(6) by (simp add: grows_def)
  show "delivered g (x_frontier x) q \<Longrightarrow> delivered g (x_frontier x') q"
    using grows_delivered[OF gr, of q] out fields(3) by (simp add: delivered_def arrived_def)
  show "f_skipped (x_frontier x') q \<Longrightarrow> \<not> f_skipped ?f q \<Longrightarrow> delivered g (x_frontier x') q"
    using gr out fields(2) by (simp add: grows_def)
  show "set (f_arrivals ?f n) \<subseteq> set (f_arrivals (x_frontier x') n)" using gr out fields(3) by (simp add: grows_def)
  assume ne: "name \<noteq> END"
  note ss = select_successors_static[OF st sel ne]
  have "name \<in> arrived f3 n" if "(name, n) \<in> graph_rel g" for n
    using that ss(1) two(2) three(2) grows_arrived[OF three(3)] by blast
  then show "delivered g (x_frontier x') name" using out by (simp add: delivered_def)
  obtain n ns where n: "selected = n # ns" using ss(2) by (cases selected) auto
  obtain f1' where f1': "arrive g p ?k n name True ?f1 = Some f1'" "arrive_all g p ?k ns name True f1' = Some f2"
    using f2 n by (auto split: option.splits)
  have "name \<notin> arrived ?f1 n" using unresolved_unheard[OF ok rn(1,2), of n] fields(3) by (simp add: arrived_def)
  moreover have en: "(name, n) \<in> graph_rel g" using edges n by simp
  ultimately have got: "(name, True) \<in> set (f_arrivals f1' n)" using arrive_hd[OF st ok1 _ rep f1'(1)] by blast
  have ok1': "frontier_ok g {} f1'" "grows g ?f1 f1'" using arrive_ok(1)[OF st ok1 en rep f1'(1)] by simp_all
  have "grows g f1' f2" using arrive_all_ok[OF st ok1'(1) _ grows_may_report[OF ok1'(2) rep] f1'(2)] edges n by simp
  then have "grows g f1' f3" using grows_trans three(3) by blast
  then show "\<exists>n. (name, True) \<in> set (f_arrivals (x_frontier x') n)" using got out by (auto simp: grows_def)
qed

lemma adopt_exec_ok:
  assumes "static_plan g p" "exec_ok g x0" "x_frontier x = (x_frontier x0)\<lparr>f_results := R\<rparr>"
    and "\<And>n. R n \<noteq> None \<Longrightarrow> n = name \<or> f_completed (x_frontier x0) n"
    and "f_ready (x_frontier x0) = name # rs" "r_target r = None" "adopt env g p name r x = Some (None, x')"
  shows "exec_ok g x'"
proof -
  have eq: "f_ready (x_frontier x) = f_ready (x_frontier x0)" "f_completed (x_frontier x) = f_completed (x_frontier x0)"
    "f_skipped (x_frontier x) = f_skipped (x_frontier x0)" "f_waiting (x_frontier x) = f_waiting (x_frontier x0)"
    "f_arrivals (x_frontier x) = f_arrivals (x_frontier x0)" "f_results (x_frontier x) = R"
    by (simp_all add: assms(3))
  have same: "frontier_ok g {} (x_frontier x) = frontier_ok g {} (x_frontier x0)"
    "delivered g (x_frontier x) q = delivered g (x_frontier x0) q" for q
    by (simp_all add: frontier_ok_def node_ok_def heard_ok_def settled_def scheduled_def arrived_def may_report_def
        resolved_def delivered_def eq)
  note old = exec_okD[OF assms(2)]
  have ok: "frontier_ok g {} (x_frontier x)" using old(1) same(1) by simp
  note new = adopt_ok[OF assms(1) ok _ assms(6,7)]
  have rd: "f_ready (x_frontier x) = name # rs" using assms(5) eq(1) by simp
  show ?thesis
    unfolding exec_ok_def
  proof (intro conjI allI impI)
    show "frontier_ok g {} (x_frontier x')" by (rule new(1)[OF rd])
    fix q
    show "delivered g (x_frontier x') q"
      if "f_completed (x_frontier x') q \<and> q \<noteq> END \<or> f_skipped (x_frontier x') q"
      using that new(2)[OF rd] new(5)[OF rd] new(6,7)[OF rd, of q] old(2)[of q] same(2)[of q] eq(2,3)
      by (cases "q = name") auto
    show "\<exists>n. (q, True) \<in> set (f_arrivals (x_frontier x') n)"
      if "f_completed (x_frontier x') q \<and> q \<noteq> END"
      using that new(2)[OF rd] new(8)[OF rd] new(9)[OF rd] old(3)[of q] eq(2,5)
      by (cases "q = name") fastforce+
    show "f_completed (x_frontier x') q" if "f_results (x_frontier x') q \<noteq> None"
      using that new(2,4)[OF rd] assms(4)[of q] eq(2,6) by (cases "q = name") auto
  qed
qed

subsection \<open>One turn\<close>

text \<open>What the code relies on: a failed clone is an error, not a request to wait.\<close>

definition clones_honest :: "('s, 'w) node_env \<Rightarrow> bool" where
  "clones_honest env \<longleftrightarrow> (\<forall>s e. clone_state env s = CloneFailed e \<longrightarrow> \<not> only_interrupts e)"

lemma only_interrupts_simps [simp]:
  "\<not> only_interrupts (plain msg)" "\<not> only_interrupts (Leaf (NodePanicked n))"
  "waiting_signal cfg (Wrapped e) = waiting_signal cfg e"
  by (simp_all add: plain_def waiting_signal_def signals_of_def)

lemma waiting_signal_only: "waiting_signal cfg e \<noteq> None \<Longrightarrow> only_interrupts e"
  by (auto simp: waiting_signal_def split: if_splits)

lemma clone_for_error: "clones_honest env \<Longrightarrow> clone_for env n s = Inl e \<Longrightarrow> \<not> only_interrupts e"
  by (auto simp: clone_for_def clones_honest_def split: cloned.splits)

lemma route_target_error: "clones_honest env \<Longrightarrow> route_target env g n s c = Inl e \<Longrightarrow> \<not> only_interrupts e"
  by (auto simp: route_target_def Let_def dest: clone_for_error split: sum.splits option.splits if_splits)

lemma route_all_error:
  "clones_honest env \<Longrightarrow> route_all env g n s cs sel poss = Inl e \<Longrightarrow> \<not> only_interrupts e"
  by (induction env g n s cs sel poss rule: route_all.induct)
    (auto simp: Let_def dest: route_target_error split: sum.splits)

lemma select_successors_error:
  "clones_honest env \<Longrightarrow> select_successors env g n s t = Inl e \<Longrightarrow> \<not> only_interrupts e"
  by (auto simp: select_successors_def Let_def dest: route_all_error split: sum.splits if_splits)

lemma adopt_error:
  assumes "clones_honest env" "adopt env g p name r x = Some (Some e, x')"
  shows "x' = x \<and> \<not> only_interrupts e"
  using assms
  by (auto simp: adopt_def result_state_def Let_def dest: clone_for_error select_successors_error
      split: sum.splits if_splits option.splits prod.splits)

lemma adopt_returns:
  assumes st: "static_plan g p" and t: "r_target r = None"
  shows "adopt env g p name r x \<noteq> None"
proof -
  have ret: "\<exists>f'. arrive_all g p (Suc (length (p_order p))) ns name b f = Some f'"
    if "set ns \<subseteq> {t. (name, t) \<in> graph_rel g}" for ns b f
    using that static_planD(6)[OF st] by (intro arrive_all_returns[OF st]) blast
  have sub: "set selected \<subseteq> {t. (name, t) \<in> graph_rel g} \<and> set skipped \<subseteq> {t. (name, t) \<in> graph_rel g}"
    if "select_successors env g name s None = Inr (selected, skipped)" for s selected skipped
    using that select_successors_static(1)[OF st that] select_successors_END[of env g s None]
    by (cases "name = END") auto
  show ?thesis
  proof (cases "result_state env name (x_state x) r")
    case (Inl e)
    then show ?thesis by (simp add: adopt_def)
  next
    case (Inr s)
    show ?thesis
    proof (cases "select_successors env g name s None")
      case (Inl e)
      then show ?thesis using Inr by (simp add: adopt_def t)
    next
      case sel: (Inr y)
      obtain selected skipped where y: "y = (selected, skipped)" by force
      note s2 = sub[OF sel[unfolded y]]
      obtain f2 where f2: "arrive_all g p (Suc (length (p_order p))) selected name True (complete_node name r (x_frontier x)) = Some f2"
        using ret s2 by blast
      obtain f3 where "arrive_all g p (Suc (length (p_order p))) skipped name False f2 = Some f3"
        using ret s2 by blast
      then show ?thesis using Inr sel y f2 by (simp add: adopt_def t Let_def)
    qed
  qed
qed

lemma execute_target_None:
  assumes "static_plan g p" "execute env cfg g name s w = ((out, t, e), w')"
  shows "t = None"
proof -
  have "node_command nd = None" if "g_nodes g name = Some nd" for nd
    using assms(1) that by (simp add: static_plan_def)
  then show ?thesis
    using assms(2) by (auto simp: execute_def execute_command_node_def split: option.splits prod.splits if_splits)
qed

text \<open>The nodes that may still be run.\<close>

definition unfinished :: "('s, 'w) graph \<Rightarrow> 's executor \<Rightarrow> string set" where
  "unfinished g x = {n \<in> dom (g_nodes g). \<not> f_completed (x_frontier x) n \<and> f_waiting (x_frontier x) n = None}"

lemma sort_ready_fields [simp]:
  "f_completed (x_frontier (sort_ready p x)) = f_completed (x_frontier x)"
  "f_skipped (x_frontier (sort_ready p x)) = f_skipped (x_frontier x)"
  "f_waiting (x_frontier (sort_ready p x)) = f_waiting (x_frontier x)"
  "f_arrivals (x_frontier (sort_ready p x)) = f_arrivals (x_frontier x)"
  "f_results (x_frontier (sort_ready p x)) = f_results (x_frontier x)"
  "set (f_ready (x_frontier (sort_ready p x))) = set (f_ready (x_frontier x))"
  "distinct (f_ready (x_frontier (sort_ready p x))) = distinct (f_ready (x_frontier x))"
  "f_ready (x_frontier (sort_ready p x)) = [] \<longleftrightarrow> f_ready (x_frontier x) = []"
  "x_state (sort_ready p x) = x_state x"
  by (simp_all add: sort_ready_def flip: set_empty)

lemma exec_ok_sort: "exec_ok g (sort_ready p x) = exec_ok g x"
  by (simp add: exec_ok_def frontier_ok_def node_ok_def heard_ok_def settled_def scheduled_def arrived_def
      may_report_def resolved_def delivered_def)

lemma unfinished_sort: "unfinished g (sort_ready p x) = unfinished g x"
  by (simp add: unfinished_def)

text \<open>A turn that goes on finishes one node: it completes, or it waits.\<close>

lemma turn_goes_on:
  assumes st: "static_plan g p" and ok: "exec_ok g x" and env: "clones_honest env"
    and run: "turn env cfg g p x w = Some (Inl (x', w'))"
  shows "exec_ok g x'"
    and "\<exists>name. name \<in> unfinished g x \<and> unfinished g x' = unfinished g x - {name}"
proof -
  let ?x1 = "sort_ready p x"
  have ne: "f_ready (x_frontier x) \<noteq> []" using run by (auto simp: turn_def)
  then obtain name rs where rd: "f_ready (x_frontier ?x1) = name # rs" by (metis list.exhaust sort_ready_fields(8))
  let ?f = "x_frontier ?x1"
  have ok1: "exec_ok g ?x1" using ok by (simp add: exec_ok_sort)
  have mem: "name \<in> set (f_ready ?f)" using rd by simp
  note rn = ready_node[OF exec_okD(1)[OF ok1] mem]
  have nr: "f_results ?f name = None" using exec_okD(4)[OF ok1, of name] rn(1) by blast
  have un: "name \<in> unfinished g ?x1" using rn by (simp add: unfinished_def)
  obtain e x2 where one: "run_one env cfg g p name ?x1 w = Some ((e, x2), w')"
    and e: "(case e of None \<Rightarrow> x' = x2 | Some e' \<Rightarrow> waiting_signal cfg e' \<noteq> None \<and> x' = drop_ready x2)"
    using run ne rd
    by (auto simp: turn_def Let_def split: option.splits prod.splits if_splits)
  obtain out t e0 w1 where ex: "execute env cfg g name (x_state ?x1) w = ((out, t, e0), w1)" by (metis prod.exhaust)
  have t: "t = None" by (rule execute_target_None[OF st ex])
  have "exec_ok g x' \<and> unfinished g x' = unfinished g ?x1 - {name}"
  proof (cases e0)
    case (Some e1)
    have "name \<notin> set (rc_interrupts cfg)" using one e waiting_signal_only by (fastforce simp: run_one_def Let_def)
    then have x2: "x2 = (case waiting_signal cfg e1 of None \<Rightarrow> ?x1
        | Some k \<Rightarrow> ?x1\<lparr>x_frontier := ?f\<lparr>f_waiting := (f_waiting ?f)(name \<mapsto> k)\<rparr>\<rparr>)" "e = Some (Wrapped e1)"
      using one nr ex Some by (auto simp: run_one_def Let_def split: option.splits)
    obtain k where k: "waiting_signal cfg e1 = Some k" using e x2(2) by auto
    have x': "x' = drop_ready (?x1\<lparr>x_frontier := ?f\<lparr>f_waiting := (f_waiting ?f)(name \<mapsto> k)\<rparr>\<rparr>)"
      using e x2 k by simp
    have f': "f_ready (x_frontier x') = rs" "f_skipped (x_frontier x') = f_skipped ?f"
      "f_arrivals (x_frontier x') = f_arrivals ?f" "f_completed (x_frontier x') = f_completed ?f"
      "f_waiting (x_frontier x') = (f_waiting ?f)(name \<mapsto> k)" "f_results (x_frontier x') = f_results ?f"
      by (simp_all add: x' drop_ready_def rd)
    have "frontier_ok g {} (x_frontier x')"
      using rn(1) by (intro leave_ready_ok[OF exec_okD(1)[OF ok1] rd]) (simp_all add: f')
    moreover have "delivered g (x_frontier x') q = delivered g ?f q" for q
      by (simp add: delivered_def arrived_def f')
    ultimately have "exec_ok g x'" using ok1 by (simp add: exec_ok_def f')
    moreover have "unfinished g x' = unfinished g ?x1 - {name}" unfolding unfinished_def f'(4,5) by auto
    ultimately show ?thesis by blast
  next
    case None
    let ?r = "\<lparr>r_output = out, r_target = t, r_adopted = False\<rparr>"
    let ?y = "?x1\<lparr>x_frontier := ?f\<lparr>f_results := (f_results ?f)(name \<mapsto> ?r)\<rparr>\<rparr>"
    have "name \<notin> set (rc_interrupts cfg)" using one e waiting_signal_only by (fastforce simp: run_one_def Let_def)
    then have ad: "adopt env g p name ?r ?y = Some (e, x2)"
      using one nr ex None by (auto simp: run_one_def Let_def)
    have "e = None"
    proof (rule ccontr)
      assume "e \<noteq> None"
      then obtain e' where e': "e = Some e'" by blast
      then have "\<not> only_interrupts e'" using adopt_error[OF env] ad by blast
      then show False using e e' waiting_signal_only by auto
    qed
    then have x': "x' = x2" and ad: "adopt env g p name ?r ?y = Some (None, x')" using e ad by simp_all
    have "exec_ok g x'"
    proof (rule adopt_exec_ok[OF st ok1 _ _ rd _ ad, where R = "(f_results ?f)(name \<mapsto> ?r)"])
      show "n = name \<or> f_completed ?f n" if "((f_results ?f)(name \<mapsto> ?r)) n \<noteq> None" for n
        using that exec_okD(4)[OF ok1, of n] by (cases "n = name") simp_all
    qed (simp_all add: t)
    moreover have "unfinished g x' = unfinished g ?x1 - {name}"
    proof -
      have fy: "frontier_ok g {} (x_frontier ?y)"
        using exec_okD(1)[OF ok1]
        by (simp add: frontier_ok_def node_ok_def heard_ok_def settled_def scheduled_def arrived_def may_report_def resolved_def)
      have ry: "f_ready (x_frontier ?y) = name # rs" using rd by simp
      have "f_completed (x_frontier x') = (f_completed ?f)(name := True)" "f_waiting (x_frontier x') = f_waiting ?f"
        using adopt_ok(2,3)[OF st fy ry _ ad] t by simp_all
      then show ?thesis by (auto simp: unfinished_def)
    qed
    ultimately show ?thesis by blast
  qed
  then show "exec_ok g x'" "\<exists>name. name \<in> unfinished g x \<and> unfinished g x' = unfinished g x - {name}"
    using un unfolding unfinished_sort by blast+
qed

lemma turn_returns:
  assumes "static_plan g p" "exec_ok g x"
  shows "turn env cfg g p x w \<noteq> None"
proof -
  have "run_one env cfg g p name x1 w \<noteq> None" if "exec_ok g x1" "name \<in> set (f_ready (x_frontier x1))" for x1 name
  proof -
    have "f_results (x_frontier x1) name = None"
      using exec_okD(4)[OF that(1), of name] ready_node(1)[OF exec_okD(1)[OF that(1)] that(2)] by blast
    moreover obtain out t e w1 where "execute env cfg g name (x_state x1) w = ((out, t, e), w1)" by (metis prod.exhaust)
    moreover have "t = None" using execute_target_None[OF assms(1)] calculation(2) by blast
    ultimately show ?thesis using adopt_returns[OF assms(1)] by (cases e) (auto simp: run_one_def Let_def)
  qed
  moreover have "hd (f_ready (x_frontier (sort_ready p x))) \<in> set (f_ready (x_frontier (sort_ready p x)))"
    if "f_ready (x_frontier x) \<noteq> []" using that by (metis hd_in_set sort_ready_fields(8))
  ultimately have "f_ready (x_frontier x) \<noteq> [] \<Longrightarrow>
      run_one env cfg g p (hd (f_ready (x_frontier (sort_ready p x)))) (sort_ready p x) w \<noteq> None"
    using assms(2) exec_ok_sort by blast
  then show ?thesis
    by (cases "f_ready (x_frontier x) = []") (auto simp: turn_def Let_def split: option.splits)
qed

subsection \<open>Runs\<close>

text \<open>The executors a run goes through.\<close>

inductive run_reach :: "('s, 'w) node_env \<Rightarrow> run_config \<Rightarrow> ('s, 'w) graph \<Rightarrow> plan \<Rightarrow> 's \<Rightarrow> 'w \<Rightarrow> 's executor \<Rightarrow> 'w \<Rightarrow> bool"
  for env cfg g p s w where
  run_start: "run_reach env cfg g p s w (new_executor g s) w"
| run_turn: "run_reach env cfg g p s w x v \<Longrightarrow> turn env cfg g p x v = Some (Inl (x', v')) \<Longrightarrow> run_reach env cfg g p s w x' v'"

lemma run_reach_ok:
  assumes "static_plan g p" "clones_honest env" "run_reach env cfg g p s w x v"
  shows "exec_ok g x"
  using assms(3)
proof induction
  case run_start
  show ?case by (rule new_executor_ok[OF assms(1)])
next
  case (run_turn x v x' v')
  show ?case by (rule turn_goes_on(1)[OF assms(1) run_turn(3) assms(2) run_turn(2)])
qed

lemma finite_nodes: "static_plan g p \<Longrightarrow> finite (dom (g_nodes g)) \<and> card (dom (g_nodes g)) = length (p_order p)"
  using static_planD(2,3)[of g p] by (metis List.finite_set distinct_card)

lemma plan_loop_ends:
  assumes st: "static_plan g p" and env: "clones_honest env"
  shows "run_reach env cfg g p s w x v \<Longrightarrow> card (unfinished g x) < fuel \<Longrightarrow>
    \<exists>y v' r. run_reach env cfg g p s w y v' \<and> turn env cfg g p y v' = Some (Inr r) \<and>
      plan_loop env cfg g p fuel x v = Some r"
proof (induction fuel arbitrary: x v)
  case (Suc fuel)
  have ok: "exec_ok g x" by (rule run_reach_ok[OF st env Suc.prems(1)])
  obtain t where t: "turn env cfg g p x v = Some t" using turn_returns[OF st ok] by blast
  show ?case
  proof (cases t)
    case (Inr r)
    then show ?thesis using t Suc.prems(1) by (intro exI[of _ x] exI[of _ v] exI[of _ r]) simp
  next
    case (Inl y)
    obtain x' v' where y: "y = (x', v')" by force
    have run: "turn env cfg g p x v = Some (Inl (x', v'))" using t Inl y by simp
    obtain n where n: "n \<in> unfinished g x" "unfinished g x' = unfinished g x - {n}"
      using turn_goes_on(2)[OF st ok env run] by blast
    have "finite (unfinished g x)" using finite_nodes[OF st] by (simp add: unfinished_def)
    then have "card (unfinished g x) = Suc (card (unfinished g x'))" using n by (metis card.remove)
    then have "card (unfinished g x') < fuel" using Suc.prems(2) by simp
    then show ?thesis using Suc.IH[OF run_reach.run_turn[OF Suc.prems(1) run]] run by simp
  qed
qed simp

text \<open>The whole run: with one turn for every node, and one to end, it returns.\<close>

lemma graph_run_ends:
  assumes st: "static_plan g p" and env: "clones_honest env" and g: "g_compiled g" "g_plan g = Some p"
    and fuel: "Suc (length (p_order p)) \<le> fuel"
  shows "\<exists>y v r. run_reach env cfg g p s w y v \<and> turn env cfg g p y v = Some (Inr r) \<and>
    graph_run env cfg fuel g s w = Some r"
proof -
  have "card (unfinished g (new_executor g s)) \<le> card (dom (g_nodes g))"
    using finite_nodes[OF st] by (intro card_mono) (auto simp: unfinished_def)
  then have "card (unfinished g (new_executor g s)) < fuel" using fuel finite_nodes[OF st] by simp
  from plan_loop_ends[OF st env run_reach.run_start this] show ?thesis using g by (simp add: graph_run_def)
qed

text \<open>When all nodes can be reached from the entry point, a run without open nodes has resolved them all.\<close>

lemma all_resolved:
  assumes st: "static_plan g p" and ok: "exec_ok g x" and ac: "acyclic (graph_rel g)"
    and reach: "\<And>n. n \<in> dom (g_nodes g) \<Longrightarrow> (g_entry g, n) \<in> (graph_rel g)\<^sup>*" and leaf: "\<And>t. (END, t) \<notin> graph_rel g"
    and idle: "f_ready (x_frontier x) = []" "\<And>n. f_waiting (x_frontier x) n = None"
  shows "n \<in> dom (g_nodes g) \<Longrightarrow> resolved (x_frontier x) n"
proof -
  let ?f = "x_frontier x"
  have sub: "graph_rel g \<subseteq> dom (g_nodes g) \<times> dom (g_nodes g)" using static_planD(6)[OF st] by auto
  then have fin: "finite (graph_rel g)" using finite_nodes[OF st] by (meson finite_SigmaI finite_subset)
  have open_none: "scheduled ?f m \<Longrightarrow> f_completed ?f m" for m using idle by (simp add: scheduled_def)
  have "wf (graph_rel g)" using fin ac by (rule finite_acyclic_wf)
  then show "n \<in> dom (g_nodes g) \<Longrightarrow> resolved ?f n"
  proof (induction n)
    case (less n)
    show ?case
    proof (cases "n = g_entry g")
      case True
      then show ?thesis using frontier_okD(2)[OF exec_okD(1)[OF ok]] open_none by (simp add: resolved_def)
    next
      case False
      then have rg: "n \<in> Range (graph_rel g)" using reach[OF less.prems] by (metis Range.intros rtranclE)
      have "q \<in> arrived ?f n" if q: "(q, n) \<in> graph_rel g" for q
      proof -
        have "q \<in> dom (g_nodes g)" using sub q by blast
        then have "resolved ?f q" using less.IH q by blast
        moreover have "q \<noteq> END" using leaf q by blast
        ultimately have "delivered g ?f q" using exec_okD(2)[OF ok, of q] by (auto simp: resolved_def)
        then show ?thesis using q by (simp add: delivered_def)
      qed
      then have "scheduled ?f n \<or> f_skipped ?f n"
        using frontier_okD(5)[OF exec_okD(1)[OF ok], of n] rg unfolding settled_def by blast
      then show ?thesis using open_none by (auto simp: resolved_def)
    qed
  qed
qed

lemma end_completed:
  assumes st: "static_plan g p" and ok: "exec_ok g x" and ac: "acyclic (graph_rel g)"
    and idle: "f_ready (x_frontier x) = []" "\<And>n. f_waiting (x_frontier x) n = None"
    and all: "\<And>n. n \<in> dom (g_nodes g) \<Longrightarrow> resolved (x_frontier x) n"
  shows "f_completed (x_frontier x) END"
proof -
  let ?f = "x_frontier x"
  have sub: "graph_rel g \<subseteq> dom (g_nodes g) \<times> dom (g_nodes g)" using static_planD(6)[OF st] by auto
  then have "finite (graph_rel g)" using finite_nodes[OF st] by (meson finite_SigmaI finite_subset)
  then have wf: "wf ((graph_rel g)\<inverse>)" using ac by (intro finite_acyclic_wf) simp_all
  have "f_completed ?f (g_entry g)"
    using frontier_okD(2)[OF exec_okD(1)[OF ok]] idle by (simp add: scheduled_def)
  then obtain q where q: "f_completed ?f q" "\<And>m. (q, m) \<in> graph_rel g \<Longrightarrow> \<not> f_completed ?f m"
    using wfE_min[OF wf, of "g_entry g" "Collect (f_completed ?f)"] by auto
  have "q = END"
  proof (rule ccontr)
    assume "q \<noteq> END"
    then obtain n where n: "(q, True) \<in> set (f_arrivals ?f n)" using exec_okD(3)[OF ok q(1)] by blast
    then have e: "(q, n) \<in> graph_rel g" using frontier_okD(4)[OF exec_okD(1)[OF ok], of n] by (auto simp: heard_ok_def)
    have "\<not> f_skipped ?f n" using frontier_okD(3)[OF exec_okD(1)[OF ok], of n] n by (auto simp: node_ok_def)
    then have "f_completed ?f n" using all[of n] e sub by (auto simp: resolved_def)
    then show False using q(2)[OF e] by simp
  qed
  then show ?thesis using q(1) by simp
qed

subsection \<open>Graphs that build to a static plan\<close>

definition static_builder :: "('s, 'w) builder \<Rightarrow> bool" where
  "static_builder b \<longleftrightarrow> g_mode (b_graph b) = GraphModeDAG \<and> g_trigger (b_graph b) = TriggerAllPredecessors \<and>
     (\<forall>f. \<forall>c \<in> set (g_conds (b_graph b) f). targets c \<noteq> None) \<and>
     (\<forall>n nd. g_nodes (b_graph b) n = Some nd \<longrightarrow> node_command nd = None) \<and>
     (\<forall>f. (f, g_entry (ready_graph b)) \<notin> graph_rel (closed_graph b))"

lemma built_static:
  assumes ord: "orders_ok (closed_graph b) ord" and sb: "static_builder b" and g: "graph_build ord b = Some (Inr g)"
  shows "\<exists>p. g_plan g = Some p \<and> g_compiled g \<and> static_plan g p \<and> acyclic (graph_rel g) \<and>
    graph_rel g = graph_rel (closed_graph b) \<and> g_nodes g = g_nodes (closed_graph b) \<and> g_entry g = g_entry (ready_graph b)"
proof -
  let ?r = "ready_graph b"
  have mode: "g_mode (b_graph b) = GraphModeDAG" using sb by (simp add: static_builder_def)
  obtain p order where p: "g = ?r\<lparr>g_plan := Some p, g_compiled := True\<rparr>" and refs: "refs_exist ?r"
    and entry: "g_entry ?r \<in> dom (g_nodes ?r)"
    and topo: "graph_topo_sort (o_nodes ord) (o_deps ord) (dependencies ord ?r) = Some order"
    and pd: "p = dag_plan ord ?r order"
    using built_dag[OF ord mode g] by blast
  have ok: "orders_ok ?r ord" using ord by (simp add: ready_graph_simps)
  have fields: "p_order p = order" "p_deps p = dependencies ord ?r" "p_trigger p = g_trigger ?r"
    by (simp_all add: pd dag_plan_def Let_def)
  have same: "graph_rel g = graph_rel ?r" "g_nodes g = g_nodes ?r" "g_entry g = g_entry ?r" "g_conds g = g_conds ?r"
    "g_adjacency g = g_adjacency ?r" "g_edges g = g_edges ?r" "refs_exist g = refs_exist ?r"
    by (simp_all add: p graph_rel_def refs_exist_def)
  have order: "acyclic (dep_rel (dependencies ord ?r))" "distinct order" "set order = set (o_nodes ord)"
    using graph_topo_sort_spec[OF deps_closed_graph[OF ok refs]] topo by auto
  have "static_plan g p"
    unfolding static_plan_def same
  proof (intro conjI allI ballI impI)
    show "p_trigger p = TriggerAllPredecessors" using fields(3) sb by (simp add: static_builder_def ready_graph_simps)
    show "distinct (p_order p)" "set (p_order p) = dom (g_nodes ?r)"
      using order(2,3) ok by (simp_all add: fields(1) orders_ok_def)
    show "g_adjacency ?r = build_adjacency (g_edges ?r)" by (rule ready_graph_simps)
    show "set (p_deps p t) = {f. (f, t) \<in> graph_rel ?r}" for t
      using dependencies_spec(1)[OF ok] by (simp add: fields(2))
    show "targets c \<noteq> None" if "c \<in> set (g_conds ?r f)" for c f
      using sb that by (simp add: static_builder_def ready_graph_def closed_graph_def)
    show "node_command nd = None" if "g_nodes ?r n = Some nd" for n nd
      using sb that by (auto simp: static_builder_def ready_graph_def closed_graph_def start_node_def end_node_def split: if_splits)
    have "set (dependencies ord ?r (g_entry ?r)) = {}"
      using sb dependencies_spec(1)[OF ok, of "g_entry ?r"] by (simp add: static_builder_def ready_graph_simps)
    then show "p_deps p (g_entry ?r) = []" by (simp add: fields(2))
  qed (use refs entry in simp_all)
  moreover have "g_plan g = Some p" "g_compiled g" by (simp_all add: p)
  moreover have "acyclic (graph_rel g)" using order(1) dep_rel_dependencies[OF ok] same(1) by simp
  ultimately show ?thesis using same(1-3) by (simp add: ready_graph_simps)
qed

subsection \<open>A run without failures\<close>

definition healthy :: "('s, 'w) node_env \<Rightarrow> run_config \<Rightarrow> ('s, 'w) graph \<Rightarrow> bool" where
  "healthy env cfg g \<longleftrightarrow> (\<forall>w. ctx_err env w = None) \<and> rc_interrupts cfg = [] \<and> (\<forall>s. \<exists>s'. clone_state env s = Cloned s') \<and>
     (\<forall>n \<in> dom (g_nodes g). \<forall>s w. \<exists>s' w'. execute env cfg g n s w = ((s', None, None), w')) \<and>
     (\<forall>f s. \<forall>c \<in> set (g_conds g f). \<exists>t. route_target env g f s c = Inr t) \<and>
     (\<forall>n \<in> dom (g_nodes g). n \<noteq> END \<longrightarrow> n \<in> Domain (graph_rel g))"

lemma healthy_honest: "healthy env cfg g \<Longrightarrow> clones_honest env"
  by (metis clones_honest_def cloned.distinct(1) healthy_def)

lemma route_all_total:
  "\<forall>c \<in> set cs. \<exists>t. route_target env g name s c = Inr t \<Longrightarrow> \<exists>r. route_all env g name s cs sel poss = Inr r"
  by (induction cs arbitrary: sel poss) (auto simp: Let_def)

lemma select_successors_total:
  assumes st: "static_plan g p" and h: "healthy env cfg g" and n: "name \<in> dom (g_nodes g)"
  shows "\<exists>r. select_successors env g name s None = Inr r"
proof (cases "name = END")
  case True
  then show ?thesis by (simp add: select_successors_END)
next
  case False
  have "name \<in> Domain (graph_rel g)" using h n False by (simp add: healthy_def)
  then have "\<not> (g_adjacency g name = [] \<and> g_conds g name = [])"
    using graph_rel_targets[of g name] st by (auto simp: static_plan_def cond_targets_def)
  moreover obtain sel poss where "route_all env g name s (g_conds g name) (g_adjacency g name) [] = Inr (sel, poss)"
    using route_all_total[of "g_conds g name" env g name s] h by (metis healthy_def prod.exhaust)
  ultimately show ?thesis using False by (simp add: select_successors_def Let_def)
qed

lemma healthy_turn:
  assumes st: "static_plan g p" and h: "healthy env cfg g" and ok: "exec_ok g x" and ne: "f_ready (x_frontier x) \<noteq> []"
  shows "\<exists>x' v'. turn env cfg g p x v = Some (Inl (x', v')) \<and> f_waiting (x_frontier x') = f_waiting (x_frontier x)"
proof -
  let ?x1 = "sort_ready p x"
  let ?f = "x_frontier ?x1"
  obtain name rs where rd: "f_ready ?f = name # rs" using ne by (metis list.exhaust sort_ready_fields(8))
  have ok1: "exec_ok g ?x1" using ok by (simp add: exec_ok_sort)
  have mem: "name \<in> set (f_ready ?f)" using rd by simp
  note rn = ready_node[OF exec_okD(1)[OF ok1] mem]
  have nr: "f_results ?f name = None" using exec_okD(4)[OF ok1, of name] rn(1) by blast
  obtain out v' where ex: "execute env cfg g name (x_state ?x1) v = ((out, None, None), v')"
    using h rn(4) unfolding healthy_def by blast
  define r where "r = \<lparr>r_output = out, r_target = (None :: string option), r_adopted = False\<rparr>"
  define y where "y = ?x1\<lparr>x_frontier := ?f\<lparr>f_results := (f_results ?f)(name \<mapsto> r)\<rparr>\<rparr>"
  have fy: "frontier_ok g {} (x_frontier y)"
    using exec_okD(1)[OF ok1]
    by (simp add: y_def frontier_ok_def node_ok_def heard_ok_def settled_def scheduled_def arrived_def may_report_def resolved_def)
  have ry: "f_ready (x_frontier y) = name # rs" "f_completed (x_frontier y) = f_completed ?f" "f_arrivals (x_frontier y) = f_arrivals ?f"
    using rd by (simp_all add: y_def)
  obtain s where c: "clone_state env out = Cloned s" using h unfolding healthy_def by blast
  have s: "result_state env name (x_state y) r = Inr s" by (simp add: result_state_def clone_for_def r_def c)
  obtain selected skipped where sel: "select_successors env g name s None = Inr (selected, skipped)"
    using select_successors_total[OF st h rn(4), of s] by (metis prod.exhaust)
  have fresh: "\<not> (to \<noteq> END \<and> f_completed (x_frontier y) to)" if "to \<in> set selected" for to
  proof
    assume c: "to \<noteq> END \<and> f_completed (x_frontier y) to"
    have e: "(name, to) \<in> graph_rel g"
      using select_successors_static(1)[OF st sel] that sel select_successors_END[of env g s None] by (cases "name = END") auto
    have "scheduled (x_frontier y) to" using c by (simp add: scheduled_def)
    then have "name \<in> arrived (x_frontier y) to" using unheard_open(1)[OF st fy e] by blast
    moreover have "name \<notin> arrived (x_frontier y) to"
      using rn(1,2) by (intro unresolved_unheard[OF fy]) (simp_all add: y_def)
    ultimately show False by simp
  qed
  have nex: "\<not> list_ex (\<lambda>to. to \<noteq> END \<and> f_completed (x_frontier y) to) selected" unfolding list_ex_iff using fresh by blast
  obtain z where z: "adopt env g p name r y = Some z" using adopt_returns[OF st] r_def by fastforce
  have "fst z = None"
    using z s sel nex by (auto simp: adopt_def Let_def r_def split: option.splits)
  then obtain x' where ad: "adopt env g p name r y = Some (None, x')" using z by (cases z) simp
  have one: "run_one env cfg g p name ?x1 v = Some ((None, x'), v')"
    using h nr ex ad by (simp add: run_one_def healthy_def Let_def r_def y_def)
  have "f_waiting (x_frontier x') = f_waiting (x_frontier x)"
    using adopt_ok(3)[OF st fy ry(1) _ ad] by (simp add: r_def y_def)
  moreover have "turn env cfg g p x v = Some (Inl (x', v'))"
    using ne rd one h by (simp add: turn_def Let_def healthy_def)
  ultimately show ?thesis by blast
qed

lemma healthy_never_waits:
  assumes st: "static_plan g p" and h: "healthy env cfg g" and r: "run_reach env cfg g p s w x v"
  shows "f_waiting (x_frontier x) n = None"
  using r
proof induction
  case run_start
  then show ?case by (simp add: new_executor_def)
next
  case (run_turn x v x' v')
  have "f_ready (x_frontier x) \<noteq> []" using run_turn(2) by (auto simp: turn_def)
  then obtain y u where "turn env cfg g p x v = Some (Inl (y, u))" "f_waiting (x_frontier y) = f_waiting (x_frontier x)"
    using healthy_turn[OF st h run_reach_ok[OF st healthy_honest[OF h] run_turn(1)]] by blast
  then show ?case using run_turn by simp
qed

subsection \<open>Properties\<close>

text \<open>
  C16: in a DAG whose routes are declared and whose nodes wait for all predecessors, whatever the
  handlers do, the node a turn picks has never been run before, is neither completed, skipped nor
  waiting, every predecessor of it is completed or skipped, and unless it is the entry point a
  completed predecessor has selected it.
\<close>

theorem run_order_safe:
  assumes "orders_ok (closed_graph b) ord" "static_builder b" "graph_build ord b = Some (Inr g)" "g_plan g = Some p"
    and "clones_honest env" "run_reach env cfg g p s w x v" "f_ready (x_frontier x) \<noteq> []"
    and "name = hd (f_ready (x_frontier (sort_ready p x)))"
  shows "f_results (x_frontier x) name = None \<and> \<not> resolved (x_frontier x) name \<and> f_waiting (x_frontier x) name = None \<and>
    (\<forall>q. (q, name) \<in> graph_rel g \<longrightarrow> resolved (x_frontier x) q) \<and>
    (name = g_entry g \<or> (\<exists>q. (q, name) \<in> graph_rel g \<and> f_completed (x_frontier x) q \<and> (q, True) \<in> set (f_arrivals (x_frontier x) name)))"
proof -
  have st: "static_plan g p" using built_static[OF assms(1-3)] assms(4) by auto
  have ok: "exec_ok g x" by (rule run_reach_ok[OF st assms(5,6)])
  note fr = exec_okD(1)[OF ok]
  have "name \<in> set (f_ready (x_frontier x))" using assms(7,8) by (metis hd_in_set sort_ready_fields(6,8))
  note rn = ready_node[OF fr this]
  have heard: "(q, b) \<in> set (f_arrivals (x_frontier x) name) \<Longrightarrow>
      (q, name) \<in> graph_rel g \<and> resolved (x_frontier x) q \<and> (b \<longrightarrow> f_completed (x_frontier x) q)" for q b
    using frontier_okD(4)[OF fr, of name] by (auto simp: heard_ok_def may_report_def)
  have "resolved (x_frontier x) q" if "(q, name) \<in> graph_rel g" for q
  proof -
    have "name \<noteq> g_entry g" using static_planD(7)[OF st] that by blast
    then have "q \<in> arrived (x_frontier x) name" using rn(5) that by blast
    then show ?thesis using heard by (auto simp: arrived_def)
  qed
  moreover have "f_results (x_frontier x) name = None" using exec_okD(4)[OF ok, of name] rn(1) by blast
  ultimately show ?thesis using rn(1-3,5) heard by (auto simp: resolved_def)
qed

text \<open>
  C17: such a run always returns, whatever the handlers, the routers and the contexts do: it takes at
  most one turn for every node of the plan, and one to end.
\<close>

theorem run_returns:
  assumes "orders_ok (closed_graph b) ord" "static_builder b" "graph_build ord b = Some (Inr g)"
    and "clones_honest env" "Suc (card (dom (g_nodes g))) \<le> fuel"
  shows "\<exists>r. graph_run env cfg fuel g s w = Some r"
proof -
  obtain p where p: "g_plan g = Some p" "g_compiled g" "static_plan g p" using built_static[OF assms(1-3)] by blast
  have "Suc (length (p_order p)) \<le> fuel" using assms(5) finite_nodes[OF p(3)] by simp
  then show ?thesis using graph_run_ends[OF p(3) assms(4) p(2,1)] by blast
qed

text \<open>
  C15: when moreover every node can be reached from the entry point, nothing follows the end node and
  no handler, router or clone fails, the run does not stall: it answers without an error, the end node
  is completed, every node is completed or skipped and none is both.
\<close>

theorem run_reaches_end:
  assumes "orders_ok (closed_graph b) ord" "static_builder b" "graph_build ord b = Some (Inr g)"
    and "healthy env cfg g" "Suc (card (dom (g_nodes g))) \<le> fuel"
    and "\<And>n. n \<in> dom (g_nodes g) \<Longrightarrow> (g_entry g, n) \<in> (graph_rel g)\<^sup>*" "\<And>t. (END, t) \<notin> graph_rel g"
  shows "\<exists>s' x w'. graph_run env cfg fuel g s w = Some ((s', None), x, w') \<and> f_completed (x_frontier x) END \<and>
    (\<forall>n \<in> dom (g_nodes g). f_completed (x_frontier x) n \<noteq> f_skipped (x_frontier x) n)"
proof -
  obtain p where p: "g_plan g = Some p" "g_compiled g" "static_plan g p" and ac: "acyclic (graph_rel g)"
    using built_static[OF assms(1-3)] by blast
  have "Suc (length (p_order p)) \<le> fuel" using assms(5) finite_nodes[OF p(3)] by simp
  then obtain y v r where y: "run_reach env cfg g p s w y v" "turn env cfg g p y v = Some (Inr r)"
    "graph_run env cfg fuel g s w = Some r"
    using graph_run_ends[OF p(3) healthy_honest[OF assms(4)] p(2,1)] by blast
  have ok: "exec_ok g y" by (rule run_reach_ok[OF p(3) healthy_honest[OF assms(4)] y(1)])
  have idle: "f_ready (x_frontier y) = []" using healthy_turn[OF p(3) assms(4) ok, of v] y(2) by auto
  have calm: "\<And>n. f_waiting (x_frontier y) n = None" by (rule healthy_never_waits[OF p(3) assms(4) y(1)])
  have all: "\<And>n. n \<in> dom (g_nodes g) \<Longrightarrow> resolved (x_frontier y) n"
    by (rule all_resolved[OF p(3) ok ac assms(6,7) idle calm])
  have "finish_run cfg p y = None"
    using calm all static_planD(3)[OF p(3)] by (auto simp: finish_run_def Let_def list_ex_iff resolved_def)
  then have "r = ((x_state y, None), y, v)" using y(2) idle by (simp add: turn_def)
  moreover have "f_completed (x_frontier y) n \<noteq> f_skipped (x_frontier y) n" if "n \<in> dom (g_nodes g)" for n
    using all[OF that] frontier_okD(3)[OF exec_okD(1)[OF ok], of n]
    unfolding node_ok_def resolved_def scheduled_def by blast
  ultimately show ?thesis using end_completed[OF p(3) ok ac idle calm all] y(3) by blast
qed

subsection \<open>The routed graph, run\<close>

definition calm_env :: "(nat, unit) node_env" where
  "calm_env = \<lparr>clone_state = Cloned, ctx_err = (\<lambda>_. None), attempt_err = (\<lambda>_ _ _. None),
     pause = (\<lambda>_ w. (False, w)), unsafe_to_replay = (\<lambda>_. False)\<rparr>"

definition plain_config :: run_config where
  "plain_config = \<lparr>rc_defaults = None, rc_timeout = 0, rc_interrupts = [], composite_signal = (\<lambda>_. 0)\<rparr>"

lemma routed_static: "static_builder routed"
  unfolding static_builder_def
proof (intro conjI allI ballI impI)
  show "targets c \<noteq> None" if "c \<in> set (g_conds (b_graph routed) f)" for c f
    using that routed_eq(4) by (auto simp: closed_graph_def split: if_splits)
  show "node_command nd = None" if "g_nodes (b_graph routed) n = Some nd" for n nd
    using that by (auto simp: routed_def new_graph_def add_graph_node_def add_node_with_builder_def new_node_def
        add_edge_def add_conditional_edge_def add_cond_edge_def set_finish_point_def with_graph_def START_def END_def Let_def
        split: if_splits)
  show "(f, g_entry (ready_graph routed)) \<notin> graph_rel (closed_graph routed)" for f
    using routed_rel routed_eq(7) by (auto simp: ready_graph_def START_def END_def)
qed (simp_all add: routed_eq)

lemma routed_graph:
  obtains g p where "graph_build routed_orders routed = Some (Inr g)" "g_plan g = Some p" "g_entry g = START"
    "g_nodes g = [''a'' \<mapsto> new_node ''a'' identity_handler, ''b'' \<mapsto> new_node ''b'' identity_handler,
       ''c'' \<mapsto> new_node ''c'' identity_handler, START \<mapsto> start_node, END \<mapsto> end_node]"
    "graph_rel g = {(START, ''a''), (''b'', ''c''), (''c'', END), (''a'', ''b''), (''a'', ''c'')}"
    "g_conds g = (\<lambda>_. [])(''a'' := [\<lparr>router = (\<lambda>s. Some (if s = 0 then ''x'' else ''y'')),
       targets = Some [(''x'', ''b''), (''y'', ''c'')], default_target = []\<rparr>])"
proof -
  obtain g where g: "graph_build routed_orders routed = Some (Inr g)" using routed_builds by blast
  obtain p where p: "g_plan g = Some p" "graph_rel g = graph_rel (closed_graph routed)"
    "g_nodes g = g_nodes (closed_graph routed)" "g_entry g = g_entry (ready_graph routed)"
    using built_static[OF routed_orders_ok(1) routed_static g] by blast
  obtain p' where "g = (ready_graph routed)\<lparr>g_plan := Some p', g_compiled := True\<rparr>"
    using built_dag[OF routed_orders_ok(1) routed_eq(5) g] by blast
  then have "g_conds g = g_conds (closed_graph routed)" by (simp add: ready_graph_def)
  then show thesis
    using that[OF g p(1)] p(2-4) routed_eq(2,4,7) routed_rel by (simp add: ready_graph_def)
qed

lemma execute_identity:
  assumes "g_nodes g n = Some nd" "node_handler nd = Some identity_handler" "node_retry nd = None" "node_timeout nd = 0"
    "node_command nd = None"
  shows "execute calm_env plain_config g n s w = ((s, None, None), w)"
  using assms
  by (simp add: execute_def plain_config_def execute_command_node_def execute_node_handler_def Let_def retry_loop.simps
      calm_env_def run_isolated_def identity_handler_def with_cause_def max_millis_def max_int64_def)

lemma routed_healthy:
  assumes "g_nodes g = [''a'' \<mapsto> new_node ''a'' identity_handler, ''b'' \<mapsto> new_node ''b'' identity_handler,
       ''c'' \<mapsto> new_node ''c'' identity_handler, START \<mapsto> start_node, END \<mapsto> end_node]"
    "graph_rel g = {(START, ''a''), (''b'', ''c''), (''c'', END), (''a'', ''b''), (''a'', ''c'')}"
    "g_conds g = (\<lambda>_. [])(''a'' := [\<lparr>router = (\<lambda>s. Some (if s = 0 then ''x'' else ''y'')),
       targets = Some [(''x'', ''b''), (''y'', ''c'')], default_target = []\<rparr>])"
  shows "healthy calm_env plain_config g"
  unfolding healthy_def
proof (intro conjI allI ballI impI)
  fix n s w
  assume "n \<in> dom (g_nodes g)"
  then obtain nd where nd: "g_nodes g n = Some nd" by blast
  then have "node_handler nd = Some identity_handler \<and> node_retry nd = None \<and> node_timeout nd = 0 \<and> node_command nd = None"
    using assms(1) by (auto simp: new_node_def start_node_def end_node_def split: if_splits)
  then show "\<exists>s' w'. execute calm_env plain_config g n s w = ((s', None, None), w')"
    using execute_identity[OF nd] by blast
next
  fix n
  assume "n \<in> dom (g_nodes g)" "n \<noteq> END"
  then show "n \<in> Domain (graph_rel g)" using assms(1,2) by (auto split: if_splits)
next
  fix f and s :: nat and c
  assume "c \<in> set (g_conds g f)"
  then show "\<exists>t. route_target calm_env g f s c = Inr t"
    using assms(1,3) by (auto simp: route_target_def clone_for_def calm_env_def Let_def split: if_splits)
qed (simp_all add: calm_env_def plain_config_def)

theorem run_order_safe_witness:
  "\<exists>g (x :: nat executor). f_results (x_frontier x) START = None \<and> graph_build routed_orders routed = Some (Inr g) \<and>
     START = hd (f_ready (x_frontier x))"
proof -
  obtain g p where g: "graph_build routed_orders routed = Some (Inr g)" "g_plan g = Some p" "g_entry g = START"
    by (rule routed_graph)
  let ?x = "new_executor g (0::nat)"
  have ready: "START = hd (f_ready (x_frontier (sort_ready p ?x)))" "f_ready (x_frontier ?x) \<noteq> []"
    by (simp_all add: new_executor_def sort_ready_def g(3))
  have "clones_honest calm_env" by (simp add: clones_honest_def calm_env_def)
  from run_order_safe[OF routed_orders_ok(1) routed_static g(1,2) this run_reach.run_start ready(2,1)]
  have "f_results (x_frontier ?x) START = None" by blast
  moreover have "START = hd (f_ready (x_frontier ?x))" by (simp add: new_executor_def g(3))
  ultimately show ?thesis using g(1) by blast
qed

theorem run_returns_witness:
  "\<exists>g r. graph_build routed_orders routed = Some (Inr g) \<and> graph_run calm_env plain_config 6 g 0 () = Some r"
proof -
  obtain g p where g: "graph_build routed_orders routed = Some (Inr g)" "g_plan g = Some p" "g_entry g = START"
    "g_nodes g = [''a'' \<mapsto> new_node ''a'' identity_handler, ''b'' \<mapsto> new_node ''b'' identity_handler,
       ''c'' \<mapsto> new_node ''c'' identity_handler, START \<mapsto> start_node, END \<mapsto> end_node]"
    by (rule routed_graph)
  have "clones_honest calm_env" by (simp add: clones_honest_def calm_env_def)
  moreover have "Suc (card (dom (g_nodes g))) \<le> 6" by (simp add: g(4) START_def END_def)
  ultimately show ?thesis using run_returns[OF routed_orders_ok(1) routed_static g(1)] g(1) by blast
qed

theorem run_reaches_end_witness:
  "\<exists>g s x w. graph_build routed_orders routed = Some (Inr g) \<and>
     graph_run calm_env plain_config 6 g 1 () = Some ((s, None), x, w) \<and> f_completed (x_frontier x) END"
proof -
  obtain g p where g: "graph_build routed_orders routed = Some (Inr g)" "g_plan g = Some p" "g_entry g = START"
    "g_nodes g = [''a'' \<mapsto> new_node ''a'' identity_handler, ''b'' \<mapsto> new_node ''b'' identity_handler,
       ''c'' \<mapsto> new_node ''c'' identity_handler, START \<mapsto> start_node, END \<mapsto> end_node]"
    "graph_rel g = {(START, ''a''), (''b'', ''c''), (''c'', END), (''a'', ''b''), (''a'', ''c'')}"
    "g_conds g = (\<lambda>_. [])(''a'' := [\<lparr>router = (\<lambda>s. Some (if s = 0 then ''x'' else ''y'')),
       targets = Some [(''x'', ''b''), (''y'', ''c'')], default_target = []\<rparr>])"
    by (rule routed_graph)
  have a: "(START, ''a'') \<in> (graph_rel g)\<^sup>*" by (rule r_into_rtrancl) (simp add: g(5))
  then have b: "(START, ''b'') \<in> (graph_rel g)\<^sup>*" "(START, ''c'') \<in> (graph_rel g)\<^sup>*"
    by (rule rtrancl_into_rtrancl, simp add: g(5))+
  from b(2) have e: "(START, END) \<in> (graph_rel g)\<^sup>*" by (rule rtrancl_into_rtrancl) (simp add: g(5))
  have reach: "(g_entry g, n) \<in> (graph_rel g)\<^sup>*" if "n \<in> dom (g_nodes g)" for n
    using that a b e by (auto simp: g(3,4) split: if_splits)
  have leaf: "(END, t) \<notin> graph_rel g" for t by (auto simp: g(5) START_def END_def)
  have fuel: "Suc (card (dom (g_nodes g))) \<le> 6" by (simp add: g(4) START_def END_def)
  from run_reaches_end[OF routed_orders_ok(1) routed_static g(1) routed_healthy[OF g(4,5,6)] fuel reach leaf]
  show ?thesis using g(1) by blast
qed

text \<open>
  A target that was skipped before is dropped without an error, although a completed one is refused:
  a command or a dynamic route that goes to it has no effect on the frontier.
\<close>

lemma skipped_target_dropped:
  assumes "f_skipped f to"
  shows "arrive g p (Suc k) to from True f = Some f"
  using assms by (simp add: arrival_step_def)

end
