(* ===== verification/GraphPregel.thy ===== *)
theory GraphPregel
  imports GraphExec "HOL-Library.AList"
begin

section \<open>Running a graph in supersteps\<close>

text \<open>
  \<open>orchestration/graph/plan_pregel.go\<close>, \<open>activation.go\<close> and \<open>pregel.go\<close>: the loop that runs every
  ready node of a graph once per superstep, merges their states at the barrier, and routes to the
  nodes of the next superstep.
  \<^item> a task identifier, \<open>plan/generation/node\<close>, is the pair of its generation and its node: the plan
    is the same for the whole run;
  \<^item> \<open>ActivationArrivals\<close>, its entries and \<open>Waiting\<close> are association lists, as the loop ranges over their keys;
  \<^item> generations and activations are natural numbers: the loop stops at \<open>MaxSupersteps\<close>, an \<open>int\<close>, long
    before \<open>uint64\<close> wraps;
  \<^item> the nodes of a superstep run on one goroutine each; a node's execution is one step on the world,
    and the order of these steps an argument (\<open>schedule\<close>);
  \<^item> \<open>None\<close> is a panic or missing fuel; \<open>pregel_returns\<close> shows there is neither.
  Persistence, observation and typed I/O nodes are not modelled.
\<close>

subsection \<open>Configuration\<close>

record pregel_config =
  pc_retry :: "retry_policy option"
  pc_timeout :: int
  max_supersteps :: int
  pc_trigger :: trigger_mode
  pc_parallel :: bool
  termination_check :: "(nat \<Rightarrow> string list \<Rightarrow> bool) option"
  pc_debug :: bool

definition default_pregel_config :: pregel_config where
  "default_pregel_config = \<lparr>pc_retry = None, pc_timeout = 0, max_supersteps = 100, pc_trigger = TriggerAnyPredecessor,
     pc_parallel = True, termination_check = None, pc_debug = False\<rparr>"

definition with_max_supersteps :: "int \<Rightarrow> pregel_config \<Rightarrow> pregel_config" where
  "with_max_supersteps n c = (if 0 < n then c\<lparr>max_supersteps := n\<rparr> else c)"

definition with_pregel_trigger_mode :: "trigger_mode \<Rightarrow> pregel_config \<Rightarrow> pregel_config" where
  "with_pregel_trigger_mode m c = c\<lparr>pc_trigger := m\<rparr>"

definition with_parallel_execution :: "bool \<Rightarrow> pregel_config \<Rightarrow> pregel_config" where
  "with_parallel_execution b c = c\<lparr>pc_parallel := b\<rparr>"

definition with_termination_check :: "(nat \<Rightarrow> string list \<Rightarrow> bool) option \<Rightarrow> pregel_config \<Rightarrow> pregel_config" where
  "with_termination_check f c = c\<lparr>termination_check := f\<rparr>"

definition with_pregel_debug :: "bool \<Rightarrow> pregel_config \<Rightarrow> pregel_config" where
  "with_pregel_debug b c = c\<lparr>pc_debug := b\<rparr>"

definition with_pregel_retry_policy :: "retry_policy option \<Rightarrow> pregel_config \<Rightarrow> pregel_config" where
  "with_pregel_retry_policy r c = c\<lparr>pc_retry := r\<rparr>"

definition with_pregel_node_timeout :: "int \<Rightarrow> pregel_config \<Rightarrow> pregel_config" where
  "with_pregel_node_timeout ms c = c\<lparr>pc_timeout := ms\<rparr>"

text \<open>\<open>NewPregelExecutor\<close>: the defaults, with the trigger of the plan, and then the options in order.\<close>

definition pregel_config_for :: "('s, 'w) graph \<Rightarrow> (pregel_config \<Rightarrow> pregel_config) list \<Rightarrow> pregel_config" where
  "pregel_config_for g opts =
     fold (\<lambda>opt c. opt c) opts
       (case g_plan g of None \<Rightarrow> default_pregel_config | Some p \<Rightarrow> default_pregel_config\<lparr>pc_trigger := p_trigger p\<rparr>)"

definition terminated :: "pregel_config \<Rightarrow> nat \<Rightarrow> string list \<Rightarrow> bool" where
  "terminated cfg step names = (case termination_check cfg of None \<Rightarrow> False | Some check \<Rightarrow> check step names)"

text \<open>What else a run depends on: the merger of states, the interrupts that are resumed, and the order
  in which the nodes of a superstep run.\<close>

record 's pregel_env =
  merger :: "('s \<Rightarrow> 's list \<Rightarrow> 's option) option"
  resumed :: "nat \<Rightarrow> bool"
  schedule :: "nat \<Rightarrow> string list \<Rightarrow> string list"
  pe_composite :: "nat list \<Rightarrow> nat"

text \<open>\<open>DefaultPregelMerger\<close>: the last state.\<close>

definition default_pregel_merger :: "'s \<Rightarrow> 's list \<Rightarrow> 's option" where
  "default_pregel_merger base states = Some (if states = [] then base else last states)"

definition run_config_of :: "'s pregel_env \<Rightarrow> pregel_config \<Rightarrow> run_config" where
  "run_config_of pe cfg = \<lparr>rc_defaults = pc_retry cfg, rc_timeout = pc_timeout cfg, rc_interrupts = [],
     composite_signal = pe_composite pe\<rparr>"

subsection \<open>The frontier\<close>

type_synonym task = "nat \<times> string"

record arrival_mark =
  am_source :: task
  am_source_gen :: nat
  am_target_gen :: nat
  am_skipped :: bool

record 's pfrontier =
  q_activation :: nat
  q_ready :: "string list"
  q_completed :: "string \<Rightarrow> bool"
  q_skipped :: "task \<Rightarrow> bool"
  q_results :: "task \<rightharpoonup> 's saved_result"
  q_waiting :: "(string \<times> nat) list"
  q_generations :: "string \<Rightarrow> nat list"
  q_expected :: "task \<rightharpoonup> string list"
  q_arrivals :: "(task \<times> (string \<times> arrival_mark) list) list"

record 's pexecutor =
  px_state :: 's
  px_frontier :: "'s pfrontier"

definition new_pexecutor :: "('s, 'w) graph \<Rightarrow> 's \<Rightarrow> 's pexecutor" where
  "new_pexecutor g s = \<lparr>px_state = s, px_frontier = \<lparr>q_activation = 0, q_ready = [g_entry g],
     q_completed = (\<lambda>_. False), q_skipped = (\<lambda>_. False), q_results = Map.empty, q_waiting = [],
     q_generations = (\<lambda>_. [])(g_entry g := [0]), q_expected = Map.empty, q_arrivals = []\<rparr>\<rparr>"

definition task_generation :: "plan \<Rightarrow> 's pfrontier \<Rightarrow> string \<Rightarrow> nat" where
  "task_generation p f n =
     (if p_mode p = GraphModePregel \<and> p_trigger p = TriggerAllPredecessors
      then (case q_generations f n of [] \<Rightarrow> q_activation f | gen # _ \<Rightarrow> gen)
      else q_activation f)"

definition task_id :: "plan \<Rightarrow> 's pfrontier \<Rightarrow> string \<Rightarrow> task" where
  "task_id p f n = (task_generation p f n, n)"

definition arrivals_of :: "'s pfrontier \<Rightarrow> task \<Rightarrow> (string \<times> arrival_mark) list" where
  "arrivals_of f t = (case map_of (q_arrivals f) t of None \<Rightarrow> [] | Some a \<Rightarrow> a)"

definition adopted :: "'s pfrontier \<Rightarrow> task \<Rightarrow> bool" where
  "adopted f t = (case q_results f t of None \<Rightarrow> False | Some r \<Rightarrow> r_adopted r)"

subsection \<open>Arrivals of a loop\<close>

datatype pregel_error = NodeFailed node_error | SuperstepFailed nat "(string \<times> node_error option) list"
  | MaxSuperstepsExceeded int | NeedsMerger "string list" | IdentityMismatch string
  | UnexpectedPredecessor string task | ConflictingArrivals string task | StalledAt task
  | NotRunnable string

definition entry_of :: "plan \<Rightarrow> nat \<Rightarrow> string" where
  "entry_of p i = (case map_of (p_entries p) i of None \<Rightarrow> [] | Some n \<Rightarrow> n)"

definition is_entry :: "plan \<Rightarrow> string \<Rightarrow> bool" where
  "is_entry p n \<longleftrightarrow> entry_of p (component_of (p_components p) n) = n"

text \<open>An arrival over a back edge is for the next generation of the loop entry.\<close>

definition target_generation :: "plan \<Rightarrow> string \<Rightarrow> string \<Rightarrow> nat \<Rightarrow> nat" where
  "target_generation p from to gen =
     (if component_of (p_components p) from = component_of (p_components p) to \<and> in_cycle p to \<and> is_entry p to
      then Suc gen else gen)"

definition expected_preds :: "plan \<Rightarrow> task \<Rightarrow> string list" where
  "expected_preds p t =
     (case t of (gen, n) \<Rightarrow>
        if in_cycle p n then (if is_entry p n \<and> gen = 0 then p_external p n else p_internal p n)
        else p_deps p n)"

definition insert_generation :: "nat \<Rightarrow> nat list \<Rightarrow> nat list" where
  "insert_generation gen gens = (if gen \<in> set gens then gens else sort (gens @ [gen]))"

definition push_generation :: "string \<Rightarrow> nat \<Rightarrow> 's pfrontier \<Rightarrow> 's pfrontier" where
  "push_generation n gen f =
     (if gen \<in> set (q_generations f n) then f
      else f\<lparr>q_generations := (q_generations f)(n := insert_generation gen (q_generations f n)),
             q_ready := append_unique (q_ready f) n\<rparr>)"

definition record_mark :: "task \<Rightarrow> string \<Rightarrow> arrival_mark \<Rightarrow> 's pfrontier \<Rightarrow> 's pfrontier" where
  "record_mark t from a f = f\<lparr>q_arrivals := AList.update t ((from, a) # arrivals_of f t) (q_arrivals f)\<rparr>"

text \<open>The entries of the two maps are made before the arrival is looked at.\<close>

definition touch_task :: "plan \<Rightarrow> task \<Rightarrow> 's pfrontier \<Rightarrow> 's pfrontier" where
  "touch_task p t f =
     f\<lparr>q_expected := (case q_expected f t of None \<Rightarrow> (q_expected f)(t \<mapsto> expected_preds p t) | Some _ \<Rightarrow> q_expected f),
       q_arrivals := (case map_of (q_arrivals f) t of None \<Rightarrow> AList.update t [] (q_arrivals f) | Some _ \<Rightarrow> q_arrivals f)\<rparr>"

text \<open>
  The effect of one arrival: an error, or the new frontier and whether the activation is now skipped
  and passes the skip on.
\<close>

definition settle_arrival :: "plan \<Rightarrow> string \<Rightarrow> string \<Rightarrow> task \<Rightarrow> 's pfrontier \<Rightarrow> 's pfrontier \<times> bool" where
  "settle_arrival p from to t f =
     (let got = map_of (arrivals_of f t); preds = the (q_expected f t); gen = fst t in
      if list_ex (\<lambda>q. got q = None) preds then (f, False)
      else if \<not> list_ex (\<lambda>q. \<not> am_skipped (the (got q))) preds
      then (f\<lparr>q_skipped := (q_skipped f)(t := True)\<rparr>, \<not> (in_cycle p to \<and> is_entry p to \<and> 0 < gen))
      else (push_generation to gen f, False))"

definition pregel_arrival :: "plan \<Rightarrow> string \<Rightarrow> string \<Rightarrow> nat \<Rightarrow> task \<Rightarrow> bool \<Rightarrow> 's pfrontier
    \<Rightarrow> pregel_error option \<times> 's pfrontier \<times> bool" where
  "pregel_arrival p from to src_gen src selected f =
     (let gen = target_generation p from to src_gen; t = (gen, to) in
      if src \<noteq> (src_gen, from) then (Some (IdentityMismatch from), f, False)
      else if from \<notin> set (expected_preds p t) then (Some (UnexpectedPredecessor from t), f, False)
      else
        (let f1 = touch_task p t f in
         case map_of (arrivals_of f1 t) from of
           Some a \<Rightarrow>
             if am_source a = src \<and> am_skipped a = (\<not> selected) then (None, f1, False)
             else (Some (ConflictingArrivals from t), f1, False)
         | None \<Rightarrow>
             if adopted f1 t then (None, f1, False)
             else
               (let f2 = record_mark t from
                      \<lparr>am_source = src, am_source_gen = src_gen, am_target_gen = gen, am_skipped = (\<not> selected)\<rparr> f1;
                    r = settle_arrival p from to t f2 in
                (None, fst r, snd r))))"

text \<open>
  \<open>arrivePregelAllOutcome\<close>, with the depth of the propagation of skips as fuel: a nested call comes
  from an arrival not recorded before (\<open>pregel_arrive_returns\<close>).
\<close>

fun pregel_arrive :: "('s, 'w) graph \<Rightarrow> plan \<Rightarrow> nat \<Rightarrow> string \<Rightarrow> string \<Rightarrow> nat \<Rightarrow> task \<Rightarrow> bool \<Rightarrow> 'a pfrontier
    \<Rightarrow> (pregel_error option \<times> 'a pfrontier) option"
  and pregel_skip :: "('s, 'w) graph \<Rightarrow> plan \<Rightarrow> nat \<Rightarrow> string \<Rightarrow> string list \<Rightarrow> nat \<Rightarrow> 'a pfrontier
    \<Rightarrow> (pregel_error option \<times> 'a pfrontier) option" where
  "pregel_arrive g p 0 from to src_gen src selected f = None"
| "pregel_arrive g p (Suc k) from to src_gen src selected f =
     (case pregel_arrival p from to src_gen src selected f of
        (e, f', pass) \<Rightarrow>
          if pass then pregel_skip g p k to (all_successors g to) (target_generation p from to src_gen) f'
          else Some (e, f'))"
| "pregel_skip g p k from [] gen f = Some (None, f)"
| "pregel_skip g p k from (n # ns) gen f =
     (case pregel_arrive g p k from n gen (gen, from) False f of
        None \<Rightarrow> None
      | Some (Some e, f') \<Rightarrow> Some (Some e, f')
      | Some (None, f') \<Rightarrow> pregel_skip g p k from ns gen f')"

fun arrive_each :: "('s, 'w) graph \<Rightarrow> plan \<Rightarrow> nat \<Rightarrow> string \<Rightarrow> string list \<Rightarrow> task \<Rightarrow> bool \<Rightarrow> 'a pfrontier
    \<Rightarrow> (pregel_error option \<times> 'a pfrontier) option" where
  "arrive_each g p k from [] src b f = Some (None, f)"
| "arrive_each g p k from (n # ns) src b f =
     (case pregel_arrive g p k from n (fst src) src b f of
        None \<Rightarrow> None
      | Some (Some e, f') \<Rightarrow> Some (Some e, f')
      | Some (None, f') \<Rightarrow> arrive_each g p k from ns src b f')"

subsection \<open>One superstep\<close>

text \<open>The nodes that are run: not those with a saved result, nor those that wait and are not resumed.\<close>

definition dispatched :: "plan \<Rightarrow> 's pregel_env \<Rightarrow> 's pfrontier \<Rightarrow> string list" where
  "dispatched p pe f =
     filter (\<lambda>n. q_results f (task_id p f n) = None \<and> (case map_of (q_waiting f) n of None \<Rightarrow> True | Some k \<Rightarrow> resumed pe k)) (q_ready f)"

type_synonym 's outcome = "string \<times> 's \<times> string option \<times> node_error option"

fun run_nodes :: "('s, 'w) node_env \<Rightarrow> run_config \<Rightarrow> ('s, 'w) graph \<Rightarrow> 's \<Rightarrow> string list \<Rightarrow> 'w \<Rightarrow> 's outcome list \<times> 'w" where
  "run_nodes env rc g s [] w = ([], w)"
| "run_nodes env rc g s (n # ns) w =
     (case execute env rc g n s w of
        ((out, t, e), w1) \<Rightarrow> (case run_nodes env rc g s ns w1 of (os, w2) \<Rightarrow> ((n, out, t, e) # os, w2)))"

text \<open>The loop over the channel of outcomes: the frontier, the signals, and whether a node failed.\<close>

definition collect_outcome :: "plan \<Rightarrow> run_config \<Rightarrow> 's outcome \<Rightarrow> 's pfrontier \<times> nat list \<times> bool
    \<Rightarrow> 's pfrontier \<times> nat list \<times> bool" where
  "collect_outcome p rc oc acc =
     (case (oc, acc) of
        ((n, out, t, Some e), (f, signals, failed)) \<Rightarrow>
          (case waiting_signal rc e of
             Some k \<Rightarrow> (f\<lparr>q_waiting := AList.update n k (q_waiting f)\<rparr>, signals @ [k], failed)
           | None \<Rightarrow> (f, signals, True))
      | ((n, out, t, None), (f, signals, failed)) \<Rightarrow>
          (f\<lparr>q_waiting := AList.delete n (q_waiting f),
             q_results := (q_results f)(task_id p f n \<mapsto> \<lparr>r_output = out, r_target = t, r_adopted = False\<rparr>)\<rparr>,
           signals, failed))"

definition failure_results :: "('s, 'w) node_env \<Rightarrow> plan \<Rightarrow> 's pfrontier \<Rightarrow> string list \<Rightarrow> 's outcome list
    \<Rightarrow> (string \<times> node_error option) list" where
  "failure_results env p f names ocs =
     concat (map (\<lambda>n.
       (case map_of ocs n of
          Some (out, t, e) \<Rightarrow> [(n, e)]
        | None \<Rightarrow>
            (case q_results f (task_id p f n) of
               None \<Rightarrow> []
             | Some r \<Rightarrow> [(n, (case clone_for env n (r_output r) of Inl e \<Rightarrow> Some e | Inr _ \<Rightarrow> None))]))) names)"

text \<open>The states at the barrier, in the order of the names: clones of the outputs.\<close>

fun barrier_states :: "('s, 'w) node_env \<Rightarrow> plan \<Rightarrow> 's pfrontier \<Rightarrow> string list \<Rightarrow> (node_error + 's list) option" where
  "barrier_states env p f [] = Some (Inr [])"
| "barrier_states env p f (n # ns) =
     (if n = START \<or> n = END then barrier_states env p f ns
      else
        (case q_results f (task_id p f n) of
           None \<Rightarrow> None
         | Some r \<Rightarrow>
             (case clone_for env n (r_output r) of
                Inl e \<Rightarrow> Some (Inl e)
              | Inr s \<Rightarrow> map_option (map_sum id ((#) s)) (barrier_states env p f ns))))"

definition merge_states :: "('s, 'w) node_env \<Rightarrow> 's pregel_env \<Rightarrow> string list \<Rightarrow> 's \<Rightarrow> 's list \<Rightarrow> 'w
    \<Rightarrow> (pregel_error + 's) \<times> 'w" where
  "merge_states env pe names base states w =
     (case states of
        [] \<Rightarrow> (Inr base, w)
      | [s] \<Rightarrow> (Inr s, w)
      | _ \<Rightarrow>
          (case merger pe of
             None \<Rightarrow> (Inl (NeedsMerger names), w)
           | Some m \<Rightarrow>
               (case run_isolated env (ctx_err env) ''graph merger''
                       (\<lambda>b w. (map_option (\<lambda>s. (s, None)) (m b states), w)) base w of
                  ((s, None), w') \<Rightarrow> (Inr s, w')
                | ((_, Some e), w') \<Rightarrow> (Inl (NodeFailed e), w'))))"

type_synonym route = "string \<times> nat \<times> string list \<times> string list"

text \<open>The routes out of every node of the superstep, on the merged state.\<close>

fun plan_routes :: "('s, 'w) node_env \<Rightarrow> ('s, 'w) graph \<Rightarrow> plan \<Rightarrow> 's pfrontier \<Rightarrow> 's \<Rightarrow> string list
    \<Rightarrow> (node_error + route list) option" where
  "plan_routes env g p f s [] = Some (Inr [])"
| "plan_routes env g p f s (n # ns) =
     (case q_results f (task_id p f n) of
        None \<Rightarrow> None
      | Some r \<Rightarrow>
          (case select_successors env g n s (r_target r) of
             Inl e \<Rightarrow> Some (Inl e)
           | Inr (selected, skipped) \<Rightarrow>
               map_option (map_sum id ((#) (n, task_generation p f n, selected, skipped))) (plan_routes env g p f s ns)))"

definition adopt_ready :: "plan \<Rightarrow> string \<Rightarrow> nat \<Rightarrow> 's pfrontier \<Rightarrow> 's pfrontier" where
  "adopt_ready p n gen f =
     (let f1 = f\<lparr>q_results := (q_results f)((gen, n) := map_option (r_adopted_update (\<lambda>_. True)) (q_results f (gen, n))),
                 q_completed := (q_completed f)(n := True)\<rparr> in
      if p_trigger p = TriggerAllPredecessors
      then (case q_generations f n of
              [] \<Rightarrow> f1
            | _ # rest \<Rightarrow>
                (let f2 = f1\<lparr>q_generations := (q_generations f)(n := rest)\<rparr> in
                 if rest = [] then f2 else f2\<lparr>q_ready := append_unique (q_ready f2) n\<rparr>))
      else f1)"

definition route_task :: "('s, 'w) graph \<Rightarrow> plan \<Rightarrow> nat \<Rightarrow> route \<Rightarrow> 'a pfrontier \<Rightarrow> (pregel_error option \<times> 'a pfrontier) option" where
  "route_task g p k rt f =
     (case rt of (n, gen, selected, skipped) \<Rightarrow>
        if n = END then Some (None, f)
        else if p_trigger p = TriggerAnyPredecessor
        then Some (None, f\<lparr>q_ready := fold (\<lambda>to acc. append_unique acc to) selected (q_ready f)\<rparr>)
        else
          (case arrive_each g p k n selected (gen, n) True f of
             None \<Rightarrow> None
           | Some (Some e, f') \<Rightarrow> Some (Some e, f')
           | Some (None, f') \<Rightarrow>
               (if p_trigger p = TriggerAllPredecessors then arrive_each g p k n skipped (gen, n) False f'
                else Some (None, f'))))"

fun adopt_routes :: "('s, 'w) graph \<Rightarrow> plan \<Rightarrow> nat \<Rightarrow> route list \<Rightarrow> 'a pfrontier \<Rightarrow> (pregel_error option \<times> 'a pfrontier) option" where
  "adopt_routes g p k [] f = Some (None, f)"
| "adopt_routes g p k (rt # rts) f =
     (case route_task g p k rt (adopt_ready p (fst rt) (fst (snd rt)) f) of
        None \<Rightarrow> None
      | Some (Some e, f') \<Rightarrow> Some (Some e, f')
      | Some (None, f') \<Rightarrow> adopt_routes g p k rts f')"

text \<open>The fuel of the propagation of skips: two more than the number of pairs of nodes.\<close>

definition skip_fuel :: "plan \<Rightarrow> nat" where
  "skip_fuel p = length (p_order p) * length (p_order p) + 2"

text \<open>After the nodes have run without failure: the barrier, the routes, the adoption.\<close>

definition superstep_barrier :: "('s, 'w) node_env \<Rightarrow> 's pregel_env \<Rightarrow> ('s, 'w) graph \<Rightarrow> plan \<Rightarrow> string list
    \<Rightarrow> 's pexecutor \<Rightarrow> 'w \<Rightarrow> ((pregel_error option \<times> 's pexecutor) \<times> 'w) option" where
  "superstep_barrier env pe g p names x w =
     (let f = px_frontier x in
      case barrier_states env p f names of
        None \<Rightarrow> None
      | Some (Inl e) \<Rightarrow> Some ((Some (NodeFailed e), x), w)
      | Some (Inr states) \<Rightarrow>
          (case merge_states env pe names (px_state x) states w of
             (Inl e, w1) \<Rightarrow> Some ((Some e, x), w1)
           | (Inr s, w1) \<Rightarrow>
               (case plan_routes env g p f s names of
                  None \<Rightarrow> None
                | Some (Inl e) \<Rightarrow> Some ((Some (NodeFailed e), x), w1)
                | Some (Inr rts) \<Rightarrow>
                    (case adopt_routes g p (skip_fuel p) rts (f\<lparr>q_ready := []\<rparr>) of
                       None \<Rightarrow> None
                     | Some (Some e, f') \<Rightarrow> Some ((Some e, \<lparr>px_state = s, px_frontier = f'\<rparr>), w1)
                     | Some (None, f') \<Rightarrow>
                         Some ((None, \<lparr>px_state = s, px_frontier = f'\<lparr>q_activation := Suc (q_activation f')\<rparr>\<rparr>), w1)))))"

definition finish_pregel :: "'s pfrontier \<Rightarrow> pregel_error option" where
  "finish_pregel f =
     map_option (\<lambda>(t, _). StalledAt t)
       (List.find (\<lambda>(t, preds). \<not> q_skipped f t \<and> \<not> adopted f t \<and> preds \<noteq> [])
          (q_arrivals f))"

definition waiting_error :: "run_config \<Rightarrow> 's pfrontier \<Rightarrow> pregel_error" where
  "waiting_error rc f =
     NodeFailed (Leaf (InterruptLeaf (composite_signal rc
       (map (\<lambda>n. the (map_of (q_waiting f) n)) (sort (map fst (q_waiting f)))))))"

definition sort_pready :: "plan \<Rightarrow> 's pexecutor \<Rightarrow> 's pexecutor" where
  "sort_pready p x = x\<lparr>px_frontier := (px_frontier x)\<lparr>q_ready := sort_key (topo_position p) (q_ready (px_frontier x))\<rparr>\<rparr>"

text \<open>The nodes of a superstep run and their outcomes are collected.\<close>

definition run_tasks :: "('s, 'w) node_env \<Rightarrow> 's pregel_env \<Rightarrow> pregel_config \<Rightarrow> ('s, 'w) graph \<Rightarrow> plan \<Rightarrow> 's pexecutor \<Rightarrow> 'w
    \<Rightarrow> 's outcome list \<times> ('s pfrontier \<times> nat list \<times> bool) \<times> 'w" where
  "run_tasks env pe cfg g p x w =
     (let f = px_frontier x; rc = run_config_of pe cfg; todo = dispatched p pe f in
      case run_nodes env rc g (px_state x) (if pc_parallel cfg then schedule pe (q_activation f) todo else todo) w of
        (ocs, w1) \<Rightarrow> (ocs, fold (collect_outcome p rc) ocs (f, [], False), w1))"

type_synonym ('s, 'w) pturn = "('s pexecutor \<times> 'w) + (('s \<times> pregel_error option) \<times> 's pexecutor \<times> 'w)"

definition superstep :: "('s, 'w) node_env \<Rightarrow> 's pregel_env \<Rightarrow> pregel_config \<Rightarrow> ('s, 'w) graph \<Rightarrow> plan \<Rightarrow> 's pexecutor \<Rightarrow> 'w
    \<Rightarrow> ('s, 'w) pturn option" where
  "superstep env pe cfg g p x w =
     (let stop = (\<lambda>e x w. Some (Inr ((px_state x, e), x, w))); step = q_activation (px_frontier x) in
      if q_ready (px_frontier x) = [] then stop (finish_pregel (px_frontier x)) x w
      else
        (case ctx_err env w of
           Some e \<Rightarrow> stop (Some (NodeFailed e)) x w
         | None \<Rightarrow>
             if max_supersteps cfg \<le> int step then stop (Some (MaxSuperstepsExceeded (max_supersteps cfg))) x w
             else
               (let x1 = sort_pready p x; names = q_ready (px_frontier x1) in
                if terminated cfg step names then stop None x1 w
                else
                  (case run_tasks env pe cfg g p x1 w of
                     (ocs, (f, signals, failed), w1) \<Rightarrow>
                       (let x2 = x1\<lparr>px_frontier := f\<rparr> in
                        if failed then stop (Some (SuperstepFailed step (failure_results env p f names ocs))) x2 w1
                        else if signals \<noteq> [] \<or> q_waiting f \<noteq> []
                        then stop (Some (waiting_error (run_config_of pe cfg) f)) x2 w1
                        else
                          (case superstep_barrier env pe g p names x2 w1 of
                             None \<Rightarrow> None
                           | Some ((None, x3), w2) \<Rightarrow> Some (Inl (x3, w2))
                           | Some ((Some e, x3), w2) \<Rightarrow> stop (Some e) x3 w2))))))"

fun pregel_loop :: "('s, 'w) node_env \<Rightarrow> 's pregel_env \<Rightarrow> pregel_config \<Rightarrow> ('s, 'w) graph \<Rightarrow> plan \<Rightarrow> nat \<Rightarrow> 's pexecutor \<Rightarrow> 'w
    \<Rightarrow> (('s \<times> pregel_error option) \<times> 's pexecutor \<times> 'w) option" where
  "pregel_loop env pe cfg g p 0 x w = None"
| "pregel_loop env pe cfg g p (Suc k) x w =
     (case superstep env pe cfg g p x w of
        None \<Rightarrow> None
      | Some (Inr r) \<Rightarrow> Some r
      | Some (Inl (x', w')) \<Rightarrow> pregel_loop env pe cfg g p k x' w')"

text \<open>\<open>PregelExecutor.Run\<close>: the state, the number of supersteps and the error.\<close>

definition run_pregel :: "('s, 'w) node_env \<Rightarrow> 's pregel_env \<Rightarrow> pregel_config \<Rightarrow> ('s, 'w) graph \<Rightarrow> 's \<Rightarrow> 'w
    \<Rightarrow> ('s \<times> nat \<times> pregel_error option) option" where
  "run_pregel env pe cfg g s w =
     (case (g_compiled g, g_plan g) of
        (True, Some p) \<Rightarrow>
          if p_mode p \<noteq> GraphModePregel then Some (s, 0, Some (NotRunnable ''graph was not compiled in Pregel mode''))
          else if pc_trigger cfg \<noteq> p_trigger p
          then Some (s, 0, Some (NotRunnable ''trigger mode differs from compiled graph plan''))
          else
            map_option (\<lambda>((s', e), x, _). (s', q_activation (px_frontier x), e))
              (pregel_loop env pe cfg g p (Suc (nat (max_supersteps cfg))) (new_pexecutor g s) w)
      | _ \<Rightarrow> Some (s, 0, Some (NotRunnable ''graph not compiled'')))"


subsection \<open>An arrival ends\<close>

text \<open>A plan whose predecessors are its own nodes.\<close>

definition closed_plan :: "plan \<Rightarrow> bool" where
  "closed_plan p \<longleftrightarrow>
     (\<forall>n. set (p_internal p n) \<subseteq> set (p_deps p n) \<and> set (p_external p n) \<subseteq> set (p_deps p n) \<and>
          set (p_deps p n) \<subseteq> set (p_order p) \<and> (p_deps p n \<noteq> [] \<longrightarrow> n \<in> set (p_order p)))"

lemma expected_closed:
  assumes "closed_plan p" "q \<in> set (expected_preds p (gen, n))"
  shows "q \<in> set (p_order p) \<and> n \<in> set (p_order p)"
proof -
  have "q \<in> set (p_deps p n)"
    using assms unfolding closed_plan_def expected_preds_def by (auto split: if_splits)
  then show ?thesis using assms(1) unfolding closed_plan_def by force
qed

text \<open>What the steps of an arrival do to the arrivals.\<close>

lemma arrivals_update [simp]:
  "arrivals_of (f\<lparr>q_arrivals := AList.update t a (q_arrivals f)\<rparr>) t' = (if t' = t then a else arrivals_of f t')"
  by (simp add: arrivals_of_def update_conv')

lemma arrivals_cong: "q_arrivals f' = q_arrivals f \<Longrightarrow> arrivals_of f' t = arrivals_of f t"
  by (simp add: arrivals_of_def)

lemma touch_arrivals [simp]: "arrivals_of (touch_task p t f) t' = arrivals_of f t'"
  by (auto simp: touch_task_def arrivals_of_def update_conv' split: option.splits)

lemma record_mark_arrivals:
  "arrivals_of (record_mark t from a f) t' = (if t' = t then (from, a) # arrivals_of f t else arrivals_of f t')"
  by (simp add: record_mark_def)

lemma push_generation_fields [simp]:
  "q_arrivals (push_generation n gen f) = q_arrivals f" "q_expected (push_generation n gen f) = q_expected f"
  "q_skipped (push_generation n gen f) = q_skipped f" "q_results (push_generation n gen f) = q_results f"
  "q_completed (push_generation n gen f) = q_completed f" "q_waiting (push_generation n gen f) = q_waiting f"
  "q_activation (push_generation n gen f) = q_activation f"
  by (simp_all add: push_generation_def)

lemma touch_fields [simp]:
  "q_skipped (touch_task p t f) = q_skipped f" "q_results (touch_task p t f) = q_results f"
  "q_completed (touch_task p t f) = q_completed f" "q_waiting (touch_task p t f) = q_waiting f"
  "q_activation (touch_task p t f) = q_activation f" "q_generations (touch_task p t f) = q_generations f"
  "q_ready (touch_task p t f) = q_ready f"
  by (simp_all add: touch_task_def)

lemma record_mark_fields [simp]:
  "q_skipped (record_mark t from a f) = q_skipped f" "q_results (record_mark t from a f) = q_results f"
  "q_completed (record_mark t from a f) = q_completed f" "q_waiting (record_mark t from a f) = q_waiting f"
  "q_activation (record_mark t from a f) = q_activation f" "q_generations (record_mark t from a f) = q_generations f"
  "q_ready (record_mark t from a f) = q_ready f" "q_expected (record_mark t from a f) = q_expected f"
  by (simp_all add: record_mark_def)

lemma settle_fields:
  assumes "settle_arrival p from to t f = (f', pass)"
  shows "q_arrivals f' = q_arrivals f" "q_expected f' = q_expected f" "q_results f' = q_results f"
    "q_completed f' = q_completed f" "q_waiting f' = q_waiting f" "q_activation f' = q_activation f"
    "pass \<Longrightarrow> \<not> (in_cycle p to \<and> is_entry p to \<and> 0 < fst t)"
  using assms by (auto simp: settle_arrival_def Let_def split: if_splits)

text \<open>The three outcomes of an arrival: refused, ignored, or recorded and settled.\<close>

lemma pregel_arrival_cases:
  assumes "pregel_arrival p from to sg src b f = (e, f', pass)"
  obtains (refused) "e \<noteq> None" "\<not> pass" "f' = f \<or> f' = touch_task p (target_generation p from to sg, to) f"
  | (ignored) "e = None" "\<not> pass" "f' = touch_task p (target_generation p from to sg, to) f"
  | (recorded) f2 where "e = None" "src = (sg, from)"
      "from \<in> set (expected_preds p (target_generation p from to sg, to))"
      "map_of (arrivals_of f (target_generation p from to sg, to)) from = None"
      "\<not> adopted f (target_generation p from to sg, to)"
      "f2 = record_mark (target_generation p from to sg, to) from
          \<lparr>am_source = src, am_source_gen = sg, am_target_gen = target_generation p from to sg, am_skipped = (\<not> b)\<rparr>
          (touch_task p (target_generation p from to sg, to) f)"
      "settle_arrival p from to (target_generation p from to sg, to) f2 = (f', pass)"
proof -
  let ?t = "(target_generation p from to sg, to)"
  have ad: "adopted (touch_task p ?t f) ?t = adopted f ?t" by (simp add: adopted_def)
  show thesis
  proof (cases "src = (sg, from) \<and> from \<in> set (expected_preds p ?t)")
    case False
    then show thesis using assms refused by (auto simp: pregel_arrival_def Let_def split: if_splits)
  next
    case src: True
    show thesis
    proof (cases "map_of (arrivals_of f ?t) from")
      case (Some a)
      then show thesis using assms src refused ignored
        by (auto simp: pregel_arrival_def Let_def split: if_splits)
    next
      case None
      show thesis
      proof (cases "adopted f ?t")
        case True
        then show thesis using assms src None ignored ad by (auto simp: pregel_arrival_def Let_def)
      next
        case False
        then show thesis using assms src None ad recorded
          by (auto simp: pregel_arrival_def Let_def prod_eq_iff)
      qed
    qed
  qed
qed

text \<open>The arrivals of a generation that are still to come.\<close>

definition open_pairs :: "plan \<Rightarrow> nat \<Rightarrow> 's pfrontier \<Rightarrow> (string \<times> string) set" where
  "open_pairs p gen f = {(q, n). q \<in> set (expected_preds p (gen, n)) \<and> map_of (arrivals_of f (gen, n)) q = None}"

lemma open_pairs_bound:
  assumes "closed_plan p"
  shows "finite (open_pairs p gen f)" "card (open_pairs p gen f) + 2 \<le> skip_fuel p"
proof -
  have sub: "open_pairs p gen f \<subseteq> set (p_order p) \<times> set (p_order p)"
    using expected_closed[OF assms] by (auto simp: open_pairs_def)
  then show "finite (open_pairs p gen f)" by (rule finite_subset) simp
  have "card (open_pairs p gen f) \<le> card (set (p_order p) \<times> set (p_order p))"
    by (rule card_mono) (use sub in simp_all)
  also have "\<dots> \<le> length (p_order p) * length (p_order p)"
    by (simp add: card_cartesian_product mult_le_mono card_length)
  finally show "card (open_pairs p gen f) + 2 \<le> skip_fuel p" by (simp add: skip_fuel_def)
qed

lemma open_pairs_touch [simp]: "open_pairs p gen (touch_task p' t f) = open_pairs p gen f"
  by (simp add: open_pairs_def)

lemma open_pairs_cong: "q_arrivals f' = q_arrivals f \<Longrightarrow> open_pairs p gen f' = open_pairs p gen f"
  by (simp add: open_pairs_def arrivals_of_def)

lemma pregel_arrival_open:
  assumes "pregel_arrival p from to sg src b f = (e, f', pass)"
  shows "(\<forall>gen. open_pairs p gen f' \<subseteq> open_pairs p gen f) \<and> q_activation f' = q_activation f \<and>
    (pass \<longrightarrow> target_generation p from to sg = sg \<and> e = None \<and> open_pairs p sg f' \<subset> open_pairs p sg f)"
  using assms
proof (cases rule: pregel_arrival_cases)
  case refused
  then show ?thesis by auto
next
  case ignored
  then show ?thesis by auto
next
  case (recorded f2)
  let ?t = "(target_generation p from to sg, to)"
  have arr: "arrivals_of f' t' = (if t' = ?t then (from, \<lparr>am_source = src, am_source_gen = sg,
      am_target_gen = target_generation p from to sg, am_skipped = (\<not> b)\<rparr>) # arrivals_of f t' else arrivals_of f t')" for t'
    using arrivals_cong[OF settle_fields(1)[OF recorded(7)], of t'] by (simp add: recorded(6) record_mark_arrivals)
  have sub: "open_pairs p gen f' \<subseteq> open_pairs p gen f" for gen by (auto simp: open_pairs_def arr split: if_splits)
  moreover have "q_activation f' = q_activation f"
    using settle_fields(6)[OF recorded(7)] by (simp add: recorded(6))
  moreover have "target_generation p from to sg = sg \<and> e = None \<and> open_pairs p sg f' \<subset> open_pairs p sg f" if pass
  proof -
    have same: "target_generation p from to sg = sg"
      using settle_fields(7)[OF recorded(7) that] by (auto simp: target_generation_def split: if_splits)
    have "(from, to) \<in> open_pairs p sg f" "(from, to) \<notin> open_pairs p sg f'"
      using recorded(3,4) by (simp_all add: open_pairs_def arr same)
    then show ?thesis using same recorded(1) sub[of sg] by blast
  qed
  ultimately show ?thesis by blast
qed

text \<open>With more fuel than open pairs of its generation, an arrival returns.\<close>

definition shrinks :: "plan \<Rightarrow> 's pfrontier \<Rightarrow> 's pfrontier \<Rightarrow> bool" where
  "shrinks p f f' \<longleftrightarrow> (\<forall>gen. open_pairs p gen f' \<subseteq> open_pairs p gen f) \<and> q_activation f' = q_activation f"

lemma shrinks_refl: "shrinks p f f"
  by (simp add: shrinks_def)

lemma shrinks_trans: "shrinks p f f' \<Longrightarrow> shrinks p f' f'' \<Longrightarrow> shrinks p f f''"
  by (auto simp: shrinks_def)

lemma shrinks_fuel: "closed_plan p \<Longrightarrow> shrinks p f f' \<Longrightarrow> card (open_pairs p gen f) < k \<Longrightarrow> card (open_pairs p gen f') < k"
  using card_mono[OF open_pairs_bound(1), of p "open_pairs p gen f'" gen f] by (simp add: shrinks_def)

lemma pregel_arrive_returns:
  assumes "closed_plan p"
  shows "card (open_pairs p sg f) < k \<Longrightarrow> \<exists>e f'. pregel_arrive g p k q n sg src b f = Some (e, f') \<and> shrinks p f f'"
    and "card (open_pairs p gen f) < k \<Longrightarrow> \<exists>e f'. pregel_skip g p k q ns gen f = Some (e, f') \<and> shrinks p f f'"
  using assms
proof (induction g p k q n sg src b f and g p k q ns gen f rule: pregel_arrive_pregel_skip.induct)
  case (2 g p k q n sg src b f)
  obtain e f' pass where step: "pregel_arrival p q n sg src b f = (e, f', pass)" by (metis prod_cases3)
  note o = pregel_arrival_open[OF step]
  then have s: "shrinks p f f'" by (simp add: shrinks_def)
  show ?case
  proof (cases pass)
    case False
    then show ?thesis using s by (simp add: step)
  next
    case True
    have "card (open_pairs p sg f') < card (open_pairs p sg f)"
      by (rule psubset_card_mono) (use o True open_pairs_bound(1)[OF 2(3)] in auto)
    then have "card (open_pairs p (target_generation p q n sg) f') < k" using 2(2) o True by simp
    from 2(1)[OF step[symmetric] refl True this 2(3)] show ?thesis
      using shrinks_trans[OF s] True by (auto simp: step)
  qed
next
  case (4 g p k q n ns gen f)
  from 4(1)[OF 4(3,4)] obtain e f' where first: "pregel_arrive g p k q n gen (gen, q) False f = Some (e, f')" "shrinks p f f'"
    by blast
  show ?case
  proof (cases e)
    case None
    have "card (open_pairs p gen f') < k" by (rule shrinks_fuel[OF 4(4) first(2) 4(3)])
    from 4(2)[OF first(1) refl None this 4(4)] show ?thesis
      using shrinks_trans[OF first(2)] None by (auto simp: first(1))
  qed (use first in auto)
qed (auto intro: shrinks_refl)

lemma arrive_each_returns:
  assumes "closed_plan p"
  shows "\<exists>e f'. arrive_each g p (skip_fuel p) n ns src b f = Some (e, f') \<and> shrinks p f f'"
proof (induction ns arbitrary: f)
  case (Cons m ns)
  have "card (open_pairs p (fst src) f) < skip_fuel p" using open_pairs_bound(2)[OF assms, of "fst src" f] by simp
  from pregel_arrive_returns(1)[OF assms this] obtain e f' where
    first: "pregel_arrive g p (skip_fuel p) n m (fst src) src b f = Some (e, f')" "shrinks p f f'" by blast
  then show ?case using Cons[of f'] shrinks_trans[OF first(2)] by (cases e) (auto simp: first(1))
qed (simp add: shrinks_refl)

lemma route_task_returns:
  assumes "closed_plan p"
  shows "\<exists>e f'. route_task g p (skip_fuel p) rt f = Some (e, f') \<and> q_activation f' = q_activation f"
proof -
  obtain n gen sel skp where rt: "rt = (n, gen, sel, skp)" by (cases rt)
  obtain e f' where first: "arrive_each g p (skip_fuel p) n sel (gen, n) True f = Some (e, f')" "shrinks p f f'"
    using arrive_each_returns[OF assms] by blast
  obtain e2 f2 where second: "arrive_each g p (skip_fuel p) n skp (gen, n) False f' = Some (e2, f2)" "shrinks p f' f2"
    using arrive_each_returns[OF assms] by blast
  show ?thesis
    using first(2) second(2) by (cases e) (simp_all add: route_task_def rt first(1) second(1) shrinks_def)
qed

lemma adopt_ready_fields [simp]:
  "q_activation (adopt_ready p n gen f) = q_activation f" "q_waiting (adopt_ready p n gen f) = q_waiting f"
  "q_arrivals (adopt_ready p n gen f) = q_arrivals f" "q_expected (adopt_ready p n gen f) = q_expected f"
  "q_skipped (adopt_ready p n gen f) = q_skipped f"
  by (simp_all add: adopt_ready_def Let_def split: list.split)

lemma adopt_routes_returns:
  assumes "closed_plan p"
  shows "\<exists>e f'. adopt_routes g p (skip_fuel p) rts f = Some (e, f') \<and> q_activation f' = q_activation f"
proof (induction rts arbitrary: f)
  case (Cons rt rts)
  let ?f = "adopt_ready p (fst rt) (fst (snd rt)) f"
  obtain e f' where first: "route_task g p (skip_fuel p) rt ?f = Some (e, f')" "q_activation f' = q_activation ?f"
    using route_task_returns[OF assms] by blast
  then show ?case using Cons[of f'] by (cases e) (auto simp: first(1))
qed simp

subsection \<open>The outcomes of a superstep\<close>

text \<open>The loop over the outcomes keeps the identities of the tasks and the results it has.\<close>

definition collects :: "plan \<Rightarrow> 's pfrontier \<Rightarrow> 's pfrontier \<Rightarrow> bool" where
  "collects p f f' \<longleftrightarrow> (\<forall>n. task_id p f' n = task_id p f n) \<and> dom (q_results f) \<subseteq> dom (q_results f') \<and>
     q_activation f' = q_activation f"

lemma collects_trans: "collects p f f' \<Longrightarrow> collects p f' f'' \<Longrightarrow> collects p f f''"
  unfolding collects_def by (intro conjI allI) (simp_all, blast)

lemma collect_outcome_cases:
  assumes "collect_outcome p rc oc (f, signals, failed) = (f', signals', failed')"
  obtains (completes) s t where "oc = (fst oc, s, t, None)" "signals' = signals" "failed' = failed"
      "f' = f\<lparr>q_waiting := AList.delete (fst oc) (q_waiting f),
             q_results := (q_results f)(task_id p f (fst oc) \<mapsto> \<lparr>r_output = s, r_target = t, r_adopted = False\<rparr>)\<rparr>"
  | (waits) k where "signals' = signals @ [k]" "failed' = failed" "f' = f\<lparr>q_waiting := AList.update (fst oc) k (q_waiting f)\<rparr>"
  | (fails) "failed'" "f' = f" "signals' = signals"
  using assms by (cases oc) (auto simp: collect_outcome_def split: option.splits)

lemma task_id_cong:
  "q_generations f' = q_generations f \<Longrightarrow> q_activation f' = q_activation f \<Longrightarrow> task_id p f' n = task_id p f n"
  by (auto simp: task_id_def task_generation_def split: list.split)

lemma collect_one:
  assumes "collect_outcome p rc oc (f, signals, failed) = (f', signals', failed')"
  shows "collects p f f'" "failed \<longrightarrow> failed'" "\<exists>more. signals' = signals @ more"
    "n \<noteq> fst oc \<longrightarrow> map_of (q_waiting f') n = map_of (q_waiting f) n"
    "\<not> failed' \<and> signals' = [] \<longrightarrow> task_id p f (fst oc) \<in> dom (q_results f')"
proof -
  have "collects p f f' \<and> (failed \<longrightarrow> failed') \<and> (\<exists>more. signals' = signals @ more) \<and>
    (n \<noteq> fst oc \<longrightarrow> map_of (q_waiting f') n = map_of (q_waiting f) n) \<and>
    (\<not> failed' \<and> signals' = [] \<longrightarrow> task_id p f (fst oc) \<in> dom (q_results f'))"
    using assms
  proof (cases rule: collect_outcome_cases)
    case (completes s t)
    have "task_id p f' m = task_id p f m" for m by (rule task_id_cong) (simp_all add: completes(4))
    then have "collects p f f'" using completes(4) by (auto simp: collects_def)
    then show ?thesis using completes(2-4) by (simp add: delete_conv')
  next
    case (waits k)
    have "task_id p f' m = task_id p f m" for m by (rule task_id_cong) (simp_all add: waits(3))
    then have "collects p f f'" using waits(3) by (auto simp: collects_def)
    then show ?thesis using waits by (simp add: update_conv')
  next
    case fails
    then show ?thesis by (simp add: collects_def)
  qed
  then show "collects p f f'" "failed \<longrightarrow> failed'" "\<exists>more. signals' = signals @ more"
    "n \<noteq> fst oc \<longrightarrow> map_of (q_waiting f') n = map_of (q_waiting f) n"
    "\<not> failed' \<and> signals' = [] \<longrightarrow> task_id p f (fst oc) \<in> dom (q_results f')"
    by blast+
qed

lemma collect_outcomes:
  assumes "fold (collect_outcome p rc) ocs (f, signals, failed) = (f', signals', failed')"
  shows "collects p f f'" "failed \<longrightarrow> failed'" "\<exists>more. signals' = signals @ more"
    "n \<notin> fst ` set ocs \<Longrightarrow> map_of (q_waiting f') n = map_of (q_waiting f) n"
    "\<not> failed' \<Longrightarrow> signals' = [] \<Longrightarrow> n \<in> fst ` set ocs \<Longrightarrow> task_id p f n \<in> dom (q_results f')"
proof -
  have "collects p f f' \<and> (failed \<longrightarrow> failed') \<and> (\<exists>more. signals' = signals @ more) \<and>
    (n \<notin> fst ` set ocs \<longrightarrow> map_of (q_waiting f') n = map_of (q_waiting f) n) \<and>
    (\<not> failed' \<longrightarrow> signals' = [] \<longrightarrow> n \<in> fst ` set ocs \<longrightarrow> task_id p f n \<in> dom (q_results f'))"
    using assms
  proof (induction ocs arbitrary: f signals failed)
    case Nil
    then show ?case by (simp add: collects_def)
  next
    case (Cons oc ocs)
    obtain f1 s1 b1 where step: "collect_outcome p rc oc (f, signals, failed) = (f1, s1, b1)" by (metis prod_cases3)
    with Cons.prems have rest: "fold (collect_outcome p rc) ocs (f1, s1, b1) = (f', signals', failed')" by simp
    note one = collect_one[OF step]
    note IH = Cons.IH[OF rest]
    have ids: "task_id p f1 n = task_id p f n" "dom (q_results f1) \<subseteq> dom (q_results f')"
      using one(1) IH by (simp_all add: collects_def)
    have "collects p f f'" using collects_trans[OF one(1)] IH by blast
    moreover have "failed \<longrightarrow> failed'" using one(2) IH by blast
    moreover have more: "\<exists>more. signals' = signals @ more" "signals' = [] \<longrightarrow> s1 = []" using one(3) IH by auto
    moreover have "n \<notin> fst ` set (oc # ocs) \<longrightarrow> map_of (q_waiting f') n = map_of (q_waiting f) n"
      using one(4)[of n] IH by auto
    moreover have "task_id p f n \<in> dom (q_results f')"
      if "\<not> failed'" "signals' = []" "n \<in> fst ` set (oc # ocs)"
    proof (cases "n \<in> fst ` set ocs")
      case True
      then show ?thesis using IH that ids(1) by simp
    next
      case False
      then show ?thesis using that one(5) IH more(2) ids by auto
    qed
    ultimately show ?case by blast
  qed
  then show "collects p f f'" "failed \<longrightarrow> failed'" "\<exists>more. signals' = signals @ more"
    "n \<notin> fst ` set ocs \<Longrightarrow> map_of (q_waiting f') n = map_of (q_waiting f) n"
    "\<not> failed' \<Longrightarrow> signals' = [] \<Longrightarrow> n \<in> fst ` set ocs \<Longrightarrow> task_id p f n \<in> dom (q_results f')"
    by blast+
qed

lemma run_nodes_names: "run_nodes env rc g s ns w = (ocs, w') \<Longrightarrow> map fst ocs = ns"
  by (induction ns arbitrary: w ocs) (auto split: prod.splits)

definition fair_schedule :: "'s pregel_env \<Rightarrow> bool" where
  "fair_schedule pe \<longleftrightarrow> (\<forall>step ns. mset (schedule pe step ns) = mset ns)"

text \<open>When no node failed or waits, every ready node has a result.\<close>

lemma run_tasks_results:
  assumes "run_tasks env pe cfg g p x w = (ocs, (f, [], False), w')" "q_waiting f = []" "fair_schedule pe"
    and "n \<in> set (q_ready (px_frontier x))"
  shows "q_results f (task_id p f n) \<noteq> None" and "collects p (px_frontier x) f"
proof -
  let ?f = "px_frontier x" and ?todo = "dispatched p pe (px_frontier x)"
  let ?order = "if pc_parallel cfg then schedule pe (q_activation ?f) ?todo else ?todo"
  obtain ocs' w1 where run: "run_nodes env (run_config_of pe cfg) g (px_state x) ?order w = (ocs', w1)" by fastforce
  have ocs: "ocs' = ocs" "fold (collect_outcome p (run_config_of pe cfg)) ocs (?f, [], False) = (f, [], False)"
    using assms(1) run by (auto simp: run_tasks_def Let_def)
  have mem: "fst ` set ocs = set ?todo"
    using run_nodes_names[OF run] mset_eq_setD[of "schedule pe (q_activation ?f) ?todo" ?todo] assms(3) ocs(1)
    by (auto simp: fair_schedule_def set_map[symmetric] simp del: set_map split: if_splits)
  note c = collect_outcomes[OF ocs(2)]
  show "collects p ?f f" by (rule c(1))
  then have id: "task_id p f n = task_id p ?f n" by (simp add: collects_def)
  show "q_results f (task_id p f n) \<noteq> None"
  proof (cases "n \<in> set ?todo")
    case True
    then have "task_id p ?f n \<in> dom (q_results f)" using c(5) mem by simp
    then show ?thesis using id by auto
  next
    case False
    then have "q_results ?f (task_id p ?f n) \<noteq> None \<or> map_of (q_waiting ?f) n \<noteq> None"
      using assms(4) by (auto simp: dispatched_def split: option.splits)
    moreover have "map_of (q_waiting f) n = map_of (q_waiting ?f) n" using c(4) False mem by simp
    ultimately have "task_id p ?f n \<in> dom (q_results ?f)" using assms(2) by auto
    then show ?thesis using c(1) id unfolding collects_def by auto
  qed
qed

lemma barrier_states_returns:
  assumes "\<And>n. n \<in> set names \<Longrightarrow> q_results f (task_id p f n) \<noteq> None"
  shows "\<exists>r. barrier_states env p f names = Some r"
  using assms
proof (induction names)
  case (Cons n names)
  then obtain r where r: "barrier_states env p f names = Some r" by auto
  obtain res where "q_results f (task_id p f n) = Some res" using Cons.prems[of n] by auto
  with r show ?case by (simp split: sum.split)
qed simp

lemma plan_routes_returns:
  assumes "\<And>n. n \<in> set names \<Longrightarrow> q_results f (task_id p f n) \<noteq> None"
  shows "\<exists>r. plan_routes env g p f s names = Some r"
  using assms
proof (induction names)
  case (Cons n names)
  then obtain r where r: "plan_routes env g p f s names = Some r" by auto
  obtain res where "q_results f (task_id p f n) = Some res" using Cons.prems[of n] by auto
  with r show ?case by (auto split: sum.split)
qed simp

lemma superstep_barrier_returns:
  assumes "closed_plan p" "\<And>n. n \<in> set names \<Longrightarrow> q_results (px_frontier x) (task_id p (px_frontier x) n) \<noteq> None"
  shows "\<exists>e x' w'. superstep_barrier env pe g p names x w = Some ((e, x'), w') \<and>
    (e = None \<longrightarrow> q_activation (px_frontier x') = Suc (q_activation (px_frontier x))) \<and>
    (e \<noteq> None \<longrightarrow> q_activation (px_frontier x') = q_activation (px_frontier x))"
proof -
  obtain bs where bs: "barrier_states env p (px_frontier x) names = Some bs"
    using barrier_states_returns[OF assms(2)] by blast
  have rts: "\<exists>r. plan_routes env g p (px_frontier x) s names = Some r" for s
    using plan_routes_returns[OF assms(2)] by blast
  have ad: "\<exists>e f'. adopt_routes g p (skip_fuel p) r (px_frontier x\<lparr>q_ready := []\<rparr>) = Some (e, f') \<and>
      q_activation f' = q_activation (px_frontier x)" for r
    using adopt_routes_returns[OF assms(1), of g r "px_frontier x\<lparr>q_ready := []\<rparr>"] by simp
  show ?thesis
  proof (cases bs)
    case (Inr states)
    obtain m w1 where m: "merge_states env pe names (px_state x) states w = (m, w1)" by fastforce
    show ?thesis
    proof (cases m)
      case (Inr s)
      obtain r where r: "plan_routes env g p (px_frontier x) s names = Some r" using rts by blast
      show ?thesis
      proof (cases r)
        case (Inr rs)
        obtain e f' where a: "adopt_routes g p (skip_fuel p) rs (px_frontier x\<lparr>q_ready := []\<rparr>) = Some (e, f')"
          "q_activation f' = q_activation (px_frontier x)" using ad by blast
        show ?thesis
          by (cases e) (simp_all add: superstep_barrier_def bs \<open>bs = Inr states\<close> m \<open>m = Inr s\<close> r \<open>r = Inr rs\<close> a)
      qed (simp add: superstep_barrier_def bs \<open>bs = Inr states\<close> m \<open>m = Inr s\<close> r)
    qed (simp add: superstep_barrier_def bs \<open>bs = Inr states\<close> m)
  qed (simp add: superstep_barrier_def bs)
qed

text \<open>A superstep ends, and if the loop goes on it was below the limit and is counted.\<close>

lemma sort_pready_fields [simp]:
  "px_state (sort_pready p x) = px_state x" "q_activation (px_frontier (sort_pready p x)) = q_activation (px_frontier x)"
  "set (q_ready (px_frontier (sort_pready p x))) = set (q_ready (px_frontier x))"
  "q_generations (px_frontier (sort_pready p x)) = q_generations (px_frontier x)"
  "q_results (px_frontier (sort_pready p x)) = q_results (px_frontier x)"
  "q_skipped (px_frontier (sort_pready p x)) = q_skipped (px_frontier x)"
  "q_expected (px_frontier (sort_pready p x)) = q_expected (px_frontier x)"
  "q_arrivals (px_frontier (sort_pready p x)) = q_arrivals (px_frontier x)"
  by (simp_all add: sort_pready_def)

lemma superstep_cases:
  assumes "superstep env pe cfg g p x w = r" "closed_plan p" "fair_schedule pe"
  obtains (stops) a x' w' where "r = Some (Inr (a, x', w'))" "q_activation (px_frontier x') = q_activation (px_frontier x)"
  | (goes_on) ocs f w1 x' w' where
      "r = Some (Inl (x', w'))" "q_ready (px_frontier x) \<noteq> []" "ctx_err env w = None"
      "int (q_activation (px_frontier x)) < max_supersteps cfg"
      "run_tasks env pe cfg g p (sort_pready p x) w = (ocs, (f, [], False), w1)" "q_waiting f = []"
      "superstep_barrier env pe g p (q_ready (px_frontier (sort_pready p x))) ((sort_pready p x)\<lparr>px_frontier := f\<rparr>) w1
         = Some ((None, x'), w')"
      "q_activation (px_frontier x') = Suc (q_activation (px_frontier x))"
proof -
  let ?x1 = "sort_pready p x"
  let ?names = "q_ready (px_frontier ?x1)"
  consider (early) "q_ready (px_frontier x) = [] \<or> ctx_err env w \<noteq> None \<or>
      max_supersteps cfg \<le> int (q_activation (px_frontier x)) \<or> terminated cfg (q_activation (px_frontier x)) ?names"
    | (run) "q_ready (px_frontier x) \<noteq> []" "ctx_err env w = None"
      "int (q_activation (px_frontier x)) < max_supersteps cfg" "\<not> terminated cfg (q_activation (px_frontier x)) ?names"
    by fastforce
  then show thesis
  proof cases
    case early
    have "\<exists>a x'. superstep env pe cfg g p x w = Some (Inr (a, x', w)) \<and>
        q_activation (px_frontier x') = q_activation (px_frontier x)"
    proof (cases "q_ready (px_frontier x) = [] \<or> ctx_err env w \<noteq> None")
      case True
      then show ?thesis by (auto simp: superstep_def Let_def)
    next
      case False
      then show ?thesis using early by (auto simp: superstep_def Let_def)
    qed
    then show thesis using stops assms(1) by blast
  next
    case run
    obtain ocs f signals failed w1 where rt: "run_tasks env pe cfg g p ?x1 w = (ocs, (f, signals, failed), w1)"
      by (metis prod_cases3)
    let ?x2 = "?x1\<lparr>px_frontier := f\<rparr>"
    have act: "q_activation f = q_activation (px_frontier x)"
    proof -
      obtain os' w' where "fold (collect_outcome p (run_config_of pe cfg)) os' (px_frontier ?x1, [], False) = (f, signals, failed)"
        using rt by (auto simp: run_tasks_def Let_def split: prod.splits)
      from collect_outcomes(1)[OF this] show ?thesis by (simp add: collects_def)
    qed
    show thesis
    proof (cases "failed \<or> signals \<noteq> [] \<or> q_waiting f \<noteq> []")
      case True
      then have "\<exists>a. superstep env pe cfg g p x w = Some (Inr (a, ?x2, w1))"
        using run rt by (auto simp: superstep_def Let_def)
      then show thesis using stops assms(1) act by auto
    next
      case False
      then have ok: "run_tasks env pe cfg g p ?x1 w = (ocs, (f, [], False), w1)" "q_waiting f = []" using rt by auto
      have "q_results (px_frontier ?x2) (task_id p (px_frontier ?x2) n) \<noteq> None" if "n \<in> set ?names" for n
        using run_tasks_results(1)[OF ok assms(3) that] by simp
      note ends = superstep_barrier_returns[where x = ?x2 and env = env and pe = pe and g = g and w = w1, OF assms(2) this]
      have f: "px_frontier ?x2 = f" by simp
      obtain e x' w' where b:
        "superstep_barrier env pe g p ?names ?x2 w1 = Some ((e, x'), w')"
        "e = None \<longrightarrow> q_activation (px_frontier x') = Suc (q_activation f)"
        "e \<noteq> None \<longrightarrow> q_activation (px_frontier x') = q_activation f"
        using ends unfolding f by blast
      have eq: "superstep env pe cfg g p x w =
          (case e of None \<Rightarrow> Some (Inl (x', w')) | Some e' \<Rightarrow> Some (Inr ((px_state x', Some e'), x', w')))"
        using run ok b(1) by (simp add: superstep_def Let_def split: option.split)
      show thesis
      proof (cases e)
        case None
        then show thesis using goes_on[OF _ run(1-3) ok] b(1,2) eq assms(1) act by simp
      next
        case (Some e')
        then show thesis using stops b(3) eq assms(1) act by simp
      qed
    qed
  qed
qed

lemma pregel_loop_ends:
  assumes "closed_plan p" "fair_schedule pe" "0 < k" "nat (max_supersteps cfg) < k + q_activation (px_frontier x)"
  shows "\<exists>a x' w'. pregel_loop env pe cfg g p k x w = Some (a, x', w') \<and>
    q_activation (px_frontier x') \<le> max (q_activation (px_frontier x)) (nat (max_supersteps cfg))"
  using assms(3,4)
proof (induction k arbitrary: x w)
  case (Suc k)
  obtain r where r: "superstep env pe cfg g p x w = r" by simp
  from r assms(1,2) show ?case
  proof (cases rule: superstep_cases)
    case (stops a x' w')
    then show ?thesis using r by simp
  next
    case (goes_on ocs f w1 x' w')
    have "\<exists>a x'' w''. pregel_loop env pe cfg g p k x' w' = Some (a, x'', w'') \<and>
        q_activation (px_frontier x'') \<le> max (q_activation (px_frontier x')) (nat (max_supersteps cfg))"
      using Suc.prems goes_on(8) goes_on(4) by (intro Suc.IH) linarith+
    then show ?thesis using goes_on(1,4,8) r by auto
  qed
qed simp

subsection \<open>The plans of built graphs\<close>

lemma compile_components_fields:
  assumes "compile_components ord g p = Some (Inr q)"
  shows "p_deps q = p_deps p" "p_order q = p_order p" "p_mode q = p_mode p" "p_trigger q = p_trigger p"
    "set (p_internal q n) \<subseteq> set (p_deps p n)" "set (p_external q n) \<subseteq> set (p_deps p n)"
proof -
  have sub: "q \<in> set (split_preds cmp p b n) \<Longrightarrow> q \<in> set (p_deps p n)" for cmp b q
    by (auto simp: split_preds_def split: if_splits)
  show "p_deps q = p_deps p" "p_order q = p_order p" "p_mode q = p_mode p" "p_trigger q = p_trigger p"
    "set (p_internal q n) \<subseteq> set (p_deps p n)" "set (p_external q n) \<subseteq> set (p_deps p n)"
    using assms by (auto simp: compile_components_def Let_def dest: sub split: option.splits if_splits sum.splits)
qed

lemma compute_execution_plan_compiles:
  assumes "compute_execution_plan ord g = Some (Inr p)"
  obtains trig order path where "compile_components ord g
      \<lparr>p_mode = g_mode g, p_trigger = trig, p_components = Map.empty, p_cyclic = [],
       p_entries = [], p_internal = (\<lambda>_. []), p_external = (\<lambda>_. []), p_order = order,
       p_groups = parallel_groups (o_levels ord) order (dependencies ord g), p_critical = path,
       p_deps = dependencies ord g\<rparr> = Some (Inr p)"
    "graph_topo_sort (o_nodes ord) (o_deps ord) (dependencies ord g) = Some order \<or> order = sort (o_nodes ord)"
    "trig = TriggerAllPredecessors \<or> trig = TriggerAnyPredecessor"
proof -
  let ?trig = "if \<not> g_trigger_explicit g \<and> g_mode g = GraphModePregel then TriggerAnyPredecessor else g_trigger g"
  let ?order = "if g_mode g = GraphModeDAG then graph_topo_sort (o_nodes ord) (o_deps ord) (dependencies ord g)
    else Some (sort (o_nodes ord))"
  have trig: "?trig = TriggerAllPredecessors \<or> ?trig = TriggerAnyPredecessor" and mode: "\<nexists>m. g_mode g = OtherMode m"
    using assms unfolding compute_execution_plan_def Let_def by (auto split: graph_mode.splits trigger_mode.splits)
  obtain order where order: "?order = Some order"
    using assms trig mode unfolding compute_execution_plan_def Let_def
    by (cases ?order; cases "g_mode g"; elim disjE) simp_all
  obtain path where path: "critical_path g = Some path"
    using assms trig mode order unfolding compute_execution_plan_def Let_def
    by (cases "critical_path g"; cases "g_mode g"; elim disjE) simp_all
  show thesis
  proof (rule that[OF _ _ trig])
    show "compile_components ord g
        \<lparr>p_mode = g_mode g, p_trigger = ?trig, p_components = Map.empty, p_cyclic = [],
         p_entries = [], p_internal = (\<lambda>_. []), p_external = (\<lambda>_. []), p_order = order,
         p_groups = parallel_groups (o_levels ord) order (dependencies ord g), p_critical = path,
         p_deps = dependencies ord g\<rparr> = Some (Inr p)"
      using assms trig mode order path
      by (cases "g_mode g"; auto simp: compute_execution_plan_def Let_def split: trigger_mode.splits if_splits)
    show "graph_topo_sort (o_nodes ord) (o_deps ord) (dependencies ord g) = Some order \<or> order = sort (o_nodes ord)"
      using order by (simp split: if_splits)
  qed
qed

lemma built_closed:
  assumes "orders_ok (closed_graph b) ord" "graph_build ord b = Some (Inr g)"
  shows "\<exists>p. g = (ready_graph b)\<lparr>g_plan := Some p, g_compiled := True\<rparr> \<and> closed_plan p \<and> p_mode p = g_mode (b_graph b) \<and>
    (p_trigger p = TriggerAllPredecessors \<or> p_trigger p = TriggerAnyPredecessor)"
proof -
  let ?r = "ready_graph b"
  obtain p where p: "compute_execution_plan ord ?r = Some (Inr p)" "g = ?r\<lparr>g_plan := Some p, g_compiled := True\<rparr>"
    and refs: "refs_exist ?r"
    using assms(2) unfolding build_graph_eq(1)[OF assms(1)] ready_graph_simps(2,5) by blast
  have ok: "orders_ok ?r ord" using assms(1) by (simp add: ready_graph_simps)
  let ?deps = "dependencies ord ?r"
  obtain trig order path where c: "compile_components ord ?r
      \<lparr>p_mode = g_mode ?r, p_trigger = trig, p_components = Map.empty, p_cyclic = [],
       p_entries = [], p_internal = (\<lambda>_. []), p_external = (\<lambda>_. []), p_order = order,
       p_groups = parallel_groups (o_levels ord) order ?deps, p_critical = path, p_deps = ?deps\<rparr> = Some (Inr p)"
    "graph_topo_sort (o_nodes ord) (o_deps ord) ?deps = Some order \<or> order = sort (o_nodes ord)"
    "trig = TriggerAllPredecessors \<or> trig = TriggerAnyPredecessor"
    by (rule compute_execution_plan_compiles[OF p(1)])
  have order: "set order = dom (g_nodes ?r)"
    using c(2) graph_topo_sort_spec[OF deps_closed_graph[OF ok refs]] ok by (auto simp: orders_ok_def)
  have deps: "set (?deps n) \<subseteq> set order" for n
    using refs dependencies_spec(1)[OF ok, of n] unfolding order refs_exist_def by blast
  have node: "n \<in> set order" if "?deps n \<noteq> []" for n
  proof -
    have "set (?deps n) \<noteq> {}" using that by simp
    then show ?thesis using refs unfolding dependencies_spec(1)[OF ok] order refs_exist_def by blast
  qed
  note fields = compile_components_fields[OF c(1)]
  have "closed_plan p"
    unfolding closed_plan_def using deps node fields(5,6) by (simp add: fields(1,2))
  then show ?thesis using p(2) c(3) fields(3,4) by (intro exI[of _ p]) (simp add: ready_graph_simps)
qed

text \<open>
  A run in the Pregel mode always returns, whatever the graph, the handlers, the merger and the
  order in which the nodes of a superstep run, and it counts at most \<open>MaxSupersteps\<close> supersteps: no
  skip is propagated for ever and no saved result is missing when its superstep is merged.
\<close>

lemma pregel_returns:
  assumes "orders_ok (closed_graph b) ord" "graph_build ord b = Some (Inr g)" "fair_schedule pe"
  shows "\<exists>s' n e. run_pregel env pe cfg g s w = Some (s', n, e) \<and> n \<le> nat (max_supersteps cfg)"
proof -
  obtain p where p: "g = (ready_graph b)\<lparr>g_plan := Some p, g_compiled := True\<rparr>" "closed_plan p"
    using built_closed[OF assms(1,2)] by blast
  have "\<exists>a x' w'. pregel_loop env pe cfg g p (Suc (nat (max_supersteps cfg))) (new_pexecutor g s) w = Some (a, x', w') \<and>
      q_activation (px_frontier x') \<le> max (q_activation (px_frontier (new_pexecutor g s))) (nat (max_supersteps cfg))"
    by (rule pregel_loop_ends[OF p(2) assms(3)]) simp_all
  then show ?thesis by (auto simp: run_pregel_def p(1) new_pexecutor_def)
qed

subsection \<open>What an activation waits for\<close>

text \<open>An arrival reports a predecessor's task of the right generation that was adopted or skipped.\<close>

definition reports :: "plan \<Rightarrow> 's pfrontier \<Rightarrow> task \<Rightarrow> string \<Rightarrow> arrival_mark \<Rightarrow> bool" where
  "reports p f t q a \<longleftrightarrow> am_source a = (am_source_gen a, q) \<and> fst t = target_generation p q (snd t) (am_source_gen a) \<and>
     (adopted f (am_source a) \<or> am_skipped a \<and> q_skipped f (am_source a))"

definition heard :: "plan \<Rightarrow> 's pfrontier \<Rightarrow> task \<Rightarrow> bool" where
  "heard p f t \<longleftrightarrow> (\<forall>q \<in> set (expected_preds p t). map_of (arrivals_of f t) q \<noteq> None)"

definition chosen :: "plan \<Rightarrow> 's pfrontier \<Rightarrow> task \<Rightarrow> bool" where
  "chosen p f t \<longleftrightarrow> (\<exists>q \<in> set (expected_preds p t). \<exists>a. map_of (arrivals_of f t) q = Some a \<and> \<not> am_skipped a)"

definition started :: "('s, 'w) graph \<Rightarrow> plan \<Rightarrow> 'a pfrontier \<Rightarrow> task \<Rightarrow> bool" where
  "started g p f t \<longleftrightarrow> t = (0, g_entry g) \<or> heard p f t \<and> chosen p f t"

definition joins_ok :: "('s, 'w) graph \<Rightarrow> plan \<Rightarrow> 'a pfrontier \<Rightarrow> bool" where
  "joins_ok g p f \<longleftrightarrow>
     (\<forall>t q a. map_of (arrivals_of f t) q = Some a \<longrightarrow> reports p f t q a) \<and>
     (\<forall>n. \<forall>gen \<in> set (q_generations f n). started g p f (gen, n)) \<and>
     (\<forall>t. q_results f t \<noteq> None \<longrightarrow> started g p f t) \<and>
     (\<forall>t. q_skipped f t \<longrightarrow> heard p f t \<and> \<not> chosen p f t) \<and>
     (\<forall>t es. q_expected f t = Some es \<longrightarrow> es = expected_preds p t)"

lemma joins_okD:
  assumes "joins_ok g p f"
  shows "map_of (arrivals_of f t) q = Some a \<Longrightarrow> reports p f t q a" "gen \<in> set (q_generations f n) \<Longrightarrow> started g p f (gen, n)"
    "q_results f t \<noteq> None \<Longrightarrow> started g p f t" "q_skipped f t \<Longrightarrow> heard p f t \<and> \<not> chosen p f t"
    "q_expected f t = Some es \<Longrightarrow> es = expected_preds p t"
  using assms unfolding joins_ok_def by blast+

text \<open>Arrivals, skips and adoptions are only added.\<close>

definition grown :: "'s pfrontier \<Rightarrow> 's pfrontier \<Rightarrow> bool" where
  "grown f f' \<longleftrightarrow> (\<forall>t. map_of (arrivals_of f t) \<subseteq>\<^sub>m map_of (arrivals_of f' t)) \<and> (\<forall>t. q_skipped f t \<longrightarrow> q_skipped f' t) \<and>
     (\<forall>t. adopted f t \<longrightarrow> adopted f' t)"

lemma grown_refl: "grown f f"
  by (simp add: grown_def)

lemma grown_trans: "grown f f' \<Longrightarrow> grown f' f'' \<Longrightarrow> grown f f''"
  unfolding grown_def by (metis map_le_trans)

lemma grown_mono:
  assumes "grown f f'"
  shows "reports p f t q a \<Longrightarrow> reports p f' t q a" "heard p f t \<Longrightarrow> heard p f' t" "chosen p f t \<Longrightarrow> chosen p f' t"
    "started g p f t \<Longrightarrow> started g p f' t"
proof -
  show "reports p f t q a \<Longrightarrow> reports p f' t q a" using assms unfolding reports_def grown_def by blast
  have le: "map_of (arrivals_of f t) q = Some a \<Longrightarrow> map_of (arrivals_of f' t) q = Some a" for q a
    using assms unfolding grown_def map_le_def by (metis domI)
  show h: "heard p f t \<Longrightarrow> heard p f' t" unfolding heard_def using le by (metis not_None_eq)
  show c: "chosen p f t \<Longrightarrow> chosen p f' t" unfolding chosen_def using le by blast
  show "started g p f t \<Longrightarrow> started g p f' t" using h c unfolding started_def by blast
qed

text \<open>A step that adds nothing to the arrivals and starts no new task keeps the invariant.\<close>

lemma joins_ok_extend:
  assumes "joins_ok g p f" "grown f f'" "\<And>t. arrivals_of f' t = arrivals_of f t" "q_skipped f' = q_skipped f"
    "q_expected f' = q_expected f"
    "\<And>n gen. gen \<in> set (q_generations f' n) \<Longrightarrow> gen \<in> set (q_generations f n) \<or> started g p f' (gen, n)"
    "\<And>t. q_results f' t \<noteq> None \<Longrightarrow> q_results f t \<noteq> None \<or> started g p f' t"
  shows "joins_ok g p f'"
proof -
  note D = joins_okD[OF assms(1)] and M = grown_mono[OF assms(2)]
  have same: "heard p f' t = heard p f t" "chosen p f' t = chosen p f t" for t
    by (simp_all add: heard_def chosen_def assms(3))
  have "reports p f' t q a" if "map_of (arrivals_of f' t) q = Some a" for t q a
    using M(1) D(1) that assms(3) by simp
  moreover have "started g p f' (gen, n)" if "gen \<in> set (q_generations f' n)" for gen n
    using assms(6)[OF that] D(2) M(4) by blast
  moreover have "started g p f' t" if "q_results f' t \<noteq> None" for t
    using assms(7)[OF that] D(3) M(4) by blast
  moreover have "heard p f' t \<and> \<not> chosen p f' t" if "q_skipped f' t" for t
    using D(4) that by (simp add: same assms(4))
  moreover have "es = expected_preds p t" if "q_expected f' t = Some es" for t es
    using D(5) that by (simp add: assms(5))
  ultimately show ?thesis unfolding joins_ok_def by blast
qed

subsection \<open>The queues of the ready nodes\<close>

text \<open>\<open>rest\<close> are the nodes of the superstep that are still to be adopted.\<close>

definition queue_ok :: "string list \<Rightarrow> 's pfrontier \<Rightarrow> bool" where
  "queue_ok rest f \<longleftrightarrow> distinct (q_ready f) \<and> (\<forall>n \<in> set (q_ready f). q_generations f n \<noteq> []) \<and>
     (\<forall>n \<in> set rest. q_generations f n \<noteq> [] \<and> (n \<in> set (q_ready f) \<longrightarrow> 2 \<le> length (q_generations f n)))"

lemma sort_snoc_Nil: "sort (xs @ [x]) \<noteq> []"
  using length_sort[of "\<lambda>x. x" "xs @ [x]"] by (metis length_0_conv length_append_singleton nat.distinct(1))

lemma push_generation_queue: "queue_ok rest f \<Longrightarrow> queue_ok rest (push_generation n gen f)"
  unfolding queue_ok_def push_generation_def insert_generation_def
  by (cases "gen \<in> set (q_generations f n)") (auto simp: Suc_le_eq sort_snoc_Nil)

lemma queue_ok_cong:
  "q_ready f' = q_ready f \<Longrightarrow> q_generations f' = q_generations f \<Longrightarrow> queue_ok rest f' = queue_ok rest f"
  by (simp add: queue_ok_def)

lemma adopt_ready_queue:
  assumes "queue_ok (n # rest) f" "n \<notin> set rest" "p_trigger p = TriggerAllPredecessors"
  shows "queue_ok rest (adopt_ready p n gen f)"
proof -
  obtain h gens where q: "q_generations f n = h # gens" using assms(1) by (cases "q_generations f n") (auto simp: queue_ok_def)
  have "n \<in> set (q_ready f) \<Longrightarrow> gens \<noteq> []" using assms(1) q by (auto simp: queue_ok_def)
  then show ?thesis
    using assms q by (cases "gens = []") (auto simp: queue_ok_def adopt_ready_def)
qed

subsection \<open>An arrival keeps the invariants\<close>

definition source_ok :: "'s pfrontier \<Rightarrow> task \<Rightarrow> bool \<Rightarrow> bool" where
  "source_ok f src b \<longleftrightarrow> adopted f src \<or> \<not> b \<and> q_skipped f src"

lemma grown_source: "grown f f' \<Longrightarrow> source_ok f src b \<Longrightarrow> source_ok f' src b"
  unfolding grown_def source_ok_def by blast

lemma touch_joins:
  assumes "joins_ok g p f"
  shows "joins_ok g p (touch_task p t f)" "grown f (touch_task p t f)" "q_expected (touch_task p t f) t = Some (expected_preds p t)"
proof -
  note D = joins_okD[OF assms]
  show ext: "grown f (touch_task p t f)" by (simp add: grown_def adopted_def)
  show e: "q_expected (touch_task p t f) t = Some (expected_preds p t)"
    using D(5) by (auto simp: touch_task_def split: option.split)
  have "heard p (touch_task p t f) = heard p f" "chosen p (touch_task p t f) = chosen p f"
    "started g p (touch_task p t f) = started g p f" "reports p (touch_task p t f) = reports p f"
    by (simp_all add: fun_eq_iff heard_def chosen_def started_def reports_def adopted_def)
  moreover have "es = expected_preds p t'" if "q_expected (touch_task p t f) t' = Some es" for t' es
    using that D(5) e by (auto simp: touch_task_def split: option.splits if_splits)
  ultimately show "joins_ok g p (touch_task p t f)" using assms by (simp add: joins_ok_def)
qed

lemma settle_joins:
  assumes ok: "joins_ok g p f" and e: "q_expected f (gen, n) = Some (expected_preds p (gen, n))"
    and fresh: "\<not> q_skipped f (gen, n)" and run: "settle_arrival p q n (gen, n) f = (f', pass)"
  shows "joins_ok g p f'" "grown f f'" "pass \<Longrightarrow> q_skipped f' (gen, n)"
proof -
  let ?t = "(gen, n)"
  let ?got = "map_of (arrivals_of f ?t)"
  note D = joins_okD[OF ok]
  have heard: "heard p f ?t \<longleftrightarrow> \<not> list_ex (\<lambda>q. ?got q = None) (the (q_expected f ?t))"
    by (auto simp: e heard_def list_ex_iff)
  have chosen: "chosen p f ?t \<longleftrightarrow> list_ex (\<lambda>q. \<not> am_skipped (the (?got q))) (the (q_expected f ?t))" if "heard p f ?t"
    using that by (force simp: e heard_def chosen_def list_ex_iff)
  consider "\<not> heard p f ?t" | "heard p f ?t" "\<not> chosen p f ?t" | "heard p f ?t" "chosen p f ?t" by blast
  then have "joins_ok g p f' \<and> grown f f' \<and> (pass \<longrightarrow> q_skipped f' ?t)"
  proof cases
    case 1
    then show ?thesis using run ok heard by (simp add: settle_arrival_def Let_def grown_refl)
  next
    case 2
    then have f': "f' = f\<lparr>q_skipped := (q_skipped f)(?t := True)\<rparr>"
      using run heard chosen by (auto simp: settle_arrival_def Let_def)
    have ext: "grown f f'" by (auto simp: f' grown_def adopted_def arrivals_of_def)
    have same: "arrivals_of f' t = arrivals_of f t" "heard p f' t = heard p f t" "chosen p f' t = chosen p f t"
      "started g p f' t = started g p f t" for t
      by (simp_all add: f' arrivals_of_def heard_def chosen_def started_def)
    have "reports p f' t q a" if "map_of (arrivals_of f' t) q = Some a" for t q a
      using grown_mono(1)[OF ext] D(1) that same(1) by simp
    moreover have "heard p f' t \<and> \<not> chosen p f' t" if "q_skipped f' t" for t
    proof -
      have "t = ?t \<or> q_skipped f t" using that by (auto simp: f' split: if_splits)
      then show ?thesis using D(4)[of t] 2 unfolding same(2,3) by blast
    qed
    ultimately have "joins_ok g p f'"
      using D(2,3,5) unfolding joins_ok_def same(4) by (simp add: f')
    then show ?thesis using ext by (simp add: f')
  next
    case 3
    then have f': "f' = push_generation n gen f" "\<not> pass"
      using run heard chosen by (auto simp: settle_arrival_def Let_def)
    have ext: "grown f f'" by (simp add: f' grown_def adopted_def arrivals_of_def)
    have "joins_ok g p f'"
    proof (rule joins_ok_extend[OF ok ext])
      have st: "started g p f' ?t" using 3 grown_mono(2,3)[OF ext] unfolding started_def by blast
      show "i \<in> set (q_generations f m) \<or> started g p f' (i, m)" if "i \<in> set (q_generations f' m)" for m i
        using that st by (auto simp: f' push_generation_def insert_generation_def split: if_splits)
    qed (simp_all add: f' arrivals_of_def)
    then show ?thesis using ext f'(2) by blast
  qed
  then show "joins_ok g p f'" "grown f f'" "pass \<Longrightarrow> q_skipped f' ?t" by blast+
qed

lemma record_mark_joins:
  assumes ok: "joins_ok g p f" and q: "q \<in> set (expected_preds p t)" "map_of (arrivals_of f t) q = None"
    and rep: "reports p f t q a"
  shows "joins_ok g p (record_mark t q a f)" "grown f (record_mark t q a f)" "\<not> q_skipped f t"
proof -
  let ?f = "record_mark t q a f"
  note D = joins_okD[OF ok]
  show fresh: "\<not> q_skipped f t" using D(4)[of t] q unfolding heard_def by blast
  show ext: "grown f ?f" using q(2) by (auto simp: grown_def adopted_def record_mark_arrivals map_le_def)
  note M = grown_mono(1-3)[OF ext] grown_mono(4)[OF ext, where g = g]
  have other: "heard p ?f t' = heard p f t'" "chosen p ?f t' = chosen p f t'" if "t' \<noteq> t" for t'
    using that by (simp_all add: heard_def chosen_def record_mark_arrivals)
  have "reports p ?f t' q' a'" if "map_of (arrivals_of ?f t') q' = Some a'" for t' q' a'
    using that M(1) D(1) rep by (auto simp: record_mark_arrivals split: if_splits)
  moreover have "heard p ?f t' \<and> \<not> chosen p ?f t'" if "q_skipped ?f t'" for t'
  proof -
    have "t' \<noteq> t" using that fresh by auto
    then show ?thesis using that D(4) other by simp
  qed
  moreover have "started g p ?f (gen, n)" if "gen \<in> set (q_generations ?f n)" for gen n
    using that D(2) M(4) by simp
  moreover have "started g p ?f t'" if "q_results ?f t' \<noteq> None" for t'
    using that D(3) M(4) by simp
  moreover have "es = expected_preds p t'" if "q_expected ?f t' = Some es" for t' es
    using that D(5) by simp
  ultimately show "joins_ok g p ?f" unfolding joins_ok_def by blast
qed

lemma settle_queue:
  assumes "settle_arrival p q n t f = (f', pass)" "queue_ok rest f"
  shows "queue_ok rest f'"
  using assms push_generation_queue[OF assms(2)]
  by (auto simp: settle_arrival_def Let_def queue_ok_def split: if_splits)

text \<open>What every operation on the frontier of a superstep keeps.\<close>

definition frontier_step :: "('s, 'w) graph \<Rightarrow> plan \<Rightarrow> string list \<Rightarrow> 'a pfrontier \<Rightarrow> 'a pfrontier \<Rightarrow> bool" where
  "frontier_step g p rest f f' \<longleftrightarrow> grown f f' \<and> q_results f' = q_results f \<and> (joins_ok g p f \<longrightarrow> joins_ok g p f') \<and>
     (queue_ok rest f \<longrightarrow> queue_ok rest f')"

lemma frontier_step_refl: "frontier_step g p rest f f"
  by (simp add: frontier_step_def grown_refl)

lemma frontier_step_trans: "frontier_step g p rest f f' \<Longrightarrow> frontier_step g p rest f' f'' \<Longrightarrow> frontier_step g p rest f f''"
  unfolding frontier_step_def using grown_trans by metis

lemma pregel_arrival_joins:
  assumes run: "pregel_arrival p q n sg src b f = (e, f', pass)" and src: "source_ok f src b" and ok: "joins_ok g p f"
  shows "frontier_step g p rest f f' \<and> (pass \<longrightarrow> source_ok f' (target_generation p q n sg, n) False)"
  using run
proof (cases rule: pregel_arrival_cases)
  case refused
  then show ?thesis
    using touch_joins[OF ok] by (auto simp: frontier_step_def grown_refl queue_ok_def)
next
  case ignored
  then show ?thesis using touch_joins[OF ok] by (simp add: frontier_step_def queue_ok_def)
next
  case (recorded f2)
  let ?t = "(target_generation p q n sg, n)"
  let ?a = "\<lparr>am_source = src, am_source_gen = sg, am_target_gen = target_generation p q n sg, am_skipped = (\<not> b)\<rparr>"
  note t = touch_joins[OF ok, where t = ?t]
  have rep: "reports p (touch_task p ?t f) ?t q ?a"
    using grown_source[OF t(2) src] recorded(2) by (simp add: reports_def source_ok_def)
  note r = record_mark_joins[OF t(1) recorded(3) _ rep]
  have none: "map_of (arrivals_of (touch_task p ?t f) ?t) q = None" using recorded(4) by simp
  note r = r[OF none, folded recorded(6)]
  have e2: "q_expected f2 ?t = Some (expected_preds p ?t)" "\<not> q_skipped f2 ?t"
    using t(3) r(3) by (simp_all add: recorded(6))
  note s = settle_joins[OF r(1) e2 recorded(7)]
  have "grown f f'" using grown_trans[OF grown_trans[OF t(2) r(2)] s(2)] .
  moreover have "queue_ok rest f2 = queue_ok rest f" by (rule queue_ok_cong) (simp_all add: recorded(6))
  then have "queue_ok rest f \<longrightarrow> queue_ok rest f'" using settle_queue[OF recorded(7)] by blast
  moreover have "q_results f' = q_results f" using settle_fields(3)[OF recorded(7)] by (simp add: recorded(6))
  ultimately show ?thesis using s(1,3) by (simp add: frontier_step_def source_ok_def)
qed

lemma pregel_arrive_joins:
  shows "source_ok f src b \<Longrightarrow> joins_ok g p f \<Longrightarrow> pregel_arrive g p k q n sg src b f = Some (e, f') \<Longrightarrow> frontier_step g p rest f f'"
    and "source_ok f (gen, q) False \<Longrightarrow> joins_ok g p f \<Longrightarrow> pregel_skip g p k q ns gen f = Some (e, f') \<Longrightarrow>
      frontier_step g p rest f f'"
proof (induction g p k q n sg src b f and g p k q ns gen f arbitrary: e f' and e f' rule: pregel_arrive_pregel_skip.induct)
  case (2 g p k q n sg src b f)
  obtain e1 f1 pass where step: "pregel_arrival p q n sg src b f = (e1, f1, pass)" by (metis prod_cases3)
  note a = pregel_arrival_joins[OF step 2(2,3), of rest]
  show ?case
  proof (cases pass)
    case False
    then show ?thesis using 2(4) a by (simp add: step)
  next
    case True
    then have run: "pregel_skip g p k n (all_successors g n) (target_generation p q n sg) f1 = Some (e, f')"
      using 2(4) by (simp add: step)
    have ok: "source_ok f1 (target_generation p q n sg, n) False" "joins_ok g p f1"
      using a True 2(3) by (simp_all add: frontier_step_def)
    show ?thesis using frontier_step_trans 2(1)[OF step[symmetric] refl True ok run] a by blast
  qed
next
  case (4 g p k q n ns gen f)
  obtain e1 f1 where first: "pregel_arrive g p k q n gen (gen, q) False f = Some (e1, f1)"
    using 4(5) by (auto split: option.splits)
  note a = 4(1)[OF 4(3,4) first]
  show ?case
  proof (cases e1)
    case None
    then have run: "pregel_skip g p k q ns gen f1 = Some (e, f')" using 4(5) first by simp
    have ok: "source_ok f1 (gen, q) False" "joins_ok g p f1"
      using a 4(3,4) unfolding frontier_step_def by (blast intro: grown_source)+
    show ?thesis using frontier_step_trans[OF a] 4(2)[OF first refl None ok run] by blast
  qed (use 4(5) first a in auto)
qed (auto simp: frontier_step_refl)

lemma arrive_each_joins:
  assumes "source_ok f src b" "joins_ok g p f" "arrive_each g p k n ns src b f = Some (e, f')"
  shows "frontier_step g p rest f f'"
  using assms
proof (induction ns arbitrary: f)
  case (Cons m ns)
  obtain e1 f1 where first: "pregel_arrive g p k n m (fst src) src b f = Some (e1, f1)"
    using Cons.prems(3) by (auto split: option.splits)
  note a = pregel_arrive_joins(1)[OF Cons.prems(1,2) first, of rest]
  then have ok: "source_ok f1 src b" "joins_ok g p f1"
    using Cons.prems(1,2) unfolding frontier_step_def by (blast intro: grown_source)+
  show ?case
  proof (cases e1)
    case None
    then have "arrive_each g p k n ns src b f1 = Some (e, f')" using Cons.prems(3) first by simp
    then show ?thesis using Cons.IH[OF ok] frontier_step_trans[OF a] by blast
  qed (use Cons.prems(3) first a in auto)
qed (simp add: frontier_step_refl)

subsection \<open>A superstep keeps the invariants\<close>

text \<open>A saved result stays, with its output.\<close>

definition saved :: "'s pfrontier \<Rightarrow> 's pfrontier \<Rightarrow> bool" where
  "saved f f' \<longleftrightarrow> (\<forall>t r. q_results f t = Some r \<longrightarrow>
     (\<exists>r'. q_results f' t = Some r' \<and> r_output r' = r_output r \<and> r_target r' = r_target r))"

lemma saved_refl: "q_results f' = q_results f \<Longrightarrow> saved f f'"
  by (simp add: saved_def)

lemma saved_trans:
  assumes "saved f f'" "saved f' f''"
  shows "saved f f''"
  unfolding saved_def
proof (intro allI impI)
  fix t r
  assume "q_results f t = Some r"
  then obtain r1 where r1: "q_results f' t = Some r1" "r_output r1 = r_output r" "r_target r1 = r_target r"
    using assms(1) unfolding saved_def by blast
  then show "\<exists>r'. q_results f'' t = Some r' \<and> r_output r' = r_output r \<and> r_target r' = r_target r"
    using assms(2) unfolding saved_def by metis
qed

lemma adopt_ready_joins:
  assumes "joins_ok g p f"
  shows "joins_ok g p (adopt_ready p n gen f)" "grown f (adopt_ready p n gen f)" "saved f (adopt_ready p n gen f)"
    "q_results (adopt_ready p n gen f) t = None \<longleftrightarrow> q_results f t = None"
    "q_results f (gen, n) \<noteq> None \<Longrightarrow> adopted (adopt_ready p n gen f) (gen, n)"
proof -
  let ?f = "adopt_ready p n gen f"
  have res: "q_results ?f = (q_results f)((gen, n) := map_option (r_adopted_update (\<lambda>_. True)) (q_results f (gen, n)))"
    by (simp add: adopt_ready_def Let_def split: list.split)
  have arr: "arrivals_of ?f t = arrivals_of f t" for t by (simp add: arrivals_of_def)
  show ext: "grown f ?f" by (auto simp: grown_def arr adopted_def res split: option.splits)
  show "saved f ?f" by (auto simp: saved_def res)
  show none: "q_results ?f t = None \<longleftrightarrow> q_results f t = None" for t by (simp add: res)
  show "q_results f (gen, n) \<noteq> None \<Longrightarrow> adopted ?f (gen, n)" by (auto simp: adopted_def res)
  show "joins_ok g p ?f"
  proof (rule joins_ok_extend[OF assms ext arr])
    show "i \<in> set (q_generations f m) \<or> started g p ?f (i, m)" if "i \<in> set (q_generations ?f m)" for m i
      using that by (auto simp: adopt_ready_def Let_def split: list.splits if_splits)
  qed (use none in auto)
qed

lemma route_task_joins:
  assumes "joins_ok g p f" "adopted f (gen, n)" "p_trigger p = TriggerAllPredecessors"
    and "route_task g p k (n, gen, sel, skp) f = Some (e, f')"
  shows "frontier_step g p rest f f'"
proof (cases "n = END")
  case True
  then show ?thesis using assms(4) by (simp add: route_task_def frontier_step_refl)
next
  case False
  have src: "source_ok f (gen, n) b" for b using assms(2) by (simp add: source_ok_def)
  obtain e1 f1 where first: "arrive_each g p k n sel (gen, n) True f = Some (e1, f1)"
    using assms(3,4) False by (auto simp: route_task_def split: option.splits)
  note a = arrive_each_joins[OF src assms(1) first, of rest]
  show ?thesis
  proof (cases e1)
    case None
    then have run: "arrive_each g p k n skp (gen, n) False f1 = Some (e, f')"
      using assms(3,4) False first by (simp add: route_task_def)
    have ok: "source_ok f1 (gen, n) False" "joins_ok g p f1"
      using a assms(1) grown_source[OF _ src] unfolding frontier_step_def by blast+
    show ?thesis using frontier_step_trans[OF a] arrive_each_joins[OF ok run] by blast
  qed (use assms(3,4) False first a in \<open>auto simp: route_task_def\<close>)
qed

lemma adopt_routes_joins:
  assumes "joins_ok g p f" "p_trigger p = TriggerAllPredecessors" "queue_ok (map fst rts) f" "distinct (map fst rts)"
    and "\<And>n gen sel skp. (n, gen, sel, skp) \<in> set rts \<Longrightarrow> q_results f (gen, n) \<noteq> None"
    and "adopt_routes g p k rts f = Some (None, f')"
  shows "joins_ok g p f'" "grown f f'" "saved f f'" "queue_ok [] f'"
proof -
  have "joins_ok g p f' \<and> grown f f' \<and> saved f f' \<and> queue_ok [] f'"
    using assms(1,3-)
  proof (induction rts arbitrary: f)
    case Nil
    then show ?case by (simp add: grown_refl saved_refl queue_ok_def)
  next
    case (Cons rt rts)
    obtain n gen sel skp where rt: "rt = (n, gen, sel, skp)" by (cases rt)
    let ?f = "adopt_ready p n gen f"
    obtain f1 where route: "route_task g p k rt ?f = Some (None, f1)" and rest: "adopt_routes g p k rts f1 = Some (None, f')"
      using Cons.prems(5) by (auto simp: rt split: option.splits)
    note a = adopt_ready_joins[OF Cons.prems(1), where n = n and gen = gen]
    have "q_results f (gen, n) \<noteq> None" by (rule Cons.prems(4)[of n gen sel skp]) (simp add: rt)
    note s = route_task_joins[OF a(1) a(5)[OF this] assms(2) route[unfolded rt], of "map fst rts"]
    have queue: "queue_ok (map fst rts) ?f"
      using Cons.prems(2,3) assms(2) by (intro adopt_ready_queue) (simp_all add: rt)
    have "joins_ok g p f' \<and> grown f1 f' \<and> saved f1 f' \<and> queue_ok [] f'"
    proof (rule Cons.IH[OF _ _ _ _ rest])
      show "joins_ok g p f1" "queue_ok (map fst rts) f1" using s a(1) queue by (simp_all add: frontier_step_def)
      show "distinct (map fst rts)" using Cons.prems(3) by simp
      show "q_results f1 (gen', m) \<noteq> None" if "(m, gen', sel', skp') \<in> set rts" for m gen' sel' skp'
        using Cons.prems(4)[of m gen' sel' skp'] that a(4) s by (simp add: frontier_step_def)
    qed
    moreover have "grown f f1" using grown_trans[OF a(2)] s by (simp add: frontier_step_def)
    moreover have "saved f f1" using a(3) s by (simp add: frontier_step_def saved_def)
    ultimately show ?case using grown_trans saved_trans by blast
  qed
  then show "joins_ok g p f'" "grown f f'" "saved f f'" "queue_ok [] f'" by blast+
qed

lemma collect_fields:
  assumes "fold (collect_outcome p rc) ocs (f, signals, failed) = (f', signals', failed')"
  shows "q_generations f' = q_generations f \<and> q_ready f' = q_ready f \<and> q_arrivals f' = q_arrivals f \<and>
    q_skipped f' = q_skipped f \<and> q_expected f' = q_expected f \<and> q_activation f' = q_activation f \<and>
    (\<forall>t. q_results f' t = q_results f t \<or> t \<in> task_id p f ` fst ` set ocs)"
  using assms
proof (induction ocs arbitrary: f signals failed)
  case (Cons oc ocs)
  obtain f1 s1 b1 where step: "collect_outcome p rc oc (f, signals, failed) = (f1, s1, b1)" by (metis prod_cases3)
  have one: "q_generations f1 = q_generations f \<and> q_ready f1 = q_ready f \<and> q_arrivals f1 = q_arrivals f \<and>
      q_skipped f1 = q_skipped f \<and> q_expected f1 = q_expected f \<and> q_activation f1 = q_activation f \<and>
      (\<forall>t. q_results f1 t = q_results f t \<or> t = task_id p f (fst oc))"
    using step by (cases rule: collect_outcome_cases) simp_all
  have ids: "task_id p f1 n = task_id p f n" for n by (rule task_id_cong) (simp_all add: one)
  have "fold (collect_outcome p rc) ocs (f1, s1, b1) = (f', signals', failed')" using Cons.prems step by simp
  note IH = Cons.IH[OF this]
  have "q_results f' t = q_results f t \<or> t \<in> task_id p f ` fst ` set (oc # ocs)" for t
  proof -
    have "q_results f' t = q_results f1 t \<or> t \<in> task_id p f ` fst ` set ocs" using IH unfolding ids by blast
    moreover have "q_results f1 t = q_results f t \<or> t = task_id p f (fst oc)" using one by blast
    ultimately show ?thesis by auto
  qed
  then show ?case using IH one by simp
qed simp

lemma plan_routes_tasks:
  assumes "plan_routes env g p f s names = Some (Inr rts)"
  shows "map fst rts = names" "(n, gen, sel, skp) \<in> set rts \<Longrightarrow> q_results f (gen, n) \<noteq> None"
proof -
  have "map fst rts = names \<and> (\<forall>(n, gen, sel, skp) \<in> set rts. q_results f (gen, n) \<noteq> None)"
    using assms
  proof (induction names arbitrary: rts)
    case (Cons m names)
    obtain r where r: "q_results f (task_id p f m) = Some r" using Cons.prems by (auto split: option.splits)
    obtain sel skp where s: "select_successors env g m s (r_target r) = Inr (sel, skp)"
      using Cons.prems r by (auto split: sum.splits)
    obtain rts' where "plan_routes env g p f s names = Some (Inr rts')" "rts = (m, task_generation p f m, sel, skp) # rts'"
    proof -
      obtain x where x: "plan_routes env g p f s names = Some x" using Cons.prems r s by auto
      then show thesis using Cons.prems r s that by (cases x) auto
    qed
    then show ?case using Cons.IH r by (auto simp: task_id_def)
  qed simp
  then show "map fst rts = names" "(n, gen, sel, skp) \<in> set rts \<Longrightarrow> q_results f (gen, n) \<noteq> None" by auto
qed

lemma superstep_joins:
  assumes "superstep env pe cfg g p x w = Some (Inl (x', w'))" "closed_plan p" "fair_schedule pe"
    and trig: "p_mode p = GraphModePregel" "p_trigger p = TriggerAllPredecessors"
    and ok: "joins_ok g p (px_frontier x)" "queue_ok [] (px_frontier x)"
  shows "joins_ok g p (px_frontier x')" "queue_ok [] (px_frontier x')" "saved (px_frontier x) (px_frontier x')"
proof -
  let ?x1 = "sort_pready p x" and ?f0 = "px_frontier x" and ?f1 = "px_frontier (sort_pready p x)"
  let ?names = "q_ready ?f1"
  obtain ocs f w1 where run: "run_tasks env pe cfg g p ?x1 w = (ocs, (f, [], False), w1)" "q_waiting f = []"
    and bar: "superstep_barrier env pe g p ?names (?x1\<lparr>px_frontier := f\<rparr>) w1 = Some ((None, x'), w')"
    using assms(1-3) by (cases rule: superstep_cases) auto
  have ok1: "joins_ok g p ?f1"
    by (rule joins_ok_extend[OF ok(1)]) (simp_all add: grown_def adopted_def arrivals_of_def)
  have queue1: "distinct ?names" "\<forall>n \<in> set ?names. q_generations ?f1 n \<noteq> []"
    using ok(2) by (simp_all add: queue_ok_def sort_pready_def)
  let ?todo = "dispatched p pe ?f1"
  let ?order = "if pc_parallel cfg then schedule pe (q_activation ?f1) ?todo else ?todo"
  obtain ocs' w2 where nodes: "run_nodes env (run_config_of pe cfg) g (px_state ?x1) ?order w = (ocs', w2)" by fastforce
  have ocs: "fold (collect_outcome p (run_config_of pe cfg)) ocs (?f1, [], False) = (f, [], False)" "ocs' = ocs"
    using run(1) nodes by (auto simp: run_tasks_def Let_def)
  have mem: "fst ` set ocs = set ?todo"
    using run_nodes_names[OF nodes] mset_eq_setD[of "schedule pe (q_activation ?f1) ?todo" ?todo] assms(3) ocs(2)
    by (auto simp: fair_schedule_def set_map[symmetric] simp del: set_map split: if_splits)
  note c = collect_fields[OF ocs(1)]
  have todo: "q_results ?f1 (task_id p ?f1 n) = None \<and> started g p ?f1 (task_id p ?f1 n)" if "n \<in> set ?todo" for n
  proof -
    have n: "n \<in> set ?names" "q_results ?f1 (task_id p ?f1 n) = None" using that by (simp_all add: dispatched_def)
    obtain gen gens where "q_generations ?f1 n = gen # gens" using queue1(2) n(1) by (cases "q_generations ?f1 n") auto
    then have "started g p ?f1 (task_id p ?f1 n)"
      using joins_okD(2)[OF ok1, of gen n] trig by (simp add: task_id_def task_generation_def)
    then show ?thesis using n(2) by blast
  qed
  have kept: "q_results f t = q_results ?f1 t" if "q_results ?f1 t \<noteq> None" for t
  proof -
    have "t \<notin> task_id p ?f1 ` fst ` set ocs" using todo that unfolding mem by auto
    then show ?thesis using c by blast
  qed
  have arr: "arrivals_of f t = arrivals_of ?f1 t" for t using c by (simp add: arrivals_of_def)
  have ext: "grown ?f1 f" using c kept by (auto simp: grown_def arr adopted_def split: option.splits)
  have okf: "joins_ok g p f"
  proof (rule joins_ok_extend[OF ok1 ext arr])
    show "q_results ?f1 t \<noteq> None \<or> started g p f t" if "q_results f t \<noteq> None" for t
    proof (cases "t \<in> task_id p ?f1 ` fst ` set ocs")
      case True
      then obtain n where "n \<in> set ?todo" "t = task_id p ?f1 n" unfolding mem by blast
      then show ?thesis using todo[of n] grown_mono(4)[OF ext, where g = g] by simp
    next
      case False
      then have "q_results f t = q_results ?f1 t" using c by blast
      then show ?thesis using that by simp
    qed
  qed (use c in simp_all)
  have saved1: "saved ?f0 f" using kept by (auto simp: saved_def)
  obtain s rts f' where routes: "plan_routes env g p f s ?names = Some (Inr rts)"
    and adopt: "adopt_routes g p (skip_fuel p) rts (f\<lparr>q_ready := []\<rparr>) = Some (None, f')"
    and x': "px_frontier x' = f'\<lparr>q_activation := Suc (q_activation f')\<rparr>"
    using bar by (auto simp: superstep_barrier_def Let_def split: option.splits sum.splits prod.splits)
  let ?f2 = "f\<lparr>q_ready := []\<rparr>"
  have ok2: "joins_ok g p ?f2"
    by (rule joins_ok_extend[OF okf]) (simp_all add: grown_def adopted_def arrivals_of_def)
  have queue2: "queue_ok (map fst rts) ?f2"
    using queue1 c by (simp add: queue_ok_def plan_routes_tasks(1)[OF routes])
  have dist: "distinct (map fst rts)" using queue1(1) by (simp add: plan_routes_tasks(1)[OF routes])
  have res: "q_results ?f2 (gen, n) \<noteq> None" if "(n, gen, sel, skp) \<in> set rts" for n gen sel skp
    using plan_routes_tasks(2)[OF routes that] by simp
  note fin = adopt_routes_joins[OF ok2 trig(2) queue2 dist res adopt]
  show "joins_ok g p (px_frontier x')"
    unfolding x' by (rule joins_ok_extend[OF fin(1)]) (simp_all add: grown_def adopted_def arrivals_of_def)
  show "queue_ok [] (px_frontier x')" using fin(4) by (simp add: x' queue_ok_def)
  have "saved ?f2 (px_frontier x')" using fin(3) by (simp add: saved_def x')
  then show "saved ?f0 (px_frontier x')" using saved1 by (intro saved_trans[OF saved1]) (simp add: saved_def)
qed

text \<open>The executors a run from the entry point goes through.\<close>

inductive pregel_reach :: "('s, 'w) node_env \<Rightarrow> 's pregel_env \<Rightarrow> pregel_config \<Rightarrow> ('s, 'w) graph \<Rightarrow> plan \<Rightarrow> 's
    \<Rightarrow> 's pexecutor \<Rightarrow> bool"
  for env pe cfg g p s where
  pregel_start: "pregel_reach env pe cfg g p s (new_pexecutor g s)"
| pregel_step: "pregel_reach env pe cfg g p s x \<Longrightarrow> superstep env pe cfg g p x w = Some (Inl (x', w')) \<Longrightarrow>
    pregel_reach env pe cfg g p s x'"

lemma new_pexecutor_joins:
  "joins_ok g p (px_frontier (new_pexecutor g s))" "queue_ok [] (px_frontier (new_pexecutor g s))"
  by (auto simp: joins_ok_def queue_ok_def new_pexecutor_def arrivals_of_def started_def split: if_splits)

lemma pregel_reach_joins:
  assumes "pregel_reach env pe cfg g p s x" "closed_plan p" "fair_schedule pe"
    "p_mode p = GraphModePregel" "p_trigger p = TriggerAllPredecessors"
  shows "joins_ok g p (px_frontier x)" "queue_ok [] (px_frontier x)"
proof -
  have "joins_ok g p (px_frontier x) \<and> queue_ok [] (px_frontier x)"
    using assms(1)
  proof (induction rule: pregel_reach.induct)
    case pregel_start
    show ?case by (intro conjI new_pexecutor_joins)
  next
    case (pregel_step x w x' w')
    then show ?case using superstep_joins[OF pregel_step(2) assms(2-)] by blast
  qed
  then show "joins_ok g p (px_frontier x)" "queue_ok [] (px_frontier x)" by blast+
qed

text \<open>
  C18: where nodes wait for all predecessors, a task that a superstep runs was never run to a result
  before, and unless it is the first of the entry point it was not skipped and every predecessor it
  expects in its generation has reported to it a task of that generation that was adopted or skipped,
  at least one of them with this route selected; and no later superstep changes a saved result.
\<close>

theorem pregel_join_safe:
  assumes "orders_ok (closed_graph b) ord" "graph_build ord b = Some (Inr g)" "g_plan g = Some p"
    and "p_mode p = GraphModePregel" "p_trigger p = TriggerAllPredecessors" "fair_schedule pe"
    and "pregel_reach env pe cfg g p s x" "n \<in> set (dispatched p pe (px_frontier x))"
    and "superstep env pe cfg g p x w = Some (Inl (x', w'))"
  shows "let f = px_frontier x; t = task_id p f n in
    q_results f t = None \<and>
    (t = (0, g_entry g) \<or>
      \<not> q_skipped f t \<and>
      (\<forall>q \<in> set (expected_preds p t). \<exists>a. map_of (arrivals_of f t) q = Some a \<and> am_source a = (am_source_gen a, q) \<and>
         fst t = target_generation p q n (am_source_gen a) \<and>
         (adopted f (am_source a) \<or> am_skipped a \<and> q_skipped f (am_source a))) \<and>
      (\<exists>q \<in> set (expected_preds p t). \<exists>a. map_of (arrivals_of f t) q = Some a \<and> \<not> am_skipped a)) \<and>
    (\<forall>t r. q_results f t = Some r \<longrightarrow> (\<exists>r'. q_results (px_frontier x') t = Some r' \<and> r_output r' = r_output r))"
proof -
  let ?f = "px_frontier x"
  obtain p' where "g = (ready_graph b)\<lparr>g_plan := Some p', g_compiled := True\<rparr>" "closed_plan p'"
    using built_closed[OF assms(1,2)] by blast
  then have closed: "closed_plan p" using assms(3) by simp
  note inv = pregel_reach_joins[OF assms(7) closed assms(6,4,5)]
  have n: "n \<in> set (q_ready ?f)" "q_results ?f (task_id p ?f n) = None" using assms(8) by (simp_all add: dispatched_def)
  obtain gen gens where gens: "q_generations ?f n = gen # gens"
    using inv(2) n(1) by (cases "q_generations ?f n") (auto simp: queue_ok_def)
  then have t: "task_id p ?f n = (gen, n)" using assms(4,5) by (simp add: task_id_def task_generation_def)
  have "started g p ?f (gen, n)" using joins_okD(2)[OF inv(1), of gen n] gens by simp
  moreover have "saved ?f (px_frontier x')" by (rule superstep_joins(3)[OF assms(9) closed assms(6,4,5) inv])
  moreover have "\<not> q_skipped ?f (gen, n)" if "chosen p ?f (gen, n)" using joins_okD(4)[OF inv(1)] that by blast
  moreover have "\<exists>a. map_of (arrivals_of ?f (gen, n)) q = Some a \<and> am_source a = (am_source_gen a, q) \<and>
         gen = target_generation p q n (am_source_gen a) \<and>
         (adopted ?f (am_source a) \<or> am_skipped a \<and> q_skipped ?f (am_source a))"
    if h: "heard p ?f (gen, n)" and q: "q \<in> set (expected_preds p (gen, n))" for q
  proof -
    obtain a where a: "map_of (arrivals_of ?f (gen, n)) q = Some a" using h q by (auto simp: heard_def)
    then show ?thesis using joins_okD(1)[OF inv(1) a] by (auto simp: reports_def)
  qed
  ultimately show ?thesis using n(2) unfolding t started_def chosen_def saved_def Let_def fst_conv by blast
qed

subsection \<open>A loop\<close>

text \<open>\<open>e\<close> counts and routes back to itself until the count is two.\<close>

definition bump :: "(nat, unit) handler" where
  "bump s w = (Some (Suc s, None), w)"

definition looped :: "(nat, unit) builder" where
  "looped = with_trigger_mode TriggerAllPredecessors (with_execution_mode GraphModePregel
     (add_conditional_edge ''e'' (\<lambda>s. Some (if s < 2 then ''again'' else ''stop'')) (Some [(''again'', ''e''), (''stop'', END)])
       (add_edge START ''e'' (add_graph_node ''e'' bump (new_graph ''looped'')))))"

definition looped_orders :: graph_orders where
  "looped_orders = \<lparr>o_nodes = [START, ''e'', END], o_conds = [''e''], o_deps = [''e'', END], o_levels = [START, ''e'', END],
     o_cyclic = [2]\<rparr>"

definition in_turn :: "nat pregel_env" where
  "in_turn = \<lparr>merger = Some (\<lambda>b ss. Some (fold max ss b)), resumed = (\<lambda>_. False), schedule = (\<lambda>_ ns. ns), pe_composite = (\<lambda>_. 0)\<rparr>"

lemma looped_run:
  "(case graph_build looped_orders looped of
     Some (Inr g) \<Rightarrow> run_pregel calm_env in_turn (pregel_config_for g []) g 0 () | _ \<Rightarrow> None) = Some (2, 4, None)"
  by code_simp

lemma looped_orders_ok: "orders_ok (closed_graph looped) looped_orders"
proof -
  have rel: "graph_rel (closed_graph looped) = {(START, ''e''), (''e'', ''e''), (''e'', END)}"
    by (auto simp: graph_rel_def looped_def closed_graph_def new_graph_def add_graph_node_def add_node_with_builder_def
        new_node_def add_edge_def add_conditional_edge_def add_cond_edge_def with_graph_def with_trigger_mode_def
        with_execution_mode_def edge_targets_def START_def END_def Let_def split: if_splits)
  have nodes: "dom (g_nodes (closed_graph looped)) = {START, ''e'', END}"
    "{f. g_conds (closed_graph looped) f \<noteq> []} = {''e''}"
    by (auto simp: looped_def closed_graph_def new_graph_def add_graph_node_def add_node_with_builder_def new_node_def
        add_edge_def add_conditional_edge_def add_cond_edge_def with_graph_def with_trigger_mode_def
        with_execution_mode_def START_def END_def Let_def split: if_splits)
  show ?thesis unfolding orders_ok_def rel nodes by (auto simp: looped_orders_def START_def END_def)
qed

lemma pregel_returns_example:
  "\<exists>g s n e. graph_build looped_orders looped = Some (Inr g) \<and>
     run_pregel calm_env in_turn (pregel_config_for g []) g 0 () = Some (s, n, e)"
proof -
  obtain g where g: "graph_build looped_orders looped = Some (Inr g)" using looped_run by (auto split: option.splits sum.splits)
  have "fair_schedule in_turn" by (simp add: fair_schedule_def in_turn_def)
  from pregel_returns[OF looped_orders_ok g this] show ?thesis using g by blast
qed

text \<open>The executors after the first two supersteps of a built graph.\<close>

definition two_steps :: "graph_orders \<Rightarrow> (nat, unit) builder
    \<Rightarrow> ((nat, unit) graph \<times> plan \<times> nat pexecutor \<times> nat pexecutor) option" where
  "two_steps ord b =
     (case graph_build ord b of
        Some (Inr g) \<Rightarrow>
          (case g_plan g of
             Some p \<Rightarrow>
               (case superstep calm_env in_turn default_pregel_config g p (new_pexecutor g 0) () of
                  Some (Inl (x, w)) \<Rightarrow>
                    (case superstep calm_env in_turn default_pregel_config g p x () of
                       Some (Inl (x', w')) \<Rightarrow> Some (g, p, x, x')
                     | _ \<Rightarrow> None)
                | _ \<Rightarrow> None)
           | None \<Rightarrow> None)
      | _ \<Rightarrow> None)"

lemma two_stepsD:
  assumes "two_steps ord b = Some (g, p, x, x')"
  shows "graph_build ord b = Some (Inr g)" "g_plan g = Some p"
    "superstep calm_env in_turn default_pregel_config g p (new_pexecutor g 0) () = Some (Inl (x, ()))"
    "superstep calm_env in_turn default_pregel_config g p x () = Some (Inl (x', ()))"
  using assms by (auto simp: two_steps_def split: option.splits sum.splits)

lemma looped_two_steps:
  "map_option (\<lambda>(g, p, x, _). (p_mode p, p_trigger p, g_entry g, dispatched p in_turn (px_frontier x),
       task_id p (px_frontier x) ''e'', expected_preds p (0, ''e''))) (two_steps looped_orders looped) =
     Some (GraphModePregel, TriggerAllPredecessors, START, [''e''], (0, ''e''), [START])"
  by code_simp

theorem pregel_join_safe_witness:
  "\<exists>g p (x :: nat pexecutor) a. graph_build looped_orders looped = Some (Inr g) \<and>
     ''e'' \<in> set (dispatched p in_turn (px_frontier x)) \<and>
     map_of (arrivals_of (px_frontier x) (0, ''e'')) START = Some a \<and> adopted (px_frontier x) (am_source a)"
proof -
  obtain g p x x' where two: "two_steps looped_orders looped = Some (g, p, x, x')"
    and f: "p_mode p = GraphModePregel" "p_trigger p = TriggerAllPredecessors" "g_entry g = START"
      "dispatched p in_turn (px_frontier x) = [''e'']" "task_id p (px_frontier x) ''e'' = (0, ''e'')"
      "expected_preds p (0, ''e'') = [START]"
    using looped_two_steps by (cases "two_steps looped_orders looped") auto
  note g = two_stepsD[OF two]
  have fair: "fair_schedule in_turn" by (simp add: fair_schedule_def in_turn_def)
  have reach: "pregel_reach calm_env in_turn default_pregel_config g p 0 x"
    by (rule pregel_step[OF pregel_start g(3)])
  have e: "''e'' \<in> set (dispatched p in_turn (px_frontier x))" by (simp add: f(4))
  have "START \<noteq> ''e''" by (simp add: START_def)
  then show ?thesis
    using pregel_join_safe[OF looped_orders_ok g(1,2) f(1,2) fair reach e g(4)] g(1) e
    unfolding Let_def f(3,5,6) by auto
qed

text \<open>
  \<open>e\<close> loops twice; only its first round goes to \<open>a\<close>, and from there by \<open>c\<close> to \<open>d\<close>, which both rounds
  also reach directly. The second round of \<open>d\<close> is ready when \<open>c\<close> runs for the first.
\<close>

definition skewed :: "string \<Rightarrow> (nat, unit) builder" where
  "skewed c =
     (let b1 = fold (\<lambda>n. add_graph_node n identity_handler) [''a'', c, ''d''] (add_graph_node ''e'' bump (new_graph ''skewed''));
          b2 = fold (\<lambda>(f, t). add_edge f t) [(''e'', ''d''), (''a'', c), (c, ''d''), (''d'', END)] b1;
          b3 = add_conditional_edge ''e'' (\<lambda>s. Some (if s < 2 then ''again'' else ''stop'')) (Some [(''again'', ''e''), (''stop'', END)]) b2;
          b4 = add_conditional_edge ''e'' (\<lambda>s. Some (if s < 2 then ''first'' else ''later'')) (Some [(''first'', ''a''), (''later'', ''d'')]) b3 in
      with_trigger_mode TriggerAllPredecessors (with_execution_mode GraphModePregel (set_entry_point ''e'' b4)))"

definition skewed_orders :: "string \<Rightarrow> nat \<Rightarrow> graph_orders" where
  "skewed_orders c i = \<lparr>o_nodes = [''e'', ''a'', c, ''d'', START, END], o_conds = [''e''], o_deps = [''e'', ''a'', c, ''d'', END],
     o_levels = [''e'', ''a'', c, ''d'', START, END], o_cyclic = [i]\<rparr>"
text \<open>
  The adoption of a task removes the first generation of its node's queue. When a predecessor adopted
  before it in the same superstep has made an earlier generation ready, that one is removed instead:
  the run stalls with \<open>d\<close> never run in its first generation. Whether this happens depends on the
  names: with \<open>z\<close> for \<open>c\<close> the run ends.
\<close>

lemma adoption_drops_generation:
  assumes "p_trigger p = TriggerAllPredecessors" "q_generations f n = [gen]" "gen' < gen"
  shows "q_generations (adopt_ready p n gen (push_generation n gen' f)) n = [gen]"
  using assms by (simp add: adopt_ready_def push_generation_def insert_generation_def Let_def)

lemma skewed_run_stalls:
  "(case graph_build (skewed_orders ''c'' 5) (skewed ''c'') of
     Some (Inr g) \<Rightarrow> run_pregel calm_env in_turn (pregel_config_for g []) g 0 () | _ \<Rightarrow> None) = Some (2, 4, Some (StalledAt (0, ''d'')))"
  by code_simp

lemma skewed_run_ends:
  "(case graph_build (skewed_orders ''z'' 4) (skewed ''z'') of
     Some (Inr g) \<Rightarrow> run_pregel calm_env in_turn (pregel_config_for g []) g 0 () | _ \<Rightarrow> None) = Some (2, 5, None)"
  by code_simp

end
