(* ===== verification/Spec2Isabelle.thy ===== *)
theory Spec2Isabelle
  imports PluginDeps PluginSafety PluginOrder StateMachine RunStore Rbac CostControl Tenant RunnerResume RunnerMessages GraphPregel
begin

text \<open>
  A verification development for Hexagon, an agent framework in Go. It covers the parts of the
  repository whose correctness is a matter of logic rather than of calling a model or a service.

  \<^bold>\<open>The program.\<close> An application builds a graph of steps or a runner around a language model. The graph
  (\<open>orchestration/graph\<close>) is compiled to a plan and executed, as a DAG node by node, or superstep by
  superstep when it has loops. The runner (\<open>runtime\<close>) alternates calls of the model with the tools that it
  asks for, behind a chain of middlewares: permission modes and budgets (\<open>runtime/middleware\<close>,
  \<open>security/cost\<close>). It saves snapshots so that a crashed run can be resumed; the commit kernel and the MySQL
  store (\<open>runtime/commit.go\<close>, \<open>runtime/store/mysql\<close>) make what a run did durable, exactly once. Plugins
  (\<open>plugin\<close>) supply resources to runs, which hold leases on them. Who may do what, and how much, is decided
  by \<open>security/rbac\<close> and \<open>security/tenant\<close>.

  \<^bold>\<open>Shared theories.\<close> \<open>GoBase\<close>: Go's types, strings, and collections (\<open>uint64\<close> is a word, other integers are
  \<open>int\<close> with \<open>wrap64\<close> written out where the code adds; ranging over a map takes its order as an argument).
  \<open>GoFloat\<close>: \<open>float64\<close> as IEEE doubles with rounding, infinities and not-a-number. \<open>Kahn\<close>: the work-list loop of
  both topological sorts, over a locale of queue disciplines. \<open>Calls\<close>: calls on a state behind a mutex, cut
  at its critical sections, their interleavings, and rely-guarantee reasoning about them. \<open>Outcome\<close>:
  computations that answer, fail, or end with their process, with weakest preconditions.

  \<^bold>\<open>Components.\<close> Each theory opens with how its state and operations correspond to the code.
  \<^item> \<open>PluginVersion\<close>, \<open>PluginDeps\<close> (\<open>plugin/dependency.go\<close>): version constraints, the dependency graph, its
    cycle detection and topological sort, and the resolver. Which inputs each accepts, and the order it gives.
  \<^item> \<open>PluginGenerations\<close>, \<open>PluginLifecycle\<close>, \<open>PluginSafety\<close>, \<open>PluginOrder\<close> (\<open>plugin/generation.go\<close>,
    \<open>dependencies.go\<close>, \<open>registry.go\<close>, \<open>lifecycle.go\<close>): started plugins as reference counted generations.
    Under any interleaving of calls, callbacks and retirements, counts are exact, the registry is well typed,
    and a plugin is stopped only when nothing uses it (or it is forced); \<open>StartAll\<close> starts dependencies first.
  \<^item> \<open>StateMachine\<close> (\<open>orchestration/graph/statemachine.go\<close>): the builder and the run loop; when a run succeeds.
  \<^item> \<open>GraphNode\<close>, \<open>GraphPlan\<close>, \<open>GraphExec\<close>, \<open>GraphPregel\<close> (\<open>orchestration/graph/\<close>\<open>node.go\<close>, \<open>graph.go\<close>,
    \<open>compiler.go\<close>, \<open>components.go\<close>, \<open>plan.go\<close>, \<open>plan_pregel.go\<close>, \<open>activation.go\<close>, \<open>pregel.go\<close>): a node and its
    retries; validation and compilation; the two executors. A plan is a linear extension of the edges that no
    map order changes; a run executes a node once, after its predecessors, and reaches the end; a join of a
    superstep waits for every predecessor it expects.
  \<^item> \<open>RunCommit\<close>, \<open>RunStore\<close> (\<open>runtime/commit.go\<close>, \<open>task.go\<close>, \<open>operation.go\<close>, \<open>spec.go\<close>, \<open>event_store.go\<close>,
    \<open>runtime/store/mysql\<close>): a run's record and what a commit may do to it, then the handlers over the tables,
    with database faults and other connections. Each handler refines the atomic steps of \<open>db_step\<close>; along
    those, commits are fenced, tasks and inputs are used once, no wake-up is lost and history stays.
  \<^item> \<open>Runner\<close>, \<open>RunnerSafety\<close>, \<open>RunnerResume\<close>, \<open>RunnerMessages\<close> (\<open>runtime/runner.go\<close>, \<open>durable.go\<close> and the
    files they use): a run and its resumptions over every failure and crash. The invariant \<open>durable_ok\<close> relates
    the tools executed so far to the last snapshot; from it, an unsafe tool runs once. A finished run answers
    again what it answered; no process executes a tool that a policy of \<open>Permission\<close> does not permit; the
    model is shown no tool result it did not call for.
  \<^item> \<open>Permission\<close> (\<open>runtime/middleware/permission.go\<close>, \<open>permission_mode.go\<close>): what the modes and policies admit,
    and that the chain before a tool fails closed.
  \<^item> \<open>CostControl\<close> (\<open>security/cost/controller.go\<close>, \<open>runtime/middleware/budget.go\<close>, \<open>cost_control.go\<close>,
    \<open>budget_control.go\<close>): the ledger stays within its limits, and a refused attempt books nothing.
  \<^item> \<open>Rbac\<close> (\<open>security/rbac/rbac.go\<close>): the decision, the closure of the role hierarchy, and roll back.
  \<^item> \<open>Tenant\<close> (\<open>security/tenant/tenant.go\<close>): which tenants the middleware admits; the quota as a greedy
    reference admits it, and how far concurrent requests exceed it.

  \<^bold>\<open>Loops, fuel and bounds.\<close> Loops over lists are structural recursion. Kahn's loop has as much fuel as nodes, and
  each pass emits one (\<open>kahn_loop_correct\<close>); the search of \<open>DetectCycle\<close> never needs more depth than there are
  nodes (\<open>dfs_enough\<close>); the dependency tree, which has no cycle guard, is stated for any fuel. A DAG run has a turn per node,
  a Pregel run a superstep per unit of \<open>MaxSupersteps\<close>, and both are shown to return (\<open>run_returns\<close>,
  \<open>pregel_returns\<close>); a turn of the runner uses one of \<open>max_turns\<close>, a pass of the state machine one of its
  steps, a retry one attempt. The recursion of \<open>Acquire\<close> over bindings
  (\<open>include_gen\<close>) has fuel for every generation there is, and a nested call comes from one not included before
  (\<open>include_gen_returns\<close>).

  \<^bold>\<open>Parameters.\<close> Code outside the repository is an argument: the provider, tools, callbacks and
  handlers of the application, the regular expression engine, JSON encoding with its digests, the clock, the
  persistent stores of \<open>rbac\<close> and of tenants. A theorem says what it needs of them as a hypothesis by name,
  as \<open>honest\<close> in \<open>RunnerSafety\<close> (a store keeps what it says it saved, and the calls of an answer have different
  identifiers), and its witness instantiates it.

  \<^bold>\<open>Not modelled.\<close> Of the modelled files: candidate replacement, recoverable references and hot reload of
  plugins; the runner's sessions, frozen specifications, tool snapshots, structured output, streams and content
  blocks; typed I/O, barriers, checkpoints and observation of graphs; SQL text and migrations. Of the rest of the
  repository: agents, chains, planners and workflows (compositions of the application's functions), retrieval, memory,
  vector stores and tools (clients of external services and parsers whose quality is empirical), transports
  (A2A, MCP, server-sent events), content filters (lists of patterns), observability, configuration and examples.
\<close>

end
